(* ===== verification/Prelude.thy ===== *)
theory Prelude
  imports Main "HOL-Library.Word"
begin

text \<open>
  Shared ground of the development: the faults a C expression can run into, a sum-type
  result for fallible code, C strings and the character classes of \<open>ctype.h\<close> in the
  C locale, and the list and word facts the components share.

  The target is the LP64 data model: \<open>int\<close> has 32 bits, \<open>long\<close> and pointers have 64
  bits, plain \<open>char\<close> is a signed byte.
\<close>

unbundle bit_operations_syntax

named_theorems res_simps \<open>unfolding of the result monad\<close>
named_theorems ctype_simps \<open>the character classes of \<open>ctype.h\<close>\<close>

section \<open>Machine types\<close>

type_synonym u8 = "8 word"
type_synonym u16 = "16 word"
type_synonym u32 = "32 word"
type_synonym u64 = "64 word"

text \<open>C strings are modelled by their bytes before the terminating NUL.\<close>

type_synonym cstr = "char list"

abbreviation NUL :: char where "NUL \<equiv> CHR 0x00"
abbreviation LF :: char where "LF \<equiv> CHR 0x0A"
abbreviation CR :: char where "CR \<equiv> CHR 0x0D"
abbreviation SPACE :: char where "SPACE \<equiv> CHR 0x20"

section \<open>Faults and results\<close>

datatype fault =
    OutOfBounds      \<comment> \<open>an access outside the object\<close>
  | NullDeref        \<comment> \<open>a read or write through a null pointer\<close>
  | DivideTrap       \<comment> \<open>division by zero, or the quotient does not fit\<close>
  | Uninitialised    \<comment> \<open>a read of an indeterminate value\<close>
  | BadVararg        \<comment> \<open>\<open>va_arg\<close> with the wrong type or past the last argument\<close>
  | BadPointer       \<comment> \<open>use or release of storage that is not allocated\<close>
  | Aborted          \<comment> \<open>the runtime's fatal error exit\<close>
  | IntOverflow      \<comment> \<open>signed arithmetic whose result does not fit the type\<close>
  | OutOfFuel        \<comment> \<open>a loop of the model ran longer than its bound\<close>
  | ConversionRange  \<comment> \<open>a floating point value that does not fit the integer type\<close>

definition bind_res :: "'e + 'a \<Rightarrow> ('a \<Rightarrow> 'e + 'b) \<Rightarrow> 'e + 'b" where
  "bind_res m f = (case m of Inl e \<Rightarrow> Inl e | Inr x \<Rightarrow> f x)"

lemma bind_res_simps [simp, res_simps]:
  "bind_res (Inl e) f = Inl e"
  "bind_res (Inr x) f = f x"
  by (simp_all add: bind_res_def)

lemma bind_res_cong [fundef_cong]:
  "m = m' \<Longrightarrow> (\<And>x. m' = Inr x \<Longrightarrow> f x = g x) \<Longrightarrow> bind_res m f = bind_res m' g"
  by (cases m') auto

lemma bind_res_weak_cong: "m = m' \<Longrightarrow> bind_res m f = bind_res m' f"
  by simp

lemma bind_res_assoc: "bind_res (bind_res m f) g = bind_res m (\<lambda>x. bind_res (f x) g)"
  by (cases m) auto

lemma bind_res_eq_Inr: "bind_res m f = Inr y \<longleftrightarrow> (\<exists>x. m = Inr x \<and> f x = Inr y)"
  by (cases m) auto

text \<open>Every value a computation can return satisfies \<open>P\<close>: the rules follow the program text.\<close>

definition returns :: "('a \<Rightarrow> bool) \<Rightarrow> 'e + 'a \<Rightarrow> bool" where
  "returns P m = (case m of Inl e \<Rightarrow> True | Inr x \<Rightarrow> P x)"

named_theorems returns_rules \<open>what the primitive operations return\<close>

lemma returns_simps [simp]:
  "returns P (Inl e)"
  "returns P (Inr x) \<longleftrightarrow> P x"
  by (simp_all add: returns_def)

lemma returns_bind [intro]: "returns (\<lambda>x. returns P (f x)) m \<Longrightarrow> returns P (bind_res m f)"
  by (cases m) auto

lemma returns_mono: "returns P m \<Longrightarrow> (\<And>x. P x \<Longrightarrow> Q x) \<Longrightarrow> returns Q m"
  by (cases m) auto

lemma returns_bind2: "returns P m \<Longrightarrow> (\<And>x. P x \<Longrightarrow> returns Q (f x)) \<Longrightarrow> returns Q (bind_res m f)"
  by (cases m) auto

lemma returnsD: "returns P m \<Longrightarrow> m = Inr x \<Longrightarrow> P x"
  by simp

lemma returns_if: "(c \<Longrightarrow> returns P a) \<Longrightarrow> (\<not> c \<Longrightarrow> returns P b) \<Longrightarrow> returns P (if c then a else b)"
  by simp

text \<open>The computation returns, and with a value that satisfies \<open>P\<close>.\<close>

definition yields :: "('a \<Rightarrow> bool) \<Rightarrow> 'e + 'a \<Rightarrow> bool" where
  "yields P m \<longleftrightarrow> (\<exists>x. m = Inr x \<and> P x)"

lemma yields_simps [simp]:
  "\<not> yields P (Inl e)"
  "yields P (Inr x) \<longleftrightarrow> P x"
  by (simp_all add: yields_def)

lemma yields_bind: "yields P m \<Longrightarrow> (\<And>x. P x \<Longrightarrow> yields Q (f x)) \<Longrightarrow> yields Q (bind_res m f)"
  by (cases m) auto

lemma yields_then: "yields P m \<Longrightarrow> (\<And>x. P x \<Longrightarrow> f x = y) \<Longrightarrow> bind_res m f = y"
  by (cases m) auto

lemma yieldsE: "yields P m \<Longrightarrow> (\<And>x. m = Inr x \<Longrightarrow> P x \<Longrightarrow> thesis) \<Longrightarrow> thesis"
  by (auto simp: yields_def)

text \<open>The computation does not fail with the fault \<open>e\<close>.\<close>

definition avoids :: "'e \<Rightarrow> 'e + 'a \<Rightarrow> bool" where
  "avoids e m \<longleftrightarrow> m \<noteq> Inl e"

lemma avoids_simps [simp]:
  "avoids e (Inl e') \<longleftrightarrow> e \<noteq> e'"
  "avoids e (Inr x)"
  by (auto simp: avoids_def)

lemma avoids_bind: "avoids e m \<Longrightarrow> (\<And>x. m = Inr x \<Longrightarrow> avoids e (f x)) \<Longrightarrow> avoids e (bind_res m f)"
  by (cases m) auto

section \<open>Characters\<close>

definition code :: "char \<Rightarrow> nat" where
  "code c = of_char c"

text \<open>The value of a plain (signed) \<open>char\<close>.\<close>

definition schar :: "char \<Rightarrow> int" where
  "schar c = (if code c < 128 then int (code c) else int (code c) - 256)"

definition c_isdigit :: "char \<Rightarrow> bool" where
  "c_isdigit c \<longleftrightarrow> 48 \<le> code c \<and> code c \<le> 57"

definition c_isspace :: "char \<Rightarrow> bool" where
  "c_isspace c \<longleftrightarrow> code c = 32 \<or> (9 \<le> code c \<and> code c \<le> 13)"

definition c_islower :: "char \<Rightarrow> bool" where
  "c_islower c \<longleftrightarrow> 97 \<le> code c \<and> code c \<le> 122"

definition c_isupper :: "char \<Rightarrow> bool" where
  "c_isupper c \<longleftrightarrow> 65 \<le> code c \<and> code c \<le> 90"

definition c_isalpha :: "char \<Rightarrow> bool" where
  "c_isalpha c \<longleftrightarrow> c_islower c \<or> c_isupper c"

definition c_isxdigit :: "char \<Rightarrow> bool" where
  "c_isxdigit c \<longleftrightarrow> c_isdigit c \<or> (65 \<le> code c \<and> code c \<le> 70) \<or> (97 \<le> code c \<and> code c \<le> 102)"

definition c_tolower :: "char \<Rightarrow> char" where
  "c_tolower c = (if c_isupper c then char_of (code c + 32) else c)"

definition c_toupper :: "char \<Rightarrow> char" where
  "c_toupper c = (if c_islower c then char_of (code c - 32) else c)"

lemma code_less [simp]: "code c < 256"
  by (simp add: code_def)

lemma code_inj [simp]: "code c = code d \<longleftrightarrow> c = d"
  by (simp add: code_def)

lemma code_char_of [simp]: "code (char_of n) = n mod 256"
  by (simp add: code_def)

lemma code_of_char_of: "n < 256 \<Longrightarrow> code (char_of n) = n"
  by simp

lemma char_of_code [simp]: "char_of (code c) = c"
  by (simp add: code_def)

lemma code_NUL [simp]: "code NUL = 0"
  by (simp add: code_def)

lemma char_of_ne_NUL: "0 < n \<Longrightarrow> n < 256 \<Longrightarrow> char_of (n :: nat) \<noteq> NUL"
proof
  assume "0 < n" "n < 256" "char_of n = NUL"
  then have "code (char_of n) = 0" by (simp only: code_NUL)
  with \<open>0 < n\<close> \<open>n < 256\<close> show False by simp
qed

lemma not_digit_NUL [simp]: "\<not> c_isdigit NUL"
  by (simp add: c_isdigit_def)

lemma schar_inj [simp]: "schar c = schar d \<longleftrightarrow> c = d"
proof
  assume "schar c = schar d"
  moreover have "int (code c) < 256" "int (code d) < 256"
    using code_less [of c] code_less [of d] by linarith+
  ultimately have "int (code c) = int (code d)"
    unfolding schar_def by presburger
  then show "c = d" by simp
qed simp

lemma schar_NUL [simp]: "schar NUL = 0"
  by (simp add: schar_def code_def)

lemma c_tolower_idem [simp]: "c_tolower (c_tolower c) = c_tolower c"
  by (auto simp: c_tolower_def c_isupper_def)

lemma c_tolower_NUL [simp]: "c_tolower c = NUL \<longleftrightarrow> c = NUL"
proof -
  have "char_of (code c + 32) \<noteq> NUL" if "c_isupper c"
    using that by (intro char_of_ne_NUL) (auto simp: c_isupper_def)
  then show ?thesis by (auto simp: c_tolower_def c_isupper_def)
qed

lemma c_toupper_NUL [simp]: "c_toupper c = NUL \<longleftrightarrow> c = NUL"
proof -
  have "char_of (code c - 32) \<noteq> NUL" if "c_islower c"
    using that by (intro char_of_ne_NUL) (auto simp: c_islower_def)
  then show ?thesis by (auto simp: c_toupper_def c_islower_def)
qed

section \<open>Reading a C string\<close>

text \<open>
  The character a pointer into a string reads: the bytes of the string, then its
  terminating NUL.  Reads further on are out of bounds and are never made through
  \<open>at0\<close>; the definitions that could make one return a fault instead.
\<close>

definition at0 :: "cstr \<Rightarrow> char" where
  "at0 s = (case s of [] \<Rightarrow> NUL | c # _ \<Rightarrow> c)"

lemma at0_simps [simp]: "at0 [] = NUL" "at0 (c # s) = c"
  by (simp_all add: at0_def)

definition nul_free :: "cstr \<Rightarrow> bool" where
  "nul_free s \<longleftrightarrow> NUL \<notin> set s"

lemma nul_free_simps [simp]:
  "nul_free []"
  "nul_free (c # s) \<longleftrightarrow> c \<noteq> NUL \<and> nul_free s"
  "nul_free (s @ t) \<longleftrightarrow> nul_free s \<and> nul_free t"
  by (auto simp: nul_free_def)

lemma nul_free_drop [intro]: "nul_free s \<Longrightarrow> nul_free (drop n s)"
  by (auto simp: nul_free_def dest: in_set_dropD)

lemma nul_free_take [intro]: "nul_free s \<Longrightarrow> nul_free (take n s)"
  by (auto simp: nul_free_def dest: in_set_takeD)

lemma at0_eq_NUL: "nul_free s \<Longrightarrow> at0 s = NUL \<longleftrightarrow> s = []"
  by (cases s) auto

text \<open>The string a byte buffer holds: what precedes its first NUL (\<open>strlen\<close> sees this).\<close>

definition upto_nul :: "char list \<Rightarrow> cstr" where
  "upto_nul b = takeWhile (\<lambda>c. c \<noteq> NUL) b"

lemma upto_nul_free [simp]: "nul_free (upto_nul b)"
  by (auto simp: nul_free_def upto_nul_def dest: set_takeWhileD)

lemma take_upto_nul [simp]: "take (length (upto_nul b)) b = upto_nul b"
  by (simp only: upto_nul_def flip: takeWhile_eq_take)

lemma upto_nul_id [simp]: "nul_free s \<Longrightarrow> upto_nul s = s"
  by (simp add: upto_nul_def nul_free_def takeWhile_eq_all_conv) metis

lemma upto_nul_append: "nul_free s \<Longrightarrow> upto_nul (s @ t) = s @ upto_nul t"
  unfolding upto_nul_def nul_free_def by (rule takeWhile_append2) auto

lemma upto_nul_cut: "upto_nul (l @ NUL # r) = upto_nul l"
  by (induction l) (simp_all add: upto_nul_def)

text \<open>
  A read at an index of a string object: its bytes, the terminating NUL after them, a fault
  beyond.
\<close>

definition cget :: "cstr \<Rightarrow> nat \<Rightarrow> fault + char" where
  "cget s i = (if i < length s then Inr (s ! i) else if i = length s then Inr NUL else Inl OutOfBounds)"

lemma cget_Inr: "cget s i = Inr a \<Longrightarrow> i \<le> length s"
  by (auto simp: cget_def split: if_splits)

text \<open>The byte at an index, the terminating NUL included.\<close>

definition hb :: "cstr \<Rightarrow> nat \<Rightarrow> char" where
  "hb s i = (if i < length s then s ! i else NUL)"

lemma cget_hb: "i \<le> length s \<Longrightarrow> cget s i = Inr (hb s i)"
  by (simp add: cget_def hb_def)

lemma hb_inside: "hb s i \<noteq> NUL \<Longrightarrow> i < length s"
  by (auto simp: hb_def split: if_splits)

text \<open>\<open>atoi\<close> of a string whose number fits an \<open>int\<close>.\<close>

definition c_atoi :: "cstr \<Rightarrow> int" where
  "c_atoi s =
     (let s = dropWhile c_isspace s; neg = (at0 s = CHR ''-''); s = (if at0 s = CHR ''-'' \<or> at0 s = CHR ''+'' then tl s else s);
          n = foldl (\<lambda>a c. a * 10 + int (code c - 48)) 0 (takeWhile c_isdigit s)
      in if neg then - n else n)"

section \<open>Checked array accesses\<close>

definition rd :: "'a list \<Rightarrow> nat \<Rightarrow> fault + 'a" where
  "rd a i = (if i < length a then Inr (a ! i) else Inl OutOfBounds)"

definition wr :: "'a list \<Rightarrow> nat \<Rightarrow> 'a \<Rightarrow> fault + 'a list" where
  "wr a i v = (if i < length a then Inr (a[i := v]) else Inl OutOfBounds)"

definition memcpy_at :: "char list \<Rightarrow> nat \<Rightarrow> char list \<Rightarrow> fault + char list" where
  "memcpy_at buf p d = (if p + length d \<le> length buf then Inr (take p buf @ d @ drop (p + length d) buf) else Inl OutOfBounds)"

lemma wr_length: "wr a i v = Inr a' \<Longrightarrow> length a' = length a"
  by (auto simp: wr_def split: if_splits)

lemma wr_in_set: "wr a i v = Inr a' \<Longrightarrow> v \<in> set a'"
  by (auto simp: wr_def set_update_memI split: if_splits)

lemma returns_wr [returns_rules]: "returns (\<lambda>b. length b = length a \<and> v \<in> set b) (wr a i v)"
  by (simp add: wr_def set_update_memI)

lemma avoids_rd_wr [simp]:
  "e \<noteq> OutOfBounds \<Longrightarrow> avoids e (rd a i)"
  "e \<noteq> OutOfBounds \<Longrightarrow> avoids e (wr a i v)"
  by (simp_all add: rd_def wr_def)

section \<open>Lists\<close>

lemma foldl_append_state: "foldl f (foldl f s xs) ys = foldl f s (xs @ ys)"
  by simp

lemma nth_update_other: "i \<noteq> j \<Longrightarrow> xs[i := v] ! j = xs ! j"
  by simp

lemma take_append_le: "n \<le> length xs \<Longrightarrow> take n (xs @ ys) = take n xs"
  by simp

section \<open>Words\<close>

lemma unat_div_less: "0 < unat (m :: 'a::len word) \<Longrightarrow> 1 < unat b \<Longrightarrow> unat (m div b) < unat m"
  by (simp add: unat_div)

lemma unat_less_64 [simp]: "unat (w :: u64) < 18446744073709551616"
  using unsigned_less [of w, where 'a = nat] by simp

lemma unat_less_32 [simp]: "unat (w :: u32) < 4294967296"
  using unsigned_less [of w, where 'a = nat] by simp

lemma unat_less_8 [simp]: "unat (w :: u8) < 256"
  using unsigned_less [of w, where 'a = nat] by simp

end
