(* ===== verification/Radix.thy ===== *)
theory Radix
  imports Prelude
begin

text \<open>
  Positional notation.  A printer of numbers in some base is an interface: a digit table, a
  range of numbers and a function that obeys the repeated-division law on that range.  What is proved from the law - the
  value, the number of digits, injectivity, no leading zero, every canonical digit string
  is printed - holds for each printer of the program.
\<close>

definition radix_val :: "nat \<Rightarrow> (char \<Rightarrow> nat) \<Rightarrow> cstr \<Rightarrow> nat" where
  "radix_val b dv = foldl (\<lambda>v c. v * b + dv c) 0"

lemma radix_val_Nil [simp]: "radix_val b dv [] = 0"
  by (simp add: radix_val_def)

lemma radix_val_snoc [simp]: "radix_val b dv (cs @ [c]) = radix_val b dv cs * b + dv c"
  by (simp add: radix_val_def)

lemma radix_val_append: "radix_val b dv (xs @ ys) = radix_val b dv xs * b ^ length ys + radix_val b dv ys"
  by (induction ys rule: rev_induct) (simp_all flip: append_assoc add: algebra_simps)

lemma radix_val_less: "(\<forall>c \<in> set cs. dv c < b) \<Longrightarrow> radix_val b dv cs < b ^ length cs"
proof (induction cs rule: rev_induct)
  case (snoc c cs)
  then have "radix_val b dv cs + 1 \<le> b ^ length cs" "dv c < b" by auto
  then have "(radix_val b dv cs + 1) * b \<le> b ^ length cs * b" by (intro mult_right_mono) auto
  with \<open>dv c < b\<close> show ?case by (simp add: mult.commute)
qed simp

locale radix_printer =
  fixes base :: nat and dig :: "nat \<Rightarrow> char" and dval :: "char \<Rightarrow> nat"
    and ok :: "nat \<Rightarrow> bool" and print :: "nat \<Rightarrow> cstr"
  assumes base: "2 \<le> base"
    and dval_dig: "d < base \<Longrightarrow> dval (dig d) = d"
    and ok_le: "ok n \<Longrightarrow> m \<le> n \<Longrightarrow> ok m"
    and print_law: "ok n \<Longrightarrow> print n = (if n < base then [dig n] else print (n div base) @ [dig (n mod base)])"
begin

lemma ok_div: "ok n \<Longrightarrow> ok (n div base)"
  by (rule ok_le) auto

lemma div_less_self: "base \<le> n \<Longrightarrow> n div base < n"
  using base by (intro div_less_dividend) auto

lemma print_induct [consumes 1, case_names small step]:
  assumes "ok n" "\<And>n. n < base \<Longrightarrow> ok n \<Longrightarrow> P n"
    "\<And>n. base \<le> n \<Longrightarrow> ok n \<Longrightarrow> P (n div base) \<Longrightarrow> P n"
  shows "P n"
  using assms(1)
proof (induction n rule: less_induct)
  case (less n)
  then show ?case using assms(2,3) div_less_self ok_div by (cases "n < base") auto
qed

lemma print_small: "ok n \<Longrightarrow> n < base \<Longrightarrow> print n = [dig n]"
  by (subst print_law) auto

lemma print_step: "ok n \<Longrightarrow> base \<le> n \<Longrightarrow> print n = print (n div base) @ [dig (n mod base)]"
  by (subst print_law) auto

lemma print_nonempty: "ok n \<Longrightarrow> print n \<noteq> []"
  by (subst print_law) auto

lemma print_value: "ok n \<Longrightarrow> radix_val base dval (print n) = n"
proof (induction n rule: print_induct)
  case (small n)
  then show ?case by (simp add: print_small dval_dig radix_val_def)
next
  case (step n)
  then show ?case using base by (simp add: print_step dval_dig)
qed

lemma print_inj: "ok m \<Longrightarrow> ok n \<Longrightarrow> print m = print n \<longleftrightarrow> m = n"
  by (metis print_value)

lemma print_digits: "ok n \<Longrightarrow> \<forall>c \<in> set (print n). \<exists>d < base. c = dig d"
proof (induction n rule: print_induct)
  case (small n)
  then show ?case by (auto simp: print_small)
next
  case (step n)
  moreover have "n mod base < base" using base by simp
  ultimately show ?case by (auto simp: print_step)
qed

lemma print_hd: "ok n \<Longrightarrow> hd (print n) = dig 0 \<Longrightarrow> n = 0"
proof (induction n rule: print_induct)
  case (small n)
  then have "dig n = dig 0" by (simp add: print_small)
  then show ?case using dval_dig [of n] dval_dig [of 0] small base by simp
next
  case (step n)
  then have "hd (print n) = hd (print (n div base))"
    using print_nonempty [OF ok_div [OF step(2)]] by (simp add: print_step)
  with step have "n div base = 0" by simp
  with step base show ?case by (auto simp: div_eq_0_iff)
qed

text \<open>The number of digits: the least that can hold the number.\<close>

lemma print_length_le: "ok n \<Longrightarrow> 0 < k \<Longrightarrow> n < base ^ k \<Longrightarrow> length (print n) \<le> k"
proof (induction k arbitrary: n)
  case (Suc k)
  show ?case
  proof (cases "n < base")
    case True
    then show ?thesis using Suc.prems by (simp add: print_small)
  next
    case False
    then have "0 < k" using Suc.prems by (cases k) auto
    moreover have "n div base < base ^ k"
      using Suc.prems base by (simp add: div_less_iff_less_mult mult.commute)
    ultimately show ?thesis using Suc.IH False Suc.prems ok_div by (simp add: print_step)
  qed
qed simp

lemma print_length_ge: "ok n \<Longrightarrow> n \<noteq> 0 \<Longrightarrow> base ^ (length (print n) - 1) \<le> n"
proof (induction n rule: print_induct)
  case (small n)
  then show ?case by (simp add: print_small)
next
  case (step n)
  have "n div base \<noteq> 0" using step base by (auto simp: div_eq_0_iff)
  with step have le: "base ^ (length (print (n div base)) - 1) \<le> n div base" by simp
  have l: "length (print n) - 1 = Suc (length (print (n div base)) - 1)"
    using step print_nonempty [OF ok_div] by (simp add: print_step Suc_diff_Suc Suc_le_eq)
  have "base ^ (length (print n) - 1) = base ^ (length (print (n div base)) - 1) * base"
    unfolding l power_Suc2 ..
  also have "\<dots> \<le> n div base * base" using le by (rule mult_right_mono) simp
  also have "\<dots> \<le> n" by simp
  finally show ?case .
qed

text \<open>Reading a canonical digit string back: printing its value gives the string.\<close>

lemma print_canonical:
  assumes "\<forall>c \<in> set cs. dval c < base \<and> dig (dval c) = c" "cs \<noteq> []" "length cs = 1 \<or> dval (hd cs) \<noteq> 0"
    and "ok (radix_val base dval cs)"
  shows "print (radix_val base dval cs) = cs"
  using assms
proof (induction cs rule: rev_induct)
  case (snoc c cs)
  show ?case
  proof (cases "cs = []")
    case True
    then have "radix_val base dval (cs @ [c]) = dval c" by (simp add: radix_val_def)
    then show ?thesis using snoc.prems True by (simp add: print_small)
  next
    case False
    have lead: "dval (hd cs) \<noteq> 0" using snoc.prems(3) False by (auto simp: hd_append)
    have "radix_val base dval cs \<le> radix_val base dval (cs @ [c])"
      using base by (simp add: trans_le_add1)
    with snoc.prems(4) have okc: "ok (radix_val base dval cs)" by (rule ok_le)
    then have IH: "print (radix_val base dval cs) = cs" using lead snoc False by auto
    have "radix_val base dval cs \<noteq> 0"
    proof
      assume "radix_val base dval cs = 0"
      then have "cs = [dig 0]" using IH base okc by (simp add: print_small)
      with lead dval_dig [of 0] base show False by simp
    qed
    then have "base \<le> radix_val base dval (cs @ [c])"
      using base by (cases "radix_val base dval cs") auto
    then show ?thesis
      using IH snoc.prems(1,4) by (simp add: print_step)
  qed
qed simp

end

section \<open>Decimal\<close>

definition dec_dig :: "nat \<Rightarrow> char" where "dec_dig d = char_of (d + 48)"
definition dec_dval :: "char \<Rightarrow> nat" where "dec_dval c = code c - 48"

function nat_dec :: "nat \<Rightarrow> cstr" where
  "nat_dec n = (if n < 10 then [dec_dig n] else nat_dec (n div 10) @ [dec_dig (n mod 10)])"
  by pat_completeness auto
termination by (relation "measure id") auto

declare nat_dec.simps [simp del]

interpretation dec: radix_printer 10 dec_dig dec_dval "\<lambda>_. True" nat_dec
  by unfold_locales (simp, simp add: dec_dig_def dec_dval_def, simp, rule nat_dec.simps)

definition int_dec :: "int \<Rightarrow> cstr" where
  "int_dec i = (if i < 0 then CHR ''-'' # nat_dec (nat (- i)) else nat_dec (nat i))"

lemma dec_dig_0: "dec_dig 0 = CHR ''0''"
  using char_of_code [of "CHR ''0''"] by (simp add: dec_dig_def code_def)

lemma dec_dig_isdigit: "d < 10 \<Longrightarrow> c_isdigit (dec_dig d)"
  by (simp add: dec_dig_def c_isdigit_def)

lemma nat_dec_digits: "c \<in> set (nat_dec n) \<Longrightarrow> c_isdigit c"
  using dec.print_digits [OF TrueI, of n] dec_dig_isdigit by fastforce

lemma dec_digit_val: "c_isdigit c \<Longrightarrow> dec_dval c < 10 \<and> dec_dig (dec_dval c) = c"
  by (auto simp: c_isdigit_def dec_dval_def dec_dig_def)

lemma dec_dval_0: "c_isdigit c \<Longrightarrow> dec_dval c = 0 \<longleftrightarrow> c = CHR ''0''"
  using code_inj [of c "CHR ''0''"] by (auto simp: c_isdigit_def dec_dval_def code_def simp del: code_inj)

text \<open>A digit string is printed by some number exactly when it has no leading zero.\<close>

lemma nat_dec_iff:
  "(\<exists>n. cs = nat_dec n) \<longleftrightarrow> cs \<noteq> [] \<and> list_all c_isdigit cs \<and> (length cs = 1 \<or> hd cs \<noteq> CHR ''0'')"
proof (intro iffI; elim exE conjE)
  fix n assume "cs = nat_dec n"
  moreover have "length (nat_dec n) = 1 \<or> hd (nat_dec n) \<noteq> CHR ''0''"
    using dec.print_hd [of n] nat_dec.simps [of 0] dec_dig_0 by auto
  ultimately show "cs \<noteq> [] \<and> list_all c_isdigit cs \<and> (length cs = 1 \<or> hd cs \<noteq> CHR ''0'')"
    using nat_dec_digits dec.print_nonempty [OF TrueI, of n] by (auto simp: list_all_iff)
next
  assume *: "cs \<noteq> []" "list_all c_isdigit cs" "length cs = 1 \<or> hd cs \<noteq> CHR ''0''"
  then have "nat_dec (radix_val 10 dec_dval cs) = cs"
    using dec_digit_val dec_dval_0 [of "hd cs"] by (intro dec.print_canonical) (auto simp: list_all_iff)
  then show "\<exists>n. cs = nat_dec n" by metis
qed

end
