(* ===== verification/Dbl.thy ===== *)
theory Dbl
  imports Prelude
begin

text \<open>
  The C type \<open>double\<close>: IEEE 754 binary64 with round to nearest, ties to even.  A finite
  value is a sign, a natural \<open>m < 2\<^sup>5\<^sup>3\<close> and an exponent \<open>e \<ge> -1074\<close> and stands for
  \<open>\<plusminus> m 2\<^sup>e\<close>; the pair is not normalised, two doubles are equal when \<open>dbl_eq\<close> says so.
  Every operation computes the exact result first and rounds it once.
\<close>

datatype dbl = DNaN | DInf bool | DFin bool nat int

function nat_bits :: "nat \<Rightarrow> nat" where
  "nat_bits n = (if n = 0 then 0 else Suc (nat_bits (n div 2)))"
  by pat_completeness auto
termination by (relation "measure id") auto

declare nat_bits.simps [simp del]

lemma nat_bits_bounds: "n \<noteq> 0 \<Longrightarrow> 2 ^ (nat_bits n - 1) \<le> n \<and> n < 2 ^ nat_bits n"
proof (induction n rule: nat_bits.induct)
  case (1 n)
  show ?case
  proof (cases "n div 2 = 0")
    case True
    with 1 have n: "n = 1" by auto
    have "nat_bits 1 = 1" by (subst nat_bits.simps) (simp add: nat_bits.simps [of 0])
    then show ?thesis by (simp add: n)
  next
    case False
    with 1 have IH: "2 ^ (nat_bits (n div 2) - 1) \<le> n div 2" "n div 2 < 2 ^ nat_bits (n div 2)" by auto
    have nb: "nat_bits n = Suc (nat_bits (n div 2))" using 1 by (subst nat_bits.simps) simp
    have "nat_bits (n div 2) \<noteq> 0" using False by (subst nat_bits.simps) simp
    then have "(2 :: nat) ^ nat_bits (n div 2) = 2 * 2 ^ (nat_bits (n div 2) - 1)" by (cases "nat_bits (n div 2)") auto
    moreover have "2 * (n div 2) \<le> n" "n < 2 * (n div 2) + 2" by presburger+
    ultimately have "2 ^ nat_bits (n div 2) \<le> n" "n < 2 * 2 ^ nat_bits (n div 2)" using IH by linarith+
    then show ?thesis using nb by simp
  qed
qed

lemma nat_bits_le: "n < 2 ^ k \<Longrightarrow> nat_bits n \<le> k"
  using nat_bits_bounds [of n] power_less_imp_less_exp [of 2 "nat_bits n - 1" k]
  by (cases "n = 0") (auto simp: nat_bits.simps [of 0] dest: le_less_trans)

lemma nat_bits_gt: "2 ^ k \<le> n \<Longrightarrow> k < nat_bits n"
  using nat_bits_bounds [of n] power_less_imp_less_exp [of 2 k "nat_bits n"]
  by (cases "n = 0") (auto dest: le_less_trans)

text \<open>Division by a power of two, to nearest, ties to even.\<close>

definition rnd_shift :: "nat \<Rightarrow> nat \<Rightarrow> nat" where
  "rnd_shift m sh =
     (let q = m div 2 ^ sh; r = 2 * (m mod 2 ^ sh)
      in if r > 2 ^ sh \<or> (r = 2 ^ sh \<and> odd q) then q + 1 else q)"

definition dbl_pack :: "bool \<Rightarrow> nat \<Rightarrow> int \<Rightarrow> dbl" where
  "dbl_pack s m e = (if int (nat_bits m) + e > 1024 then DInf s else DFin s m e)"

definition dbl_round :: "bool \<Rightarrow> nat \<Rightarrow> int \<Rightarrow> dbl" where
  "dbl_round s m e =
     (let sh = max (int (nat_bits m) - 53) (- 1074 - e) in
      if sh \<le> 0 then dbl_pack s m e
      else let q = rnd_shift m (nat sh) in
        if q = 2 ^ 53 then dbl_pack s (2 ^ 52) (e + sh + 1) else dbl_pack s q (e + sh))"

definition dbl_of_int :: "int \<Rightarrow> dbl" where
  "dbl_of_int i = dbl_round (i < 0) (nat \<bar>i\<bar>) 0"

definition dbl_neg :: "dbl \<Rightarrow> dbl" where
  "dbl_neg x = (case x of DNaN \<Rightarrow> DNaN | DInf s \<Rightarrow> DInf (\<not> s) | DFin s m e \<Rightarrow> DFin (\<not> s) m e)"

text \<open>The signed numerator at a common exponent.\<close>

definition dbl_num :: "bool \<Rightarrow> nat \<Rightarrow> int \<Rightarrow> int \<Rightarrow> int" where
  "dbl_num s m e e0 = (if s then - 1 else 1) * int (m * 2 ^ nat (e - e0))"

fun dbl_add :: "dbl \<Rightarrow> dbl \<Rightarrow> dbl" where
  "dbl_add DNaN y = DNaN"
| "dbl_add x DNaN = DNaN"
| "dbl_add (DInf s) (DInf t) = (if s = t then DInf s else DNaN)"
| "dbl_add (DInf s) y = DInf s"
| "dbl_add x (DInf t) = DInf t"
| "dbl_add (DFin s m e) (DFin t n f) =
     (let e0 = min e f; v = dbl_num s m e e0 + dbl_num t n f e0
      in if v = 0 then DFin (s \<and> t) 0 0 else dbl_round (v < 0) (nat \<bar>v\<bar>) e0)"

definition dbl_sub :: "dbl \<Rightarrow> dbl \<Rightarrow> dbl" where
  "dbl_sub x y = dbl_add x (dbl_neg y)"

fun dbl_mul :: "dbl \<Rightarrow> dbl \<Rightarrow> dbl" where
  "dbl_mul DNaN y = DNaN"
| "dbl_mul x DNaN = DNaN"
| "dbl_mul (DInf s) (DInf t) = DInf (s \<noteq> t)"
| "dbl_mul (DInf s) (DFin t n f) = (if n = 0 then DNaN else DInf (s \<noteq> t))"
| "dbl_mul (DFin s m e) (DInf t) = (if m = 0 then DNaN else DInf (s \<noteq> t))"
| "dbl_mul (DFin s m e) (DFin t n f) = dbl_round (s \<noteq> t) (m * n) (e + f)"

text \<open>
  The quotient is computed to 120 bits more than the divisor has, with a sticky bit for the
  remainder below; both operands have at most 53 bits, so the rounding sees the exact value.
\<close>

fun dbl_div :: "dbl \<Rightarrow> dbl \<Rightarrow> dbl" where
  "dbl_div DNaN y = DNaN"
| "dbl_div x DNaN = DNaN"
| "dbl_div (DInf s) (DInf t) = DNaN"
| "dbl_div (DInf s) (DFin t n f) = DInf (s \<noteq> t)"
| "dbl_div (DFin s m e) (DInf t) = DFin (s \<noteq> t) 0 0"
| "dbl_div (DFin s m e) (DFin t n f) =
     (if n = 0 then (if m = 0 then DNaN else DInf (s \<noteq> t))
      else let q = (m * 2 ^ 120) div n; r = (m * 2 ^ 120) mod n
        in dbl_round (s \<noteq> t) (2 * q + (if r = 0 then 0 else 1)) (e - f - 121))"

text \<open>Comparisons; every comparison with a NaN is false.\<close>

fun dbl_less :: "dbl \<Rightarrow> dbl \<Rightarrow> bool" where
  "dbl_less DNaN y = False"
| "dbl_less x DNaN = False"
| "dbl_less (DInf s) (DInf t) = (s \<and> \<not> t)"
| "dbl_less (DInf s) (DFin t n f) = s"
| "dbl_less (DFin s m e) (DInf t) = (\<not> t)"
| "dbl_less (DFin s m e) (DFin t n f) = (dbl_num s m e (min e f) < dbl_num t n f (min e f))"

fun dbl_eq :: "dbl \<Rightarrow> dbl \<Rightarrow> bool" where
  "dbl_eq DNaN y = False"
| "dbl_eq x DNaN = False"
| "dbl_eq (DInf s) (DInf t) = (s = t)"
| "dbl_eq (DInf s) (DFin t n f) = False"
| "dbl_eq (DFin s m e) (DInf t) = False"
| "dbl_eq (DFin s m e) (DFin t n f) = (dbl_num s m e (min e f) = dbl_num t n f (min e f))"

definition dbl_le :: "dbl \<Rightarrow> dbl \<Rightarrow> bool" where
  "dbl_le x y \<longleftrightarrow> dbl_less x y \<or> dbl_eq x y"

text \<open>Truncation towards zero.\<close>

definition nat_trunc :: "nat \<Rightarrow> int \<Rightarrow> nat" where
  "nat_trunc m e = (if 0 \<le> e then m * 2 ^ nat e else m div 2 ^ nat (- e))"

fun dbl_trunc :: "dbl \<Rightarrow> int option" where
  "dbl_trunc (DFin s m e) = Some ((if s then - 1 else 1) * int (nat_trunc m e))"
| "dbl_trunc x = None"

text \<open>\<open>modf\<close>: fractional and integral part, both with the sign of the argument.\<close>

fun dbl_modf :: "dbl \<Rightarrow> dbl \<times> dbl" where
  "dbl_modf DNaN = (DNaN, DNaN)"
| "dbl_modf (DInf s) = (DFin s 0 0, DInf s)"
| "dbl_modf (DFin s m e) =
     (if 0 \<le> e then (DFin s 0 0, DFin s m e)
      else (DFin s (m mod 2 ^ nat (- e)) e, DFin s (m div 2 ^ nat (- e)) 0))"

section \<open>Integers in the exact range\<close>

lemma dbl_round_exact: "m < 2 ^ 53 \<Longrightarrow> - 1074 \<le> e \<Longrightarrow> e \<le> 971 \<Longrightarrow> dbl_round s m e = DFin s m e"
  using nat_bits_le [of m 53] by (simp add: dbl_round_def dbl_pack_def Let_def)

lemma dbl_of_int_exact: "\<bar>i\<bar> < 2 ^ 53 \<Longrightarrow> dbl_of_int i = DFin (i < 0) (nat \<bar>i\<bar>) 0"
  unfolding dbl_of_int_def by (rule dbl_round_exact) auto

lemma dbl_num_0 [simp]: "dbl_num (i < 0) (nat \<bar>i\<bar>) e e = i"
  by (simp add: dbl_num_def)

lemma dbl_sub_ints:
  assumes "\<bar>i\<bar> < 2 ^ 53" "\<bar>j\<bar> < 2 ^ 53"
  shows "dbl_sub (dbl_of_int i) (dbl_of_int j) =
    (if i = j then DFin (i < 0 \<and> \<not> j < 0) 0 0 else dbl_round (i < j) (nat \<bar>i - j\<bar>) 0)"
proof -
  have n: "dbl_num (\<not> j < 0) (nat \<bar>j\<bar>) 0 0 = - j" by (auto simp: dbl_num_def)
  show ?thesis
    using assms n by (auto simp: dbl_of_int_exact dbl_sub_def dbl_neg_def Let_def)
qed

text \<open>A rounded integer keeps the side of a power of two it is on.\<close>

lemma rnd_shift_ge: "m div 2 ^ sh \<le> rnd_shift m sh"
  by (simp add: rnd_shift_def Let_def)

lemma dbl_round_nonzero:
  assumes "m \<noteq> 0"
  shows "(\<exists>q f. dbl_round s m 0 = DFin s q f \<and> q \<noteq> 0 \<and> 0 \<le> f) \<or> dbl_round s m 0 = DInf s"
proof -
  let ?sh = "nat_bits m - 53"
  have "m div 2 ^ ?sh \<noteq> 0"
  proof -
    have "(2 :: nat) ^ ?sh \<le> 2 ^ (nat_bits m - 1)" by (intro power_increasing) auto
    then have "2 ^ ?sh \<le> m" using nat_bits_bounds [OF assms] by (meson le_trans)
    then show ?thesis by (simp add: div_eq_0_iff not_less)
  qed
  then have "rnd_shift m ?sh \<noteq> 0" using rnd_shift_ge [of m ?sh] by linarith
  then show ?thesis using assms
    by (auto simp: dbl_round_def dbl_pack_def Let_def nat_diff_distrib)
qed

section \<open>The magnitude of a double\<close>

definition dbl_ok :: "dbl \<Rightarrow> bool" where
  "dbl_ok d = (case d of DFin s m e \<Rightarrow> m < 2 ^ 53 \<and> - 1074 \<le> e \<and> int (nat_bits m) + e \<le> 1024 | _ \<Rightarrow> True)"

lemma nat_bits_0 [simp]: "nat_bits 0 = 0" by (simp add: nat_bits.simps)

lemma nat_bits_eq_0 [simp]: "nat_bits m = 0 \<longleftrightarrow> m = 0" by (subst nat_bits.simps) simp

lemma nat_bits_mono: "m \<le> n \<Longrightarrow> nat_bits m \<le> nat_bits n"
  using nat_bits_bounds [of n] by (cases "n = 0") (auto intro!: nat_bits_le dest: le_less_trans)

lemma nat_bits_power [simp]: "nat_bits (2 ^ k) = Suc k"
  using nat_bits_gt [of k "2 ^ k"] nat_bits_le [of "2 ^ k" "Suc k"] by simp

lemma nat_bits_div: "nat_bits (m div 2 ^ k) = nat_bits m - k"
proof (induction k arbitrary: m)
  case (Suc k)
  have "m div 2 ^ Suc k = (m div 2) div 2 ^ k" by (simp add: div_mult2_eq)
  then show ?case using Suc [of "m div 2"] nat_bits.simps [of m] by simp
qed simp

lemma rnd_shift_bound: "rnd_shift m sh \<le> (if sh \<le> nat_bits m then 2 ^ (nat_bits m - sh) else 0)"
proof (cases "sh \<le> nat_bits m")
  case True
  have "m div 2 ^ sh < 2 ^ (nat_bits m - sh)"
    using True nat_bits_bounds [of m] by (cases "m = 0") (auto simp: less_mult_imp_div_less power_add [symmetric])
  then show ?thesis using True by (auto simp: rnd_shift_def Let_def)
next
  case False
  then have "m < 2 ^ (sh - 1)"
    using nat_bits_bounds [of m] power_increasing [of "nat_bits m" "sh - 1" "2 :: nat"]
    by (cases "m = 0") (auto intro: less_le_trans)
  moreover have "(2 :: nat) ^ sh = 2 * 2 ^ (sh - 1)" using False by (cases sh) auto
  ultimately have "2 * m < 2 ^ sh" by simp
  then show ?thesis using False by (simp add: rnd_shift_def Let_def)
qed

text \<open>Rounding keeps the position of the leading bit or moves it up by one.\<close>

lemma dbl_round_upper:
  assumes "int (nat_bits m) + e < 1024"
  shows "\<exists>m' e'. dbl_round s m e = DFin s m' e' \<and> (m' = 0 \<or> int (nat_bits m') + e' \<le> int (nat_bits m) + e + 1)"
proof -
  define sh where "sh = max (int (nat_bits m) - 53) (- 1074 - e)"
  define q where "q = rnd_shift m (nat sh)"
  show ?thesis
  proof (cases "sh \<le> 0")
    case True
    then show ?thesis using assms by (simp add: dbl_round_def dbl_pack_def sh_def Let_def)
  next
    case False
    have q: "q \<le> (if nat sh \<le> nat_bits m then 2 ^ (nat_bits m - nat sh) else 0)"
      unfolding q_def by (rule rnd_shift_bound)
    then have b: "q = 0 \<or> int (nat_bits q) + sh \<le> int (nat_bits m) + 1"
      using nat_bits_mono [OF q] False by (auto split: if_splits)
    have "dbl_round s m e = (if q = 2 ^ 53 then dbl_pack s (2 ^ 52) (e + sh + 1) else dbl_pack s q (e + sh))"
      using False by (simp only: dbl_round_def Let_def sh_def [symmetric] q_def [symmetric] if_False)
    moreover have "nat_bits (2 ^ 53) = 54" "nat_bits (2 ^ 52) = 53" by (simp_all only: nat_bits_power)
    moreover have "e + sh < 1024" using assms by (auto simp: sh_def)
    ultimately show ?thesis using b assms
      by (auto simp: dbl_pack_def)
  qed
qed

lemma dbl_round_lower:
  assumes "m \<noteq> 0" "- 1074 \<le> e" "int (nat_bits m) + e < 1024"
  shows "\<exists>m' e'. dbl_round s m e = DFin s m' e' \<and> m' \<noteq> 0 \<and> e \<le> e' \<and> int (nat_bits m) + e \<le> int (nat_bits m') + e'"
proof -
  define sh where "sh = max (int (nat_bits m) - 53) (- 1074 - e)"
  define q where "q = rnd_shift m (nat sh)"
  obtain m' e' where r: "dbl_round s m e = DFin s m' e'" using dbl_round_upper [OF assms(3)] by blast
  show ?thesis
  proof (cases "sh \<le> 0")
    case True
    then show ?thesis using r assms by (simp add: dbl_round_def dbl_pack_def sh_def Let_def split: if_splits)
  next
    case False
    then have sh: "int (nat_bits m) = sh + 53" using assms(2) by (auto simp: sh_def)
    have "nat_bits m - nat sh \<le> nat_bits q"
      using nat_bits_mono [OF rnd_shift_ge [of m "nat sh"]] by (simp add: nat_bits_div q_def)
    then have b: "53 \<le> nat_bits q" using sh False by linarith
    have "dbl_round s m e = (if q = 2 ^ 53 then dbl_pack s (2 ^ 52) (e + sh + 1) else dbl_pack s q (e + sh))"
      using False by (simp only: dbl_round_def Let_def sh_def [symmetric] q_def [symmetric] if_False)
    moreover have "nat_bits (2 ^ 52) = 53" by (simp only: nat_bits_power)
    moreover have "q \<noteq> 0" using b nat_bits_eq_0 [of q] by linarith
    ultimately show ?thesis using r sh b False by (auto simp: dbl_pack_def split: if_splits)
  qed
qed

end
