(* ===== verification/Crc32.thy ===== *)
theory Crc32
  imports Prelude
begin

text \<open>
  \<open>runtime/ext/standard/crc.c\<close>: the table-driven CRC-32 behind PHP's \<open>crc32()\<close>.
  The table and the byte loop are modelled as they are written; the reference is the
  bit-at-a-time division by the AUTODIN II polynomial, reflected.
\<close>

section \<open>The code\<close>

definition crctab :: "u32 list" where
  "crctab = [
   0x00000000, 0x77073096, 0xee0e612c, 0x990951ba, 0x076dc419, 0x706af48f, 0xe963a535, 0x9e6495a3,
   0x0edb8832, 0x79dcb8a4, 0xe0d5e91e, 0x97d2d988, 0x09b64c2b, 0x7eb17cbd, 0xe7b82d07, 0x90bf1d91,
   0x1db71064, 0x6ab020f2, 0xf3b97148, 0x84be41de, 0x1adad47d, 0x6ddde4eb, 0xf4d4b551, 0x83d385c7,
   0x136c9856, 0x646ba8c0, 0xfd62f97a, 0x8a65c9ec, 0x14015c4f, 0x63066cd9, 0xfa0f3d63, 0x8d080df5,
   0x3b6e20c8, 0x4c69105e, 0xd56041e4, 0xa2677172, 0x3c03e4d1, 0x4b04d447, 0xd20d85fd, 0xa50ab56b,
   0x35b5a8fa, 0x42b2986c, 0xdbbbc9d6, 0xacbcf940, 0x32d86ce3, 0x45df5c75, 0xdcd60dcf, 0xabd13d59,
   0x26d930ac, 0x51de003a, 0xc8d75180, 0xbfd06116, 0x21b4f4b5, 0x56b3c423, 0xcfba9599, 0xb8bda50f,
   0x2802b89e, 0x5f058808, 0xc60cd9b2, 0xb10be924, 0x2f6f7c87, 0x58684c11, 0xc1611dab, 0xb6662d3d,
   0x76dc4190, 0x01db7106, 0x98d220bc, 0xefd5102a, 0x71b18589, 0x06b6b51f, 0x9fbfe4a5, 0xe8b8d433,
   0x7807c9a2, 0x0f00f934, 0x9609a88e, 0xe10e9818, 0x7f6a0dbb, 0x086d3d2d, 0x91646c97, 0xe6635c01,
   0x6b6b51f4, 0x1c6c6162, 0x856530d8, 0xf262004e, 0x6c0695ed, 0x1b01a57b, 0x8208f4c1, 0xf50fc457,
   0x65b0d9c6, 0x12b7e950, 0x8bbeb8ea, 0xfcb9887c, 0x62dd1ddf, 0x15da2d49, 0x8cd37cf3, 0xfbd44c65,
   0x4db26158, 0x3ab551ce, 0xa3bc0074, 0xd4bb30e2, 0x4adfa541, 0x3dd895d7, 0xa4d1c46d, 0xd3d6f4fb,
   0x4369e96a, 0x346ed9fc, 0xad678846, 0xda60b8d0, 0x44042d73, 0x33031de5, 0xaa0a4c5f, 0xdd0d7cc9,
   0x5005713c, 0x270241aa, 0xbe0b1010, 0xc90c2086, 0x5768b525, 0x206f85b3, 0xb966d409, 0xce61e49f,
   0x5edef90e, 0x29d9c998, 0xb0d09822, 0xc7d7a8b4, 0x59b33d17, 0x2eb40d81, 0xb7bd5c3b, 0xc0ba6cad,
   0xedb88320, 0x9abfb3b6, 0x03b6e20c, 0x74b1d29a, 0xead54739, 0x9dd277af, 0x04db2615, 0x73dc1683,
   0xe3630b12, 0x94643b84, 0x0d6d6a3e, 0x7a6a5aa8, 0xe40ecf0b, 0x9309ff9d, 0x0a00ae27, 0x7d079eb1,
   0xf00f9344, 0x8708a3d2, 0x1e01f268, 0x6906c2fe, 0xf762575d, 0x806567cb, 0x196c3671, 0x6e6b06e7,
   0xfed41b76, 0x89d32be0, 0x10da7a5a, 0x67dd4acc, 0xf9b9df6f, 0x8ebeeff9, 0x17b7be43, 0x60b08ed5,
   0xd6d6a3e8, 0xa1d1937e, 0x38d8c2c4, 0x4fdff252, 0xd1bb67f1, 0xa6bc5767, 0x3fb506dd, 0x48b2364b,
   0xd80d2bda, 0xaf0a1b4c, 0x36034af6, 0x41047a60, 0xdf60efc3, 0xa867df55, 0x316e8eef, 0x4669be79,
   0xcb61b38c, 0xbc66831a, 0x256fd2a0, 0x5268e236, 0xcc0c7795, 0xbb0b4703, 0x220216b9, 0x5505262f,
   0xc5ba3bbe, 0xb2bd0b28, 0x2bb45a92, 0x5cb36a04, 0xc2d7ffa7, 0xb5d0cf31, 0x2cd99e8b, 0x5bdeae1d,
   0x9b64c2b0, 0xec63f226, 0x756aa39c, 0x026d930a, 0x9c0906a9, 0xeb0e363f, 0x72076785, 0x05005713,
   0x95bf4a82, 0xe2b87a14, 0x7bb12bae, 0x0cb61b38, 0x92d28e9b, 0xe5d5be0d, 0x7cdcefb7, 0x0bdbdf21,
   0x86d3d2d4, 0xf1d4e242, 0x68ddb3f8, 0x1fda836e, 0x81be16cd, 0xf6b9265b, 0x6fb077e1, 0x18b74777,
   0x88085ae6, 0xff0f6a70, 0x66063bca, 0x11010b5c, 0x8f659eff, 0xf862ae69, 0x616bffd3, 0x166ccf45,
   0xa00ae278, 0xd70dd2ee, 0x4e048354, 0x3903b3c2, 0xa7672661, 0xd06016f7, 0x4969474d, 0x3e6e77db,
   0xaed16a4a, 0xd9d65adc, 0x40df0b66, 0x37d83bf0, 0xa9bcae53, 0xdebb9ec5, 0x47b2cf7f, 0x30b5ffe9,
   0xbdbdf21c, 0xcabac28a, 0x53b39330, 0x24b4a3a6, 0xbad03605, 0xcdd70693, 0x54de5729, 0x23d967bf,
   0xb3667a2e, 0xc4614ab8, 0x5d681b02, 0x2a6f2b94, 0xb40bbe37, 0xc30c8ea1, 0x5a05df1b, 0x2d02ef8d]"

text \<open>
  The macro \<open>CRC\<close>.  Its second argument is a plain \<open>char\<close>, so it is sign-extended
  before the exclusive or; the mask keeps the low eight bits.
\<close>

definition CRC :: "u32 \<Rightarrow> u8 \<Rightarrow> u32" where
  "CRC crc ch = drop_bit 8 crc XOR crctab ! unat ((crc XOR scast ch) AND 0xff)"

text \<open>
  The loop of \<open>woot_crc32\<close>: \<open>i\<close> counts down, \<open>p\<close> walks the buffer.  Reading past
  the buffer is a fault.
\<close>

fun crc_loop :: "u32 \<Rightarrow> nat \<Rightarrow> u8 list \<Rightarrow> fault + u32" where
  "crc_loop crc 0 p = Inr crc"
| "crc_loop crc (Suc i) [] = Inl OutOfBounds"
| "crc_loop crc (Suc i) (c # p) = crc_loop (CRC crc c) i p"

text \<open>The result is the complemented register, widened from \<open>unsigned int\<close> to \<open>long\<close>.\<close>

definition woot_crc32 :: "u8 list \<Rightarrow> u32 \<Rightarrow> fault + u64" where
  "woot_crc32 p slen = bind_res (crc_loop (NOT 0) (unat slen) p) (\<lambda>crc. Inr (ucast (NOT crc)))"

section \<open>The reference: one bit at a time\<close>

definition crc_bit :: "u32 \<Rightarrow> u32" where
  "crc_bit c = (if bit c 0 then drop_bit 1 c XOR 0xEDB88320 else drop_bit 1 c)"

definition crc_byte :: "u32 \<Rightarrow> u8 \<Rightarrow> u32" where
  "crc_byte c b = (crc_bit ^^ 8) (c XOR ucast b)"

definition crc32_ref :: "u8 list \<Rightarrow> u32" where
  "crc32_ref bs = NOT (foldl crc_byte (NOT 0) bs)"

lemma crctab_length [simp]: "length crctab = 256"
  by (simp add: crctab_def)

section \<open>Linearity of the register\<close>

lemma crc_bit_xor: "crc_bit (x XOR y) = crc_bit x XOR crc_bit y"
  by (cases "bit x 0"; cases "bit y 0")
    (simp_all add: crc_bit_def bit_simps drop_bit_xor ac_simps del: bit_0)

lemma crc_bits_xor: "(crc_bit ^^ n) (x XOR y) = (crc_bit ^^ n) x XOR (crc_bit ^^ n) y"
  by (induction n) (simp_all add: crc_bit_xor)

text \<open>Where the low \<open>n\<close> bits are clear, \<open>n\<close> steps are a shift.\<close>

lemma crc_bits_clear: "(\<And>i. i < n \<Longrightarrow> \<not> bit x i) \<Longrightarrow> (crc_bit ^^ n) x = drop_bit n x"
proof (induction n arbitrary: x)
  case 0
  then show ?case by simp
next
  case (Suc n)
  have step: "crc_bit x = drop_bit 1 x"
    using Suc.prems [of 0] by (simp add: crc_bit_def del: bit_0)
  have "\<not> bit (drop_bit 1 x) i" if "i < n" for i
    using Suc.prems [of "Suc i"] that by (simp add: bit_drop_bit_eq)
  then have "(crc_bit ^^ n) (drop_bit 1 x) = drop_bit n (drop_bit 1 x)"
    by (rule Suc.IH)
  then show ?case
    by (simp add: funpow_swap1 step)
qed

section \<open>The table is the reference on the 256 bytes\<close>

text \<open>
  By linearity the table is spanned by its entries at the powers of two: each further
  basis element doubles the table.
\<close>

fun xor_span :: "u32 list \<Rightarrow> u32 list" where
  "xor_span [] = [0]"
| "xor_span (e # es) = (let t = xor_span es in t @ map (\<lambda>x. e XOR x) t)"

lemma length_xor_span [simp]: "length (xor_span es) = 2 ^ length es"
  by (induction es) (simp_all add: Let_def)

lemma word_of_nat_add_power:
  assumes "m < 2 ^ k"
  shows "(word_of_nat (2 ^ k + m) :: u32) = 2 ^ k XOR word_of_nat m"
proof -
  have "\<not> bit m k"
    using assms by (simp add: bit_iff_odd)
  then have "(2 ^ k AND m :: nat) = 0"
    by (intro bit_eqI) (auto simp: bit_and_iff bit_exp_iff)
  then have "2 ^ k + m = (2 ^ k XOR m :: nat)"
    by (rule disjunctive_add_eq_xor)
  then show ?thesis
    by (simp add: of_nat_xor_eq)
qed

lemma xor_span_nth:
  assumes "n < 2 ^ k"
  shows "xor_span (map (\<lambda>i. (crc_bit ^^ 8) (2 ^ i)) (rev [0..<k])) ! n = (crc_bit ^^ 8) (word_of_nat n)"
  using assms
proof (induction k arbitrary: n)
  case 0
  have "(crc_bit ^^ m) 0 = 0" for m
    by (induction m) (simp_all add: crc_bit_def)
  with 0 show ?case by simp
next
  case (Suc k)
  show ?case
  proof (cases "n < 2 ^ k")
    case True
    with Suc.IH [OF True] show ?thesis by (simp add: Let_def nth_append)
  next
    case False
    then obtain m where n: "n = 2 ^ k + m"
      by (metis le_add_diff_inverse not_less)
    with Suc.prems have m: "m < 2 ^ k" by simp
    have "xor_span (map (\<lambda>i. (crc_bit ^^ 8) (2 ^ i)) (rev [0..<Suc k])) ! n =
        (crc_bit ^^ 8) (2 ^ k) XOR (crc_bit ^^ 8) (word_of_nat m)"
      using Suc.IH [OF m] m by (simp add: n Let_def nth_append)
    also have "\<dots> = (crc_bit ^^ 8) (word_of_nat n)"
      unfolding n word_of_nat_add_power [OF m] by (rule crc_bits_xor [symmetric])
    finally show ?thesis .
  qed
qed

lemma crc_bit_8: "(crc_bit ^^ 8) x =
    crc_bit (crc_bit (crc_bit (crc_bit (crc_bit (crc_bit (crc_bit (crc_bit x)))))))"
  by (simp add: eval_nat_numeral)

lemma crctab_span: "crctab = xor_span (map (\<lambda>i. (crc_bit ^^ 8) (2 ^ i)) (rev [0..<8]))"
proof -
  have "rev [0..<8] = [7, 6, 5, 4, 3, 2, 1, 0 :: nat]"
    by code_simp
  then have "map (\<lambda>i. (crc_bit ^^ 8) (2 ^ i)) (rev [0..<8]) =
    [0xEDB88320, 0x76DC4190, 0x3B6E20C8, 0x1DB71064, 0x0EDB8832, 0x076DC419, 0xEE0E612C, 0x77073096]"
    by (simp add: crc_bit_8 crc_bit_def)
  then show ?thesis
    by (simp add: crctab_def)
qed

lemma crctab_nth: "n < 256 \<Longrightarrow> crctab ! n = (crc_bit ^^ 8) (word_of_nat n)"
  using xor_span_nth [of n 8] by (simp add: crctab_span)

section \<open>One table step is eight bit steps\<close>

lemma CRC_eq_crc_byte: "CRC crc ch = crc_byte crc ch"
proof -
  define x where "x = crc XOR ucast ch"
  have ff: "(0xff :: u32) = mask 8"
    by (simp add: mask_eq_exp_minus_1)
  have low: "(crc XOR scast ch) AND 0xff = x AND 0xff"
    unfolding ff by (rule bit_word_eqI) (auto simp: x_def bit_simps)
  have split: "x = (x AND 0xff) XOR push_bit 8 (drop_bit 8 x)"
    unfolding ff by (rule bit_word_eqI) (auto simp: bit_simps)
  have "unat (x AND 0xff) < 256"
    using word_and_le1 [of x "0xff"] by (simp add: word_le_nat_alt)
  then have tab: "crctab ! unat (x AND 0xff) = (crc_bit ^^ 8) (x AND 0xff)"
    by (simp add: crctab_nth)
  have "(crc_bit ^^ 8) (push_bit 8 (drop_bit 8 x)) = drop_bit 8 (push_bit 8 (drop_bit 8 x))"
    by (rule crc_bits_clear) (simp add: bit_simps)
  also have "\<dots> = drop_bit 8 crc"
    by (rule bit_word_eqI) (auto simp: x_def bit_simps dest: bit_imp_le_length)
  finally have high: "(crc_bit ^^ 8) (push_bit 8 (drop_bit 8 x)) = drop_bit 8 crc" .
  have "(crc_bit ^^ 8) x = (crc_bit ^^ 8) (x AND 0xff) XOR drop_bit 8 crc"
    using arg_cong [OF split, of "crc_bit ^^ 8"] by (simp only: crc_bits_xor high)
  moreover have "CRC crc ch = drop_bit 8 crc XOR (crc_bit ^^ 8) (x AND 0xff)"
    by (simp only: CRC_def low tab)
  moreover have "crc_byte crc ch = (crc_bit ^^ 8) x"
    by (simp only: crc_byte_def x_def)
  ultimately show ?thesis
    by (simp add: ac_simps)
qed

section \<open>The byte loop\<close>

lemma crc_loop_eq:
  "crc_loop crc n p = (if n \<le> length p then Inr (foldl crc_byte crc (take n p)) else Inl OutOfBounds)"
  by (induction crc n p rule: crc_loop.induct) (simp_all add: CRC_eq_crc_byte)

text \<open>
  C13. \<open>woot_crc32\<close> computes the standard CRC-32 (reflected, initial value and final
  complement all ones) of the first \<open>slen\<close> bytes: the table-driven loop equals the
  bit-at-a-time reference, and a length beyond the buffer is an out-of-bounds read.
\<close>

theorem woot_crc32_correct:
  "woot_crc32 p slen =
    (if unat slen \<le> length p then Inr (ucast (crc32_ref (take (unat slen) p)))
     else Inl OutOfBounds)"
  by (simp add: woot_crc32_def crc_loop_eq crc32_ref_def)

section \<open>The residue of an error-free packet\<close>

definition le_bytes :: "u32 \<Rightarrow> u8 list" where
  "le_bytes w = [ucast w, ucast (drop_bit 8 w), ucast (drop_bit 16 w), ucast (drop_bit 24 w)]"

lemma crc_bits_absorb:
  assumes "k \<le> 24"
  shows "(crc_bit ^^ k) x XOR ucast (b :: u8) = (crc_bit ^^ k) (x XOR push_bit k (ucast b))"
proof -
  have "(crc_bit ^^ k) (push_bit k (ucast b)) = drop_bit k (push_bit k (ucast b :: u32))"
    by (rule crc_bits_clear) (simp add: bit_simps)
  also have "\<dots> = ucast b"
    using assms by (intro bit_word_eqI) (auto simp: bit_simps dest: bit_imp_le_length)
  finally show ?thesis
    by (simp add: crc_bits_xor)
qed

lemma crc_bits_8_after: "(crc_bit ^^ 8) ((crc_bit ^^ k) x) = (crc_bit ^^ (8 + k)) x"
  by (simp only: funpow_add o_apply)

lemma crc_byte_le_bytes: "foldl crc_byte s (le_bytes w) = (crc_bit ^^ 32) (s XOR w)"
proof -
  have w: "ucast (ucast w :: u8) XOR push_bit 8 (ucast (ucast (drop_bit 8 w) :: u8))
      XOR push_bit 16 (ucast (ucast (drop_bit 16 w) :: u8))
      XOR push_bit 24 (ucast (ucast (drop_bit 24 w) :: u8)) = w"
    by (rule bit_word_eqI) (auto simp: bit_simps not_less)
  have "foldl crc_byte s (le_bytes w) = (crc_bit ^^ 32) (s XOR (ucast (ucast w :: u8)
      XOR push_bit 8 (ucast (ucast (drop_bit 8 w) :: u8))
      XOR push_bit 16 (ucast (ucast (drop_bit 16 w) :: u8))
      XOR push_bit 24 (ucast (ucast (drop_bit 24 w) :: u8))))"
    by (simp add: le_bytes_def crc_byte_def crc_bits_absorb crc_bits_8_after xor.assoc)
  then show ?thesis by (simp only: w)
qed

lemma crc_bits_ones: "(crc_bit ^^ 32) (- 1) = 0xDEBB20E3"
proof -
  have "(crc_bit ^^ 8) 0xFFFFFFFF = 0x2DFD1072" "(crc_bit ^^ 8) 0x2DFD1072 = 0xBE26ED00"
    "(crc_bit ^^ 8) 0xBE26ED00 = 0xBE26ED" "(crc_bit ^^ 8) 0xBE26ED = 0xDEBB20E3"
    by (simp_all add: crc_bit_8 crc_bit_def)
  then have "(crc_bit ^^ (8 + (8 + (8 + 8)))) 0xFFFFFFFF = 0xDEBB20E3"
    by (simp only: funpow_add o_apply)
  then have "(crc_bit ^^ 32) 0xFFFFFFFF = 0xDEBB20E3" by simp
  moreover have "(0xFFFFFFFF :: u32) = - 1" by simp
  ultimately show ?thesis by (simp only:)
qed

text \<open>
  The residue the file's header promises: a packet followed by its complemented
  check value, low byte first, leaves \<open>0xDEBB20E3\<close> in the register, whatever the packet.
\<close>

theorem crc_residue:
  "crc_loop (NOT 0) (length m + 4) (m @ le_bytes (crc32_ref m)) = Inr 0xDEBB20E3"
proof -
  define s where "s = foldl crc_byte (- 1) m"
  have ref: "crc32_ref m = NOT s"
    by (simp add: crc32_ref_def s_def)
  have "foldl crc_byte s (le_bytes (NOT s)) = (crc_bit ^^ 32) (- 1)"
    unfolding crc_byte_le_bytes by simp
  then have "foldl crc_byte (- 1) (m @ le_bytes (NOT s)) = 0xDEBB20E3"
    by (simp add: crc_bits_ones flip: s_def)
  moreover have "length (le_bytes (NOT s)) = 4"
    by (simp add: le_bytes_def)
  ultimately show ?thesis
    by (simp add: crc_loop_eq ref)
qed

end
