(* ===== verification/Sha1.thy ===== *)
theory Sha1
  imports Prelude
begin

text \<open>
  \<open>runtime/ext/standard/sha1.c\<close> and \<open>sha1.h\<close>: the streaming SHA-1 behind PHP's
  \<open>sha1()\<close>.  \<open>unsigned\<close> is a 32-bit word, so that the masks with \<open>0xFFFFFFFF\<close> of the
  code change nothing; the index into the message block is an \<open>int\<close> that never gets
  negative, kept as a \<open>nat\<close>; a store outside the block is a fault.  The reference is the
  text of FIPS 180: padding, message schedule, logical functions, compression.
\<close>

section \<open>The context\<close>

record SHA1Context =
  Message_Digest :: "u32 list"
  Length_Low :: u32
  Length_High :: u32
  Message_Block :: "u8 list"
  Message_Block_Index :: nat
  Computed :: bool
  Corrupted :: bool

section \<open>The compression function of the code\<close>

definition SHA1CircularShift :: "nat \<Rightarrow> u32 \<Rightarrow> u32" where
  "SHA1CircularShift bits w = (push_bit bits w AND 0xFFFFFFFF) OR drop_bit (32 - bits) w"

text \<open>The first loop: sixteen big-endian words.\<close>

definition block_word :: "u8 list \<Rightarrow> nat \<Rightarrow> u32" where
  "block_word blk t =
     ((push_bit 24 (ucast (blk ! (t * 4))) OR push_bit 16 (ucast (blk ! (t * 4 + 1))))
      OR push_bit 8 (ucast (blk ! (t * 4 + 2)))) OR ucast (blk ! (t * 4 + 3))"

text \<open>The second loop.  The array \<open>W\<close> is the list of the words written so far.\<close>

definition schedule_step :: "nat \<Rightarrow> u32 list \<Rightarrow> u32 list" where
  "schedule_step t W =
     W @ [SHA1CircularShift 1 (W ! (t - 3) XOR W ! (t - 8) XOR W ! (t - 14) XOR W ! (t - 16))]"

definition schedule :: "u8 list \<Rightarrow> u32 list" where
  "schedule blk = fold schedule_step [16..<80] (map (block_word blk) [0..<16])"

type_synonym wordbuf = "u32 \<times> u32 \<times> u32 \<times> u32 \<times> u32"

text \<open>The body the four loops share; they differ in the logical function and in \<open>K\<close>.\<close>

definition sha_round :: "(u32 \<Rightarrow> u32 \<Rightarrow> u32 \<Rightarrow> u32) \<Rightarrow> u32 \<Rightarrow> u32 list \<Rightarrow> nat \<Rightarrow> wordbuf \<Rightarrow> wordbuf" where
  "sha_round f K W t = (\<lambda>(A, B, C, D, E).
     let temp = (SHA1CircularShift 5 A + f B C D + E + W ! t + K) AND 0xFFFFFFFF
     in (temp, A, SHA1CircularShift 30 B, C, D))"

definition sha_rounds :: "u32 list \<Rightarrow> wordbuf \<Rightarrow> wordbuf" where
  "sha_rounds W =
     fold (sha_round (\<lambda>B C D. B XOR C XOR D) 0xCA62C1D6 W) [60..<80] \<circ>
     fold (sha_round (\<lambda>B C D. ((B AND C) OR (B AND D)) OR (C AND D)) 0x8F1BBCDC W) [40..<60] \<circ>
     fold (sha_round (\<lambda>B C D. B XOR C XOR D) 0x6ED9EBA1 W) [20..<40] \<circ>
     fold (sha_round (\<lambda>B C D. (B AND C) OR (NOT B AND D)) 0x5A827999 W) [0..<20]"

definition SHA1ProcessMessageBlock :: "SHA1Context \<Rightarrow> SHA1Context" where
  "SHA1ProcessMessageBlock ctx =
     (let H = Message_Digest ctx;
          (A, B, C, D, E) = sha_rounds (schedule (Message_Block ctx)) (H ! 0, H ! 1, H ! 2, H ! 3, H ! 4)
      in ctx\<lparr>Message_Digest := [(H ! 0 + A) AND 0xFFFFFFFF, (H ! 1 + B) AND 0xFFFFFFFF,
               (H ! 2 + C) AND 0xFFFFFFFF, (H ! 3 + D) AND 0xFFFFFFFF, (H ! 4 + E) AND 0xFFFFFFFF],
             Message_Block_Index := 0\<rparr>)"

section \<open>The operations\<close>

text \<open>\<open>Message_Block[Message_Block_Index++] = v\<close>.\<close>

definition put_octet :: "u8 \<Rightarrow> SHA1Context \<Rightarrow> fault + SHA1Context" where
  "put_octet v ctx =
     (if Message_Block_Index ctx < 64
      then Inr (ctx\<lparr>Message_Block := (Message_Block ctx)[Message_Block_Index ctx := v],
                    Message_Block_Index := Message_Block_Index ctx + 1\<rparr>)
      else Inl OutOfBounds)"

definition SHA1Reset :: "SHA1Context \<Rightarrow> SHA1Context" where
  "SHA1Reset ctx = ctx\<lparr>Length_Low := 0, Length_High := 0, Message_Block_Index := 0,
     Message_Digest := [0x67452301, 0xEFCDAB89, 0x98BADCFE, 0x10325476, 0xC3D2E1F0],
     Computed := False, Corrupted := False\<rparr>"

text \<open>The bit counter: 64 bits in two words, the message is too long when it wraps.\<close>

definition count_bits :: "SHA1Context \<Rightarrow> SHA1Context" where
  "count_bits ctx =
     (let low = (Length_Low ctx + 8) AND 0xFFFFFFFF in
      if low = 0
      then let high = (Length_High ctx + 1) AND 0xFFFFFFFF
           in ctx\<lparr>Length_Low := low, Length_High := high, Corrupted := (high = 0 \<or> Corrupted ctx)\<rparr>
      else ctx\<lparr>Length_Low := low\<rparr>)"

definition input_octet :: "u8 \<Rightarrow> SHA1Context \<Rightarrow> fault + SHA1Context" where
  "input_octet c ctx =
     bind_res (put_octet (c AND 0xFF) ctx) (\<lambda>ctx.
       let ctx = count_bits ctx
       in Inr (if Message_Block_Index ctx = 64 then SHA1ProcessMessageBlock ctx else ctx))"

fun input_loop :: "u8 list \<Rightarrow> SHA1Context \<Rightarrow> fault + SHA1Context" where
  "input_loop [] ctx = Inr ctx"
| "input_loop (c # cs) ctx = (if Corrupted ctx then Inr ctx else bind_res (input_octet c ctx) (input_loop cs))"

text \<open>
  \<open>SHA1Input\<close>: the length of the Bigloo string goes through an \<open>unsigned\<close>, so that only
  the length modulo \<open>2\<^sup>3\<^sup>2\<close> is read.
\<close>

definition SHA1Input :: "SHA1Context \<Rightarrow> u8 list \<Rightarrow> fault + SHA1Context" where
  "SHA1Input ctx msg =
     (let len = length msg mod 2 ^ 32 in
      if len = 0 then Inr ctx
      else if Computed ctx \<or> Corrupted ctx then Inr (ctx\<lparr>Corrupted := True\<rparr>)
      else input_loop (take len msg) ctx)"

function pad_zeros :: "nat \<Rightarrow> SHA1Context \<Rightarrow> fault + SHA1Context" where
  "pad_zeros limit ctx =
     (if Message_Block_Index ctx < limit then bind_res (put_octet 0 ctx) (pad_zeros limit) else Inr ctx)"
  by pat_completeness auto
termination
  by (relation "measure (\<lambda>(limit, ctx). limit - Message_Block_Index ctx)")
    (auto simp: put_octet_def split: if_splits)

definition byte_at :: "nat \<Rightarrow> u32 \<Rightarrow> u8" where
  "byte_at n w = ucast (drop_bit n w) AND 0xFF"

definition store_length :: "SHA1Context \<Rightarrow> SHA1Context" where
  "store_length ctx = ctx\<lparr>Message_Block := (Message_Block ctx)
     [56 := byte_at 24 (Length_High ctx), 57 := byte_at 16 (Length_High ctx),
      58 := byte_at 8 (Length_High ctx), 59 := byte_at 0 (Length_High ctx),
      60 := byte_at 24 (Length_Low ctx), 61 := byte_at 16 (Length_Low ctx),
      62 := byte_at 8 (Length_Low ctx), 63 := byte_at 0 (Length_Low ctx)]\<rparr>"

definition SHA1PadMessage :: "SHA1Context \<Rightarrow> fault + SHA1Context" where
  "SHA1PadMessage ctx =
     bind_res
       (if Message_Block_Index ctx > 55
        then bind_res (bind_res (put_octet 0x80 ctx) (pad_zeros 64)) (\<lambda>ctx.
               pad_zeros 56 (SHA1ProcessMessageBlock ctx))
        else bind_res (put_octet 0x80 ctx) (pad_zeros 56))
       (\<lambda>ctx. Inr (SHA1ProcessMessageBlock (store_length ctx)))"

definition SHA1Result :: "SHA1Context \<Rightarrow> fault + (int \<times> SHA1Context)" where
  "SHA1Result ctx =
     (if Corrupted ctx then Inr (0, ctx)
      else if \<not> Computed ctx
        then bind_res (SHA1PadMessage ctx) (\<lambda>ctx. Inr (1, ctx\<lparr>Computed := True\<rparr>))
      else Inr (1, ctx))"

text \<open>
  \<open>re_get_sha1_digest\<close>: the output is the Bigloo string of the caller, written only when
  it has twenty bytes.
\<close>

definition re_get_sha1_digest :: "SHA1Context \<Rightarrow> u8 list \<Rightarrow> u8 list" where
  "re_get_sha1_digest ctx out =
     (if length out \<noteq> 20 then out
      else concat (map (\<lambda>w. [byte_at 24 w, byte_at 16 w, byte_at 8 w, byte_at 0 w])
             (map (\<lambda>i. Message_Digest ctx ! i) [0..<5])))"

declare pad_zeros.simps [simp del]

section \<open>The reference: FIPS 180\<close>

definition fips_f :: "nat \<Rightarrow> u32 \<Rightarrow> u32 \<Rightarrow> u32 \<Rightarrow> u32" where
  "fips_f t B C D =
     (if t < 20 then (B AND C) XOR (NOT B AND D)
      else if t < 40 then B XOR C XOR D
      else if t < 60 then (B AND C) XOR (B AND D) XOR (C AND D)
      else B XOR C XOR D)"

definition fips_K :: "nat \<Rightarrow> u32" where
  "fips_K t = [0x5A827999, 0x6ED9EBA1, 0x8F1BBCDC, 0xCA62C1D6] ! (t div 20)"

definition be_word :: "u8 list \<Rightarrow> u32" where
  "be_word bs = foldl (\<lambda>w b. push_bit 8 w OR ucast b) 0 bs"

fun fips_W :: "u8 list \<Rightarrow> nat \<Rightarrow> u32" where
  "fips_W blk t = (if t < 16 then be_word (take 4 (drop (4 * t) blk))
     else word_rotl 1 (fips_W blk (t - 3) XOR fips_W blk (t - 8) XOR fips_W blk (t - 14) XOR fips_W blk (t - 16)))"

definition fips_round :: "u8 list \<Rightarrow> nat \<Rightarrow> wordbuf \<Rightarrow> wordbuf" where
  "fips_round blk t = (\<lambda>(A, B, C, D, E).
     (word_rotl 5 A + fips_f t B C D + E + fips_W blk t + fips_K t, A, word_rotl 30 B, C, D))"

definition wb_list :: "wordbuf \<Rightarrow> u32 list" where
  "wb_list = (\<lambda>(A, B, C, D, E). [A, B, C, D, E])"

definition fips_compress :: "u8 list \<Rightarrow> u32 list \<Rightarrow> u32 list" where
  "fips_compress blk H =
     map2 (+) H (wb_list (fold (fips_round blk) [0..<80] (H ! 0, H ! 1, H ! 2, H ! 3, H ! 4)))"

function fips_hash :: "u8 list \<Rightarrow> u32 list \<Rightarrow> u32 list" where
  "fips_hash M H = (if length M < 64 then H else fips_hash (drop 64 M) (fips_compress (take 64 M) H))"
  by pat_completeness auto
termination by (relation "measure (\<lambda>(M, H). length M)") auto

definition be_bytes :: "nat \<Rightarrow> nat \<Rightarrow> u8 list" where
  "be_bytes k n = map (\<lambda>i. word_of_nat (n div 256 ^ (k - 1 - i))) [0..<k]"

definition fips_pad :: "u8 list \<Rightarrow> u8 list" where
  "fips_pad M = M @ [0x80] @ replicate ((119 - length M mod 64) mod 64) 0 @ be_bytes 8 (8 * length M)"

definition fips_init :: "u32 list" where
  "fips_init = [0x67452301, 0xEFCDAB89, 0x98BADCFE, 0x10325476, 0xC3D2E1F0]"

definition sha1_spec :: "u8 list \<Rightarrow> u8 list" where
  "sha1_spec M = concat (map (\<lambda>w. be_bytes 4 (unat w)) (fips_hash (fips_pad M) fips_init))"

declare fips_W.simps [simp del] fips_hash.simps [simp del]

section \<open>One block\<close>

lemma mask32 [simp]: "(w :: u32) AND 0xFFFFFFFF = w"
proof -
  have "(0xFFFFFFFF :: u32) = - 1" by simp
  then show ?thesis by (simp only: and.right_neutral)
qed

lemma mask8 [simp]: "(w :: u8) AND 0xFF = w"
proof -
  have "(0xFF :: u8) = - 1" by simp
  then show ?thesis by (simp only: and.right_neutral)
qed

lemma SHA1CircularShift_rotl: "n < 32 \<Longrightarrow> SHA1CircularShift n w = word_rotl n w"
proof (intro bit_word_eqI)
  fix i assume n: "n < 32" and i: "i < LENGTH(32)"
  then have "(i + 32 - n) mod 32 = (if n \<le> i then i - n else 32 + i - n)"
    by (auto simp: mod_if)
  with n i show "bit (SHA1CircularShift n w) i = bit (word_rotl n w) i"
    by (auto simp: SHA1CircularShift_def bit_word_rotl_iff bit_simps dest: bit_imp_le_length)
qed

lemma be_word4: "be_word [a, b, c, d] =
    ((push_bit 24 (ucast a) OR push_bit 16 (ucast b)) OR push_bit 8 (ucast c)) OR ucast d"
  by (simp add: be_word_def push_bit_or push_bit_push_bit)

lemma take4: "4 * t + 4 \<le> length blk \<Longrightarrow>
    take 4 (drop (4 * t) blk) = [blk ! (t * 4), blk ! (t * 4 + 1), blk ! (t * 4 + 2), blk ! (t * 4 + 3)]"
  by (rule nth_equalityI) (auto simp: less_Suc_eq numeral_eq_Suc ac_simps)

lemma block_word_fips: "length blk = 64 \<Longrightarrow> t < 16 \<Longrightarrow> block_word blk t = fips_W blk t"
  by (simp add: block_word_def fips_W.simps [of blk t] take4 be_word4)

lemma schedule_fips: 
  assumes "length blk = 64"
  shows "schedule blk = map (fips_W blk) [0..<80]"
proof -
  have "n \<le> 64 \<Longrightarrow> fold schedule_step [16..<16 + n] (map (block_word blk) [0..<16]) =
      map (fips_W blk) [0..<16 + n]" for n
  proof (induction n)
    case 0
    then show ?case using assms by (simp add: block_word_fips del: upt_rec_numeral upt_Suc)
  next
    case (Suc n)
    have "fips_W blk (16 + n) = SHA1CircularShift 1 (fips_W blk (13 + n) XOR fips_W blk (8 + n)
        XOR fips_W blk (2 + n) XOR fips_W blk n)"
      by (subst fips_W.simps) (simp add: SHA1CircularShift_rotl)
    with Suc.prems have "schedule_step (16 + n) (map (fips_W blk) [0..<16 + n]) =
        map (fips_W blk) [0..<16 + n] @ [fips_W blk (16 + n)]"
      by (simp add: schedule_step_def)
    moreover have "[16..<16 + Suc n] = [16..<16 + n] @ [16 + n]" "[0..<16 + Suc n] = [0..<16 + n] @ [16 + n]"
      by (simp_all only: add_Suc_right upt_Suc_append le_add1 le0)
    ultimately show ?case using Suc by (simp only:) simp
  qed
  from this [of 64] show ?thesis by (simp add: schedule_def del: upt_rec_numeral)
qed

lemma fold_cong_upt: "(\<And>t x. t \<in> set ts \<Longrightarrow> f t x = g t x) \<Longrightarrow> fold f ts x = fold g ts x"
  by (induction ts arbitrary: x) auto

lemma ch_xor: "(B AND C) OR (NOT B AND D) = (B AND C) XOR (NOT B AND D)" for B :: u32
  by (auto simp: bit_eq_iff bit_simps)

lemma maj_xor: "((B AND C) OR (B AND D)) OR (C AND D) = (B AND C) XOR (B AND D) XOR (C AND D)" for B :: u32
  by (auto simp: bit_eq_iff bit_simps)

lemma upt_split: "i \<le> j \<Longrightarrow> j \<le> k \<Longrightarrow> [i..<k] = [i..<j] @ [j..<k]"
  using upt_add_eq_append [of i j "k - j"] by simp

lemma upt80: "[0..<80] = [0..<20] @ [20..<40] @ [40..<60] @ [60..<80]"
  by (simp only: upt_split [of 0 20 80] upt_split [of 20 40 80] upt_split [of 40 60 80]) 

lemma fips_K_eq:
  "t < 20 \<Longrightarrow> fips_K t = 0x5A827999"
  "20 \<le> t \<Longrightarrow> t < 40 \<Longrightarrow> fips_K t = 0x6ED9EBA1"
  "40 \<le> t \<Longrightarrow> t < 60 \<Longrightarrow> fips_K t = 0x8F1BBCDC"
  "60 \<le> t \<Longrightarrow> t < 80 \<Longrightarrow> fips_K t = 0xCA62C1D6"
proof -
  have k: "t div 20 = k \<Longrightarrow> fips_K t = [0x5A827999, 0x6ED9EBA1, 0x8F1BBCDC, 0xCA62C1D6] ! k" for k
    by (simp add: fips_K_def)
  show "t < 20 \<Longrightarrow> fips_K t = 0x5A827999" using k [of 0] by simp
  show "20 \<le> t \<Longrightarrow> t < 40 \<Longrightarrow> fips_K t = 0x6ED9EBA1" using k [of 1] by (simp add: div_nat_eqI)
  show "40 \<le> t \<Longrightarrow> t < 60 \<Longrightarrow> fips_K t = 0x8F1BBCDC" using k [of 2] by (simp add: div_nat_eqI)
  show "60 \<le> t \<Longrightarrow> t < 80 \<Longrightarrow> fips_K t = 0xCA62C1D6" using k [of 3] by (simp add: div_nat_eqI)
qed

lemma sha_round_fips:
  assumes "length blk = 64" "t < 80" "\<And>B C D. f B C D = fips_f t B C D" "K = fips_K t"
  shows "sha_round f K (schedule blk) t = fips_round blk t"
  using assms by (simp add: sha_round_def fips_round_def schedule_fips SHA1CircularShift_rotl fun_eq_iff Let_def
    del: upt_rec_numeral)

lemma sha_segment:
  assumes "length blk = 64" "b \<le> 80"
    and "\<And>t B C D. a \<le> t \<Longrightarrow> t < b \<Longrightarrow> f B C D = fips_f t B C D"
    and "\<And>t. a \<le> t \<Longrightarrow> t < b \<Longrightarrow> K = fips_K t"
  shows "fold (sha_round f K (schedule blk)) [a..<b] = fold (fips_round blk) [a..<b]"
proof
  fix x
  show "fold (sha_round f K (schedule blk)) [a..<b] x = fold (fips_round blk) [a..<b] x"
    by (rule fold_cong_upt, subst sha_round_fips) (use assms in auto)
qed

lemma sha_rounds_fips:
  assumes "length blk = 64"
  shows "sha_rounds (schedule blk) x = fold (fips_round blk) [0..<80] x"
proof -
  note seg = sha_segment [OF assms]
  have "fold (sha_round (\<lambda>B C D. (B AND C) OR (NOT B AND D)) 0x5A827999 (schedule blk)) [0..<20]
      = fold (fips_round blk) [0..<20]"
    by (rule seg) (simp_all add: fips_f_def ch_xor fips_K_eq)
  moreover have "fold (sha_round (\<lambda>B C D. B XOR C XOR D) 0x6ED9EBA1 (schedule blk)) [20..<40]
      = fold (fips_round blk) [20..<40]"
    by (rule seg) (simp_all add: fips_f_def fips_K_eq)
  moreover have "fold (sha_round (\<lambda>B C D. ((B AND C) OR (B AND D)) OR (C AND D)) 0x8F1BBCDC (schedule blk)) [40..<60]
      = fold (fips_round blk) [40..<60]"
    by (rule seg) (simp_all add: fips_f_def maj_xor fips_K_eq)
  moreover have "fold (sha_round (\<lambda>B C D. B XOR C XOR D) 0xCA62C1D6 (schedule blk)) [60..<80]
      = fold (fips_round blk) [60..<80]"
    by (rule seg) (simp_all add: fips_f_def fips_K_eq)
  ultimately show ?thesis
    unfolding sha_rounds_def upt80 fold_append o_apply by (simp only:)
qed

definition sha_shape :: "SHA1Context \<Rightarrow> bool" where
  "sha_shape ctx \<longleftrightarrow> length (Message_Digest ctx) = 5 \<and> length (Message_Block ctx) = 64"

lemma list5: "length H = 5 \<Longrightarrow> H = [H ! 0, H ! 1, H ! 2, H ! 3, H ! 4]"
  by (rule nth_equalityI) (auto simp: less_Suc_eq numeral_eq_Suc)

lemma process_fips:
  assumes "sha_shape ctx"
  shows "SHA1ProcessMessageBlock ctx =
    ctx\<lparr>Message_Digest := fips_compress (Message_Block ctx) (Message_Digest ctx), Message_Block_Index := 0\<rparr>"
proof -
  let ?H = "Message_Digest ctx"
  obtain A B C D E where r: "fold (fips_round (Message_Block ctx)) [0..<80]
      (?H ! 0, ?H ! 1, ?H ! 2, ?H ! 3, ?H ! 4) = (A, B, C, D, E)"
    by (metis surj_pair)
  have l: "map2 (+) ?H [A, B, C, D, E] = [?H ! 0 + A, ?H ! 1 + B, ?H ! 2 + C, ?H ! 3 + D, ?H ! 4 + E]"
    using assms by (subst list5) (auto simp: sha_shape_def)
  show ?thesis
    using assms
    by (simp add: SHA1ProcessMessageBlock_def fips_compress_def sha_shape_def sha_rounds_fips r [unfolded One_nat_def]
      wb_list_def l [unfolded One_nat_def] Let_def del: upt_rec_numeral)
qed

lemma length_fips_compress [simp]: "length H = 5 \<Longrightarrow> length (fips_compress blk H) = 5"
  by (simp add: fips_compress_def wb_list_def split: prod.split)

section \<open>Streaming\<close>

text \<open>
  What the context stands for: the bytes \<open>M\<close> read so far, whole blocks hashed, the rest
  in the message block, the bit count in the two length words.
\<close>

definition sha_abs :: "SHA1Context \<Rightarrow> u8 list \<Rightarrow> bool" where
  "sha_abs ctx M \<longleftrightarrow> sha_shape ctx \<and> \<not> Computed ctx \<and> \<not> Corrupted ctx \<and>
     Message_Block_Index ctx = length M mod 64 \<and>
     take (length M mod 64) (Message_Block ctx) = drop (64 * (length M div 64)) M \<and>
     Message_Digest ctx = fips_hash (take (64 * (length M div 64)) M) fips_init \<and>
     unat (Length_High ctx) * 2 ^ 32 + unat (Length_Low ctx) = 8 * length M \<and> 8 * length M < 2 ^ 64"

lemma fips_hash_append: "length P mod 64 = 0 \<Longrightarrow> fips_hash (P @ Q) H = fips_hash Q (fips_hash P H)"
proof (induction P H rule: fips_hash.induct)
  case (1 M H)
  show ?case
  proof (cases "length M < 64")
    case True
    with 1(2) have "M = []" by simp
    then show ?thesis by (simp add: fips_hash.simps [of "[]"])
  next
    case False
    with 1(2) have "length (drop 64 M) mod 64 = 0" by (simp add: le_mod_geq)
    with 1 False show ?thesis
      by (subst (1 3) fips_hash.simps) simp
  qed
qed

lemma fips_hash_block: "length B = 64 \<Longrightarrow> fips_hash B H = fips_compress B H"
  by (subst fips_hash.simps) (simp add: fips_hash.simps [of "[]"])

lemma length_fips_hash [simp]: "length H = 5 \<Longrightarrow> length (fips_hash M H) = 5"
proof (induction M H rule: fips_hash.induct)
  case (1 M H)
  then show ?case by (subst fips_hash.simps) simp
qed

lemma length_fips_init [simp]: "length fips_init = 5"
  by (simp add: fips_init_def)

text \<open>Both words of the bit counter together, as long as it does not wrap.\<close>

lemma count_bits_value:
  assumes "unat (Length_High ctx) * 2 ^ 32 + unat (Length_Low ctx) = 8 * n" "8 * (n + 1) < 2 ^ 64"
  shows "unat (Length_High (count_bits ctx)) * 2 ^ 32 + unat (Length_Low (count_bits ctx)) = 8 * (n + 1)"
    and "Corrupted (count_bits ctx) = Corrupted ctx"
proof -
  let ?h = "unat (Length_High ctx)" and ?l = "unat (Length_Low ctx)"
  have b: "?l < 2 ^ 32" "?h < 2 ^ 32" using unat_less_32 by simp_all
  have p: "(2 :: nat) ^ 32 = 4294967296" by simp
  have l: "unat (Length_Low ctx + 8) = (?l + 8) mod 2 ^ 32"
    by (simp add: unat_word_ariths)
  have "8 dvd ?h * 2 ^ 32 + ?l" unfolding assms(1) by simp
  moreover have "8 dvd ?h * 2 ^ 32" by (simp add: p)
  ultimately have "8 dvd ?l" by (simp only: dvd_add_right_iff)
  then obtain m where m: "?l = 8 * m" by blast
  with b have "m < 536870912" by (simp add: p)
  then have cs: "?l + 8 = 2 ^ 32 \<or> ?l + 8 < 2 ^ 32" using m p by linarith
  have z: "Length_Low ctx + 8 = 0 \<longleftrightarrow> ?l + 8 = 2 ^ 32"
    using l cs by (metis add_is_0 less_numeral_extra(3) mod_less mod_self unat_eq_zero zero_neq_numeral)
  show "unat (Length_High (count_bits ctx)) * 2 ^ 32 + unat (Length_Low (count_bits ctx)) = 8 * (n + 1)"
    "Corrupted (count_bits ctx) = Corrupted ctx"
  proof (atomize (full), cases "Length_Low ctx + 8 = 0")
    case True
    then have l8: "?l + 8 = 2 ^ 32" using z by simp
    then have "?h + 1 < 2 ^ 32" using assms by simp
    then have "unat (Length_High ctx + 1) = ?h + 1" by (simp add: unat_word_ariths)
    moreover from this have "Length_High ctx + 1 \<noteq> 0" by (metis Suc_eq_plus1 nat.distinct(1) unat_0)
    ultimately show "unat (Length_High (count_bits ctx)) * 2 ^ 32 + unat (Length_Low (count_bits ctx)) = 8 * (n + 1)
      \<and> Corrupted (count_bits ctx) = Corrupted ctx"
      using True l8 assms(1) by (simp add: count_bits_def)
  next
    case False
    then have "?l + 8 < 2 ^ 32" using z cs by simp
    with False l assms(1) show "unat (Length_High (count_bits ctx)) * 2 ^ 32 + unat (Length_Low (count_bits ctx)) = 8 * (n + 1)
      \<and> Corrupted (count_bits ctx) = Corrupted ctx"
      by (simp add: count_bits_def)
  qed
qed

lemma count_bits_frame [simp]:
  "Message_Digest (count_bits ctx) = Message_Digest ctx"
  "Message_Block (count_bits ctx) = Message_Block ctx"
  "Message_Block_Index (count_bits ctx) = Message_Block_Index ctx"
  "Computed (count_bits ctx) = Computed ctx"
  by (simp_all add: count_bits_def Let_def)

lemma div_mod_Suc64:
  fixes n :: nat
  shows "n mod 64 < 63 \<Longrightarrow> Suc n mod 64 = Suc (n mod 64)" "n mod 64 < 63 \<Longrightarrow> Suc n div 64 = n div 64"
    "n mod 64 = 63 \<Longrightarrow> Suc n mod 64 = 0" "n mod 64 = 63 \<Longrightarrow> 64 * (Suc n div 64) = Suc n"
proof -
  show m: "n mod 64 = 63 \<Longrightarrow> Suc n mod 64 = 0" by (simp add: mod_Suc)
  show "n mod 64 = 63 \<Longrightarrow> 64 * (Suc n div 64) = Suc n" using m mult_div_mod_eq [of 64 "Suc n"] by simp
qed (simp_all add: mod_Suc div_Suc)

lemma input_octet_abs:
  assumes a: "sha_abs ctx M" and len: "8 * (length M + 1) < 2 ^ 64"
  shows "\<exists>ctx'. input_octet c ctx = Inr ctx' \<and> sha_abs ctx' (M @ [c])"
proof -
  let ?r = "length M mod 64" and ?q = "64 * (length M div 64)"
  let ?B = "(Message_Block ctx)[?r := c]"
  let ?c = "ctx\<lparr>Message_Block := ?B, Message_Block_Index := ?r + 1\<rparr>"
  have sh: "length (Message_Digest ctx) = 5" "length (Message_Block ctx) = 64" "Message_Block_Index ctx = ?r"
    and fl: "\<not> Computed ctx" "\<not> Corrupted ctx"
    and blk: "take ?r (Message_Block ctx) = drop ?q M"
    and dig: "Message_Digest ctx = fips_hash (take ?q M) fips_init"
    and cnt: "unat (Length_High ctx) * 2 ^ 32 + unat (Length_Low ctx) = 8 * length M"
    using a by (auto simp: sha_abs_def sha_shape_def)
  have put: "put_octet (c AND 0xFF) ctx = Inr ?c"
    using sh by (simp add: put_octet_def)
  have cb: "unat (Length_High (count_bits ?c)) * 2 ^ 32 + unat (Length_Low (count_bits ?c)) = 8 * (length M + 1)"
    "\<not> Corrupted (count_bits ?c)"
    using count_bits_value [of ?c "length M"] cnt len fl by simp_all
  have tk: "take (Suc ?r) ?B = drop ?q M @ [c]"
    using sh blk by (simp add: take_Suc_conv_app_nth take_update_cancel)
  have qle: "?q \<le> length M" by (simp add: minus_mod_eq_mult_div [symmetric])
  show ?thesis
  proof (cases "?r = 63")
    case False
    then have r: "?r < 63" using mod_less_divisor [of 64 "length M"] by linarith
    have "sha_abs (count_bits ?c) (M @ [c])"
      using sh fl tk dig qle cb len div_mod_Suc64(1,2) [OF r] by (simp add: sha_abs_def sha_shape_def)
    then show ?thesis using put r by (simp add: input_octet_def Let_def)
  next
    case True
    have full: "?B = drop ?q M @ [c]" using tk sh True by simp
    have l64: "length (drop ?q M @ [c]) = 64" using full sh by (metis length_list_update)
    have app: "take ?q M @ (drop ?q M @ [c]) = M @ [c]" by (simp only: append_assoc [symmetric] append_take_drop_id)
    have "fips_hash (take ?q M @ (drop ?q M @ [c])) fips_init = fips_compress ?B (Message_Digest ctx)"
      using qle unfolding full dig fips_hash_block [OF l64, symmetric]
      by (intro fips_hash_append) (simp add: min_absorb2)
    then have "fips_hash (M @ [c]) fips_init = fips_compress ?B (Message_Digest ctx)" unfolding app .
    then have "sha_abs (SHA1ProcessMessageBlock (count_bits ?c)) (M @ [c])"
      using sh fl cb len div_mod_Suc64(3,4) [OF True]
      by (simp add: process_fips sha_abs_def sha_shape_def)
    then show ?thesis using put True by (simp add: input_octet_def Let_def)
  qed
qed

lemma input_loop_abs:
  "sha_abs ctx M \<Longrightarrow> 8 * (length M + length cs) < 2 ^ 64 \<Longrightarrow>
   \<exists>ctx'. input_loop cs ctx = Inr ctx' \<and> sha_abs ctx' (M @ cs)"
proof (induction cs arbitrary: ctx M)
  case (Cons c cs)
  obtain ctx1 where "input_octet c ctx = Inr ctx1" "sha_abs ctx1 (M @ [c])"
    using input_octet_abs [OF Cons.prems(1)] Cons.prems(2) by force
  moreover have "\<not> Corrupted ctx" using Cons.prems(1) by (simp add: sha_abs_def)
  ultimately show ?case using Cons.IH [of ctx1 "M @ [c]"] Cons.prems(2) by simp
qed simp

lemma SHA1Input_abs:
  assumes "sha_abs ctx M" "8 * (length M + length cs) < 2 ^ 64" "length cs < 2 ^ 32"
  shows "\<exists>ctx'. SHA1Input ctx cs = Inr ctx' \<and> sha_abs ctx' (M @ cs)"
proof (cases "cs = []")
  case False
  moreover have "\<not> Computed ctx \<and> \<not> Corrupted ctx" using assms(1) by (simp add: sha_abs_def)
  moreover have "length cs mod 2 ^ 32 = length cs" using assms(3) by (rule mod_less)
  ultimately show ?thesis
    using input_loop_abs [OF assms(1,2)] unfolding SHA1Input_def Let_def by simp
qed (use assms(1) in \<open>simp add: SHA1Input_def\<close>)

lemma SHA1Reset_abs: "sha_shape ctx \<Longrightarrow> sha_abs (SHA1Reset ctx) []"
  by (simp add: sha_abs_def sha_shape_def SHA1Reset_def fips_init_def fips_hash.simps [of "[]"])

section \<open>Padding\<close>

lemma pad_zeros_eq:
  assumes "Message_Block_Index ctx \<le> limit" "limit \<le> length (Message_Block ctx)" "length (Message_Block ctx) = 64"
  shows "pad_zeros limit ctx = Inr (ctx\<lparr>Message_Block :=
      take (Message_Block_Index ctx) (Message_Block ctx) @ replicate (limit - Message_Block_Index ctx) 0
        @ drop limit (Message_Block ctx), Message_Block_Index := limit\<rparr>)"
  using assms
proof (induction limit ctx rule: pad_zeros.induct)
  case (1 limit ctx)
  let ?i = "Message_Block_Index ctx" and ?B = "Message_Block ctx"
  show ?case
  proof (cases "?i < limit")
    case True
    let ?c = "ctx\<lparr>Message_Block := ?B[?i := 0], Message_Block_Index := ?i + 1\<rparr>"
    have put: "put_octet 0 ctx = Inr ?c" using True 1 by (simp add: put_octet_def)
    have "take (Suc ?i) (?B[?i := 0]) = take ?i ?B @ [0]"
      using True 1 by (simp add: take_Suc_conv_app_nth take_update_cancel)
    moreover have "replicate (limit - ?i) (0 :: u8) = 0 # replicate (limit - Suc ?i) 0"
      using True by (metis Suc_diff_Suc replicate_Suc)
    ultimately show ?thesis
      using 1(1) [OF True put] put True 1
      by (subst pad_zeros.simps) simp
  next
    case False
    with 1 have "limit = ?i" by simp
    then show ?thesis by (subst pad_zeros.simps) simp
  qed
qed

lemma byte_at_nat: "byte_at k w = word_of_nat (unat w div 2 ^ k)"
proof -
  have "ucast (drop_bit k w) = (of_nat (unat (drop_bit k w)) :: u8)"
    by (simp only: of_nat_unat)
  then show ?thesis
    unfolding byte_at_def mask8 by (simp only: unat_drop_bit_eq) (simp only: drop_bit_eq_div)
qed

lemma be_bytes_split:
  assumes "l < 2 ^ 32"
  shows "be_bytes 8 (h * 2 ^ 32 + l) = be_bytes 4 h @ be_bytes 4 l"
proof -
  have hi: "(h * 2 ^ 32 + l) div 256 ^ (4 + i) = h div 256 ^ i" for i
  proof -
    have "(h * 2 ^ 32 + l) div 256 ^ 4 = h" using assms by simp
    then show ?thesis by (simp only: power_add div_mult2_eq)
  qed
  have lo: "(word_of_nat ((h * 2 ^ 32 + l) div 256 ^ i) :: u8) = word_of_nat (l div 256 ^ i)" if "i < 4" for i
  proof -
    have "(256 :: nat) ^ (3 - i) * 256 ^ i = 256 ^ 3"
      using that by (simp only: power_add [symmetric]) simp
    then have "h * 2 ^ 32 = (h * 256 * 256 ^ (3 - i)) * 256 ^ i"
      by (simp only: mult.assoc) simp
    then have "(h * 2 ^ 32 + l) div 256 ^ i = h * 256 * 256 ^ (3 - i) + l div 256 ^ i"
      by (simp only:) simp
    then have "word_of_nat ((h * 2 ^ 32 + l) div 256 ^ i) = (word_of_nat (h * 256 ^ (3 - i) * 256) + word_of_nat (l div 256 ^ i) :: u8)"
      by (simp add: ac_simps)
    moreover have "(256 :: u8) = 0" by simp
    ultimately show ?thesis by (simp only: of_nat_mult of_nat_numeral) simp
  qed
  have e: "[0..<8] = [0, 1, 2, 3, 4, 5, 6, 7]" "[0..<4] = [0, 1, 2, 3]" by (simp_all add: upt_rec)
  show ?thesis
    unfolding be_bytes_def e using hi [of 3] hi [of 2] hi [of 1] hi [of 0] lo [of 3] lo [of 2] lo [of 1] lo [of 0]
    by simp
qed

lemma be_bytes_u32: "[byte_at 24 w, byte_at 16 w, byte_at 8 w, byte_at 0 w] = be_bytes 4 (unat w)"
  by (simp add: byte_at_nat be_bytes_def upt_rec)

lemma length_be_bytes [simp]: "length (be_bytes k n) = k"
  by (simp add: be_bytes_def)

lemma store_length_block:
  assumes "length (Message_Block ctx) = 64"
  shows "Message_Block (store_length ctx) = take 56 (Message_Block ctx)
    @ be_bytes 8 (unat (Length_High ctx) * 2 ^ 32 + unat (Length_Low ctx))"
proof -
  let ?B = "Message_Block ctx"
  have upd: "B[56 := a, 57 := b, 58 := c, 59 := d, 60 := e, 61 := f, 62 := g, 63 := h] = take 56 B @ [a, b, c, d, e, f, g, h]"
    if "length B = 64" for B :: "u8 list" and a b c d e f g h
    using that by (intro nth_equalityI) (auto simp: nth_append nth_list_update nth_Cons')
  show ?thesis
    using unat_less_32
    by (subst be_bytes_split) (simp_all add: store_length_def upd [OF assms] be_bytes_u32 [symmetric])
qed

lemma pad_count:
  "r < 64 \<Longrightarrow> (119 - r) mod 64 = (if r \<le> 55 then 55 - r else 119 - r)" for r :: nat
  by (auto simp: mod_if)

lemma SHA1PadMessage_abs:
  assumes a: "sha_abs ctx M"
  shows "\<exists>ctx'. SHA1PadMessage ctx = Inr ctx' \<and> sha_shape ctx' \<and> \<not> Corrupted ctx' \<and>
    Message_Digest ctx' = fips_hash (fips_pad M) fips_init"
proof -
  let ?r = "length M mod 64" and ?q = "64 * (length M div 64)" and ?B = "Message_Block ctx"
  have sh: "length (Message_Digest ctx) = 5" "length ?B = 64" "Message_Block_Index ctx = ?r"
    and fl: "\<not> Corrupted ctx" and blk: "take ?r ?B = drop ?q M"
    and dig: "Message_Digest ctx = fips_hash (take ?q M) fips_init"
    and cnt: "unat (Length_High ctx) * 2 ^ 32 + unat (Length_Low ctx) = 8 * length M"
    using a by (auto simp: sha_abs_def sha_shape_def)
  let ?R = "drop ?q M" and ?L = "be_bytes 8 (8 * length M)"
  let ?c = "ctx\<lparr>Message_Block := ?B[?r := 0x80], Message_Block_Index := Suc ?r\<rparr>"
  have r: "?r < 64" by simp
  have put: "put_octet 0x80 ctx = Inr ?c" using sh by (simp add: put_octet_def)
  have tk: "take (Suc ?r) (?B[?r := 0x80]) = ?R @ [0x80]"
    using sh blk by (simp add: take_Suc_conv_app_nth take_update_cancel)
  have lenR: "length ?R = ?r" using blk sh by (metis length_take min_absorb2 less_imp_le r)
  have hq: "fips_hash (take ?q M @ X) fips_init = fips_hash X (Message_Digest ctx)" for X
    unfolding dig by (rule fips_hash_append) (simp add: min_absorb2)
  have pad: "fips_pad M = take ?q M @ ?R @ [0x80] @ replicate ((119 - ?r) mod 64) 0 @ ?L"
    unfolding fips_pad_def by (simp only: append_assoc [symmetric] append_take_drop_id)
  show ?thesis
  proof (cases "?r \<le> 55")
    case True
    let ?d = "?c\<lparr>Message_Block := ?R @ [0x80] @ replicate (55 - ?r) 0 @ drop 56 (?B[?r := 0x80]),
      Message_Block_Index := 56\<rparr>"
    have pz: "pad_zeros 56 ?c = Inr ?d"
      using sh True tk by (subst pad_zeros_eq) auto
    have "56 - ?r = Suc (55 - ?r)" using True by simp
    then have "Message_Block (store_length ?d) = ?R @ [0x80] @ replicate (55 - ?r) 0 @ ?L"
      using sh lenR True cnt by (subst store_length_block) auto
    moreover have "sha_shape (store_length ?d)"
      using sh lenR True by (auto simp: sha_shape_def store_length_def)
    moreover have "length (?R @ [0x80] @ replicate (55 - ?r) 0 @ ?L) = 64"
      using lenR True by (simp add: be_bytes_def)
    ultimately show ?thesis
      using True sh put pz fl lenR hq pad fips_hash_block
      by (simp add: SHA1PadMessage_def process_fips pad_count sha_shape_def store_length_def)
  next
    case False
    define F where "F = ?R @ [0x80] @ replicate (63 - ?r) 0"
    let ?d = "?c\<lparr>Message_Block := F, Message_Block_Index := 64\<rparr>"
    let ?e = "?d\<lparr>Message_Digest := fips_compress F (Message_Digest ctx),
      Message_Block := replicate 56 0 @ drop 56 F, Message_Block_Index := 56\<rparr>"
    have lF: "length F = 64" using lenR r False by (simp add: F_def)
    have pz: "pad_zeros 64 ?c = Inr ?d"
      using sh r tk by (subst pad_zeros_eq) (auto simp: F_def)
    have "sha_shape ?d" using sh lF by (simp add: sha_shape_def)
    note pf = process_fips [OF this]
    have pz2: "pad_zeros 56 (SHA1ProcessMessageBlock ?d) = Inr ?e"
      unfolding pf using lF by (subst pad_zeros_eq) auto
    have mb: "Message_Block (store_length ?e) = replicate 56 0 @ ?L"
      using lF cnt by (subst store_length_block) auto
    moreover have "sha_shape (store_length ?e)"
      using sh lF by (auto simp: sha_shape_def store_length_def)
    moreover have l2: "length (replicate 56 0 @ ?L) = 64" by (simp add: be_bytes_def)
    moreover have "fips_hash (F @ replicate 56 0 @ ?L) (Message_Digest ctx) =
        fips_compress (replicate 56 0 @ ?L) (fips_compress F (Message_Digest ctx))"
      using lF by (simp only: fips_hash_append fips_hash_block [OF lF] fips_hash_block [OF l2] mod_self)
    moreover have "replicate (119 - ?r) (0 :: u8) = replicate (63 - ?r) 0 @ replicate 56 0"
      using r by (simp only: replicate_add [symmetric]) simp
    moreover have "fips_pad M = take ?q M @ F @ replicate 56 0 @ ?L"
      using pad pad_count [OF r] False \<open>replicate (119 - ?r) 0 = _\<close> by (simp add: F_def)
    ultimately show ?thesis
      using False sh put pz pz2 fl hq
      by (simp add: SHA1PadMessage_def process_fips) (simp add: sha_shape_def store_length_def)
  qed
qed

section \<open>The digest\<close>

lemma corrupted_frame [simp]:
  "Corrupted (SHA1ProcessMessageBlock ctx) = Corrupted ctx"
  "Corrupted (store_length ctx) = Corrupted ctx"
  "put_octet v ctx = Inr ctx' \<Longrightarrow> Corrupted ctx' = Corrupted ctx"
  by (auto simp: SHA1ProcessMessageBlock_def store_length_def put_octet_def Let_def split: prod.splits if_splits)

lemma pad_zeros_corrupted [simp]: "pad_zeros limit ctx = Inr ctx' \<Longrightarrow> Corrupted ctx' = Corrupted ctx"
proof (induction limit ctx rule: pad_zeros.induct)
  case (1 limit ctx)
  from 1(2) show ?case
    unfolding pad_zeros.simps [of limit ctx] using 1(1) by (auto simp: bind_res_eq_Inr split: if_splits)
qed

text \<open>\<open>SHA1Input\<close> on each chunk in turn, as the Scheme side of \<open>sha1()\<close> may call it.\<close>

fun sha1_feed :: "u8 list list \<Rightarrow> SHA1Context \<Rightarrow> fault + SHA1Context" where
  "sha1_feed [] ctx = Inr ctx"
| "sha1_feed (m # ms) ctx = bind_res (SHA1Input ctx m) (sha1_feed ms)"

definition sha1_run :: "SHA1Context \<Rightarrow> u8 list list \<Rightarrow> u8 list \<Rightarrow> fault + (int \<times> u8 list)" where
  "sha1_run ctx ms out =
     bind_res (sha1_feed ms (SHA1Reset ctx)) (\<lambda>ctx.
     bind_res (SHA1Result ctx) (\<lambda>(r, ctx). Inr (r, re_get_sha1_digest ctx out)))"

lemma sha1_feed_abs:
  "sha_abs ctx M \<Longrightarrow> 8 * (length M + length (concat ms)) < 2 ^ 64 \<Longrightarrow> \<forall>m \<in> set ms. length m < 2 ^ 32 \<Longrightarrow>
   \<exists>ctx'. sha1_feed ms ctx = Inr ctx' \<and> sha_abs ctx' (M @ concat ms)"
proof (induction ms arbitrary: ctx M)
  case (Cons m ms)
  obtain ctx1 where "SHA1Input ctx m = Inr ctx1" "sha_abs ctx1 (M @ m)"
    using SHA1Input_abs [OF Cons.prems(1), of m] Cons.prems(2,3) by force
  then show ?case using Cons.IH [of ctx1 "M @ m"] Cons.prems(2,3) by simp
qed simp

lemma digest_bytes:
  "length out = 20 \<Longrightarrow> length (Message_Digest ctx) = 5 \<Longrightarrow>
   re_get_sha1_digest ctx out = concat (map (\<lambda>w. be_bytes 4 (unat w)) (Message_Digest ctx))"
proof -
  assume "length out = 20" and l: "length (Message_Digest ctx) = 5"
  moreover from l have "map ((!) (Message_Digest ctx)) [0..<5] = Message_Digest ctx" by (metis map_nth)
  ultimately show ?thesis
    unfolding re_get_sha1_digest_def be_bytes_u32 by (simp only:) simp
qed

text \<open>
  C1. The routine computes SHA-1 as FIPS 180 defines it: reset, any number of inputs cut at
  any places, result and extraction never fault, report success, and the twenty bytes are
  the padded message's hash, so they depend on the concatenation of the chunks only.
\<close>

theorem sha1_correct:
  assumes "length (Message_Digest ctx) = 5" "length (Message_Block ctx) = 64"
    and "\<forall>m \<in> set ms. length m < 2 ^ 32" "8 * length (concat ms) < 2 ^ 64" "length out = 20"
  shows "sha1_run ctx ms out = Inr (1, sha1_spec (concat ms))"
proof -
  have "sha_abs (SHA1Reset ctx) []" using assms by (simp add: SHA1Reset_abs sha_shape_def)
  then obtain c1 where c1: "sha1_feed ms (SHA1Reset ctx) = Inr c1" "sha_abs c1 (concat ms)"
    using sha1_feed_abs [of "SHA1Reset ctx" "[]" ms] assms by force
  then obtain c2 where c2: "SHA1PadMessage c1 = Inr c2" "sha_shape c2"
    "Message_Digest c2 = fips_hash (fips_pad (concat ms)) fips_init"
    using SHA1PadMessage_abs by blast
  moreover have "\<not> Computed c1" "\<not> Corrupted c1" using c1 by (simp_all add: sha_abs_def)
  ultimately show ?thesis
    using c1 assms by (simp add: sha1_run_def SHA1Result_def sha1_spec_def digest_bytes sha_shape_def)
qed

theorem sha1_correct_witness:
  "\<exists>ctx. sha1_run ctx [[0x61, 0x62], [0x63]] (replicate 20 0) = Inr (1, sha1_spec [0x61, 0x62, 0x63])"
  using sha1_correct [of "\<lparr>Message_Digest = replicate 5 0, Length_Low = 7, Length_High = 7,
      Message_Block = replicate 64 0, Message_Block_Index = 9, Computed = True, Corrupted = True\<rparr>"
      "[[0x61, 0x62], [0x63]]" "replicate 20 0"]
  by auto

text \<open>
  The life cycle of a context: asking for the result again gives the same digest, and
  feeding a computed context poisons it, after which every further input is ignored and
  every result is the failure value 0, until the next reset.
\<close>

theorem sha1_life_cycle:
  assumes "SHA1Result ctx = Inr (1, ctx1)" "m \<noteq> []" "length m < 2 ^ 32"
  shows "SHA1Result ctx1 = Inr (1, ctx1) \<and>
    (\<exists>ctx2. SHA1Input ctx1 m = Inr ctx2 \<and> SHA1Result ctx2 = Inr (0, ctx2) \<and>
       (\<forall>ms. sha1_feed ms ctx2 = Inr ctx2) \<and> \<not> Corrupted (SHA1Reset ctx2) \<and> \<not> Computed (SHA1Reset ctx2))"
proof -
  have c1: "Computed ctx1" "\<not> Corrupted ctx1"
    using assms(1) by (auto simp: SHA1Result_def bind_res_eq_Inr SHA1PadMessage_def split: if_splits)
  moreover have "length m mod 2 ^ 32 = length m" using assms(3) by (rule mod_less)
  ultimately have in1: "SHA1Input ctx1 m = Inr (ctx1\<lparr>Corrupted := True\<rparr>)"
    using assms(2) unfolding SHA1Input_def Let_def by simp
  have "sha1_feed ms (ctx1\<lparr>Corrupted := True\<rparr>) = Inr (ctx1\<lparr>Corrupted := True\<rparr>)" for ms
    by (induction ms) (simp_all add: SHA1Input_def Let_def)
  with c1 in1 show ?thesis
    by (simp add: SHA1Result_def SHA1Reset_def)
qed

theorem sha1_life_cycle_witness:
  "\<exists>ctx ctx1 ctx2. SHA1Result (SHA1Reset ctx) = Inr (1, ctx1) \<and>
    SHA1Input ctx1 [0x61] = Inr ctx2 \<and> SHA1Result ctx2 = Inr (0, ctx2)"
proof -
  define ctx where "ctx = \<lparr>Message_Digest = replicate 5 0, Length_Low = 0, Length_High = 0,
      Message_Block = replicate 64 0, Message_Block_Index = 0, Computed = False, Corrupted = False\<rparr>"
  have "sha_shape ctx" by (simp add: ctx_def sha_shape_def)
  then obtain ctx1 where "SHA1Result (SHA1Reset ctx) = Inr (1, ctx1)"
    using SHA1PadMessage_abs [OF SHA1Reset_abs [of ctx]] by (auto simp: SHA1Result_def SHA1Reset_def)
  with sha1_life_cycle [OF this, of "[0x61]"] show ?thesis by fastforce
qed

end
