(* ===== verification/MtRand.thy ===== *)
theory MtRand
  imports Prelude
begin

text \<open>
  \<open>runtime/ext/standard/mt_rand.c\<close> and \<open>mt_rand.h\<close>: the Mersenne Twister behind PHP's
  \<open>mt_rand\<close> and \<open>rand\<close>.  \<open>uint32\<close> is \<open>unsigned long\<close> there, 64 bits wide; a literal with
  the suffix \<open>U\<close> is a 32-bit word that is widened.  The pointers into the state vector are
  indices, a read or write outside its \<open>N + 1\<close> elements is a fault.  The reference is the
  infinite MT19937 sequence of 32-bit words.
\<close>

section \<open>The state\<close>

abbreviation MT_N :: nat where "MT_N \<equiv> 624"
abbreviation MT_M :: nat where "MT_M \<equiv> 397"

definition MT_K :: u32 where "MT_K = 0x9908B0DF"

record mt =
  state :: "u64 list"
  nxt :: "nat option"
  left :: int

definition mt_init :: mt where
  "mt_init = \<lparr>state = replicate (MT_N + 1) 0, nxt = None, left = - 1\<rparr>"

definition hiBit :: "u64 \<Rightarrow> u64" where "hiBit u = u AND ucast (0x80000000 :: u32)"
definition loBit :: "u64 \<Rightarrow> u64" where "loBit u = u AND ucast (0x00000001 :: u32)"
definition loBits :: "u64 \<Rightarrow> u64" where "loBits u = u AND ucast (0x7FFFFFFF :: u32)"
definition mixBits :: "u64 \<Rightarrow> u64 \<Rightarrow> u64" where "mixBits u v = hiBit u OR loBits v"

section \<open>Seeding\<close>

text \<open>The loop writes \<open>x & 0xFFFFFFFF\<close> while \<open>x\<close> itself keeps all 64 bits.\<close>

fun seed_loop :: "nat \<Rightarrow> u64 \<Rightarrow> nat \<Rightarrow> u64 list \<Rightarrow> fault + u64 list" where
  "seed_loop 0 x s st = Inr st"
| "seed_loop (Suc j) x s st =
     (let x = x * ucast (69069 :: u32) in
      bind_res (wr st s (x AND ucast (0xFFFFFFFF :: u32))) (seed_loop j x (s + 1)))"

definition seedMT :: "u64 \<Rightarrow> mt \<Rightarrow> fault + mt" where
  "seedMT seed g =
     (let x = (seed OR ucast (1 :: u32)) AND ucast (0xFFFFFFFF :: u32) in
      bind_res (wr (state g) 0 x) (\<lambda>st.
      bind_res (seed_loop (MT_N - 1) x 1 st) (\<lambda>st. Inr (g\<lparr>state := st, left := 0\<rparr>))))"

section \<open>Reloading\<close>

definition twist :: "u64 \<Rightarrow> u64 \<Rightarrow> u64 \<Rightarrow> u64" where
  "twist m s0 s1 = m XOR drop_bit 1 (mixBits s0 s1) XOR (if loBit s1 \<noteq> 0 then ucast MT_K else ucast (0 :: u32))"

text \<open>
  The two loops have the same body; \<open>j\<close> is the number of iterations left, the other
  arguments are the pointers and registers of the code.
\<close>

fun reload_loop :: "nat \<Rightarrow> nat \<Rightarrow> nat \<Rightarrow> nat \<Rightarrow> u64 \<Rightarrow> u64 \<Rightarrow> u64 list \<Rightarrow>
    fault + (nat \<times> nat \<times> nat \<times> u64 \<times> u64 \<times> u64 list)" where
  "reload_loop 0 p0 p2 pM s0 s1 st = Inr (p0, p2, pM, s0, s1, st)"
| "reload_loop (Suc j) p0 p2 pM s0 s1 st =
     bind_res (rd st pM) (\<lambda>m.
     bind_res (wr st p0 (twist m s0 s1)) (\<lambda>st.
     bind_res (rd st p2) (\<lambda>v.
       reload_loop j (p0 + 1) (p2 + 1) (pM + 1) s1 v st)))"

definition temper :: "u64 \<Rightarrow> u64" where
  "temper y =
     (let y = y XOR drop_bit 11 y;
          y = y XOR (push_bit 7 y AND ucast (0x9D2C5680 :: u32));
          y = y XOR (push_bit 15 y AND ucast (0xEFC60000 :: u32))
      in y XOR drop_bit 18 y)"

definition reloadMT :: "mt \<Rightarrow> fault + (u64 \<times> mt)" where
  "reloadMT g =
     bind_res (if left g < - 1 then seedMT (ucast (4357 :: u32)) g else Inr g) (\<lambda>g.
     bind_res (rd (state g) 0) (\<lambda>s0.
     bind_res (rd (state g) 1) (\<lambda>s1.
     bind_res (reload_loop (MT_N - MT_M) 0 2 MT_M s0 s1 (state g)) (\<lambda>(p0, p2, pM, s0, s1, st).
     bind_res (reload_loop (MT_M - 1) p0 p2 0 s0 s1 st) (\<lambda>(p0, p2, pM, s0, s1, st).
     bind_res (rd st 0) (\<lambda>s1.
     bind_res (rd st pM) (\<lambda>m.
     bind_res (wr st p0 (twist m s0 s1)) (\<lambda>st.
       Inr (temper s1, g\<lparr>state := st, left := int MT_N - 1, nxt := Some 1\<rparr>)))))))))"

definition randomMT :: "mt \<Rightarrow> fault + (u64 \<times> mt)" where
  "randomMT g =
     (let g = g\<lparr>left := left g - 1\<rparr> in
      if left g < 0 then reloadMT g
      else case nxt g of None \<Rightarrow> Inl NullDeref
        | Some p \<Rightarrow> bind_res (rd (state g) p) (\<lambda>y.
            Inr (drop_bit 1 (temper y), g\<lparr>nxt := Some (p + 1)\<rparr>)))"

section \<open>The reference sequence\<close>

definition mt_seed32 :: "u64 \<Rightarrow> u32" where
  "mt_seed32 seed = ucast seed OR 1"

definition twist32 :: "u32 \<Rightarrow> u32 \<Rightarrow> u32 \<Rightarrow> u32" where
  "twist32 m u v = m XOR drop_bit 1 ((u AND 0x80000000) OR (v AND 0x7FFFFFFF)) XOR (if odd v then MT_K else 0)"

text \<open>
  The seeds by the generator \<open>x \<mapsto> 69069 x mod 2\<^sup>3\<^sup>2\<close>, then the twisted feedback shift
  register \<open>x\<^bsub>k+n\<^esub> = x\<^bsub>k+m\<^esub> \<oplus> (x\<^sub>k\<^sup>u | x\<^bsub>k+1\<^esub>\<^sup>l) A\<close>.
\<close>

fun mt_seq :: "u64 \<Rightarrow> nat \<Rightarrow> u32" where
  "mt_seq seed k = (if k < MT_N then 69069 ^ k * mt_seed32 seed
     else twist32 (mt_seq seed (k - MT_N + MT_M)) (mt_seq seed (k - MT_N)) (mt_seq seed (k - MT_N + 1)))"

definition temper32 :: "u32 \<Rightarrow> u32" where
  "temper32 y =
     (let y = y XOR drop_bit 11 y;
          y = y XOR (push_bit 7 y AND 0x9D2C5680);
          y = y XOR (push_bit 15 y AND 0xEFC60000)
      in y XOR drop_bit 18 y)"

declare mt_seq.simps [simp del]

section \<open>The 64-bit registers compute the 32-bit recurrence\<close>

lemma ucast_xor32: "ucast (a XOR b) = (ucast a XOR ucast b :: u64)" for a b :: u32
  by (rule bit_word_eqI) (auto simp: bit_simps)

lemma ucast_and32: "ucast (a AND b) = (ucast a AND ucast b :: u64)" for a b :: u32
  by (rule bit_word_eqI) (auto simp: bit_simps)

lemma ucast_or32: "ucast (a OR b) = (ucast a OR ucast b :: u64)" for a b :: u32
  by (rule bit_word_eqI) (auto simp: bit_simps)

lemma ucast_drop32: "ucast (drop_bit n a) = (drop_bit n (ucast a) :: u64)" for a :: u32
  by (rule bit_word_eqI) (auto simp: bit_simps dest: bit_imp_le_length)

lemma ucast_push_and32: "ucast (push_bit n a AND c) = (push_bit n (ucast a) AND ucast c :: u64)" for a c :: u32
  by (rule bit_word_eqI) (auto simp: bit_simps dest: bit_imp_le_length)

lemma ucast_mask32: "(x :: u64) AND ucast (0xFFFFFFFF :: u32) = ucast (ucast x :: u32)"
proof -
  have "(0xFFFFFFFF :: u32) = - 1" by simp
  then show ?thesis by (simp only:) (rule bit_word_eqI, auto simp: bit_simps)
qed

lemma ucast_up_down: "ucast (ucast x :: u64) = x" for x :: u32
  by (rule bit_word_eqI) (auto simp: bit_simps)

lemma odd_ucast: "odd (ucast v :: u64) = odd v" for v :: u32
proof -
  have "bit (ucast v :: u64) 0 = bit v 0" by (simp only: bit_ucast_iff) simp
  then show ?thesis by (simp only: bit_0)
qed

lemma loBit_ucast: "loBit (ucast v) \<noteq> 0 \<longleftrightarrow> odd v" for v :: u32
proof -
  have "loBit (ucast v) = ucast v AND 1" by (simp add: loBit_def)
  then show ?thesis using odd_ucast [of v] by (simp only: and_one_eq) (simp add: mod2_eq_if)
qed

lemma twist_ucast: "twist (ucast m) (ucast u) (ucast v) = ucast (twist32 m u v)"
proof -
  have "hiBit (ucast u) = ucast (u AND 0x80000000)" "loBits (ucast v) = ucast (v AND 0x7FFFFFFF)"
    by (simp_all only: hiBit_def loBits_def ucast_and32)
  then show ?thesis
    unfolding twist_def twist32_def mixBits_def loBit_ucast
    by (simp only: ucast_xor32 ucast_drop32 ucast_or32 if_distrib [of ucast])
qed

lemma temper_ucast: "temper (ucast y) = ucast (temper32 y)"
  unfolding temper_def temper32_def Let_def
  by (simp only: ucast_xor32 ucast_drop32 ucast_push_and32)

section \<open>Seeding fills the vector\<close>

definition mt_vec :: "u64 \<Rightarrow> nat \<Rightarrow> u64 list" where
  "mt_vec seed k = map (\<lambda>i. ucast (mt_seq seed (k + i))) [0..<MT_N]"

lemma mt_vec_length [simp]: "length (mt_vec seed k) = MT_N"
  by (simp add: mt_vec_def)

lemma mt_vec_nth [simp]: "i < MT_N \<Longrightarrow> mt_vec seed k ! i = ucast (mt_seq seed (k + i))"
  by (simp add: mt_vec_def del: upt_rec_numeral)

lemma ucast_mult32: "ucast (x * ucast c) = (ucast x * c :: u32)" for x :: u64 and c :: u32
  by (rule word_unat_eq_iff [THEN iffD2])
    (simp add: unat_word_ariths unsigned_ucast_eq take_bit_eq_mod mod_mult_left_eq mod_mult_right_eq mod_mod_cancel)

lemma seed_loop_fills:
  "s + j = MT_N \<Longrightarrow> length st = MT_N + 1 \<Longrightarrow> 0 < s \<Longrightarrow> ucast x = 69069 ^ (s - 1) * mt_seed32 seed \<Longrightarrow>
   (\<forall>i < s. st ! i = ucast (mt_seq seed i)) \<Longrightarrow>
   \<exists>st'. seed_loop j x s st = Inr st' \<and> length st' = MT_N + 1 \<and> st' ! MT_N = st ! MT_N \<and>
     (\<forall>i < MT_N. st' ! i = ucast (mt_seq seed i))"
proof (induction j arbitrary: x s st)
  case 0
  from 0(1,2,5) show ?case by simp
next
  case (Suc j)
  let ?x = "x * ucast (69069 :: u32)" and ?v = "(x * ucast (69069 :: u32)) AND ucast (0xFFFFFFFF :: u32)"
  have "ucast ?x = (ucast x * 69069 :: u32)"
    by (rule ucast_mult32)
  also have "\<dots> = 69069 ^ s * mt_seed32 seed"
    unfolding Suc.prems(4) using Suc.prems(3) by (cases s) simp_all
  finally have x: "ucast ?x = 69069 ^ s * mt_seed32 seed" .
  have s: "s < MT_N" using Suc.prems(1) by simp
  have seq: "mt_seq seed s = 69069 ^ s * mt_seed32 seed"
    using s by (subst mt_seq.simps) (simp only: if_True)
  have v: "?v = ucast (mt_seq seed s)"
    unfolding ucast_mask32 x seq ..
  have w: "wr st s ?v = Inr (st[s := ?v])" using Suc.prems(2) s by (simp only: wr_def) simp
  have "\<forall>i < s + 1. st[s := ?v] ! i = ucast (mt_seq seed i)"
    unfolding v using Suc.prems(2,5) s by (simp add: nth_list_update less_Suc_eq)
  then have "\<exists>st'. seed_loop j ?x (s + 1) (st[s := ?v]) = Inr st' \<and> length st' = MT_N + 1 \<and>
      st' ! MT_N = st[s := ?v] ! MT_N \<and> (\<forall>i < MT_N. st' ! i = ucast (mt_seq seed i))"
    using Suc.prems(1,2) x by (intro Suc.IH) auto
  moreover have "st[s := ?v] ! MT_N = st ! MT_N" using s by simp
  ultimately show ?case unfolding seed_loop.simps Let_def w bind_res_simps by (simp only:)
qed

lemma split_last: "length st = MT_N + 1 \<Longrightarrow> st ! MT_N = e \<Longrightarrow> \<forall>i < MT_N. st ! i = ucast (mt_seq seed (k + i)) \<Longrightarrow>
   st = mt_vec seed k @ [e]"
proof (rule nth_equalityI)
  fix i assume *: "length st = MT_N + 1" "st ! MT_N = e" "\<forall>i < MT_N. st ! i = ucast (mt_seq seed (k + i))" "i < length st"
  then consider "i < MT_N" | "i = MT_N" by linarith
  then show "st ! i = (mt_vec seed k @ [e]) ! i"
    by cases (use * in \<open>simp_all add: nth_append\<close>)
qed simp

text \<open>What the generator holds: a window of the sequence, and the spare element.\<close>

definition mt_window :: "mt \<Rightarrow> u64 \<Rightarrow> nat \<Rightarrow> bool" where
  "mt_window g seed k \<longleftrightarrow> (\<exists>e. state g = mt_vec seed k @ [e])"

lemma seedMT_window:
  assumes "length (state g) = MT_N + 1"
  shows "\<exists>g'. seedMT seed g = Inr g' \<and> mt_window g' seed 0 \<and> left g' = 0 \<and> nxt g' = nxt g"
proof -
  let ?x = "(seed OR ucast (1 :: u32)) AND ucast (0xFFFFFFFF :: u32)"
  have "ucast (seed OR ucast (1 :: u32)) = (ucast seed OR 1 :: u32)"
    by (rule bit_word_eqI) (auto simp: bit_simps)
  then have x: "?x = ucast (mt_seed32 seed)"
    unfolding ucast_mask32 mt_seed32_def by simp
  have w: "wr (state g) 0 ?x = Inr ((state g)[0 := ?x])" using assms by (simp add: wr_def)
  have "\<exists>st'. seed_loop (MT_N - 1) ?x 1 ((state g)[0 := ?x]) = Inr st' \<and> length st' = MT_N + 1 \<and>
      st' ! MT_N = (state g)[0 := ?x] ! MT_N \<and> (\<forall>i < MT_N. st' ! i = ucast (mt_seq seed i))"
    using assms unfolding x
    by (intro seed_loop_fills) (auto simp: mt_seq.simps ucast_up_down)
  then obtain st' where "seed_loop (MT_N - 1) ?x 1 ((state g)[0 := ?x]) = Inr st'"
    "length st' = MT_N + 1" "\<forall>i < MT_N. st' ! i = ucast (mt_seq seed i)" by blast
  moreover from this have "st' = mt_vec seed 0 @ [st' ! MT_N]" by (intro split_last) auto
  ultimately have "seedMT seed g = Inr (g\<lparr>state := mt_vec seed 0 @ [st' ! MT_N], left := 0\<rparr>)"
    using w unfolding seedMT_def Let_def by (simp only: bind_res_simps)
  then show ?thesis by (auto simp: mt_window_def)
qed

section \<open>Reloading advances the window by a whole vector\<close>

text \<open>The vector when the first \<open>t\<close> elements have been replaced.\<close>

definition mt_mixed :: "u64 \<Rightarrow> nat \<Rightarrow> nat \<Rightarrow> u64 \<Rightarrow> u64 list" where
  "mt_mixed seed k t e = map (\<lambda>i. ucast (mt_seq seed (if i < t then k + MT_N + i else k + i))) [0..<MT_N] @ [e]"

lemma mt_mixed_length [simp]: "length (mt_mixed seed k t e) = MT_N + 1"
  by (simp add: mt_mixed_def)

lemma mt_mixed_nth:
  "i < MT_N \<Longrightarrow> mt_mixed seed k t e ! i = ucast (mt_seq seed (if i < t then k + MT_N + i else k + i))"
  by (simp add: mt_mixed_def nth_append del: upt_rec_numeral)

lemma mt_mixed_0: "mt_mixed seed k 0 e = mt_vec seed k @ [e]"
  by (simp add: mt_mixed_def mt_vec_def)

lemma mt_mixed_N: "mt_mixed seed k MT_N e = mt_vec seed (k + MT_N) @ [e]"
  by (simp add: mt_mixed_def mt_vec_def cong: map_cong del: upt_rec_numeral)

lemma mt_mixed_Suc:
  "t < MT_N \<Longrightarrow> (mt_mixed seed k t e)[t := ucast (mt_seq seed (k + MT_N + t))] = mt_mixed seed k (Suc t) e"
  by (rule nth_equalityI) (auto simp: nth_list_update mt_mixed_def nth_append less_Suc_eq simp del: upt_rec_numeral)

lemma mt_seq_step:
  "mt_seq seed (k + MT_N) = twist32 (mt_seq seed (k + MT_M)) (mt_seq seed k) (mt_seq seed (k + 1))"
  by (subst mt_seq.simps) simp

text \<open>
  The loop invariant: after \<open>t\<close> elements the registers hold elements \<open>t\<close> and \<open>t + 1\<close> of
  the old window; \<open>pM\<close> runs \<open>M\<close> ahead, wrapping into the new elements.
\<close>

lemma reload_loop_inv:
  assumes "t + j < MT_N" "pM = t + MT_M \<and> pM + j \<le> MT_N \<or> pM + (MT_N - MT_M) = t"
  shows "\<exists>s1. reload_loop j t (t + 2) pM (ucast (mt_seq seed (k + t))) (ucast (mt_seq seed (k + t + 1)))
      (mt_mixed seed k t e) =
    Inr (t + j, t + j + 2, pM + j, ucast (mt_seq seed (k + t + j)), s1, mt_mixed seed k (t + j) e)
    \<and> (t + j + 1 < MT_N \<longrightarrow> s1 = ucast (mt_seq seed (k + t + j + 1)))"
  using assms
proof (induction j arbitrary: t pM)
  case (Suc j)
  let ?A = "mt_mixed seed k t e" and ?u = "mt_seq seed (k + t)" and ?v = "mt_seq seed (k + t + 1)"
  have pM: "pM < MT_N" using Suc.prems by auto
  have m: "?A ! pM = ucast (mt_seq seed (k + t + MT_M))"
  proof -
    have "(if pM < t then k + MT_N + pM else k + pM) = k + t + MT_M"
      using Suc.prems by auto
    then show ?thesis using pM by (simp only: mt_mixed_nth)
  qed
  have "twist (?A ! pM) (ucast ?u) (ucast ?v) = ucast (mt_seq seed (k + MT_N + t))"
    using mt_seq_step [of seed "k + t"] by (simp only: m twist_ucast ac_simps)
  then have w: "wr ?A t (twist (?A ! pM) (ucast ?u) (ucast ?v)) = Inr (mt_mixed seed k (Suc t) e)"
    using Suc.prems mt_mixed_Suc [of t seed k e] by (simp add: wr_def)
  have r: "rd ?A pM = Inr (?A ! pM)" using pM by (simp add: rd_def)
  let ?B = "mt_mixed seed k (Suc t) e"
  have r2: "rd ?B (t + 2) = Inr (?B ! (t + 2))" using Suc.prems by (simp add: rd_def)
  show ?case
  proof (cases "t + 2 < MT_N")
    case True
    then have "?B ! (t + 2) = ucast (mt_seq seed (k + Suc t + 1))"
      by (subst mt_mixed_nth) (auto simp: ac_simps)
    moreover have "\<exists>s1. reload_loop j (Suc t) (Suc t + 2) (pM + 1) (ucast (mt_seq seed (k + Suc t)))
          (ucast (mt_seq seed (k + Suc t + 1))) ?B =
        Inr (Suc t + j, Suc t + j + 2, pM + 1 + j, ucast (mt_seq seed (k + Suc t + j)), s1, mt_mixed seed k (Suc t + j) e)
        \<and> (Suc t + j + 1 < MT_N \<longrightarrow> s1 = ucast (mt_seq seed (k + Suc t + j + 1)))"
      using Suc.prems by (intro Suc.IH) auto
    ultimately show ?thesis using r w r2 by simp
  next
    case False
    with Suc.prems have "j = 0" "t + 2 = MT_N" by auto
    then show ?thesis using r w r2 by simp
  qed
qed auto

lemma reloadMT_window:
  assumes g: "mt_window g seed k" and l: "- 1 \<le> left g"
  shows "\<exists>g'. reloadMT g = Inr (ucast (temper32 (mt_seq seed (k + MT_N))), g') \<and> mt_window g' seed (k + MT_N) \<and>
    left g' = int MT_N - 1 \<and> nxt g' = Some 1"
proof -
  obtain e where st: "state g = mt_mixed seed k 0 e" using g by (auto simp: mt_window_def mt_mixed_0)
  have r0: "rd (state g) 0 = Inr (ucast (mt_seq seed (k + 0)))" "rd (state g) 1 = Inr (ucast (mt_seq seed (k + 0 + 1)))"
    by (simp_all add: st rd_def mt_mixed_nth)
  obtain a where l1: "reload_loop 227 0 2 MT_M (ucast (mt_seq seed (k + 0))) (ucast (mt_seq seed (k + 0 + 1))) (mt_mixed seed k 0 e) =
      Inr (227, 229, 624, ucast (mt_seq seed (k + 227)), a, mt_mixed seed k 227 e)" "a = ucast (mt_seq seed (k + 227 + 1))"
    using reload_loop_inv [of 0 227 MT_M seed k e] by (auto simp flip: numeral_2_eq_2)
  obtain b where l2: "reload_loop 396 227 229 0 (ucast (mt_seq seed (k + 227))) (ucast (mt_seq seed (k + 227 + 1))) (mt_mixed seed k 227 e) =
      Inr (623, 625, 396, ucast (mt_seq seed (k + 623)), b, mt_mixed seed k 623 e)"
    using reload_loop_inv [of 227 396 0 seed k e] by (auto simp: ac_simps)
  let ?A = "mt_mixed seed k 623 e"
  have r1: "rd ?A 0 = Inr (ucast (mt_seq seed (k + MT_N)))" "rd ?A 396 = Inr (ucast (mt_seq seed (k + 623 + MT_M)))"
    by (simp_all add: rd_def mt_mixed_nth)
  have "twist (ucast (mt_seq seed (k + 623 + MT_M))) (ucast (mt_seq seed (k + 623))) (ucast (mt_seq seed (k + MT_N)))
      = ucast (mt_seq seed (k + MT_N + 623))"
    using mt_seq_step [of seed "k + 623"] by (simp add: twist_ucast ac_simps)
  then have w: "wr ?A 623 (twist (ucast (mt_seq seed (k + 623 + MT_M))) (ucast (mt_seq seed (k + 623))) (ucast (mt_seq seed (k + MT_N))))
      = Inr (mt_vec seed (k + MT_N) @ [e])"
    using mt_mixed_Suc [of 623 seed k e] mt_mixed_N [of seed k e] by (simp add: wr_def)
  have "reloadMT g = Inr (ucast (temper32 (mt_seq seed (k + MT_N))),
      g\<lparr>state := mt_vec seed (k + MT_N) @ [e], left := int MT_N - 1, nxt := Some 1\<rparr>)"
    using l r0 l1 l2 r1 w st
    by (simp add: reloadMT_def temper_ucast)
  then show ?thesis by (auto simp: mt_window_def)
qed

section \<open>The stream of outputs\<close>

text \<open>The generator after \<open>i\<close> calls since it was seeded.\<close>

definition mt_at :: "mt \<Rightarrow> u64 \<Rightarrow> nat \<Rightarrow> bool" where
  "mt_at g seed i \<longleftrightarrow>
     (if i = 0 then mt_window g seed 0 \<and> left g = 0
      else let q = (i - 1) div MT_N; r = (i - 1) mod MT_N in
        mt_window g seed (MT_N * (q + 1)) \<and> left g = int MT_N - 1 - int r \<and> nxt g = Some (r + 1))"

definition mt_output :: "u64 \<Rightarrow> nat \<Rightarrow> u64" where
  "mt_output seed i =
     (let y = ucast (temper32 (mt_seq seed (MT_N + i))) in if i mod MT_N = 0 then y else drop_bit 1 y)"

lemma randomMT_at:
  assumes "mt_at g seed i"
  shows "\<exists>g'. randomMT g = Inr (mt_output seed i, g') \<and> mt_at g' seed (Suc i)"
proof -
  define q where "q = (i - 1) div MT_N"
  define r where "r = (i - 1) mod MT_N"
  have r: "r < MT_N" by (simp add: r_def)
  have iq: "i = MT_N * q + r + 1" if "i \<noteq> 0"
    using that mult_div_mod_eq [of MT_N "i - 1"] by (simp add: q_def r_def)
  define k where "k = (if i = 0 then 0 else MT_N * (q + 1))"
  have w: "mt_window g seed k" and l: "left g = (if i = 0 then 0 else int MT_N - 1 - int r)"
    and n: "i \<noteq> 0 \<Longrightarrow> nxt g = Some (r + 1)"
    using assms by (auto simp: mt_at_def Let_def q_def r_def k_def)
  show ?thesis
  proof (cases "i = 0 \<or> r = MT_N - 1")
    case True
    then have "i = 0 \<or> i = MT_N * (q + 1)" using iq by (cases "i = 0") auto
    then have ki: "k = i" "i mod MT_N = 0" by (auto simp: k_def)
    have w1: "mt_window (g\<lparr>left := left g - 1\<rparr>) seed k" using w by (simp add: mt_window_def)
    have l1: "- 1 \<le> left (g\<lparr>left := left g - 1\<rparr>)" "left g - 1 < 0" using l True by auto
    obtain g' where "reloadMT (g\<lparr>left := left g - 1\<rparr>) = Inr (ucast (temper32 (mt_seq seed (k + MT_N))), g')"
      "mt_window g' seed (k + MT_N)" "left g' = int MT_N - 1" "nxt g' = Some 1"
      using reloadMT_window [OF w1 l1(1)] by blast
    moreover have "MT_N * (i div MT_N + 1) = k + MT_N"
      using ki mult_div_mod_eq [of MT_N i] by simp
    ultimately show ?thesis using l1(2) ki
      by (intro exI [of _ g']) (simp add: randomMT_def mt_output_def mt_at_def ac_simps)
  next
    case False
    then have i: "i \<noteq> 0" "r + 1 < MT_N" using r by auto
    have im: "i mod MT_N = r + 1" "i div MT_N = q"
      using iq [OF i(1)] i(2) by simp_all
    obtain e where st: "state g = mt_vec seed k @ [e]" using w by (auto simp: mt_window_def)
    have "rd (state g) (r + 1) = Inr (ucast (mt_seq seed (MT_N + i)))"
      using i iq [OF i(1)] by (simp add: rd_def st nth_append k_def ac_simps)
    moreover have "\<not> left g - 1 < 0" using l i by simp
    ultimately show ?thesis
      using i im n l w
      by (intro exI [of _ "g\<lparr>left := left g - 1, nxt := Some (r + 2)\<rparr>"])
        (simp add: randomMT_def temper_ucast mt_output_def mt_at_def k_def mt_window_def)
  qed
qed

fun randomMT_times :: "nat \<Rightarrow> mt \<Rightarrow> fault + (u64 list \<times> mt)" where
  "randomMT_times 0 g = Inr ([], g)"
| "randomMT_times (Suc n) g =
     bind_res (randomMT g) (\<lambda>(y, g). bind_res (randomMT_times n g) (\<lambda>(ys, g). Inr (y # ys, g)))"

lemma randomMT_times_at:
  "mt_at g seed i \<Longrightarrow> \<exists>g'. randomMT_times n g = Inr (map (mt_output seed) [i..<i + n], g') \<and> mt_at g' seed (i + n)"
proof (induction n arbitrary: g i)
  case (Suc n)
  obtain g1 where 1: "randomMT g = Inr (mt_output seed i, g1)" "mt_at g1 seed (Suc i)"
    using randomMT_at [OF Suc.prems] by blast
  obtain g2 where "randomMT_times n g1 = Inr (map (mt_output seed) [Suc i..<Suc i + n], g2)" "mt_at g2 seed (Suc i + n)"
    using Suc.IH [OF 1(2)] by blast
  moreover have "[i..<i + Suc n] = i # [Suc i..<Suc i + n]" by (simp add: upt_conv_Cons)
  ultimately show ?case using 1(1) by simp
qed simp

lemma seedMT_at:
  "length (state g) = MT_N + 1 \<Longrightarrow> \<exists>g'. seedMT seed g = Inr g' \<and> mt_at g' seed 0"
  using seedMT_window [of g seed] by (auto simp: mt_at_def)

text \<open>
  C7. The stream: after seeding, any number of calls runs without a fault - every index of
  the two in-place reload loops, the read one past the vector included, stays inside the
  \<open>N + 1\<close> elements - and call \<open>i\<close> returns the tempered element \<open>N + i\<close> of the MT19937
  sequence, shifted right by one except when the call reloads the vector (every 624th).
\<close>

theorem randomMT_stream:
  assumes "length (state g) = MT_N + 1"
  shows "\<exists>g0 g'. seedMT seed g = Inr g0 \<and> randomMT_times n g0 = Inr (map (mt_output seed) [0..<n], g')"
  using seedMT_at [OF assms] randomMT_times_at [of _ seed 0 n] by fastforce

theorem randomMT_stream_witness:
  "\<exists>g0 g'. seedMT 5489 mt_init = Inr g0 \<and> randomMT_times 2000 g0 = Inr (map (mt_output 5489) [0..<2000], g')"
  by (rule randomMT_stream) (simp add: mt_init_def)

text \<open>
  A generator that was never seeded seeds itself with 4357 on its first call and then
  gives the stream of that seed.
\<close>

theorem randomMT_unseeded:
  "\<exists>g'. randomMT_times n mt_init = Inr (map (mt_output 4357) [0..<n], g')"
proof (cases n)
  case (Suc m)
  let ?g = "mt_init\<lparr>left := - 2\<rparr>"
  obtain g0 where g0: "seedMT 4357 ?g = Inr g0" "mt_at g0 4357 0"
    using seedMT_at [of ?g 4357] by (auto simp: mt_init_def)
  then have l0: "left g0 = 0" by (simp add: mt_at_def)
  have "reloadMT ?g = reloadMT (g0\<lparr>left := - 1\<rparr>)"
    using g0 l0 by (simp add: reloadMT_def)
  then have "randomMT mt_init = randomMT g0"
    using l0 by (simp add: randomMT_def mt_init_def)
  then have "randomMT_times n mt_init = randomMT_times n g0" using Suc by simp
  then show ?thesis using randomMT_times_at [OF g0(2), of n] by auto
qed simp

lemma square_step: "(x :: u32) ^ n = a \<Longrightarrow> a * a = b \<Longrightarrow> n + n = k \<Longrightarrow> x ^ k = b"
  using power_add [of x n n] by (simp only:)

lemma lcg_power: "(69069 :: u32) ^ 397 = 1719184061"
proof -
  have p4: "(69069 :: u32) ^ 4 = 1790562961" by simp
  have p8: "(69069 :: u32) ^ 8 = 381957665" by (rule square_step [OF p4]) simp_all
  have p16: "(69069 :: u32) ^ 16 = 2583294017" by (rule square_step [OF p8]) simp_all
  have p32: "(69069 :: u32) ^ 32 = 4058771585" by (rule square_step [OF p16]) simp_all
  have p64: "(69069 :: u32) ^ 64 = 1355292929" by (rule square_step [OF p32]) simp_all
  have p128: "(69069 :: u32) ^ 128 = 902906369" by (rule square_step [OF p64]) simp_all
  have p256: "(69069 :: u32) ^ 256 = 1084654593" by (rule square_step [OF p128]) simp_all
  have "(69069 :: u32) ^ (256 + (128 + (8 + (4 + 1)))) = 1719184061"
    unfolding power_add p4 p8 p128 p256 by simp
  moreover have "256 + (128 + (8 + (4 + 1))) = (397 :: nat)" by simp
  ultimately show ?thesis by (simp only:)
qed

text \<open>
  Only the shifted outputs keep the documented range of \<open>MT_RAND_MAX\<close>: every call that
  does not reload the vector returns less than \<open>2\<^sup>3\<^sup>1\<close>, and seed 3 shows a reloading call
  that does not.
\<close>

theorem randomMT_range:
  "(\<forall>i. i mod MT_N \<noteq> 0 \<longrightarrow> unat (mt_output seed i) < 2 ^ 31) \<and> 2 ^ 31 \<le> unat (mt_output 3 0)"
proof (intro conjI allI impI)
  fix i :: nat assume "i mod MT_N \<noteq> 0"
  then have "unat (mt_output seed i) = unat (ucast (temper32 (mt_seq seed (MT_N + i))) :: u64) div 2"
    by (simp add: mt_output_def drop_bit_eq_div unat_div_distrib)
  moreover have "unat (ucast (temper32 (mt_seq seed (MT_N + i))) :: u64) < 2 ^ 32"
    by (simp add: unsigned_ucast_eq take_bit_eq_mod) (rule le_less_trans [OF mod_less_eq_dividend unat_less_32])
  ultimately show "unat (mt_output seed i) < 2 ^ 31" by simp
next
  have "mt_seq 3 0 = 3" "mt_seq 3 1 = 207207" by (simp_all add: mt_seq.simps mt_seed32_def)
  moreover have "mt_seq 3 MT_M = 862584887"
    by (subst mt_seq.simps) (simp only: lcg_power mt_seed32_def, simp)
  moreover have "odd (207207 :: u32)" by simp
  ultimately have "mt_seq 3 MT_N = 2858624091"
    using mt_seq_step [of 3 0] by (simp add: twist32_def MT_K_def)
  then have "mt_output 3 0 = 0x9c1459ba"
    by (simp add: mt_output_def temper32_def Let_def)
  then show "2 ^ 31 \<le> unat (mt_output 3 0)" by simp
qed

theorem randomMT_range_witness: "unat (mt_output 4357 1) < 2 ^ 31"
  using randomMT_range [of 4357] by simp

end
