(* ===== verification/SqliteEncode.thy ===== *)
theory SqliteEncode
  imports Prelude
begin

text \<open>
  \<open>runtime/ext/sqlite/encode.c\<close>: the escape code that turns binary data into a
  NUL-terminated string without quotes, and back.  An offset is subtracted from every
  byte; it is chosen so that the fewest bytes have to be escaped.
\<close>

section \<open>The code\<close>

text \<open>
  The histogram: \<open>for(i=n-1; i>=0; i--) cnt[in[i]]++\<close>, from the last byte to the first.
\<close>

definition count_bytes :: "u8 list \<Rightarrow> nat list" where
  "count_bytes bs = foldr (\<lambda>b cnt. cnt[unat b := cnt ! unat b + 1]) bs (replicate 256 0)"

text \<open>
  The search for the offset: \<open>m\<close> is the best number of escapes so far and \<open>e\<close> the
  offset that has it, unset until some offset beats \<open>n\<close>.
\<close>

fun offset_loop :: "nat list \<Rightarrow> nat list \<Rightarrow> nat \<Rightarrow> nat option \<Rightarrow> nat \<times> nat option" where
  "offset_loop cnt [] m e = (m, e)"
| "offset_loop cnt (i # is) m e =
     (if i = 39 then offset_loop cnt is m e
      else let sum = cnt ! i + cnt ! ((i + 1) AND 0xff) + cnt ! ((i + 39) AND 0xff)
        in if sum < m
           then (if sum = 0 then (sum, Some i) else offset_loop cnt is sum (Some i))
           else offset_loop cnt is m e)"

text \<open>The range of that \<open>for\<close> loop.\<close>

definition offsets :: "nat list" where
  "offsets = [1..<256]"

text \<open>The copy loop; \<open>unsigned char\<close> arithmetic wraps.\<close>

fun encode_loop :: "u8 \<Rightarrow> u8 list \<Rightarrow> u8 list" where
  "encode_loop e [] = []"
| "encode_loop e (b # bs) =
     (let x = b - e
      in if x = 0 \<or> x = 1 \<or> x = 39 then 1 # (x + 1) # encode_loop e bs
         else x # encode_loop e bs)"

text \<open>
  \<open>sqlite_encode_binary(in, n, out)\<close>: the bytes stored to \<open>out\<close> (none when \<open>out\<close> is
  null) and the return value.  The \<open>assert\<close> is a branch of its own.
\<close>

definition sqlite_encode_binary :: "u8 list \<Rightarrow> int \<Rightarrow> bool \<Rightarrow> fault + (u8 list \<times> int)" where
  "sqlite_encode_binary input n out =
    (if n \<le> 0 then Inr (if out then [120, 0] else [], 1)
     else if length input < nat n then Inl OutOfBounds
     else let bs = take (nat n) input;
              (m, e) = offset_loop (count_bytes bs) offsets (nat n) None
       in if \<not> out then Inr ([], n + int m + 1)
          else (case e of
              None \<Rightarrow> Inl Uninitialised
            | Some e \<Rightarrow>
                (let body = word_of_nat e # encode_loop (word_of_nat e) bs; j = int (length body)
                 in if j = n + int m + 1 then Inr (body @ [0], j) else Inl Aborted)))"

text \<open>
  \<open>sqlite_decode_binary(in, out)\<close> on the memory \<open>in\<close> points to: every \<open>*(in++)\<close> is
  one step along the list, and stepping off its end is a fault.
\<close>

fun decode_loop :: "u8 \<Rightarrow> u8 list \<Rightarrow> fault + u8 list" where
  "decode_loop e [] = Inl OutOfBounds"
| "decode_loop e (c # mem) =
     (if c = 0 then Inr []
      else if c = 1
        then (case mem of
                [] \<Rightarrow> Inl OutOfBounds
              | d # mem' \<Rightarrow> bind_res (decode_loop e mem') (\<lambda>out. Inr ((d - 1 + e) # out)))
        else bind_res (decode_loop e mem) (\<lambda>out. Inr ((c + e) # out)))"

definition sqlite_decode_binary :: "u8 list \<Rightarrow> fault + u8 list" where
  "sqlite_decode_binary mem = (case mem of [] \<Rightarrow> Inl OutOfBounds | e # mem' \<Rightarrow> decode_loop e mem')"

section \<open>The histogram\<close>

lemma length_count_bytes [simp]: "length (count_bytes bs) = 256"
  unfolding count_bytes_def by (induction bs) simp_all

lemma count_bytes_nth: "k < 256 \<Longrightarrow> count_bytes bs ! k = count_list bs (word_of_nat k)"
proof (induction bs)
  case Nil
  then show ?case by (simp add: count_bytes_def)
next
  case (Cons b bs)
  have eq: "unat b = k \<longleftrightarrow> b = word_of_nat k"
    using Cons.prems by (auto simp: unat_of_nat take_bit_eq_mod)
  have "count_bytes (b # bs) = (count_bytes bs)[unat b := count_bytes bs ! unat b + 1]"
    by (simp add: count_bytes_def)
  moreover have "unat (word_of_nat k :: u8) = k"
    using Cons.prems by (simp add: unat_of_nat take_bit_eq_mod)
  ultimately show ?case
    using Cons by (auto simp: nth_list_update eq)
qed

lemma nat_and_255: "n AND 255 = n mod (256 :: nat)"
  using take_bit_eq_mask [of 8 n] by (simp add: take_bit_eq_mod mask_eq_exp_minus_1)

definition escapes :: "u8 list \<Rightarrow> u8 \<Rightarrow> nat" where
  "escapes bs e = count_list bs e + count_list bs (e + 1) + count_list bs (e + 39)"

lemma offset_sum:
  assumes "i < 256"
  shows "count_bytes bs ! i + count_bytes bs ! ((i + 1) AND 0xff) + count_bytes bs ! ((i + 39) AND 0xff)
    = escapes bs (word_of_nat i)"
proof -
  have "(word_of_nat ((i + c) mod 256) :: u8) = word_of_nat i + word_of_nat c" for c
    by (simp add: word_of_nat_eq_iff take_bit_eq_mod flip: of_nat_add)
  from this [of 1] this [of 39] show ?thesis
    using assms by (simp add: count_bytes_nth nat_and_255 escapes_def)
qed

lemma sum_count_list: "(\<Sum>w \<in> UNIV. count_list bs (w + c)) = length (bs :: u8 list)"
proof (induction bs)
  case Nil
  then show ?case by simp
next
  case (Cons b bs)
  have "(\<Sum>w \<in> UNIV. if b = w + c then 1 else 0 :: nat) = (\<Sum>w \<in> UNIV. if w = b - c then 1 else 0)"
    by (rule sum.cong) (auto simp: algebra_simps)
  also have "\<dots> = 1" by simp
  finally have one: "(\<Sum>w \<in> UNIV. if b = w + c then 1 else 0 :: nat) = 1" .
  have "(\<Sum>w \<in> UNIV. count_list (b # bs) (w + c)) =
      (\<Sum>w \<in> UNIV. count_list bs (w + c) + (if b = w + c then 1 else 0))"
    by (rule sum.cong) auto
  with Cons one show ?case by (simp add: sum.distrib)
qed

text \<open>Some offset of any set of \<open>k\<close> offsets needs at most \<open>3 n / k\<close> escapes.\<close>

lemma escapes_average:
  assumes "\<And>e. e \<in> A \<Longrightarrow> m \<le> escapes bs e"
  shows "card A * m \<le> 3 * length bs"
proof -
  have "(\<Sum>e \<in> A. m) \<le> (\<Sum>e \<in> A. escapes bs e)"
    by (rule sum_mono) (rule assms)
  also have "\<dots> \<le> (\<Sum>e \<in> UNIV. escapes bs e)"
    by (rule sum_mono2) auto
  also have "\<dots> = 3 * length bs"
    using sum_count_list [of bs 0] sum_count_list [of bs 1] sum_count_list [of bs 39]
    by (simp add: escapes_def sum.distrib)
  finally show ?thesis by simp
qed

section \<open>The search finds an offset with few escapes\<close>

definition byte_index :: "nat \<Rightarrow> bool" where
  "byte_index i \<longleftrightarrow> 1 \<le> i \<and> i < 256"

lemma offset_loop_result:
  assumes "\<forall>i \<in> set is. byte_index i"
    and "\<And>i. e = Some i \<Longrightarrow> byte_index i \<and> i \<noteq> 39 \<and> m = escapes bs (word_of_nat i)"
    and "offset_loop (count_bytes bs) is m e = (m', e')"
  shows "m' \<le> m \<and> (\<forall>i \<in> set is - {39}. m' \<le> escapes bs (word_of_nat i))
    \<and> (e' = None \<longrightarrow> e = None \<and> m' = m)
    \<and> (\<forall>i. e' = Some i \<longrightarrow> byte_index i \<and> i \<noteq> 39 \<and> m' = escapes bs (word_of_nat i))"
  using assms
proof (induction "count_bytes bs" "is" m e arbitrary: m' e' rule: offset_loop.induct)
  case (1 m e)
  then show ?case by auto
next
  case (2 i "is" m e)
  note IH_skip = 2(1) and IH_take = 2(2) and IH_keep = 2(3)
    and prems = 2(4) 2(5) and run = 2(6)
  define sm where "sm = escapes bs (word_of_nat i)"
  have sum: "count_bytes bs ! i + count_bytes bs ! ((i + 1) AND 0xff) + count_bytes bs ! ((i + 39) AND 0xff) = sm"
    using prems(1) unfolding sm_def by (intro offset_sum) (simp add: byte_index_def)
  have "is": "\<forall>i \<in> set is. byte_index i" and i: "byte_index i" using prems(1) by auto
  consider (skip) "i = 39" | (zero) "i \<noteq> 39" "sm < m" "sm = 0"
    | (take) "i \<noteq> 39" "sm < m" "sm \<noteq> 0" | (keep) "i \<noteq> 39" "\<not> sm < m"
    by blast
  then show ?case
  proof cases
    case skip
    with IH_skip [OF skip "is" prems(2), of m' e'] run show ?thesis by simp
  next
    case zero
    with run sum have "m' = 0 \<and> e' = Some i" by (simp add: Let_def)
    with zero i show ?thesis by (auto simp: sm_def)
  next
    case take
    have "offset_loop (count_bytes bs) is sm (Some i) = (m', e')"
      using run take sum by (simp add: Let_def)
    from IH_take [OF take(1) sum [symmetric] take(2,3) "is" _ this] i take show ?thesis
      by (auto simp: sm_def)
  next
    case keep
    have "offset_loop (count_bytes bs) is m e = (m', e')"
      using run keep sum by (simp add: Let_def)
    from IH_keep [OF keep(1) sum [symmetric] keep(2) "is" prems(2) this] keep show ?thesis
      by (auto simp: sm_def)
  qed
qed

text \<open>
  For a non-empty input the search always sets \<open>e\<close>: the 254 admissible offsets have on
  average fewer than \<open>n\<close> escapes, so \<open>e\<close> is never read uninitialised.
\<close>

lemma card_offsets: "card (word_of_nat ` (set offsets - {39}) :: u8 set) = 254"
proof -
  have "inj_on (word_of_nat :: nat \<Rightarrow> u8) (set offsets - {39})"
    by (rule inj_onI) (auto simp: offsets_def word_of_nat_eq_iff take_bit_eq_mod)
  moreover have "card (set offsets - {39 :: nat}) = 254"
    by (simp add: offsets_def)
  ultimately show ?thesis by (simp only: card_image)
qed

lemma offset_found:
  assumes "bs \<noteq> []"
  obtains i where "offset_loop (count_bytes bs) offsets (length bs) None
      = (escapes bs (word_of_nat i), Some i)"
    and "byte_index i" and "i \<noteq> 39"
    and "254 * escapes bs (word_of_nat i) \<le> 3 * length bs"
    and "\<And>k. byte_index k \<Longrightarrow> k \<noteq> 39 \<Longrightarrow> escapes bs (word_of_nat i) \<le> escapes bs (word_of_nat k)"
proof -
  obtain m e where run: "offset_loop (count_bytes bs) offsets (length bs) None = (m, e)"
    by force
  have R: "m \<le> length bs \<and> (\<forall>i \<in> set offsets - {39}. m \<le> escapes bs (word_of_nat i))
      \<and> (e = None \<longrightarrow> None = (None :: nat option) \<and> m = length bs)
      \<and> (\<forall>i. e = Some i \<longrightarrow> byte_index i \<and> i \<noteq> 39 \<and> m = escapes bs (word_of_nat i))"
    by (rule offset_loop_result [OF _ _ run]) (auto simp: byte_index_def offsets_def)
  have avg: "254 * m \<le> 3 * length bs"
    using escapes_average [of "word_of_nat ` (set offsets - {39})" m bs] R
    unfolding card_offsets by blast
  with assms have "m \<noteq> length bs" by (cases bs) auto
  with R obtain i where i: "e = Some i" by (cases e) auto
  show thesis
  proof (rule that)
    show "escapes bs (word_of_nat i) \<le> escapes bs (word_of_nat k)" if "byte_index k" "k \<noteq> 39" for k
    proof -
      have "k \<in> set offsets - {39}" using that by (auto simp: byte_index_def offsets_def)
      with R i show ?thesis by auto
    qed
  qed (use R i run avg in auto)
qed

section \<open>The copy loop\<close>

lemma encode_loop_Cons:
  obtains (escape) "encode_loop e (b # bs) = 1 # (b - e + 1) # encode_loop e bs"
      "b - e + 1 \<noteq> 0" "b - e + 1 \<noteq> 39" "escapes (b # bs) e = Suc (escapes bs e)"
  | (plain) "encode_loop e (b # bs) = (b - e) # encode_loop e bs"
      "b - e \<noteq> 0" "b - e \<noteq> 1" "b - e \<noteq> 39" "escapes (b # bs) e = escapes bs e"
proof -
  have ne: "(39 :: u8) \<noteq> 0" "(39 :: u8) \<noteq> 1" "(40 :: u8) \<noteq> 0" "(40 :: u8) \<noteq> 39" "(2 :: u8) \<noteq> 39"
      "(2 :: u8) \<noteq> 0" "(1 :: u8) \<noteq> 39" "(1 :: u8) \<noteq> 0"
    by simp_all
  consider "b - e = 0" | "b - e = 1" | "b - e = 39" | "b - e \<noteq> 0" "b - e \<noteq> 1" "b - e \<noteq> 39"
    by blast
  then show thesis
  proof cases
    case 1
    then have "b = e" "b \<noteq> e + 1" "b \<noteq> e + 39" by auto
    with 1 show thesis by (intro escape) (simp_all add: escapes_def Let_def)
  next
    case 2
    then have b: "b = e + 1" by (simp add: diff_eq_eq add.commute)
    then have "b \<noteq> e" "b \<noteq> e + 39" using ne(7) by (simp_all only: add_left_cancel) auto
    with 2 b show thesis by (intro escape) (simp_all add: escapes_def Let_def)
  next
    case 3
    then have b: "b = e + 39" by (simp add: diff_eq_eq add.commute)
    then have "b \<noteq> e" "b \<noteq> e + 1" using ne(2) by (simp_all only: add_left_cancel) auto
    with 3 b show thesis by (intro escape) (simp_all add: escapes_def Let_def)
  next
    case 4
    then have "b \<noteq> e" "b \<noteq> e + 1" "b \<noteq> e + 39" by auto
    with 4 show thesis by (intro plain) (simp_all add: escapes_def Let_def)
  qed
qed

lemma length_encode_loop: "length (encode_loop e bs) = length bs + escapes bs e"
proof (induction bs)
  case Nil
  then show ?case by (simp add: escapes_def)
next
  case (Cons b bs)
  show ?case
    by (cases rule: encode_loop_Cons [of e b bs]) (simp_all only: Cons length_Cons)
qed

lemma encode_loop_bytes: "x \<in> set (encode_loop e bs) \<Longrightarrow> x \<noteq> 0 \<and> x \<noteq> 39"
proof (induction bs)
  case (Cons b bs)
  then show ?case
    by (cases rule: encode_loop_Cons [of e b bs]) (auto simp del: encode_loop.simps)
qed simp

lemma decode_encode_loop: "decode_loop e (encode_loop e bs @ 0 # rest) = Inr bs"
proof (induction bs)
  case (Cons b bs)
  then show ?case
    by (cases rule: encode_loop_Cons [of e b bs]) (simp_all del: encode_loop.simps)
qed simp

definition coded :: "u8 list \<Rightarrow> int \<Rightarrow> nat \<Rightarrow> u8 list" where
  "coded input n k = encode_loop (word_of_nat k) (take (nat n) input)"

lemma encode_binary_found:
  assumes "0 < n" and "nat n \<le> length input"
    and "offset_loop (count_bytes (take (nat n) input)) offsets (nat n) None
      = (escapes (take (nat n) input) (word_of_nat i), Some i)"
  shows "sqlite_encode_binary input n out =
    Inr (if out then word_of_nat i # coded input n i @ [0] else [], 1 + int (length (coded input n i)))"
proof -
  have j: "n + int (escapes (take (nat n) input) (word_of_nat i)) + 1 = 1 + int (length (coded input n i))"
    using assms(1,2) by (simp add: length_encode_loop coded_def)
  have "sqlite_encode_binary input n out =
      (if \<not> out then Inr ([], n + int (escapes (take (nat n) input) (word_of_nat i)) + 1)
       else let body = word_of_nat i # coded input n i; j = int (length body)
         in if j = n + int (escapes (take (nat n) input) (word_of_nat i)) + 1
            then Inr (body @ [0], j) else Inl Aborted)"
    unfolding sqlite_encode_binary_def coded_def using assms by (simp only: Let_def) simp
  then show ?thesis unfolding j by (simp add: Let_def)
qed

lemma encode_binary_eq:
  assumes "0 < n" and "nat n \<le> length input"
  obtains i where "byte_index i" and "i \<noteq> 39"
    and "sqlite_encode_binary input n True =
      Inr (word_of_nat i # coded input n i @ [0], 1 + int (length (coded input n i)))"
    and "sqlite_encode_binary input n False = Inr ([], 1 + int (length (coded input n i)))"
    and "254 * length (coded input n i) \<le> 257 * nat n"
    and "\<And>k. byte_index k \<Longrightarrow> k \<noteq> 39 \<Longrightarrow> length (coded input n i) \<le> length (coded input n k)"
proof -
  define bs where "bs = take (nat n) input"
  have len: "length bs = nat n" using assms by (simp add: bs_def)
  with assms have "bs \<noteq> []" by auto
  from offset_found [OF this] obtain i where
    i: "offset_loop (count_bytes bs) offsets (length bs) None = (escapes bs (word_of_nat i), Some i)"
      "byte_index i" "i \<noteq> 39" "254 * escapes bs (word_of_nat i) \<le> 3 * length bs"
      "\<And>k. byte_index k \<Longrightarrow> k \<noteq> 39 \<Longrightarrow> escapes bs (word_of_nat i) \<le> escapes bs (word_of_nat k)"
    by blast
  have coded: "length (coded input n k) = nat n + escapes bs (word_of_nat k)" for k
    unfolding coded_def length_encode_loop bs_def [symmetric] len ..
  note found = encode_binary_found [OF assms i(1) [unfolded len, unfolded bs_def]]
  show thesis
  proof (rule that [OF i(2,3)])
    show "254 * length (coded input n i) \<le> 257 * nat n"
      using i(4) unfolding coded len by simp
    show "length (coded input n i) \<le> length (coded input n k)" if "byte_index k" "k \<noteq> 39" for k
      using i(5) [OF that] unfolding coded by simp
  qed (simp_all add: found)
qed

section \<open>Properties\<close>

text \<open>
  C21. Encoding never faults on a buffer of at least \<open>n\<close> bytes, and decoding what it
  stored gives the \<open>n\<close> bytes back.
\<close>

theorem sqlite_roundtrip:
  assumes "nat n \<le> length input"
  shows "\<exists>out j. sqlite_encode_binary input n True = Inr (out, j)
    \<and> sqlite_decode_binary out = Inr (take (nat n) input)"
proof (cases "0 < n")
  case True
  then show ?thesis
    by (rule encode_binary_eq [OF _ assms])
      (simp add: sqlite_decode_binary_def decode_encode_loop coded_def)
next
  case False
  then show ?thesis
    by (simp add: sqlite_encode_binary_def sqlite_decode_binary_def)
qed

theorem sqlite_roundtrip_witness:
  "\<exists>out j. sqlite_encode_binary [39, 0, 1, 255] 4 True = Inr (out, j)
    \<and> sqlite_decode_binary out = Inr [39, 0, 1, 255]"
  using sqlite_roundtrip [of 4 "[39, 0, 1, 255]"] by simp

text \<open>
  What is stored is a NUL-terminated string without quotes, of the length the routine
  returns (also in the dry run with a null \<open>out\<close>), and it fits the buffer size the
  comment asks for, \<open>2 + (257*n)/254\<close> bytes.
\<close>

theorem sqlite_encode_safe:
  assumes "nat n \<le> length input" and "sqlite_encode_binary input n True = Inr (out, j)"
  shows "\<exists>body. out = body @ [0] \<and> 0 \<notin> set body \<and> 39 \<notin> set body \<and> j = int (length body)
    \<and> length out \<le> 2 + 257 * nat n div 254
    \<and> sqlite_encode_binary input n False = Inr ([], j)"
proof (cases "0 < n")
  case True
  from encode_binary_eq [OF this assms(1)] obtain i where
    i: "byte_index i" "i \<noteq> 39"
      "sqlite_encode_binary input n True =
        Inr (word_of_nat i # coded input n i @ [0], 1 + int (length (coded input n i)))"
      "sqlite_encode_binary input n False = Inr ([], 1 + int (length (coded input n i)))"
      "254 * length (coded input n i) \<le> 257 * nat n"
    by metis
  have "unat (word_of_nat i :: u8) = i"
    using i(1) by (simp add: unat_of_nat take_bit_eq_mod byte_index_def)
  then have e: "(word_of_nat i :: u8) \<noteq> 0" "(word_of_nat i :: u8) \<noteq> 39"
    using i(1,2) by (auto simp: byte_index_def)
  have b: "0 \<notin> set (coded input n i)" "39 \<notin> set (coded input n i)"
    using encode_loop_bytes unfolding coded_def by blast+
  have "length (coded input n i) \<le> 257 * nat n div 254"
    using i(5) by simp
  with assms(2) i(3,4) e b show ?thesis
    by (intro exI [of _ "word_of_nat i # coded input n i"]) auto
next
  case False
  then show ?thesis
    using assms(2) by (auto simp: sqlite_encode_binary_def)
qed

lemma encode_three_quotes:
  "\<exists>out j. sqlite_encode_binary (replicate 3 39) 3 True = Inr (out, j)"
  by (rule encode_binary_eq [of 3 "replicate 3 39"]) auto

theorem sqlite_encode_safe_witness:
  "\<exists>out j. sqlite_encode_binary (replicate 3 39) 3 True = Inr (out, j)
    \<and> length out \<le> 2 + 257 * nat 3 div 254"
proof -
  obtain out j where out: "sqlite_encode_binary (replicate 3 39) 3 True = Inr (out, j)"
    using encode_three_quotes by blast
  have "nat 3 \<le> length (replicate 3 (39 :: u8))" by simp
  from sqlite_encode_safe [OF this out] out show ?thesis by blast
qed

text \<open>
  The offset is optimal: encoding with any other admissible offset is not shorter.
\<close>

theorem sqlite_encode_minimal:
  assumes "nat n \<le> length input" and "sqlite_encode_binary input n True = Inr (out, j)"
    and "0 < n" and "byte_index k" and "k \<noteq> 39"
  shows "j \<le> 1 + int (length (encode_loop (word_of_nat k) (take (nat n) input)))"
proof -
  from encode_binary_eq [OF assms(3,1)] obtain i where
    "sqlite_encode_binary input n True =
        Inr (word_of_nat i # coded input n i @ [0], 1 + int (length (coded input n i)))"
      "\<And>k. byte_index k \<Longrightarrow> k \<noteq> 39 \<Longrightarrow> length (coded input n i) \<le> length (coded input n k)"
    by metis
  with assms(2,4,5) have "j = 1 + int (length (coded input n i))"
    and "length (coded input n i) \<le> length (coded input n k)" by auto
  then show ?thesis by (simp flip: coded_def)
qed

theorem sqlite_encode_minimal_witness:
  "\<exists>out j. sqlite_encode_binary (replicate 3 39) 3 True = Inr (out, j)
    \<and> j \<le> 1 + int (length (encode_loop (word_of_nat 1) (take (nat 3) (replicate 3 39))))"
proof -
  obtain out j where out: "sqlite_encode_binary (replicate 3 39) 3 True = Inr (out, j)"
    using encode_three_quotes by blast
  have "nat 3 \<le> length (replicate 3 (39 :: u8))" "(0 :: int) < 3" "byte_index 1" "(1 :: nat) \<noteq> 39"
    by (simp_all add: byte_index_def)
  from sqlite_encode_minimal [OF this(1) out this(2-4)] out show ?thesis by blast
qed

text \<open>
  The decoder has no \<open>-1\<close> branch, although its comment promises one for a malformed
  string: an escape byte before the terminator makes it skip the terminator and read on,
  past the end of a buffer that holds only this string.
\<close>

theorem sqlite_decode_malformed: "sqlite_decode_binary [e, 1, 0] = Inl OutOfBounds"
  by (simp add: sqlite_decode_binary_def)

end
