(* ===== verification/StrNat.thy ===== *)
theory StrNat
  imports Prelude
begin

text \<open>
  \<open>runtime/ext/standard/strnatcmp.c\<close>: the natural-order string comparison behind PHP's
  \<open>strnatcmp\<close>, \<open>strnatcasecmp\<close> and \<open>natsort\<close>.  A C string is the list of its bytes; the
  pointers \<open>a\<close> and \<open>b\<close> of the code are the tails they point to, so that the terminating
  NUL is what \<open>at0\<close> reads from the empty tail.
\<close>

section \<open>The code\<close>

text \<open>\<open>compare_right\<close>: the longest run of digits wins, then the greatest value.\<close>

function compare_right :: "cstr \<Rightarrow> cstr \<Rightarrow> int \<Rightarrow> int" where
  "compare_right a b bias =
     (if \<not> c_isdigit (at0 a) \<and> \<not> c_isdigit (at0 b) then bias
      else if \<not> c_isdigit (at0 a) then - 1
      else if \<not> c_isdigit (at0 b) then 1
      else if schar (at0 a) < schar (at0 b)
        then compare_right (tl a) (tl b) (if bias = 0 then - 1 else bias)
      else if schar (at0 a) > schar (at0 b)
        then compare_right (tl a) (tl b) (if bias = 0 then 1 else bias)
      else if at0 a = NUL \<and> at0 b = NUL then bias
      else compare_right (tl a) (tl b) bias)"
  by pat_completeness auto

lemma digit_at0: "c_isdigit (at0 s) \<Longrightarrow> s \<noteq> []"
  by (cases s) auto

lemma digit_len: "c_isdigit (at0 s) \<Longrightarrow> length s - Suc 0 < length s"
  by (cases s) auto

termination compare_right
  by (relation "measure (\<lambda>(a, b, bias). length a)") (auto, (metis digit_len)+)

text \<open>\<open>compare_left\<close>: the first digit that differs wins (fractional parts).\<close>

function compare_left :: "cstr \<Rightarrow> cstr \<Rightarrow> int" where
  "compare_left a b =
     (if \<not> c_isdigit (at0 a) \<and> \<not> c_isdigit (at0 b) then 0
      else if \<not> c_isdigit (at0 a) then - 1
      else if \<not> c_isdigit (at0 b) then 1
      else if schar (at0 a) < schar (at0 b) then - 1
      else if schar (at0 a) > schar (at0 b) then 1
      else compare_left (tl a) (tl b))"
  by pat_completeness auto
termination
  by (relation "measure (\<lambda>(a, b). length a)") (auto, (metis digit_len)+)

text \<open>The run of digits at the two cursors, compared as a fraction or as a number.\<close>

definition compare_digits :: "cstr \<Rightarrow> cstr \<Rightarrow> int" where
  "compare_digits a b =
     (if c_isdigit (at0 a) \<and> c_isdigit (at0 b)
      then (if at0 a = CHR ''0'' \<or> at0 b = CHR ''0'' then compare_left a b else compare_right a b 0)
      else 0)"

definition fold_char :: "bool \<Rightarrow> char \<Rightarrow> char" where
  "fold_char fold_case c = (if fold_case then c_toupper c else c)"

text \<open>\<open>strnatcmp0\<close>: one call is one iteration of its \<open>while (1)\<close> loop.\<close>

function strnatcmp0 :: "cstr \<Rightarrow> cstr \<Rightarrow> bool \<Rightarrow> int" where
  "strnatcmp0 a0 b0 fold_case =
     (let a = dropWhile c_isspace a0; b = dropWhile c_isspace b0; result = compare_digits a b
      in if result \<noteq> 0 then result
         else if at0 a = NUL \<and> at0 b = NUL then 0
         else let ca = fold_char fold_case (at0 a); cb = fold_char fold_case (at0 b)
           in if schar ca < schar cb then - 1
              else if schar ca > schar cb then 1
              else strnatcmp0 (tl a) (tl b) fold_case)"
  by pat_completeness auto

lemma fold_char_NUL [simp]: "fold_char f c = NUL \<longleftrightarrow> c = NUL"
  by (simp add: fold_char_def)

lemma at0_not_NUL: "at0 s \<noteq> NUL \<Longrightarrow> s \<noteq> []"
  by auto

lemma length_tl_dropWhile: "at0 (dropWhile P s) \<noteq> NUL \<Longrightarrow> length (tl (dropWhile P s)) < length s"
  using length_dropWhile_le [of P s] by (cases "dropWhile P s") auto

termination strnatcmp0
proof (relation "measure (\<lambda>(a, b, f). length a + length b)", goal_cases)
  case (2 a0 b0 f a b result ca cb)
  then have "ca = cb"
    by (metis linorder_less_linear schar_inj)
  with 2 have "at0 a \<noteq> NUL" "at0 b \<noteq> NUL"
    by (metis fold_char_NUL)+
  with 2(1,2) show ?case
    using length_tl_dropWhile [of c_isspace a0] length_tl_dropWhile [of c_isspace b0]
    by auto
qed auto

definition strnatcmp :: "cstr \<Rightarrow> cstr \<Rightarrow> int" where
  "strnatcmp a b = strnatcmp0 a b False"

definition strnatcasecmp :: "cstr \<Rightarrow> cstr \<Rightarrow> int" where
  "strnatcasecmp a b = strnatcmp0 a b True"

declare compare_right.simps [simp del] compare_left.simps [simp del] strnatcmp0.simps [simp del]

section \<open>Antisymmetry\<close>

lemma compare_right_swap: "compare_right b a (- bias) = - compare_right a b bias"
proof (induction a b bias rule: compare_right.induct)
  case (1 a b bias)
  then show ?case
    by (auto simp: compare_right.simps [of a b] compare_right.simps [of b a])
qed

lemma compare_left_swap: "compare_left b a = - compare_left a b"
proof (induction a b rule: compare_left.induct)
  case (1 a b)
  then show ?case
    by (auto simp: compare_left.simps [of a b] compare_left.simps [of b a])
qed

lemma compare_digits_swap: "compare_digits b a = - compare_digits a b"
  using compare_right_swap [of b a 0] compare_left_swap [of b a]
  by (auto simp: compare_digits_def)

text \<open>
  The comparison is antisymmetric: swapping the arguments negates the result, with and
  without case folding, on all strings.
\<close>

theorem strnatcmp0_antisym: "strnatcmp0 b a f = - strnatcmp0 a b f"
proof (induction a b f rule: strnatcmp0.induct)
  case (1 a0 b0 f)
  show ?case
    using 1 compare_digits_swap [of "dropWhile c_isspace a0" "dropWhile c_isspace b0"]
    unfolding strnatcmp0.simps [of a0 b0] strnatcmp0.simps [of b0 a0] Let_def
    by auto
qed

section \<open>Numbers inside strings are compared by value\<close>

fun dec_val :: "cstr \<Rightarrow> nat" where
  "dec_val [] = 0"
| "dec_val (c # cs) = (code c - 48) * 10 ^ length cs + dec_val cs"

abbreviation digits :: "cstr \<Rightarrow> bool" where
  "digits s \<equiv> list_all c_isdigit s"

lemma dec_val_less: "digits s \<Longrightarrow> dec_val s < 10 ^ length s"
proof (induction s)
  case (Cons c cs)
  have "(code c - 48) * 10 ^ length cs \<le> 9 * 10 ^ length cs"
    using Cons.prems by (intro mult_right_mono) (auto simp: c_isdigit_def)
  moreover have "dec_val cs < 10 ^ length cs" using Cons by simp
  ultimately have "(code c - 48) * 10 ^ length cs + dec_val cs < 9 * 10 ^ length cs + 10 ^ length cs"
    by (rule add_le_less_mono)
  then show ?case by simp
qed simp

lemma dec_val_ge: "digits s \<Longrightarrow> s \<noteq> [] \<Longrightarrow> at0 s \<noteq> CHR ''0'' \<Longrightarrow> 10 ^ (length s - Suc 0) \<le> dec_val s"
proof (cases s)
  case (Cons c cs)
  assume "digits s" "at0 s \<noteq> CHR ''0''"
  moreover have "code CHR ''0'' = 48" by (simp add: code_def)
  ultimately have "48 < code c"
    using code_inj [of c "CHR ''0''"] Cons by (auto simp: c_isdigit_def simp del: code_inj)
  then have "1 * 10 ^ length cs \<le> (code c - 48) * 10 ^ length cs"
    by (intro mult_right_mono) auto
  also have "\<dots> \<le> dec_val s" using Cons by simp
  finally show ?thesis using Cons by simp
qed simp

lemma dec_val_shorter:
  assumes "length a < length b" "digits a" "digits b" "b \<noteq> []" "at0 b \<noteq> CHR ''0''"
  shows "dec_val a < dec_val b"
proof -
  have "dec_val a < 10 ^ length a" using assms by (simp add: dec_val_less)
  also have "(10 :: nat) ^ length a \<le> 10 ^ (length b - Suc 0)"
    using assms by (intro power_increasing) auto
  also have "\<dots> \<le> dec_val b" using assms by (intro dec_val_ge) auto
  finally show ?thesis .
qed

text \<open>Digits of greater weight dominate the rest.\<close>

lemma dec_val_mono_head:
  assumes "digits (c # cs)" "digits (d # ds)" "length cs = length ds" "code c < code d"
  shows "dec_val (c # cs) < dec_val (d # ds)"
proof -
  have "dec_val (c # cs) < Suc (code c - 48) * 10 ^ length cs"
    using dec_val_less [of cs] assms by simp
  also have "\<dots> \<le> (code d - 48) * 10 ^ length ds"
    using assms by (intro mult_mono) (auto simp: c_isdigit_def)
  finally show ?thesis by simp
qed

lemma schar_digit: "c_isdigit c \<Longrightarrow> schar c = int (code c)"
  by (simp add: c_isdigit_def schar_def)

text \<open>
  What \<open>compare_right\<close> decides on two runs of digits: the lengths first, then the bias of
  the digits already read, then the values.
\<close>

lemma compare_right_digits:
  assumes "digits a" "digits b" "\<not> c_isdigit (at0 ra)" "\<not> c_isdigit (at0 rb)"
  shows "compare_right (a @ ra) (b @ rb) bias =
    (if length a < length b then - 1 else if length b < length a then 1
     else if bias \<noteq> 0 then bias else sgn (int (dec_val a) - int (dec_val b)))"
  using assms
proof (induction a arbitrary: b bias)
  case Nil
  then show ?case by (cases b) (auto simp: compare_right.simps)
next
  case (Cons c cs)
  show ?case
  proof (cases b)
    case Nil
    with Cons.prems show ?thesis by (auto simp: compare_right.simps)
  next
    case (Cons d ds)
    have dg: "c_isdigit c" "c_isdigit d" using Cons.prems Cons by auto
    have ne: "c \<noteq> NUL" using dg by (auto simp: c_isdigit_def)
    have IH: "compare_right (cs @ ra) (ds @ rb) k =
      (if length cs < length ds then - 1 else if length ds < length cs then 1
       else if k \<noteq> 0 then k else sgn (int (dec_val cs) - int (dec_val ds)))" for k
      using Cons.IH [of ds k] Cons.prems Cons by simp
    have lt: "code x < code y \<Longrightarrow> length xs = length ys \<Longrightarrow> digits (x # xs) \<Longrightarrow> digits (y # ys)
        \<Longrightarrow> dec_val (x # xs) < dec_val (y # ys)" for x y xs ys
      using dec_val_mono_head [of x xs y ys] by simp
    have step: "compare_right ((c # cs) @ ra) (b @ rb) bias = compare_right (cs @ ra) (ds @ rb)
      (if bias = 0 then (if code c < code d then - 1 else if code d < code c then 1 else 0) else bias)"
      using dg ne Cons code_inj [of c d]
      by (simp add: compare_right.simps [of "c # cs @ ra"] schar_digit del: code_inj)
    consider "code c < code d" | "code d < code c" | "c = d"
      using code_inj by (meson linorder_neqE_nat)
    then show ?thesis
      unfolding step IH
      using Cons.prems Cons lt [of c d cs ds] lt [of d c ds cs]
      by cases (auto simp del: dec_val.simps(2), auto)
  qed
qed

lemma strnatcmp_prefix:
  assumes "\<forall>c \<in> set p. c \<noteq> NUL \<and> \<not> c_isdigit c" "c_isdigit (at0 a)" "c_isdigit (at0 b)"
    and "compare_digits a b \<noteq> 0"
  shows "strnatcmp0 (p @ a) (p @ b) f = compare_digits a b"
  using assms(1)
proof (induction p rule: length_induct)
  case (1 p)
  have sp: "\<not> c_isspace (at0 x)" if "c_isdigit (at0 x)" for x
    using that by (auto simp: c_isdigit_def c_isspace_def)
  have dw: "dropWhile c_isspace x = x" if "c_isdigit (at0 x)" for x
    using sp [OF that] that by (cases x) auto
  show ?case
  proof (cases "dropWhile c_isspace p")
    case Nil
    then have "dropWhile c_isspace (p @ x) = x" if "c_isdigit (at0 x)" for x
      using dw [OF that] Nil by (simp add: dropWhile_append dropWhile_eq_Nil_conv)
    with assms show ?thesis by (simp add: strnatcmp0.simps [of "p @ a"] Let_def)
  next
    case (Cons c q)
    then have "\<not> (\<forall>x \<in> set p. c_isspace x)" by (metis dropWhile_eq_Nil_conv list.distinct(1))
    with Cons have app: "dropWhile c_isspace (p @ x) = c # q @ x" for x
      by (auto simp: dropWhile_append)
    have sub: "set (c # q) \<subseteq> set p" "length q < length p"
      using set_dropWhileD [of _ c_isspace p] length_dropWhile_le [of c_isspace p] Cons by auto
    then have "c \<noteq> NUL" "\<not> c_isdigit c" "strnatcmp0 (q @ a) (q @ b) f = compare_digits a b"
      using 1 by auto
    then show ?thesis
      by (simp add: strnatcmp0.simps [of "p @ a"] app Let_def compare_digits_def [of "c # q @ a"])
  qed
qed

text \<open>
  Embedded numbers are compared by value: behind a common prefix without digits, two
  different runs of digits that do not start with a zero decide the comparison by the
  numbers they denote, whatever their lengths and whatever follows them.
\<close>

theorem strnatcmp_by_value:
  assumes "\<forall>c \<in> set p. c \<noteq> NUL \<and> \<not> c_isdigit c"
    and "digits a" "digits b" "a \<noteq> []" "b \<noteq> []" "at0 a \<noteq> CHR ''0''" "at0 b \<noteq> CHR ''0''"
    and "\<not> c_isdigit (at0 ra)" "\<not> c_isdigit (at0 rb)" "dec_val a \<noteq> dec_val b"
  shows "strnatcmp (p @ a @ ra) (p @ b @ rb) = (if dec_val a < dec_val b then - 1 else 1) \<and>
    strnatcasecmp (p @ a @ ra) (p @ b @ rb) = (if dec_val a < dec_val b then - 1 else 1)"
proof -
  have at0_app: "at0 (x @ y) = at0 x" "c_isdigit (at0 x)" if "digits x" "x \<noteq> []" for x y
    using that by (cases x; simp)+
  note ha = at0_app [OF assms(2,4)] and hb = at0_app [OF assms(3,5)]
  have "compare_digits (a @ ra) (b @ rb) = compare_right (a @ ra) (b @ rb) 0"
    by (simp add: compare_digits_def ha hb assms(6,7))
  also have "\<dots> = (if dec_val a < dec_val b then - 1 else 1)"
    using dec_val_shorter [of a b] dec_val_shorter [of b a] assms(2-7,10)
    unfolding compare_right_digits [OF assms(2,3,8,9)] by auto
  finally have cd: "compare_digits (a @ ra) (b @ rb) = (if dec_val a < dec_val b then - 1 else 1)" .
  have hd: "c_isdigit (at0 (a @ ra))" "c_isdigit (at0 (b @ rb))" "compare_digits (a @ ra) (b @ rb) \<noteq> 0"
    by (simp_all add: ha hb cd)
  show ?thesis
    unfolding strnatcmp_def strnatcasecmp_def strnatcmp_prefix [OF assms(1) hd] cd by simp
qed

theorem strnatcmp_by_value_witness:
  "strnatcmp ''img10.png'' ''img9.png'' = 1"
  using strnatcmp_by_value [of "''img''" "''10''" "''9''" "''.png''" "''.png''"]
  by (simp add: c_isdigit_def code_def)

end
