(* ===== verification/CRuntime.thy ===== *)
theory CRuntime
  imports Prelude
begin

text \<open>
  \<open>runtime/c-runtime.c\<close>: binary-safe string comparison and the substring searches behind
  PHP's \<open>strpos\<close> family.  A Bigloo string is its bytes followed by a NUL the C code may
  read; a read past that NUL is a fault.  The searches jump with \<open>goto\<close> between nested
  loops: each loop is a function of the cursor and of the counter \<open>ih\<close>, the jumps are the
  calls between them.  Pointers into the strings are indices.
\<close>

section \<open>The code\<close>

text \<open>\<open>memcmp\<close> promises the sign of its result only.\<close>

fun memcmp :: "cstr \<Rightarrow> cstr \<Rightarrow> nat \<Rightarrow> int" where
  "memcmp (x # xs) (y # ys) (Suc n) =
     (if code x < code y then - 1 else if code y < code x then 1 else memcmp xs ys n)"
| "memcmp xs ys n = 0"

definition binary_strcmp :: "cstr \<Rightarrow> nat \<Rightarrow> cstr \<Rightarrow> nat \<Rightarrow> int" where
  "binary_strcmp s1 len1 s2 len2 =
     (let rval = memcmp s1 s2 (min len1 len2) in if rval = 0 then int len1 - int len2 else rval)"

text \<open>The first loop: look for the first byte \<open>b\<close> of the needle.\<close>

function scan_first :: "(char \<Rightarrow> char) \<Rightarrow> char \<Rightarrow> cstr \<Rightarrow> nat \<Rightarrow> int \<Rightarrow> fault + (nat \<times> int) option" where
  "scan_first f b s i ih =
     bind_res (cget s i) (\<lambda>a.
       if ih - 1 < 0 then Inr None
       else if f a \<noteq> b then scan_first f b s (i + 1) (ih - 1)
       else Inr (Some (i, ih - 1)))"
  by pat_completeness auto
termination by (relation "measure (\<lambda>(f, b, s, i, ih). nat ih)") auto

text \<open>The \<open>for\<close> loop inside: two bytes per turn until one is \<open>b\<close>.\<close>

function find_b :: "(char \<Rightarrow> char) \<Rightarrow> char \<Rightarrow> cstr \<Rightarrow> nat \<Rightarrow> int \<Rightarrow> fault + (nat \<times> int) option" where
  "find_b f b s i ih =
     bind_res (cget s i) (\<lambda>a.
       if f a = b then Inr (Some (i, ih))
       else if ih < 0 then Inr None
       else bind_res (cget s (i + 1)) (\<lambda>a.
         if f a = b then Inr (Some (i + 1, ih - 1))
         else if ih - 1 < 0 then Inr None
         else find_b f b s (i + 2) (ih - 2)))"
  by pat_completeness auto
termination by (relation "measure (\<lambda>(f, b, s, i, ih). nat ih)") auto

declare scan_first.simps [simp del] find_b.simps [simp del]

lemma find_b_pos: "find_b f b s i ih = Inr (Some (k, ih')) \<Longrightarrow> i \<le> k"
proof (induction f b s i ih rule: find_b.induct)
  case (1 f b s i ih)
  from 1(2) show ?case
    unfolding find_b.simps [of f b s i ih]
    by (auto simp: bind_res_eq_Inr split: if_splits dest!: 1(1))
qed

text \<open>The \<open>do .. while\<close> around it: a \<open>b\<close> followed by the second byte \<open>c\<close>.\<close>

function find_bc :: "(char \<Rightarrow> char) \<Rightarrow> char \<Rightarrow> char \<Rightarrow> cstr \<Rightarrow> nat \<Rightarrow> int \<Rightarrow> fault + (nat \<times> int) option" where
  "find_bc f b c s i ih =
     bind_res (find_b f b s i ih) (\<lambda>r. case r of None \<Rightarrow> Inr None
       | Some (k, ih) \<Rightarrow> bind_res (cget s (k + 1)) (\<lambda>a.
           if f a \<noteq> c then find_bc f b c s (k + 1) (ih - 1) else Inr (Some (k + 1, ih - 1))))"
  by pat_completeness auto
termination
  by (relation "measure (\<lambda>(f, b, c, s, i, ih). Suc (length s) - i)")
    (auto dest!: cget_Inr find_b_pos)

declare find_bc.simps [simp del]

lemma find_bc_pos: "find_bc f b c s i ih = Inr (Some (k, ih')) \<Longrightarrow> i < k \<and> k \<le> length s"
proof (induction f b c s i ih rule: find_bc.induct)
  case (1 f b c s i ih)
  from 1(2) obtain k1 ih1 a where *: "find_b f b s i ih = Inr (Some (k1, ih1))" "cget s (k1 + 1) = Inr a"
    "f a \<noteq> c \<Longrightarrow> find_bc f b c s (k1 + 1) (ih1 - 1) = Inr (Some (k, ih'))" "f a = c \<Longrightarrow> k = k1 + 1"
    unfolding find_bc.simps [of f b c s i ih]
    by (auto simp: bind_res_eq_Inr split: if_splits option.splits)
  then have "i \<le> k1" "k1 + 1 \<le> length s" by (auto dest: find_b_pos cget_Inr)
  moreover have "f a \<noteq> c \<Longrightarrow> k1 + 1 < k \<and> k \<le> length s" using 1(1) * by blast
  ultimately show ?case using * by (cases "f a = c") auto
qed

text \<open>
  The comparison of the rest of the needle, two bytes per turn; the value says whether the
  counter \<open>in\<close> of needle bytes has run out (\<open>foundneedle\<close>).
\<close>

function match_rest :: "(char \<Rightarrow> char) \<Rightarrow> cstr \<Rightarrow> cstr \<Rightarrow> nat \<Rightarrow> nat \<Rightarrow> int \<Rightarrow> fault + bool" where
  "match_rest f s nd r n inn =
     (if inn \<le> 0 then Inr True
      else bind_res (cget s (r + 1)) (\<lambda>x. bind_res (cget nd (n + 1)) (\<lambda>a.
        if f x \<noteq> f a then Inr (inn - 1 \<le> 0)
        else if inn - 1 \<le> 0 then Inr True
        else bind_res (cget s (r + 2)) (\<lambda>x. bind_res (cget nd (n + 2)) (\<lambda>a.
          if f x = f a then match_rest f s nd (r + 2) (n + 2) (inn - 2)
          else Inr (inn - 2 \<le> 0))))))"
  by pat_completeness auto
termination by (relation "measure (\<lambda>(f, s, nd, r, n, inn). nat inn)") auto

text \<open>
  From the label \<open>crest\<close>: \<open>j\<close> is the position of the second byte.  The byte after it is
  compared as it is, in both versions.
\<close>

function crest :: "(char \<Rightarrow> char) \<Rightarrow> char \<Rightarrow> char \<Rightarrow> cstr \<Rightarrow> cstr \<Rightarrow> int \<Rightarrow> nat \<Rightarrow> int \<Rightarrow> fault + nat option" where
  "crest f b c s nd inn j ih =
     bind_res (cget s (j + 1)) (\<lambda>x. bind_res (cget nd 2) (\<lambda>a.
     bind_res (if x = a then match_rest f s nd (j + 1) 2 inn else Inr (inn \<le> 0)) (\<lambda>found.
       if found then Inr (Some (j - 1))
       else bind_res (find_bc f b c s j ih) (\<lambda>r. case r of None \<Rightarrow> Inr None
         | Some (j, ih) \<Rightarrow> crest f b c s nd inn j ih))))"
  by pat_completeness auto
termination
  by (relation "measure (\<lambda>(f, b, c, s, nd, inn, j, ih). Suc (length s) - j)")
    (auto dest!: find_bc_pos)

definition str_search :: "(char \<Rightarrow> char) \<Rightarrow> cstr \<Rightarrow> int \<Rightarrow> cstr \<Rightarrow> int \<Rightarrow> fault + nat option" where
  "str_search f s hslen nd nlen =
     bind_res (cget nd 0) (\<lambda>b.
     bind_res (scan_first f (f b) s 0 hslen) (\<lambda>r. case r of None \<Rightarrow> Inr None
       | Some (i, ih) \<Rightarrow>
         bind_res (cget nd 1) (\<lambda>c.
           if nlen - 1 \<le> 0 then Inr (Some i)
           else bind_res (cget s (i + 1)) (\<lambda>a.
             if f a = f c then crest f (f b) (f c) s nd (nlen - 2) (i + 1) (ih - 1)
             else bind_res (find_bc f (f b) (f c) s (i + 1) (ih - 1)) (\<lambda>r. case r of None \<Rightarrow> Inr None
               | Some (j, ih) \<Rightarrow> crest f (f b) (f c) s nd (nlen - 2) j ih)))))"

definition re_strstr :: "cstr \<Rightarrow> int \<Rightarrow> cstr \<Rightarrow> int \<Rightarrow> fault + nat option" where
  "re_strstr = str_search (\<lambda>c. c)"

definition re_stristr :: "cstr \<Rightarrow> int \<Rightarrow> cstr \<Rightarrow> int \<Rightarrow> fault + nat option" where
  "re_stristr = str_search c_tolower"

definition re_strpos :: "cstr \<Rightarrow> cstr \<Rightarrow> nat \<Rightarrow> bool \<Rightarrow> fault + int" where
  "re_strpos haystack needle offset cs =
     (let h = drop offset haystack; hlen = int (length haystack) - int offset in
      bind_res (if cs then re_strstr h hlen needle (int (length needle))
                else re_stristr h hlen needle (int (length needle)))
        (\<lambda>result. case result of Some r \<Rightarrow> Inr (int r + int offset) | None \<Rightarrow> Inr (- 1)))"

declare match_rest.simps [simp del] crest.simps [simp del]

section \<open>Comparison\<close>

lemma memcmp_swap: "memcmp ys xs n = - memcmp xs ys n"
  by (induction xs ys n rule: memcmp.induct) auto

lemma memcmp_0: "n \<le> length xs \<Longrightarrow> n \<le> length ys \<Longrightarrow> memcmp xs ys n = 0 \<longleftrightarrow> take n xs = take n ys"
proof (induction xs ys n rule: memcmp.induct)
  case (1 x xs y ys n)
  then show ?case using code_inj [of x y] by (auto simp del: code_inj)
qed auto

text \<open>
  The comparison of two binary strings, embedded NULs included: it is zero exactly on
  equal strings, and swapping the arguments negates it.
\<close>

theorem binary_strcmp_order:
  "(binary_strcmp s (length s) t (length t) = 0 \<longleftrightarrow> s = t) \<and>
   binary_strcmp t (length t) s (length s) = - binary_strcmp s (length s) t (length t)"
  using memcmp_0 [of "min (length s) (length t)" s t] memcmp_swap [of t s "min (length s) (length t)"]
  by (auto simp: binary_strcmp_def Let_def min.commute min_def split: if_splits)

section \<open>The search finds the first occurrence\<close>

text \<open>An occurrence of the needle at \<open>i\<close>, inside the string.\<close>

definition occurs :: "cstr \<Rightarrow> cstr \<Rightarrow> nat \<Rightarrow> bool" where
  "occurs s nd i \<longleftrightarrow> i + length nd \<le> length s \<and> take (length nd) (drop i s) = nd"

fun first_occ :: "cstr \<Rightarrow> cstr \<Rightarrow> nat \<Rightarrow> nat option" where
  "first_occ [] nd i = (if nd = [] then Some i else None)"
| "first_occ (c # s) nd i = (if take (length nd) (c # s) = nd then Some i else first_occ s nd (i + 1))"

lemma hb_nul_free: "nul_free nd \<Longrightarrow> t < length nd \<Longrightarrow> hb nd t \<noteq> NUL"
  by (auto simp: hb_def nul_free_def in_set_conv_nth)

lemma occurs_hb:
  assumes "nul_free nd" "nd \<noteq> []"
  shows "occurs s nd i \<longleftrightarrow> (\<forall>t < length nd. hb s (i + t) = hb nd t)"
proof
  assume o: "occurs s nd i"
  then have l: "i \<le> length s" and e: "take (length nd) (drop i s) = nd" by (simp_all add: occurs_def)
  have "take (length nd) (drop i s) ! t = s ! (i + t)" if "t < length nd" for t
    using that l by simp
  then have "nd ! t = s ! (i + t)" if "t < length nd" for t
    using that unfolding e by simp
  then show "\<forall>t < length nd. hb s (i + t) = hb nd t" using o by (simp add: hb_def occurs_def)
next
  assume e: "\<forall>t < length nd. hb s (i + t) = hb nd t"
  let ?l = "length nd - 1"
  have "i + ?l < length s"
    using e hb_nul_free [OF assms(1), of ?l] assms(2) by (intro hb_inside) auto
  then have l: "i + length nd \<le> length s" using assms(2) by (cases nd) auto
  have "take (length nd) (drop i s) = nd"
    using e l by (intro nth_equalityI) (auto simp: hb_def split: if_splits)
  with l show "occurs s nd i" by (simp add: occurs_def)
qed

lemma match_rest_occurs:
  assumes nd: "nul_free nd" "n \<le> length nd" and m: "hb s (i + n) = hb nd n" and r: "i + n \<le> length s"
  shows "match_rest (\<lambda>c. c) s nd (i + n) n (int (length nd) - int n) =
    Inr (\<forall>t. n \<le> t \<and> t < length nd \<longrightarrow> hb s (i + t) = hb nd t)"
  using nd(2) m r
proof (induction "length nd - n" arbitrary: n rule: less_induct)
  case less
  let ?A = "\<lambda>n. \<forall>t. n \<le> t \<and> t < length nd \<longrightarrow> hb s (i + t) = hb nd t"
  have step: "?A n \<longleftrightarrow> n < length nd \<longrightarrow> hb s (i + n) = hb nd n \<and> ?A (Suc n)" for n
    by (metis Suc_leI le_less_trans le_neq_implies_less le_refl lessI less_imp_le not_less)
  show ?case
  proof (cases "n < length nd")
    case False
    with less.prems show ?thesis by (subst match_rest.simps) auto
  next
    case True
    then have i1: "i + n + 1 \<le> length s" using less.prems hb_nul_free [OF nd(1) True] hb_inside [of s "i + n"] by auto
    have g1: "cget s (i + n + 1) = Inr (hb s (i + (n + 1)))" "cget nd (n + 1) = Inr (hb nd (n + 1))"
      using i1 True by (simp_all add: cget_hb add.assoc)
    show ?thesis
    proof (cases "hb s (i + (n + 1)) = hb nd (n + 1) \<and> n + 1 < length nd")
      case False
      then show ?thesis
        using True less.prems g1 step [of n] step [of "n + 1"]
        by (subst match_rest.simps) (auto simp: Suc_le_eq not_less)
    next
      case t1: True
      then have i2: "i + n + 2 \<le> length s"
        using hb_nul_free [OF nd(1), of "n + 1"] hb_inside [of s "i + (n + 1)"] by auto
      have g2: "cget s (i + n + 2) = Inr (hb s (i + (n + 2)))" "cget nd (n + 2) = Inr (hb nd (n + 2))"
        using i2 t1 by (simp_all add: cget_hb add.assoc)
      have eq: "?A n \<longleftrightarrow> ?A (n + 2)" using True t1 less.prems step [of n] step [of "Suc n"] by simp
      show ?thesis
      proof (cases "hb s (i + (n + 2)) = hb nd (n + 2)")
        case e2: True
        have "match_rest (\<lambda>c. c) s nd (i + (n + 2)) (n + 2) (int (length nd) - int (n + 2)) = Inr (?A (n + 2))"
          using t1 e2 i2 True by (intro less.hyps) auto
        then show ?thesis
          unfolding eq using True t1 g1 g2 e2
          by (subst match_rest.simps) (simp add: diff_diff_eq ac_simps)
      next
        case False
        then show ?thesis
          unfolding eq using True t1 g1 g2 step [of "n + 2"]
          by (subst match_rest.simps) (auto simp: add.assoc)
      qed
    qed
  qed
qed

text \<open>\<open>bc_at\<close>: the first two bytes of the needle at \<open>k\<close>, the pattern of the inner loops.\<close>

abbreviation ih_of :: "cstr \<Rightarrow> nat \<Rightarrow> int" where
  "ih_of s i \<equiv> int (length s) - 1 - int i"

lemma scan_first_spec:
  assumes "b \<noteq> NUL" "i \<le> length s"
  shows "\<exists>r. scan_first (\<lambda>c. c) b s i (int (length s) - int i) = Inr r \<and>
    (case r of None \<Rightarrow> \<forall>k \<ge> i. hb s k \<noteq> b
     | Some (k, ih) \<Rightarrow> i \<le> k \<and> k < length s \<and> ih = ih_of s k \<and> hb s k = b \<and> (\<forall>m. i \<le> m \<and> m < k \<longrightarrow> hb s m \<noteq> b))"
  using assms(2)
proof (induction "length s - i" arbitrary: i)
  case 0
  then show ?case using assms(1) by (subst scan_first.simps) (auto simp: cget_hb hb_def)
next
  case (Suc n)
  then have i: "i < length s" by simp
  show ?case
  proof (cases "hb s i = b")
    case True
    then show ?thesis using i by (subst scan_first.simps) (auto simp: cget_hb)
  next
    case False
    obtain r where r: "scan_first (\<lambda>c. c) b s (i + 1) (int (length s) - int (i + 1)) = Inr r"
      "case r of None \<Rightarrow> \<forall>k \<ge> i + 1. hb s k \<noteq> b
       | Some (k, ih) \<Rightarrow> i + 1 \<le> k \<and> k < length s \<and> ih = ih_of s k \<and> hb s k = b \<and> (\<forall>m. i + 1 \<le> m \<and> m < k \<longrightarrow> hb s m \<noteq> b)"
      using Suc.hyps(1) [of "i + 1"] Suc.hyps(2) i by force
    have "scan_first (\<lambda>c. c) b s i (int (length s) - int i) = Inr r"
      using False i r(1) by (subst scan_first.simps) (simp add: cget_hb diff_diff_eq ac_simps)
    moreover have ge: "i \<le> m \<longleftrightarrow> m = i \<or> i + 1 \<le> m" for m by auto
    ultimately show ?thesis using r(2) False unfolding ge by (auto split: option.splits)
  qed
qed

lemma find_b_spec:
  assumes "b \<noteq> NUL" "i \<le> length s"
  shows "\<exists>r. find_b (\<lambda>c. c) b s i (ih_of s i) = Inr r \<and>
    (case r of None \<Rightarrow> \<forall>k \<ge> i. hb s k \<noteq> b
     | Some (k, ih) \<Rightarrow> i \<le> k \<and> k < length s \<and> ih = ih_of s k \<and> hb s k = b \<and> (\<forall>m. i \<le> m \<and> m < k \<longrightarrow> hb s m \<noteq> b))"
  using assms(2)
proof (induction "length s - i" arbitrary: i rule: less_induct)
  case less
  have out: "k \<ge> length s \<Longrightarrow> hb s k \<noteq> b" for k using assms(1) by (simp add: hb_def)
  show ?case
  proof (cases "hb s i = b")
    case True
    then show ?thesis using less.prems hb_inside [of s i] assms(1) by (subst find_b.simps) (auto simp: cget_hb)
  next
    case n0: False
    show ?thesis
    proof (cases "i < length s")
      case False
      then show ?thesis using n0 less.prems out by (subst find_b.simps) (auto simp: cget_hb)
    next
      case i: True
      show ?thesis
      proof (cases "hb s (i + 1) = b")
        case True
        then have "i + 1 < length s" using hb_inside [of s "i + 1"] assms(1) by simp
        then show ?thesis using n0 i True by (subst find_b.simps) (auto simp: cget_hb less_Suc_eq le_Suc_eq)
      next
        case n1: False
        show ?thesis
        proof (cases "i + 1 < length s")
          case False
          have "k \<ge> i \<Longrightarrow> hb s k \<noteq> b" for k
            using n0 out [of k] False i by (cases "k = i") auto
          then show ?thesis using n0 n1 i False by (subst find_b.simps) (auto simp: cget_hb)
        next
          case True
          obtain r where r: "find_b (\<lambda>c. c) b s (i + 2) (ih_of s (i + 2)) = Inr r"
            "case r of None \<Rightarrow> \<forall>k \<ge> i + 2. hb s k \<noteq> b
             | Some (k, ih) \<Rightarrow> i + 2 \<le> k \<and> k < length s \<and> ih = ih_of s k \<and> hb s k = b \<and> (\<forall>m. i + 2 \<le> m \<and> m < k \<longrightarrow> hb s m \<noteq> b)"
            using less.hyps [of "i + 2"] True by force
          have "find_b (\<lambda>c. c) b s i (ih_of s i) = Inr r"
            using n0 n1 i True r(1) by (subst find_b.simps) (simp add: cget_hb algebra_simps)
          moreover have ge: "i \<le> m \<longleftrightarrow> m = i \<or> m = i + 1 \<or> i + 2 \<le> m" for m by auto
          ultimately show ?thesis using r(2) n0 n1 unfolding ge by (auto split: option.splits)
        qed
      qed
    qed
  qed
qed

lemma find_bc_spec:
  assumes "b \<noteq> NUL" "c \<noteq> NUL" "i \<le> length s"
  shows "\<exists>r. find_bc (\<lambda>c. c) b c s i (ih_of s i) = Inr r \<and>
    (case r of None \<Rightarrow> \<forall>k \<ge> i. \<not> (hb s k = b \<and> hb s (k + 1) = c)
     | Some (j, ih) \<Rightarrow> i < j \<and> j < length s \<and> ih = ih_of s j \<and> hb s (j - 1) = b \<and> hb s j = c \<and>
         (\<forall>m. i \<le> m \<and> m < j - 1 \<longrightarrow> \<not> (hb s m = b \<and> hb s (m + 1) = c)))"
  using assms(3)
proof (induction "length s - i" arbitrary: i rule: less_induct)
  case less
  obtain r where r: "find_b (\<lambda>c. c) b s i (ih_of s i) = Inr r"
    "case r of None \<Rightarrow> \<forall>k \<ge> i. hb s k \<noteq> b
     | Some (k, ih) \<Rightarrow> i \<le> k \<and> k < length s \<and> ih = ih_of s k \<and> hb s k = b \<and> (\<forall>m. i \<le> m \<and> m < k \<longrightarrow> hb s m \<noteq> b)"
    using find_b_spec [OF assms(1) less.prems] by blast
  show ?case
  proof (cases r)
    case None
    then show ?thesis using r by (subst find_bc.simps) auto
  next
    case (Some p)
    obtain k ih where p: "p = (k, ih)" by (cases p)
    have k: "i \<le> k" "k < length s" "ih = ih_of s k" "hb s k = b" "\<And>m. i \<le> m \<Longrightarrow> m < k \<Longrightarrow> hb s m \<noteq> b"
      using r Some p by auto
    show ?thesis
    proof (cases "hb s (k + 1) = c")
      case True
      then have "k + 1 < length s" using hb_inside [of s "k + 1"] assms(2) by simp
      then show ?thesis using r(1) Some p k True by (subst find_bc.simps) (auto simp: cget_hb)
    next
      case False
      obtain q where q: "find_bc (\<lambda>c. c) b c s (k + 1) (ih_of s (k + 1)) = Inr q"
        "case q of None \<Rightarrow> \<forall>m \<ge> k + 1. \<not> (hb s m = b \<and> hb s (m + 1) = c)
         | Some (j, ih) \<Rightarrow> k + 1 < j \<and> j < length s \<and> ih = ih_of s j \<and> hb s (j - 1) = b \<and> hb s j = c \<and>
             (\<forall>m. k + 1 \<le> m \<and> m < j - 1 \<longrightarrow> \<not> (hb s m = b \<and> hb s (m + 1) = c))"
        using less.hyps [of "k + 1"] k by force
      have e: "find_bc (\<lambda>c. c) b c s i (ih_of s i) = Inr q"
        using r(1) Some p k False q(1) by (subst find_bc.simps) (simp add: cget_hb algebra_simps)
      have low: "\<not> (hb s m = b \<and> hb s (m + 1) = c)" if "i \<le> m" "m \<le> k" for m
        using that k(5) [of m] False by (cases "m = k") auto
      show ?thesis
      proof (cases q)
        case None
        then have "\<not> (hb s m = b \<and> hb s (m + 1) = c)" if "i \<le> m" for m
          using that low [of m] q(2) by (cases "m \<le> k") auto
        then show ?thesis using e None by simp
      next
        case (Some jp)
        obtain j ih' where jp: "jp = (j, ih')" by (cases jp)
        have "\<not> (hb s m = b \<and> hb s (m + 1) = c)" if "i \<le> m" "m < j - 1" for m
          using that low [of m] q(2) Some jp by (cases "m \<le> k") auto
        then show ?thesis using e q(2) k(1) Some jp by simp
      qed
    qed
  qed
qed

lemma first_occ_spec:
  "nd \<noteq> [] \<Longrightarrow> (case first_occ s nd o1 of
     None \<Rightarrow> \<forall>i. \<not> occurs s nd i
   | Some k \<Rightarrow> \<exists>i. k = o1 + i \<and> occurs s nd i \<and> (\<forall>m < i. \<not> occurs s nd m))"
proof (induction s nd o1 rule: first_occ.induct)
  case (1 nd o1)
  then show ?case by (auto simp: occurs_def)
next
  case (2 c s nd o1)
  show ?case
  proof (cases "take (length nd) (c # s) = nd")
    case True
    have "length nd \<le> length (c # s)"
      using arg_cong [OF True, of length] unfolding length_take by (simp only: min.absorb_iff2)
    with True have "occurs (c # s) nd 0" by (simp add: occurs_def)
    then show ?thesis using True by auto
  next
    case False
    then have n0: "\<not> occurs (c # s) nd 0" by (simp add: occurs_def)
    have S: "occurs (c # s) nd (Suc i) \<longleftrightarrow> occurs s nd i" for i by (simp add: occurs_def)
    have all: "\<not> occurs (c # s) nd i" if "\<forall>i. \<not> occurs s nd i" for i
      using n0 S that by (cases i) simp_all
    have less: "\<forall>m < i. \<not> occurs s nd m \<Longrightarrow> \<forall>m < Suc i. \<not> occurs (c # s) nd m" for i
      using n0 S by (auto simp: less_Suc_eq_0_disj)
    show ?thesis
    proof (cases "first_occ s nd (o1 + 1)")
      case None
      then show ?thesis using 2 False all by simp
    next
      case (Some k)
      then obtain i where "k = o1 + Suc i" "occurs s nd i" "\<forall>m < i. \<not> occurs s nd m" using 2 False by auto
      then have "occurs (c # s) nd (Suc i)" "\<forall>m < Suc i. \<not> occurs (c # s) nd m" using S less by simp_all
      moreover have e: "first_occ (c # s) nd o1 = Some (o1 + Suc i)" using Some False \<open>k = o1 + Suc i\<close> by simp
      ultimately show ?thesis unfolding e option.case by (intro exI [of _ "Suc i"]) simp
    qed
  qed
qed

lemma first_occ_unique:
  assumes "nd \<noteq> []" "case r of None \<Rightarrow> \<forall>i. \<not> occurs s nd i | Some k \<Rightarrow> occurs s nd k \<and> (\<forall>m < k. \<not> occurs s nd m)"
  shows "r = first_occ s nd 0"
  using first_occ_spec [OF assms(1), of s 0] assms(2)
  by (auto split: option.splits) (metis linorder_neqE_nat)

text \<open>From \<open>crest\<close> on: the first two bytes agree at \<open>j - 1\<close>, no occurrence starts before.\<close>

lemma crest_spec:
  assumes nd: "nul_free nd" "2 \<le> length nd"
    and "0 < j" "j < length s" "hb s (j - 1) = hb nd 0" "hb s j = hb nd 1" "\<forall>m < j - 1. \<not> occurs s nd m"
  shows "crest (\<lambda>c. c) (hb nd 0) (hb nd 1) s nd (int (length nd) - 2) j (ih_of s j) = Inr (first_occ s nd 0)"
  using assms(3-)
proof (induction "length s - j" arbitrary: j rule: less_induct)
  case less
  have ne: "nd \<noteq> []" using nd(2) by auto
  note oh = occurs_hb [OF nd(1) ne]
  have nn: "hb nd 0 \<noteq> NUL" "hb nd 1 \<noteq> NUL"
    using nd(2) by (auto intro!: hb_nul_free [OF nd(1)] simp del: One_nat_def)
  have g: "cget s (j + 1) = Inr (hb s (j + 1))" "cget nd 2 = Inr (hb nd 2)"
    using less.prems nd by (simp_all add: cget_hb)
  have occ: "occurs s nd (j - 1) \<longleftrightarrow> (\<forall>t. 2 \<le> t \<and> t < length nd \<longrightarrow> hb s (j - 1 + t) = hb nd t)"
  proof -
    have e: "hb s (j - 1 + 0) = hb nd 0" "hb s (j - 1 + 1) = hb nd 1" using less.prems by simp_all
    show ?thesis unfolding oh
    proof (intro iffI allI impI)
      fix t assume *: "\<forall>t. 2 \<le> t \<and> t < length nd \<longrightarrow> hb s (j - 1 + t) = hb nd t" "t < length nd"
      consider "t = 0" | "t = 1" | "2 \<le> t" by linarith
      then show "hb s (j - 1 + t) = hb nd t" using * e by cases (simp_all only:)
    qed blast
  qed
  have m: "(if hb s (j + 1) = hb nd 2 then match_rest (\<lambda>c. c) s nd (j + 1) 2 (int (length nd) - 2)
      else Inr (int (length nd) - 2 \<le> 0)) = Inr (occurs s nd (j - 1))"
  proof (cases "hb s (j + 1) = hb nd 2")
    case True
    have "match_rest (\<lambda>c. c) s nd (j - 1 + 2) 2 (int (length nd) - int 2) = Inr (occurs s nd (j - 1))"
      unfolding occ using less.prems nd True by (intro match_rest_occurs) auto
    then show ?thesis using True less.prems(1) by simp
  next
    case False
    then have "occurs s nd (j - 1) \<longleftrightarrow> length nd \<le> 2"
      unfolding occ using less.prems(1) by (force simp: not_le)
    then show ?thesis using False by simp
  qed
  show ?case
  proof (cases "occurs s nd (j - 1)")
    case True
    then have "Some (j - 1) = first_occ s nd 0"
      using less.prems ne by (intro first_occ_unique) auto
    then show ?thesis using True g m by (subst crest.simps) simp
  next
    case False
    obtain r where r: "find_bc (\<lambda>c. c) (hb nd 0) (hb nd 1) s j (ih_of s j) = Inr r"
      "case r of None \<Rightarrow> \<forall>k \<ge> j. \<not> (hb s k = hb nd 0 \<and> hb s (k + 1) = hb nd 1)
       | Some (j', ih) \<Rightarrow> j < j' \<and> j' < length s \<and> ih = ih_of s j' \<and> hb s (j' - 1) = hb nd 0 \<and> hb s j' = hb nd 1 \<and>
           (\<forall>m. j \<le> m \<and> m < j' - 1 \<longrightarrow> \<not> (hb s m = hb nd 0 \<and> hb s (m + 1) = hb nd 1))"
      using find_bc_spec [OF nn, of j s] less.prems by auto
    have two: "occurs s nd k \<Longrightarrow> hb s k = hb nd 0 \<and> hb s (k + 1) = hb nd 1" for k
    proof -
      assume "occurs s nd k"
      then have *: "\<And>t. t < length nd \<Longrightarrow> hb s (k + t) = hb nd t" unfolding oh by blast
      have "0 < length nd" "1 < length nd" using nd(2) by auto
      then show ?thesis using * [of 0] * [of 1] by simp
    qed
    have no: "k < j \<Longrightarrow> \<not> occurs s nd k" for k
      using less.prems(5) False by (cases "k = j - 1") auto
    show ?thesis
    proof (cases r)
      case None
      then have "\<not> occurs s nd k" for k
        using r(2) two [of k] no [of k] by (cases "k < j") auto
      then have "None = first_occ s nd 0" using ne by (intro first_occ_unique) auto
      then show ?thesis using False g m r(1) None by (subst crest.simps) simp
    next
      case (Some p)
      obtain j' ih where p: "p = (j', ih)" by (cases p)
      have "\<not> occurs s nd k" if "k < j' - 1" for k
        using that r(2) Some p two [of k] no [of k] by (cases "k < j") auto
      then have "crest (\<lambda>c. c) (hb nd 0) (hb nd 1) s nd (int (length nd) - 2) j' (ih_of s j') = Inr (first_occ s nd 0)"
        using r(2) Some p less.prems by (intro less.hyps) auto
      then show ?thesis using False g m r Some p by (subst crest.simps) simp
    qed
  qed
qed

text \<open>
  C9. The binary-safe search: on every string and every non-empty needle without NUL bytes
  the two-bytes-at-a-time search with its jumps returns the first occurrence, or none, and
  never reads past the byte after the string.
\<close>

theorem re_strstr_correct:
  assumes "nul_free nd" "nd \<noteq> []"
  shows "re_strstr s (int (length s)) nd (int (length nd)) = Inr (first_occ s nd 0)"
proof -
  note oh = occurs_hb [OF assms]
  have b: "hb nd 0 \<noteq> NUL" using assms by (intro hb_nul_free) auto
  have g: "cget nd 0 = Inr (hb nd 0)" "cget nd 1 = Inr (hb nd 1)"
    using assms by (cases nd; simp add: cget_hb)+
  have one: "occurs s nd k \<Longrightarrow> hb s k = hb nd 0" for k
    unfolding oh using assms(2) by (metis add_0_right length_greater_0_conv)
  obtain r where r0: "scan_first (\<lambda>c. c) (hb nd 0) s 0 (int (length s) - int 0) = Inr r"
    "case r of None \<Rightarrow> \<forall>k \<ge> 0. hb s k \<noteq> hb nd 0
     | Some (k, ih) \<Rightarrow> 0 \<le> k \<and> k < length s \<and> ih = ih_of s k \<and> hb s k = hb nd 0 \<and> (\<forall>m. 0 \<le> m \<and> m < k \<longrightarrow> hb s m \<noteq> hb nd 0)"
    using scan_first_spec [OF b le0, of s] by blast
  have r: "scan_first (\<lambda>c. c) (hb nd 0) s 0 (int (length s)) = Inr r"
    "case r of None \<Rightarrow> \<forall>k. hb s k \<noteq> hb nd 0
     | Some (k, ih) \<Rightarrow> k < length s \<and> ih = ih_of s k \<and> hb s k = hb nd 0 \<and> (\<forall>m < k. hb s m \<noteq> hb nd 0)"
    using r0 by (simp, cases r) auto
  show ?thesis
  proof (cases r)
    case None
    then have "None = first_occ s nd 0"
      using r(2) one assms(2) by (intro first_occ_unique) auto
    then show ?thesis using g r(1) None by (simp add: re_strstr_def str_search_def)
  next
    case (Some p)
    obtain i ih where p: "p = (i, ih)" by (cases p)
    have i: "i < length s" "ih = ih_of s i" "hb s i = hb nd 0" "\<And>m. m < i \<Longrightarrow> \<not> occurs s nd m"
      using r(2) one Some p by auto
    show ?thesis
    proof (cases "length nd = 1")
      case True
      then have "occurs s nd i" unfolding oh using i(3) by simp
      then have "Some i = first_occ s nd 0" using i(4) assms(2) by (intro first_occ_unique) auto
      then show ?thesis using g r(1) Some p True by (simp add: re_strstr_def str_search_def)
    next
      case False
      then have two: "2 \<le> length nd" using assms(2) by (cases nd; cases "tl nd") auto
      have c: "hb nd 1 \<noteq> NUL" using two by (intro hb_nul_free [OF assms(1)]) auto
      have bc: "occurs s nd k \<Longrightarrow> hb s (k + 1) = hb nd 1" for k
        unfolding oh using two by (metis less_le_trans one_less_numeral_iff semiring_norm(76))
      have nl: "\<not> int (length nd) - 1 \<le> 0" using two by simp
      have gi: "cget s (i + 1) = Inr (hb s (i + 1))" using i by (simp add: cget_hb)
      have rr: "scan_first (\<lambda>c. c) (hb nd 0) s 0 (int (length s)) = Inr (Some (i, ih_of s i))"
        using r(1) Some p i(2) by simp
      show ?thesis
      proof (cases "hb s (i + 1) = hb nd 1")
        case True
        then have "i + 1 < length s" using c hb_inside [of s "i + 1"] by simp
        then have "crest (\<lambda>c. c) (hb nd 0) (hb nd 1) s nd (int (length nd) - 2) (i + 1) (ih_of s (i + 1)) = Inr (first_occ s nd 0)"
          using i True two assms(1) by (intro crest_spec) auto
        then show ?thesis unfolding re_strstr_def str_search_def g bind_res_simps
          using rr nl gi True g by simp
      next
        case no: False
        obtain q where q: "find_bc (\<lambda>c. c) (hb nd 0) (hb nd 1) s (i + 1) (ih_of s (i + 1)) = Inr q"
          "case q of None \<Rightarrow> \<forall>k \<ge> i + 1. \<not> (hb s k = hb nd 0 \<and> hb s (k + 1) = hb nd 1)
           | Some (j, ih) \<Rightarrow> i + 1 < j \<and> j < length s \<and> ih = ih_of s j \<and> hb s (j - 1) = hb nd 0 \<and> hb s j = hb nd 1 \<and>
               (\<forall>m. i + 1 \<le> m \<and> m < j - 1 \<longrightarrow> \<not> (hb s m = hb nd 0 \<and> hb s (m + 1) = hb nd 1))"
          using find_bc_spec [OF b c, of "i + 1" s] i by auto
        have low: "k < i + 1 \<Longrightarrow> \<not> occurs s nd k" for k
          using i(4) [of k] no bc [of k] by (cases "k = i") auto
        show ?thesis
        proof (cases q)
          case None
          then have "\<not> occurs s nd k" for k
            using q(2) low [of k] one [of k] bc [of k] by (cases "k < i + 1") auto
          then have "None = first_occ s nd 0" using assms(2) by (intro first_occ_unique) auto
          then show ?thesis unfolding re_strstr_def str_search_def g bind_res_simps
            using rr nl gi no g q(1) None by simp
        next
          case (Some jp)
          obtain j ih' where jp: "jp = (j, ih')" by (cases jp)
          have "\<not> occurs s nd k" if "k < j - 1" for k
            using that q(2) Some jp low [of k] one [of k] bc [of k] by (cases "k < i + 1") auto
          then have "crest (\<lambda>c. c) (hb nd 0) (hb nd 1) s nd (int (length nd) - 2) j ih' = Inr (first_occ s nd 0)"
            using q(2) Some jp two assms(1) crest_spec [of nd j s] by auto
          then show ?thesis unfolding re_strstr_def str_search_def g bind_res_simps
            using rr nl gi no g q(1) Some jp by simp
        qed
      qed
    qed
  qed
qed

theorem re_strstr_correct_witness:
  "re_strstr ''abcabd'' 6 ''abd'' 3 = Inr (Some 3)"
  using re_strstr_correct [of "''abd''" "''abcabd''"] by (simp add: nul_free_def)

lemma fold_abc: "c_tolower CHR ''A'' = CHR ''a''" "c_tolower CHR ''B'' = CHR ''b''" "c_tolower CHR ''C'' = CHR ''c''"
  "c_tolower CHR ''a'' = CHR ''a''" "c_tolower CHR ''b'' = CHR ''b''" "c_tolower CHR ''c'' = CHR ''c''" "c_tolower NUL = NUL"
proof -
  have "code (c_tolower CHR ''A'') = code CHR ''a''" "code (c_tolower CHR ''B'') = code CHR ''b''"
    "code (c_tolower CHR ''C'') = code CHR ''c''"
    by (simp_all add: c_tolower_def c_isupper_def del: code_inj) (simp_all add: code_def)
  then show "c_tolower CHR ''A'' = CHR ''a''" "c_tolower CHR ''B'' = CHR ''b''" "c_tolower CHR ''C'' = CHR ''c''"
    by simp_all
qed (simp_all add: c_tolower_def c_isupper_def code_def)

text \<open>
  The case-insensitive version compares the third byte of the needle without folding its
  case, so it misses occurrences: \<open>abc\<close> is not found in \<open>ABC\<close>, though it is when only
  the other letters differ in case; and the search is not safe for needles with NUL bytes:
  such a needle can match the terminator of the haystack and go on past it.
\<close>

theorem re_strpos_defects:
  "re_strpos ''ABC'' ''abc'' 0 False = Inr (- 1) \<and> re_strpos ''ABc'' ''abc'' 0 False = Inr 0 \<and>
   re_strpos ''a'' [CHR ''a'', NUL] 0 True = Inl OutOfBounds"
  by (simp add: re_strpos_def re_strstr_def re_stristr_def str_search_def cget_def Let_def
      scan_first.simps find_b.simps find_bc.simps crest.simps match_rest.simps
      fold_abc cong: bind_res_weak_cong)

end
