(* ===== verification/HashHelper.thy ===== *)
theory HashHelper
  imports Radix
begin

text \<open>
  \<open>runtime/php-hash-helper.c\<close>: which string keys of a PHP array are numeric indices, and
  the string hashes.  \<open>int\<close> and \<open>unsigned int\<close> are 32-bit words.
\<close>

section \<open>Numeric keys\<close>

text \<open>The loop over the digits: \<open>tmp\<close> runs to \<open>end\<close> or to the first other byte.\<close>

function digits_loop :: "cstr \<Rightarrow> nat \<Rightarrow> nat \<Rightarrow> fault + nat" where
  "digits_loop str tmp end1 =
     (if tmp < end1
      then bind_res (cget str tmp) (\<lambda>c. if \<not> c_isdigit c then Inr tmp else digits_loop str (tmp + 1) end1)
      else Inr tmp)"
  by pat_completeness auto
termination by (relation "measure (\<lambda>(str, tmp, end1). end1 - tmp)") auto

declare digits_loop.simps [simp del]

text \<open>The code after the first \<open>return 1\<close> is unreachable and has no counterpart.\<close>

definition is_numeric :: "cstr \<Rightarrow> nat \<Rightarrow> fault + int" where
  "is_numeric str len =
     bind_res (cget str 0) (\<lambda>c0.
       let tmp = (if c0 = CHR ''-'' then 1 else 0) in
       bind_res (cget str tmp) (\<lambda>c.
         if c_isdigit c
         then if c = CHR ''0'' \<and> 1 < len then Inr 0
              else bind_res (digits_loop str (tmp + 1) len) (\<lambda>tmp.
                bind_res (cget str tmp) (\<lambda>c. Inr (if tmp = len \<and> c = NUL then 1 else 0)))
         else Inr 0))"

lemma digits_loop_all:
  "i \<le> length s \<Longrightarrow> digits_loop s i (length s) = Inr (i + length (takeWhile c_isdigit (drop i s)))"
proof (induction "length s - i" arbitrary: i)
  case 0
  then show ?case by (subst digits_loop.simps) simp
next
  case (Suc n)
  then have i: "i < length s" by simp
  then have d: "drop i s = s ! i # drop (i + 1) s" by (simp add: Cons_nth_drop_Suc)
  have "digits_loop s (i + 1) (length s) = Inr (i + 1 + length (takeWhile c_isdigit (drop (i + 1) s)))"
    using Suc.hyps i by (intro Suc.hyps(1)) auto
  then show ?case using i by (subst digits_loop.simps) (simp add: d cget_def)
qed

text \<open>A digit run that reaches the end of the string.\<close>

lemma takeWhile_all: "length (takeWhile P xs) = length xs \<longleftrightarrow> list_all P xs"
  by (induction xs) auto

lemma is_numeric_digits:
  assumes "s = pre @ c # ds" "c_isdigit c" "pre = [] \<or> pre = ''-''" "pre = [] \<or> hd s = CHR ''-''"
  shows "is_numeric s (length s) =
    Inr (if c = CHR ''0'' \<and> 1 < length s then 0 else if list_all c_isdigit ds then 1 else 0)"
proof -
  have nm: "c \<noteq> CHR ''-''" using assms(2) by (auto simp: c_isdigit_def code_def)
  have c: "cget s (length pre) = Inr c" by (simp add: assms(1) cget_def)
  have t: "cget s 0 = Inr (hd s)" using assms by (auto simp: cget_def)
  have tmp: "(if hd s = CHR ''-'' then 1 else 0) = length pre" using assms nm by auto
  have dr: "drop (Suc (length pre)) s = ds" by (simp add: assms(1))
  have loop: "digits_loop s (length pre + 1) (length s) = Inr (length pre + 1 + length (takeWhile c_isdigit ds))"
    using digits_loop_all [of "length pre + 1" s] dr by (simp add: assms(1))
  let ?k = "length pre + 1 + length (takeWhile c_isdigit ds)"
  have k: "?k \<le> length s" using length_takeWhile_le [of c_isdigit ds] by (simp add: assms(1))
  have "?k = length s \<longleftrightarrow> list_all c_isdigit ds"
    using takeWhile_all [of c_isdigit ds] by (simp add: assms(1))
  moreover have "cget s ?k = Inr (hb s ?k)" using k by (rule cget_hb)
  moreover have "?k = length s \<Longrightarrow> hb s ?k = NUL" by (simp add: hb_def)
  ultimately show ?thesis
    using assms(2) c loop unfolding is_numeric_def t bind_res_simps tmp Let_def by auto
qed

lemma is_numeric_other:
  assumes "\<not> c_isdigit (at0 (if at0 s = CHR ''-'' then tl s else s))"
  shows "is_numeric s (length s) = Inr 0"
proof -
  have "cget s 0 = Inr (at0 s)" by (cases s) (auto simp: cget_def)
  moreover have "at0 s = CHR ''-'' \<Longrightarrow> cget s 1 = Inr (at0 (tl s))" by (cases s; cases "tl s") (auto simp: cget_def)
  ultimately show ?thesis using assms by (auto simp: is_numeric_def Let_def)
qed

lemma not_minus_digit: "\<not> c_isdigit CHR ''-''"
  by (simp add: c_isdigit_def code_def)

lemma int_dec_nat: "int_dec (int n) = nat_dec n"
  by (simp add: int_dec_def)

lemma int_dec_neg: "n \<noteq> 0 \<Longrightarrow> int_dec (- int n) = CHR ''-'' # nat_dec n"
  by (simp add: int_dec_def)

lemma int_dec_cases:
  "(\<exists>i. s = int_dec i) \<longleftrightarrow> (\<exists>n. s = nat_dec n) \<or> (\<exists>n. s = CHR ''-'' # nat_dec n \<and> n \<noteq> 0)"
proof (rule iffI; elim exE disjE conjE)
  fix i assume "s = int_dec i"
  then show "(\<exists>n. s = nat_dec n) \<or> (\<exists>n. s = CHR ''-'' # nat_dec n \<and> n \<noteq> 0)"
  proof (cases i rule: int_cases2)
    case (nonneg n)
    then show ?thesis using \<open>s = int_dec i\<close> int_dec_nat by metis
  next
    case (nonpos n)
    then show ?thesis using \<open>s = int_dec i\<close> int_dec_nat [of 0] int_dec_neg [of n] by (cases "n = 0") auto
  qed
next
  fix n assume "s = nat_dec n"
  then show "\<exists>i. s = int_dec i" using int_dec_nat by metis
next
  fix n assume "s = CHR ''-'' # nat_dec n" "n \<noteq> 0"
  then show "\<exists>i. s = int_dec i" using int_dec_neg by metis
qed

lemma minus_int_dec:
  "(\<exists>i. CHR ''-'' # t = int_dec i) \<longleftrightarrow> (\<exists>n. t = nat_dec n) \<and> t \<noteq> ''0''"
proof -
  have z: "nat_dec 0 = ''0''" by (subst nat_dec.simps) (simp add: dec_dig_0)
  have no: "CHR ''-'' # t \<noteq> nat_dec n" for n
  proof
    assume "CHR ''-'' # t = nat_dec n"
    then have "CHR ''-'' \<in> set (nat_dec n)" by (rule subst) simp
    then show False using nat_dec_digits not_minus_digit by blast
  qed
  have "(\<exists>n. t = nat_dec n \<and> n \<noteq> 0) \<longleftrightarrow> (\<exists>n. t = nat_dec n) \<and> t \<noteq> nat_dec 0"
    by (auto simp: dec.print_inj)
  then show ?thesis unfolding int_dec_cases z using no by simp
qed

lemma plain_int_dec:
  "at0 s \<noteq> CHR ''-'' \<Longrightarrow> (\<exists>i. s = int_dec i) \<longleftrightarrow> (\<exists>n. s = nat_dec n)"
  unfolding int_dec_cases by auto

text \<open>
  C32. A string key is taken for an integer index exactly when it is the decimal notation of
  an integer: an optional minus sign and digits without a leading zero, \<open>-0\<close> excluded.  The
  test never reads past the terminating NUL, and sets no bound on the integer.
\<close>

theorem is_numeric_canonical:
  "is_numeric s (length s) = Inr (if \<exists>i. s = int_dec i then 1 else 0)"
proof (cases "c_isdigit (at0 (if at0 s = CHR ''-'' then tl s else s))")
  case False
  have "\<not> (\<exists>i. s = int_dec i)"
  proof (cases "at0 s = CHR ''-''")
    case True
    then have "s = CHR ''-'' # tl s" by (cases s) auto
    moreover have "\<not> (\<exists>n. tl s = nat_dec n)" unfolding nat_dec_iff using False True by (cases "tl s") auto
    ultimately show ?thesis using minus_int_dec [of "tl s"] by metis
  next
    case no: False
    have "\<not> (\<exists>n. s = nat_dec n)" unfolding nat_dec_iff using False no by (cases s) auto
    then show ?thesis using plain_int_dec [OF no] by blast
  qed
  then show ?thesis using is_numeric_other [OF False] by simp
next
  case True
  show ?thesis
  proof (cases "at0 s = CHR ''-''")
    case minus: True
    with True obtain c ds where s: "s = ''-'' @ c # ds" "c_isdigit c" by (cases s; cases "tl s") auto
    then have "is_numeric s (length s) = Inr (if c = CHR ''0'' then 0 else if list_all c_isdigit ds then 1 else 0)"
      using is_numeric_digits [of s "''-''" c ds] by simp
    moreover have "(\<exists>i. s = int_dec i) \<longleftrightarrow> c \<noteq> CHR ''0'' \<and> list_all c_isdigit ds"
      using s minus_int_dec [of "c # ds"] unfolding nat_dec_iff by auto
    ultimately show ?thesis by simp
  next
    case plain: False
    with True obtain c ds where s: "s = c # ds" "c_isdigit c" by (cases s) auto
    then have "is_numeric s (length s) =
        Inr (if c = CHR ''0'' \<and> ds \<noteq> [] then 0 else if list_all c_isdigit ds then 1 else 0)"
      using is_numeric_digits [of s "[]" c ds] by simp
    moreover have "(\<exists>i. s = int_dec i) \<longleftrightarrow> (ds = [] \<or> c \<noteq> CHR ''0'') \<and> list_all c_isdigit ds"
      unfolding plain_int_dec [OF plain] nat_dec_iff using s by auto
    ultimately show ?thesis by simp
  qed
qed

section \<open>String hashes\<close>

definition MAXFIXNUM :: u32 where "MAXFIXNUM = 0x1fffffff"

fun hash1_loop :: "u32 \<Rightarrow> cstr \<Rightarrow> u32" where
  "hash1_loop result [] = result"
| "hash1_loop result (c # s) = hash1_loop (result + (push_bit 3 result + word_of_int (schar c))) s"

definition php_string_hash_number1 :: "cstr \<Rightarrow> u32" where
  "php_string_hash_number1 s = hash1_loop 0 s AND MAXFIXNUM"

definition FNV1_32A_INIT :: u32 where "FNV1_32A_INIT = 0x811c9dc5"
definition FNV_32_PRIME :: u32 where "FNV_32_PRIME = 0x01000193"
definition MASK_24 :: u32 where "MASK_24 = push_bit 24 1 - 1"

text \<open>The multiplication by shifts and additions, the variant that is compiled.\<close>

fun fnv_loop :: "u32 \<Rightarrow> cstr \<Rightarrow> u32" where
  "fnv_loop hval [] = hval"
| "fnv_loop hval (c # s) =
     (let hval = hval XOR word_of_nat (code c) in
      fnv_loop (hval + (push_bit 1 hval + push_bit 4 hval + push_bit 7 hval + push_bit 8 hval + push_bit 24 hval)) s)"

definition php_string_hash_number :: "cstr \<Rightarrow> u32" where
  "php_string_hash_number s =
     (let hval = fnv_loop FNV1_32A_INIT s in drop_bit 24 hval XOR (hval AND MASK_24))"

text \<open>The reference: FNV-1a by multiplication with the prime.\<close>

definition fnv1a :: "cstr \<Rightarrow> u32" where
  "fnv1a = foldl (\<lambda>h c. (h XOR word_of_nat (code c)) * FNV_32_PRIME) FNV1_32A_INIT"

lemma fnv_step: "h + (push_bit 1 h + push_bit 4 h + push_bit 7 h + push_bit 8 h + push_bit 24 h) = h * FNV_32_PRIME"
  for h :: u32
  by (simp add: push_bit_eq_mult FNV_32_PRIME_def)

lemma fnv_loop_foldl: "fnv_loop h s = foldl (\<lambda>h c. (h XOR word_of_nat (code c)) * FNV_32_PRIME) h s"
  by (induction s arbitrary: h) (simp_all only: fnv_loop.simps foldl.simps Let_def fnv_step)

lemma MASK_24_mask: "MASK_24 = mask 24"
  by (simp add: MASK_24_def mask_eq_exp_minus_1 push_bit_eq_mult)

text \<open>
  The string hash is the 32-bit FNV-1a hash folded to 24 bits: the shifts and additions
  of the loop multiply by the FNV prime, and the result is below \<open>2\<^sup>2\<^sup>4\<close>, so it is a
  non-negative \<open>int\<close> and a Bigloo fixnum.
\<close>

theorem hash_number_fnv:
  "php_string_hash_number s = drop_bit 24 (fnv1a s) XOR take_bit 24 (fnv1a s) \<and>
   unat (php_string_hash_number s) < 2 ^ 24"
proof -
  have eq: "php_string_hash_number s = drop_bit 24 (fnv1a s) XOR take_bit 24 (fnv1a s)"
    by (simp add: php_string_hash_number_def fnv_loop_foldl fnv1a_def Let_def MASK_24_mask take_bit_eq_mask)
  have "take_bit 24 (php_string_hash_number s) = php_string_hash_number s"
    unfolding eq by (rule bit_word_eqI) (auto simp: bit_simps dest: bit_imp_le_length)
  then have "unat (php_string_hash_number s) = take_bit 24 (unat (php_string_hash_number s))"
    by (metis unsigned_take_bit_eq)
  also have "\<dots> < 2 ^ 24" by (rule take_bit_nat_less_exp)
  finally show ?thesis using eq by blast
qed

text \<open>\<open>whoop_obj_hash_number\<close>: the address of the object without its tag bits.\<close>

definition whoop_obj_hash_number :: "nat \<Rightarrow> u64 \<Rightarrow> u32" where
  "whoop_obj_hash_number tag_shift cref = ucast (signed_drop_bit tag_shift cref)"

end
