(* ===== verification/OpaqueMath.thy ===== *)
theory OpaqueMath
  imports Dbl Radix "HOL-Library.Signed_Division"
begin

text \<open>
  \<open>runtime/opaque-math.c\<close>: PHP's numbers, a \<open>long\<close> that overflows into a \<open>double\<close>.  A
  number is a Bigloo elong (a 64-bit word read as a signed integer) or a real.
  \<open>phpnum_fail\<close> ends the script; a signed division whose quotient does not fit traps.
\<close>

section \<open>The code\<close>

datatype phpnum = Elong u64 | Real dbl

definition PHP_LONGMAX :: int where "PHP_LONGMAX = 2 ^ 63 - 1"
definition PHP_LONGMIN :: int where "PHP_LONGMIN = - (2 ^ 63)"

definition phpnum_is_float :: "phpnum \<Rightarrow> bool" where
  "phpnum_is_float a = (case a of Real d \<Rightarrow> True | Elong l \<Rightarrow> False)"

definition phpnum_is_long :: "phpnum \<Rightarrow> bool" where
  "phpnum_is_long a = (case a of Real d \<Rightarrow> False | Elong l \<Rightarrow> True)"

text \<open>A conversion of a real outside the range of the target type is undefined in C.\<close>

definition phpnum_to_long :: "phpnum \<Rightarrow> fault + u64" where
  "phpnum_to_long a = (case a of
     Real d \<Rightarrow>
       (if dbl_less (dbl_of_int PHP_LONGMAX) d
        then (case dbl_trunc d of Some i \<Rightarrow> if i < 2 ^ 64 then Inr (word_of_int i) else Inl ConversionRange
              | None \<Rightarrow> Inl ConversionRange)
        else (case dbl_trunc d of
                Some i \<Rightarrow> if PHP_LONGMIN \<le> i \<and> i \<le> PHP_LONGMAX then Inr (word_of_int i) else Inl ConversionRange
              | None \<Rightarrow> Inl ConversionRange))
   | Elong l \<Rightarrow> Inr l)"

definition long_to_double :: "u64 \<Rightarrow> dbl" where
  "long_to_double l = dbl_of_int (sint l)"

definition phpnum_to_double :: "phpnum \<Rightarrow> dbl" where
  "phpnum_to_double a = (case a of Elong l \<Rightarrow> long_to_double l | Real d \<Rightarrow> d)"

text \<open>\<open>l & PHP_LONGMIN\<close>: the sign bit.\<close>

definition sign_bit :: "u64 \<Rightarrow> u64" where
  "sign_bit l = l AND word_of_int PHP_LONGMIN"

definition phpadd :: "phpnum \<Rightarrow> phpnum \<Rightarrow> phpnum" where
  "phpadd a b = (case (a, b) of
     (Elong x, Elong y) \<Rightarrow>
       (let lval = x + y in
        if sign_bit x = sign_bit y \<and> sign_bit x \<noteq> sign_bit lval
        then Real (dbl_add (long_to_double x) (long_to_double y)) else Elong lval)
   | (Elong x, Real e) \<Rightarrow> Real (dbl_add (long_to_double x) e)
   | (Real d, Elong y) \<Rightarrow> Real (dbl_add d (long_to_double y))
   | (Real d, Real e) \<Rightarrow> Real (dbl_add d e))"

definition phpsub :: "phpnum \<Rightarrow> phpnum \<Rightarrow> phpnum" where
  "phpsub a b = (case (a, b) of
     (Elong x, Elong y) \<Rightarrow>
       (let lval = x - y in
        if sign_bit x \<noteq> sign_bit y \<and> sign_bit x \<noteq> sign_bit lval
        then Real (dbl_sub (long_to_double x) (long_to_double y)) else Elong lval)
   | (Real d, Elong y) \<Rightarrow> Real (dbl_sub d (long_to_double y))
   | (Elong x, Real e) \<Rightarrow> Real (dbl_sub (long_to_double x) e)
   | (Real d, Real e) \<Rightarrow> Real (dbl_sub d e))"

text \<open>\<open>FAST_LONG_MULTIPLY\<close>, the portable variant; \<open>Inl\<close> is a set \<open>usedval\<close>.\<close>

definition FAST_LONG_MULTIPLY :: "u64 \<Rightarrow> u64 \<Rightarrow> dbl + u64" where
  "FAST_LONG_MULTIPLY a b =
     (let tmp = dbl_mul (long_to_double a) (long_to_double b) in
      if dbl_le (dbl_of_int PHP_LONGMAX) tmp \<or> dbl_le tmp (dbl_of_int PHP_LONGMIN) then Inl tmp
      else Inr (a * b))"

definition phpmul :: "phpnum \<Rightarrow> phpnum \<Rightarrow> phpnum" where
  "phpmul a b = (case (a, b) of
     (Elong x, Elong y) \<Rightarrow> (case FAST_LONG_MULTIPLY x y of Inl dval \<Rightarrow> Real dval | Inr lval \<Rightarrow> Elong lval)
   | (Real d, Real e) \<Rightarrow> Real (dbl_mul d e)
   | (Real d, Elong y) \<Rightarrow> Real (dbl_mul d (long_to_double y))
   | (Elong x, Real e) \<Rightarrow> Real (dbl_mul (long_to_double x) e))"

text \<open>The C operators \<open>/\<close> and \<open>%\<close> on \<open>long\<close>.\<close>

definition long_div :: "u64 \<Rightarrow> u64 \<Rightarrow> fault + u64" where
  "long_div a b = (if b = 0 \<or> (sint a = PHP_LONGMIN \<and> sint b = - 1) then Inl DivideTrap
     else Inr (word_of_int (sint a sdiv sint b)))"

definition long_mod :: "u64 \<Rightarrow> u64 \<Rightarrow> fault + u64" where
  "long_mod a b = (if b = 0 \<or> (sint a = PHP_LONGMIN \<and> sint b = - 1) then Inl DivideTrap
     else Inr (word_of_int (sint a smod sint b)))"

definition phpdiv :: "phpnum \<Rightarrow> phpnum \<Rightarrow> fault + phpnum" where
  "phpdiv a b =
     (if (case b of Elong y \<Rightarrow> y = 0 | Real e \<Rightarrow> dbl_eq e (DFin False 0 0)) then Inl Aborted
      else case (a, b) of
        (Elong x, Elong y) \<Rightarrow>
          bind_res (long_mod x y) (\<lambda>r.
            if r = 0 then bind_res (long_div x y) (\<lambda>lval. Inr (Elong lval))
            else Inr (Real (dbl_div (long_to_double x) (long_to_double y))))
      | (Elong x, Real e) \<Rightarrow> Inr (Real (dbl_div (long_to_double x) e))
      | (Real d, Elong y) \<Rightarrow> Inr (Real (dbl_div d (long_to_double y)))
      | (Real d, Real e) \<Rightarrow> Inr (Real (dbl_div d e)))"

definition phpmod :: "phpnum \<Rightarrow> phpnum \<Rightarrow> fault + phpnum" where
  "phpmod a b =
     bind_res (phpnum_to_long a) (\<lambda>aval. bind_res (phpnum_to_long b) (\<lambda>bval.
       if bval = 0 then Inl Aborted
       else bind_res (long_mod aval bval) (\<lambda>result. Inr (Elong result))))"

text \<open>A NaN counts as true in a condition.\<close>

definition phpnum_compare :: "phpnum \<Rightarrow> phpnum \<Rightarrow> int" where
  "phpnum_compare a b =
     (let d = dbl_sub (phpnum_to_double a) (phpnum_to_double b) in
      if \<not> dbl_eq d (DFin False 0 0) then (if dbl_less (DFin False 0 0) d then 1 else - 1) else 0)"

text \<open>
  \<open>re_unsigned_to_string\<close>: first the digits are counted, then written from the right into
  the string.  The radix of the callers is 2, 8 or 16.
\<close>

function count_digits :: "u64 \<Rightarrow> u64 \<Rightarrow> nat \<Rightarrow> nat" where
  "count_digits ax radix bits =
     (if 0 < ax \<and> 2 \<le> radix then count_digits (ax div radix) radix (bits + 1) else bits)"
  by pat_completeness auto
termination
  by (relation "measure (\<lambda>(ax, radix, bits). unat ax)")
    (auto simp: unat_div word_less_nat_alt word_le_nat_alt intro!: div_less_dividend)

definition letters :: cstr where "letters = ''0123456789abcdef''"

fun write_digits :: "nat \<Rightarrow> u64 \<Rightarrow> u64 \<Rightarrow> cstr \<Rightarrow> cstr" where
  "write_digits 0 ax radix s = s"
| "write_digits (Suc bits) ax radix s =
     write_digits bits (ax div radix) radix (letters ! unat (ax mod radix) # s)"

definition re_unsigned_to_string :: "u64 \<Rightarrow> u64 \<Rightarrow> cstr" where
  "re_unsigned_to_string x radix =
     write_digits (count_digits x radix (if x = 0 then 1 else 0)) x radix []"

declare count_digits.simps [simp del]

section \<open>Addition and subtraction\<close>

lemma sign_bit_iff: "sign_bit x = sign_bit y \<longleftrightarrow> (sint x < 0 \<longleftrightarrow> sint y < 0)"
proof -
  have m: "word_of_int PHP_LONGMIN = (push_bit 63 1 :: u64)"
    by (simp add: PHP_LONGMIN_def push_bit_eq_mult)
  have b: "bit (sign_bit w) i \<longleftrightarrow> i = 63 \<and> bit w 63" for w i
    unfolding sign_bit_def m bit_and_iff bit_push_bit_iff bit_1_iff
    by (auto dest: bit_imp_le_length)
  have s: "sint w < 0 \<longleftrightarrow> bit w 63" for w :: u64
    using bit_last_iff [of w] by simp
  show ?thesis unfolding s
  proof
    assume "sign_bit x = sign_bit y"
    then have "bit (sign_bit x) 63 = bit (sign_bit y) 63" by simp
    then show "bit x 63 = bit y 63" unfolding b by simp
  next
    assume "bit x 63 = bit y 63"
    then show "sign_bit x = sign_bit y" by (intro bit_word_eqI) (simp add: b)
  qed
qed

lemma sint_bounds64: "- (2 ^ 63) \<le> sint (x :: u64)" "sint (x :: u64) < 2 ^ 63"
  using sint_greater_eq [of x] sint_less [of x] by simp_all

text \<open>A signed word operation gives the exact result or is off by \<open>2\<^sup>6\<^sup>4\<close>.\<close>

lemma sint_of_int:
  assumes "- (2 ^ 64) \<le> i" "i < 2 ^ 64"
  shows "sint (word_of_int i :: u64) =
    (if i < - (2 ^ 63) then i + 2 ^ 64 else if i < 2 ^ 63 then i else i - 2 ^ 64)"
proof -
  have "sint (word_of_int i :: u64) = (i + 2 ^ 63) mod 2 ^ 64 - 2 ^ 63"
    by (simp add: int_word_sint)
  moreover have "X mod 2 ^ 64 = (if X < 0 then X + 2 ^ 64 else if X < 2 ^ 64 then X else X - 2 ^ 64)"
    if "- (2 ^ 64) \<le> X" "X < 2 * 2 ^ 64" for X :: int
    using that mod_add_self2 [of X "2 ^ 64"] mod_add_self2 [of "X - 2 ^ 64" "2 ^ 64"]
      mod_pos_pos_trivial [of "X + 2 ^ 64" "2 ^ 64"] mod_pos_pos_trivial [of "X - 2 ^ 64" "2 ^ 64"]
    by auto
  from this [of "i + 2 ^ 63"] have "(i + 2 ^ 63) mod 2 ^ 64 =
      (if i < - (2 ^ 63) then i + 2 ^ 63 + 2 ^ 64 else if i < 2 ^ 63 then i + 2 ^ 63 else i + 2 ^ 63 - 2 ^ 64)"
    using assms by auto
  ultimately show ?thesis by simp
qed

lemma word_ops_of_int: "x + y = word_of_int (sint x + sint y)" "x - y = word_of_int (sint x - sint y)"
    "x * y = word_of_int (sint x * sint y)" for x y :: u64
  by simp_all

text \<open>
  Addition and subtraction of longs are exact: the sum or difference as a long when it
  fits 64 bits, and otherwise - exactly then - the sum or difference of the converted
  operands as a double.
\<close>

theorem phpadd_phpsub_exact:
  "phpadd (Elong x) (Elong y) =
     (if PHP_LONGMIN \<le> sint x + sint y \<and> sint x + sint y \<le> PHP_LONGMAX
      then Elong (word_of_int (sint x + sint y)) else Real (dbl_add (long_to_double x) (long_to_double y))) \<and>
   phpsub (Elong x) (Elong y) =
     (if PHP_LONGMIN \<le> sint x - sint y \<and> sint x - sint y \<le> PHP_LONGMAX
      then Elong (word_of_int (sint x - sint y)) else Real (dbl_sub (long_to_double x) (long_to_double y)))"
proof -
  note b = sint_bounds64 [of x] sint_bounds64 [of y]
  have a: "sint (x + y) = (if sint x + sint y < - (2 ^ 63) then sint x + sint y + 2 ^ 64
      else if sint x + sint y < 2 ^ 63 then sint x + sint y else sint x + sint y - 2 ^ 64)"
    unfolding word_ops_of_int(1) [of x y] using b by (intro sint_of_int) auto
  have s: "sint (x - y) = (if sint x - sint y < - (2 ^ 63) then sint x - sint y + 2 ^ 64
      else if sint x - sint y < 2 ^ 63 then sint x - sint y else sint x - sint y - 2 ^ 64)"
    unfolding word_ops_of_int(2) [of x y] using b by (intro sint_of_int) auto
  have "(sign_bit x = sign_bit y \<and> sign_bit x \<noteq> sign_bit (x + y)) \<longleftrightarrow>
      \<not> (PHP_LONGMIN \<le> sint x + sint y \<and> sint x + sint y \<le> PHP_LONGMAX)"
    unfolding sign_bit_iff a PHP_LONGMIN_def PHP_LONGMAX_def using b by auto
  moreover have "(sign_bit x \<noteq> sign_bit y \<and> sign_bit x \<noteq> sign_bit (x - y)) \<longleftrightarrow>
      \<not> (PHP_LONGMIN \<le> sint x - sint y \<and> sint x - sint y \<le> PHP_LONGMAX)"
    unfolding sign_bit_iff s PHP_LONGMIN_def PHP_LONGMAX_def using b by auto
  ultimately show ?thesis
    by (simp add: phpadd_def phpsub_def Let_def flip: word_ops_of_int)
qed

section \<open>Multiplication\<close>

lemma dbl_num_ge: "- (2 ^ 63) \<le> i \<Longrightarrow> i < 2 ^ 63 \<Longrightarrow> nat \<bar>i\<bar> \<le> 2 ^ 63"
  by (simp add: nat_le_iff)

lemma dbl_round_shift:
  assumes "53 < nat_bits m" "sh = nat_bits m - 53"
  shows "dbl_round s m 0 = (if rnd_shift m sh = 2 ^ 53 then dbl_pack s (2 ^ 52) (int (sh + 1))
    else dbl_pack s (rnd_shift m sh) (int sh))"
proof -
  have "max (int (nat_bits m) - 53) (- 1074 - 0) = int sh" "\<not> int sh \<le> 0" using assms by simp_all
  then show ?thesis by (simp only: dbl_round_def Let_def nat_int if_False) (simp add: ac_simps)
qed

lemma dbl_pack_cases: "dbl_pack s m e = DInf s \<or> dbl_pack s m e = DFin s m e"
  by (simp add: dbl_pack_def)

text \<open>A product that does not fit a long is rounded to at least \<open>2\<^sup>6\<^sup>3\<close> in magnitude.\<close>

lemma dbl_round_big:
  assumes "2 ^ 63 \<le> m"
  shows "dbl_round s m 0 = DInf s \<or> (\<exists>q f. dbl_round s m 0 = DFin s q (int f) \<and> 2 ^ 63 \<le> q * 2 ^ f)"
proof -
  let ?sh = "nat_bits m - 53"
  have m0: "m \<noteq> 0" using assms by auto
  have sh: "11 \<le> ?sh" using nat_bits_gt [OF assms] by simp
  have e: "2 ^ 52 * 2 ^ ?sh \<le> m"
  proof -
    have "nat_bits m - 1 = 52 + ?sh" using sh by simp
    then have "(2 :: nat) ^ (nat_bits m - 1) = 2 ^ 52 * 2 ^ ?sh" by (simp only: power_add)
    then show ?thesis using nat_bits_bounds [OF m0] by simp
  qed
  then have q: "2 ^ 52 \<le> m div 2 ^ ?sh"
    by (simp add: less_eq_div_iff_mult_less_eq)
  have big: "2 ^ 63 \<le> r * 2 ^ f" if "2 ^ 52 \<le> r" "11 \<le> f" for r f :: nat
  proof -
    have "(2 :: nat) ^ 52 * 2 ^ 11 \<le> r * 2 ^ f" using that by (intro mult_mono power_increasing) auto
    then show ?thesis by simp
  qed
  have r: "2 ^ 52 \<le> rnd_shift m ?sh" using q rnd_shift_ge [of m ?sh] by linarith
  have "53 < nat_bits m" using sh by simp
  note eq = dbl_round_shift [OF this refl, of s]
  show ?thesis
  proof (cases "rnd_shift m ?sh = 2 ^ 53")
    case True
    then have "dbl_round s m 0 = dbl_pack s (2 ^ 52) (int (?sh + 1))" using eq by simp
    moreover have "2 ^ 63 \<le> (2 :: nat) ^ 52 * 2 ^ (?sh + 1)" using sh by (intro big) auto
    ultimately show ?thesis using dbl_pack_cases [of s "2 ^ 52" "int (?sh + 1)"] by metis
  next
    case False
    then have "dbl_round s m 0 = dbl_pack s (rnd_shift m ?sh) (int ?sh)" using eq by simp
    then show ?thesis using dbl_pack_cases [of s "rnd_shift m ?sh" "int ?sh"] big [OF r sh] by metis
  qed
qed

text \<open>A product below \<open>2\<^sup>6\<^sup>2\<close> in magnitude stays below \<open>2\<^sup>6\<^sup>3\<close>.\<close>

lemma rnd_shift_le: "rnd_shift m sh \<le> m div 2 ^ sh + 1"
  by (simp add: rnd_shift_def Let_def)

lemma dbl_round_small:
  assumes "m \<le> 2 ^ 62"
  shows "\<exists>q f. dbl_round s m 0 = DFin s q (int f) \<and> q * 2 ^ f < 2 ^ 63"
proof -
  let ?sh = "nat_bits m - 53"
  have "nat_bits m \<le> 63" using assms by (intro nat_bits_le) simp
  then have sh: "?sh \<le> 10" by simp
  have p10: "(2 :: nat) ^ ?sh \<le> 2 ^ 10" using sh by (intro power_increasing) auto
  have "m div 2 ^ ?sh * 2 ^ ?sh \<le> m" by simp
  moreover have "rnd_shift m ?sh * 2 ^ ?sh \<le> (m div 2 ^ ?sh + 1) * 2 ^ ?sh"
    using rnd_shift_le by (intro mult_right_mono) auto
  ultimately have r: "rnd_shift m ?sh * 2 ^ ?sh < 2 ^ 63"
  proof -
    assume *: "m div 2 ^ ?sh * 2 ^ ?sh \<le> m"
      "rnd_shift m ?sh * 2 ^ ?sh \<le> (m div 2 ^ ?sh + 1) * 2 ^ ?sh"
    then have "rnd_shift m ?sh * 2 ^ ?sh \<le> m + 2 ^ ?sh" unfolding add_mult_distrib by linarith
    also have "\<dots> \<le> 2 ^ 62 + 2 ^ 10" using assms p10 by (rule add_mono)
    also have "\<dots> < 2 ^ 63" by simp
    finally show ?thesis .
  qed
  have bq: "nat_bits (rnd_shift m ?sh) \<le> 63"
  proof (intro nat_bits_le)
    have "rnd_shift m ?sh * 1 \<le> rnd_shift m ?sh * 2 ^ ?sh" by (intro mult_left_mono) auto
    then show "rnd_shift m ?sh < 2 ^ 63" using r by linarith
  qed
  have b52: "nat_bits (2 ^ 52) \<le> 63" by (intro nat_bits_le) simp
  show ?thesis
  proof (cases "nat_bits m \<le> 53")
    case True
    then show ?thesis using assms
      by (intro exI [of _ m] exI [of _ 0]) (simp add: dbl_round_def Let_def dbl_pack_def)
  next
    case False
    have "dbl_round s m 0 = (if rnd_shift m ?sh = 2 ^ 53 then DFin s (2 ^ 52) (int (?sh + 1))
        else DFin s (rnd_shift m ?sh) (int ?sh))"
      using False bq b52 sh by (subst dbl_round_shift [OF _ refl]) (auto simp: dbl_pack_def)
    moreover have "rnd_shift m ?sh = 2 ^ 53 \<Longrightarrow> (2 :: nat) ^ 52 * 2 ^ (?sh + 1) < 2 ^ 63"
      using r by simp
    ultimately show ?thesis using r by (cases "rnd_shift m ?sh = 2 ^ 53") metis+
  qed
qed

lemma dbl_num_scale:
  assumes "0 \<le> e0" "e0 \<le> int e"
  shows "dbl_num s m (int e) e0 * 2 ^ nat e0 = (if s then - 1 else 1) * int (m * 2 ^ e)"
proof -
  have "nat (int e - e0) + nat e0 = e" using assms by simp
  then have "(2 :: int) ^ e = 2 ^ nat (int e - e0) * 2 ^ nat e0" by (metis power_add)
  then show ?thesis by (simp add: dbl_num_def)
qed

lemma dbl_le_nat_exp:
  "dbl_le (DFin s m (int e)) (DFin t n (int f)) \<longleftrightarrow>
   (if s then - 1 else 1) * int (m * 2 ^ e) \<le> (if t then - 1 else 1) * int (n * 2 ^ f)"
proof -
  let ?e0 = "min (int e) (int f)"
  have "dbl_le (DFin s m (int e)) (DFin t n (int f)) \<longleftrightarrow> dbl_num s m (int e) ?e0 \<le> dbl_num t n (int f) ?e0"
    by (auto simp: dbl_le_def)
  also have "\<dots> \<longleftrightarrow> dbl_num s m (int e) ?e0 * 2 ^ nat ?e0 \<le> dbl_num t n (int f) ?e0 * 2 ^ nat ?e0"
    by simp
  finally show ?thesis by (simp add: dbl_num_scale del: of_nat_mult)
qed

lemma out_of_range_test:
  "dbl_le (DFin False (2 ^ 52) (int 11)) (DFin s q (int f)) \<or> dbl_le (DFin s q (int f)) (DFin True (2 ^ 52) (int 11))
   \<longleftrightarrow> 2 ^ 63 \<le> q * 2 ^ f"
proof -
  have "(2 ^ 63 :: nat) \<le> q * 2 ^ f \<longleftrightarrow> (2 ^ 63 :: int) \<le> int (q * 2 ^ f)" by (metis of_nat_le_iff of_nat_numeral of_nat_power)
  moreover have "0 \<le> int (q * 2 ^ f)" by simp
  ultimately show ?thesis unfolding dbl_le_nat_exp by (cases s) (auto simp del: of_nat_mult)
qed

lemma long_max_min_dbl:
  "dbl_of_int PHP_LONGMAX = DFin False (2 ^ 52) (int 11)" "dbl_of_int PHP_LONGMIN = DFin True (2 ^ 52) (int 11)"
  by (simp_all add: PHP_LONGMAX_def PHP_LONGMIN_def dbl_of_int_def dbl_round_def nat_bits.simps rnd_shift_def
      dbl_pack_def Let_def)

text \<open>
  Multiplication of longs that are exact as doubles (at most 53 bits) never wraps: the
  result is either the exact product as a long or a double, and it is the long whenever the
  product is at most \<open>2\<^sup>6\<^sup>2\<close> in magnitude.
\<close>

theorem phpmul_exact:
  assumes "\<bar>sint x\<bar> < 2 ^ 53" "\<bar>sint y\<bar> < 2 ^ 53"
  shows "(\<forall>w. phpmul (Elong x) (Elong y) = Elong w \<longrightarrow> sint w = sint x * sint y) \<and>
    (\<bar>sint x * sint y\<bar> \<le> 2 ^ 62 \<longrightarrow> phpmul (Elong x) (Elong y) = Elong (word_of_int (sint x * sint y)))"
proof -
  let ?p = "sint x * sint y" and ?s = "(sint x < 0) \<noteq> (sint y < 0)"
  let ?m = "nat \<bar>sint x\<bar> * nat \<bar>sint y\<bar>"
  have m: "int ?m = \<bar>?p\<bar>" by (simp add: abs_mult)
  have tmp: "dbl_mul (long_to_double x) (long_to_double y) = dbl_round ?s ?m 0"
    using assms by (simp add: long_to_double_def dbl_of_int_exact)
  have mul: "phpmul (Elong x) (Elong y) = (let tmp = dbl_round ?s ?m 0 in
      if dbl_le (DFin False (2 ^ 52) (int 11)) tmp \<or> dbl_le tmp (DFin True (2 ^ 52) (int 11)) then Real tmp
      else Elong (word_of_int ?p))"
    by (simp only: phpmul_def FAST_LONG_MULTIPLY_def tmp long_max_min_dbl Let_def prod.case phpnum.case
      word_ops_of_int(3) [symmetric] if_distrib [of "case_sum _ _"] sum.case)
  have inf: "dbl_le (DFin False (2 ^ 52) (int 11)) (DInf s) \<or> dbl_le (DInf s) (DFin True (2 ^ 52) (int 11))" for s
    by (cases s) (simp_all add: dbl_le_def)
  have big: "2 ^ 63 \<le> ?m \<Longrightarrow> \<exists>d. phpmul (Elong x) (Elong y) = Real d"
    using dbl_round_big [of ?m ?s] out_of_range_test [of ?s] inf unfolding mul Let_def by metis
  have small: "?m \<le> 2 ^ 62 \<Longrightarrow> phpmul (Elong x) (Elong y) = Elong (word_of_int ?p)"
    using dbl_round_small [of ?m ?s] out_of_range_test [of ?s] unfolding mul Let_def by (metis not_le)
  have w: "sint w = ?p" if "phpmul (Elong x) (Elong y) = Elong w" for w
  proof -
    have "\<not> 2 ^ 63 \<le> ?m" using big that by auto
    then have "int ?m < 2 ^ 63" by (simp only: not_le) (simp flip: of_nat_less_iff del: of_nat_mult)
    then have "\<bar>?p\<bar> < 2 ^ 63" unfolding m .
    then have "sint (word_of_int ?p :: u64) = ?p" by (subst sint_of_int) auto
    moreover have "w = word_of_int ?p" using that unfolding mul Let_def by (auto split: if_splits)
    ultimately show ?thesis by simp
  qed
  have "\<bar>?p\<bar> \<le> 2 ^ 62 \<Longrightarrow> ?m \<le> 2 ^ 62"
    unfolding m [symmetric] by (metis of_nat_le_iff of_nat_numeral of_nat_power)
  then show ?thesis using w small by blast
qed

theorem phpmul_exact_witness: "phpmul (Elong 3000000) (Elong 7000000) = Elong 21000000000000"
  using phpmul_exact [of 3000000 7000000] by simp

text \<open>
  Above 53 bits the overflow test of the portable multiplication misses products: it
  rounds the operands first, and here takes \<open>16440948372290153 \<sqdot> 561 = 2\<^sup>6\<^sup>3 + 25\<close> for a
  product that fits, so the result wraps to a negative long.
\<close>

theorem phpmul_missed_overflow:
  "sint (16440948372290153 :: u64) * sint (561 :: u64) = 2 ^ 63 + 25 \<and>
   (\<exists>w. phpmul (Elong 16440948372290153) (Elong 561) = Elong w \<and> sint w < 0)"
proof -
  have t: "dbl_mul (long_to_double 16440948372290153) (long_to_double 561) = DFin False 9007199254740991 10"
    by (simp add: long_to_double_def dbl_of_int_def dbl_round_def nat_bits.simps rnd_shift_def dbl_pack_def Let_def)
  have f: "\<not> dbl_le (DFin False 4503599627370496 11) (DFin False 9007199254740991 10)"
    "\<not> dbl_le (DFin False 9007199254740991 10) (DFin True 4503599627370496 11)"
    by (simp_all add: dbl_le_def dbl_num_def)
  have "phpmul (Elong 16440948372290153) (Elong 561) = Elong (16440948372290153 * 561)"
    using f by (simp add: phpmul_def FAST_LONG_MULTIPLY_def t long_max_min_dbl Let_def)
  then show ?thesis by simp
qed

section \<open>Division\<close>

lemma sint_eq_0: "sint b = 0 \<longleftrightarrow> b = 0" for b :: u64
  by (metis signed_0 signed_word_eqI)

lemma smod_bounds: "\<bar>i smod j\<bar> \<le> \<bar>i\<bar>" "j \<noteq> 0 \<Longrightarrow> \<bar>i smod j\<bar> < \<bar>j\<bar>" for i j :: int
proof -
  have e: "\<bar>i smod j\<bar> = \<bar>i\<bar> mod \<bar>j\<bar>"
    by (cases "i = 0"; cases "j = 0") (simp_all add: signed_modulo_int_def abs_mult abs_sgn_eq)
  show "\<bar>i smod j\<bar> \<le> \<bar>i\<bar>" unfolding e by (rule zmod_le_nonneg_dividend) simp
  show "j \<noteq> 0 \<Longrightarrow> \<bar>i smod j\<bar> < \<bar>j\<bar>" unfolding e by simp
qed

text \<open>
  C39. Division and remainder of longs on every branch: a zero divisor ends the script; the
  quotient is the exact long when the division leaves no remainder and a double otherwise;
  the remainder is C's, of the sign of the dividend; and \<open>LONG_MIN\<close> by \<open>-1\<close> traps.
\<close>

theorem phpdiv_phpmod_long:
  "phpdiv (Elong x) (Elong y) =
     (if sint y = 0 then Inl Aborted
      else if sint x = PHP_LONGMIN \<and> sint y = - 1 then Inl DivideTrap
      else if sint y dvd sint x then Inr (Elong (word_of_int (sint x div sint y)))
      else Inr (Real (dbl_div (long_to_double x) (long_to_double y)))) \<and>
   phpmod (Elong x) (Elong y) =
     (if sint y = 0 then Inl Aborted
      else if sint x = PHP_LONGMIN \<and> sint y = - 1 then Inl DivideTrap
      else Inr (Elong (word_of_int (sint x smod sint y))))"
proof -
  let ?m = "sint x smod sint y"
  have b: "- (2 ^ 64) \<le> ?m" "?m < 2 ^ 63" "- (2 ^ 63) \<le> ?m" if "sint y \<noteq> 0"
    using smod_bounds(2) [OF that, of "sint x"] sint_bounds64 [of y] unfolding abs_less_iff by auto
  have z: "(word_of_int ?m :: u64) = 0 \<longleftrightarrow> ?m = 0" if "sint y \<noteq> 0"
    using b [OF that] sint_of_int [of ?m] sint_eq_0 [of "word_of_int ?m"] by auto
  have d: "?m = 0 \<longleftrightarrow> sint y dvd sint x"
    by (auto simp: signed_modulo_int_def sgn_0_0 mod_eq_0_iff_dvd)
  have q: "sint y dvd sint x \<Longrightarrow> sint x sdiv sint y = sint x div sint y"
    by (simp add: signed_divide_int_eq_divide_int)
  show ?thesis
    using z d q sint_eq_0 [of y]
    by (auto simp: phpdiv_def phpmod_def long_mod_def long_div_def phpnum_to_long_def)
qed

section \<open>Comparison\<close>

lemma dbl_round_sign:
  assumes "m \<noteq> 0"
  shows "\<not> dbl_eq (dbl_round s m 0) (DFin False 0 0)" "dbl_less (DFin False 0 0) (dbl_round s m 0) \<longleftrightarrow> \<not> s"
proof -
  consider "dbl_round s m 0 = DInf s" | q f where "dbl_round s m 0 = DFin s q f" "q \<noteq> 0" "0 \<le> f"
    using dbl_round_nonzero [OF assms, of s] by blast
  then show "\<not> dbl_eq (dbl_round s m 0) (DFin False 0 0)"
    "dbl_less (DFin False 0 0) (dbl_round s m 0) \<longleftrightarrow> \<not> s"
  proof (atomize (full), cases)
    case 2
    have "0 < int (q * 2 ^ nat f)" using 2(2) by simp
    then show "\<not> dbl_eq (dbl_round s m 0) (DFin False 0 0) \<and>
        dbl_less (DFin False 0 0) (dbl_round s m 0) = (\<not> s)"
      using 2 by (cases s) (simp_all add: dbl_num_def min_def del: of_nat_mult)
  qed simp
qed

text \<open>
  The comparison of longs of at most 53 bits is exact; beyond, it compares the rounded
  doubles, so \<open>2\<^sup>5\<^sup>3\<close> and \<open>2\<^sup>5\<^sup>3 + 1\<close> are equal, and infinity is smaller than itself.
\<close>

theorem phpnum_compare_exact:
  "(\<bar>sint x\<bar> < 2 ^ 53 \<and> \<bar>sint y\<bar> < 2 ^ 53 \<longrightarrow>
     phpnum_compare (Elong x) (Elong y) = sgn (sint x - sint y)) \<and>
   phpnum_compare (Elong 9007199254740992) (Elong 9007199254740993) = 0 \<and>
   phpnum_compare (Real (DInf False)) (Real (DInf False)) = - 1"
proof (intro conjI impI)
  assume *: "\<bar>sint x\<bar> < 2 ^ 53 \<and> \<bar>sint y\<bar> < 2 ^ 53"
  let ?d = "dbl_sub (dbl_of_int (sint x)) (dbl_of_int (sint y))"
  have d: "?d = (if sint x = sint y then DFin (sint x < 0 \<and> \<not> sint y < 0) 0 0
      else dbl_round (sint x < sint y) (nat \<bar>sint x - sint y\<bar>) 0)"
    using * by (intro dbl_sub_ints) auto
  show "phpnum_compare (Elong x) (Elong y) = sgn (sint x - sint y)"
  proof (cases "sint x = sint y")
    case True
    then show ?thesis by (simp add: phpnum_compare_def phpnum_to_double_def long_to_double_def d [unfolded True] True dbl_num_def)
  next
    case False
    then have "nat \<bar>sint x - sint y\<bar> \<noteq> 0" by simp
    note s = dbl_round_sign [OF this, of "sint x < sint y"]
    show ?thesis using False s
      by (simp add: phpnum_compare_def phpnum_to_double_def long_to_double_def d Let_def)
  qed
next
  show "phpnum_compare (Elong 9007199254740992) (Elong 9007199254740993) = 0"
    by (simp add: phpnum_compare_def phpnum_to_double_def long_to_double_def dbl_of_int_def dbl_round_def
      nat_bits.simps rnd_shift_def dbl_pack_def dbl_sub_def dbl_neg_def dbl_num_def Let_def)
  show "phpnum_compare (Real (DInf False)) (Real (DInf False)) = - 1"
    by (simp add: phpnum_compare_def phpnum_to_double_def dbl_sub_def dbl_neg_def)
qed

theorem phpnum_compare_exact_witness: "phpnum_compare (Elong 7) (Elong 40) = - 1"
  using phpnum_compare_exact [of 7 40] by simp

section \<open>Printing in a radix\<close>

definition hex_val :: "char \<Rightarrow> nat" where
  "hex_val c = (if c_isdigit c then code c - 48 else code c - 87)"

lemma count_digits_add: "count_digits ax radix (bits + k) = count_digits ax radix bits + k"
proof (induction ax radix bits rule: count_digits.induct)
  case (1 ax radix bits)
  then show ?case
    by (subst (1 2) count_digits.simps) (simp add: ac_simps)
qed

lemma write_digits_append: "write_digits k ax radix s = write_digits k ax radix [] @ s"
proof (induction k arbitrary: ax s)
  case (Suc k)
  show ?case
    using Suc [of "ax div radix" "letters ! unat (ax mod radix) # s"] Suc [of "ax div radix" "[letters ! unat (ax mod radix)]"]
    by simp
qed simp

lemma hex_val_letters: "d < 16 \<Longrightarrow> hex_val (letters ! d) = d"
proof -
  have "\<forall>d \<in> {..<16}. hex_val (letters ! d) = d"
    by (simp add: lessThan_nat_numeral letters_def hex_val_def c_isdigit_def code_def)
  then show "d < 16 \<Longrightarrow> hex_val (letters ! d) = d" by simp
qed

text \<open>The routine obeys the repeated-division law on the whole range of the argument.\<close>

lemma re_unsigned_to_string_law:
  assumes r: "2 \<le> unat radix" "unat radix \<le> 16"
  shows "re_unsigned_to_string x radix = (if unat x < unat radix then [letters ! unat x]
    else re_unsigned_to_string (x div radix) radix @ [letters ! unat (x mod radix)])"
proof -
  have r2: "2 \<le> radix" using r by (simp add: word_le_nat_alt)
  show ?thesis
  proof (cases "unat x < unat radix")
    case True
    then have dv: "x div radix = 0" "x mod radix = x"
      by (auto simp: word_arith_nat_div word_arith_nat_mod)
    have "count_digits x radix (if x = 0 then 1 else 0) = 1"
      using r2 dv by (subst count_digits.simps) (auto simp: count_digits.simps [of 0] word_gt_0)
    then show ?thesis using True dv by (simp add: re_unsigned_to_string_def)
  next
    case False
    have x0: "x \<noteq> 0" using False r by auto
    have d0: "x div radix \<noteq> 0"
      using False r by (simp add: unat_eq_zero [symmetric] unat_div div_eq_0_iff)
    have "count_digits x radix 0 = count_digits (x div radix) radix (0 + 1)"
      using x0 r2 by (subst count_digits.simps) (simp add: word_gt_0)
    also have "\<dots> = Suc (count_digits (x div radix) radix 0)" by (simp only: count_digits_add)
    finally show ?thesis
      using x0 d0 False write_digits_append [of _ "x div radix" radix "[letters ! unat (x mod radix)]"]
      by (simp add: re_unsigned_to_string_def)
  qed
qed

lemma re_unsigned_printer:
  assumes "2 \<le> unat radix" "unat radix \<le> 16"
  shows "radix_printer (unat radix) ((!) letters) hex_val (\<lambda>n. n < 2 ^ 64)
    (\<lambda>n. re_unsigned_to_string (word_of_nat n) radix)"
proof
  show "2 \<le> unat radix" by fact
  show "d < unat radix \<Longrightarrow> hex_val (letters ! d) = d" for d using assms hex_val_letters by simp
  show "n < 2 ^ 64 \<Longrightarrow> m \<le> n \<Longrightarrow> m < (2 ^ 64 :: nat)" for m n by (rule le_less_trans)
  fix n :: nat assume "n < 2 ^ 64"
  then have n: "unat (word_of_nat n :: u64) = n" by (simp add: unat_of_nat take_bit_eq_mod)
  have "word_of_nat n div radix = word_of_nat (n div unat radix)"
    "unat (word_of_nat n mod radix) = n mod unat radix"
    by (simp_all add: word_arith_nat_div n unat_mod_distrib unat_mod)
  then show "re_unsigned_to_string (word_of_nat n) radix = (if n < unat radix then [letters ! n]
      else re_unsigned_to_string (word_of_nat (n div unat radix)) radix @ [letters ! (n mod unat radix)])"
    by (subst re_unsigned_to_string_law [OF assms]) (simp add: n)
qed

interpretation uhex: radix_printer 16 "(!) letters" hex_val "\<lambda>n. n < 2 ^ 64"
    "\<lambda>n. re_unsigned_to_string (word_of_nat n) 16"
  using re_unsigned_printer [of 16] by simp

text \<open>
  Printing in a radix from 2 to 16 yields the notation of the unsigned value: reading the
  string back gives the value, and there is no leading zero unless the value is zero.
\<close>

theorem re_unsigned_to_string_value:
  assumes "2 \<le> unat radix" "unat radix \<le> 16"
  shows "radix_val (unat radix) hex_val (re_unsigned_to_string x radix) = unat x \<and>
    (hd (re_unsigned_to_string x radix) = CHR ''0'' \<longrightarrow> x = 0)"
proof -
  note p = re_unsigned_printer [OF assms]
  have "unat x < 2 ^ 64" by simp
  note v = radix_printer.print_value [OF p this] radix_printer.print_hd [OF p this]
  have "letters ! 0 = CHR ''0''" by (simp add: letters_def)
  then show ?thesis using v by (simp add: unat_eq_zero)
qed

theorem re_unsigned_to_string_value_witness:
  "radix_val 16 hex_val (re_unsigned_to_string 0xBEEF 16) = 0xBEEF"
  using re_unsigned_to_string_value [of 16 "0xBEEF"] by simp

end
