(* ===== verification/IntConv.thy ===== *)
theory IntConv
  imports Radix
begin

text \<open>
  The integer conversions of \<open>runtime/pcc_snprintf.c\<close>.  They write digits leftwards from
  the end of a buffer; the string built so far is what lies between the cursor and the end.
  \<open>wide_int\<close> and \<open>widest_int\<close> are both \<open>long\<close>, so that the range tests of the quad versions
  always pick the short version.
\<close>

section \<open>The code\<close>

text \<open>\<open>*--p = (char) (magnitude - new_magnitude * 10 + '0')\<close>\<close>

function conv_10_loop :: "u64 \<Rightarrow> cstr \<Rightarrow> cstr" where
  "conv_10_loop magnitude p =
     (let new_magnitude = magnitude div 10;
          p = char_of (unat (magnitude - new_magnitude * 10 + 48)) # p
      in if new_magnitude \<noteq> 0 then conv_10_loop new_magnitude p else p)"
  by pat_completeness auto
termination
proof (relation "measure (\<lambda>(m, p). unat m)", goal_cases)
  case (2 m p n q)
  then have "unat m div 10 \<noteq> 0" by (simp add: unat_eq_zero [symmetric] unat_div)
  with 2 show ?case by (simp add: unat_div)
qed simp

definition conv_10 :: "u64 \<Rightarrow> bool \<Rightarrow> bool \<times> cstr" where
  "conv_10 num is_unsigned =
     (let is_negative = (\<not> is_unsigned \<and> sint num < 0);
          magnitude = (if is_negative then (- (num + 1)) + 1 else num)
      in (is_negative, conv_10_loop magnitude []))"

text \<open>
  \<open>conv_10_quad\<close>: \<open>num <= ULONG_MAX\<close> compares as unsigned, \<open>LONG_MIN <= num <= LONG_MAX\<close>
  as signed, and both hold for every argument.
\<close>

definition conv_10_quad :: "u64 \<Rightarrow> bool \<Rightarrow> bool \<times> cstr" where
  "conv_10_quad num is_unsigned =
     (if (unat num \<le> 2 ^ 64 - 1 \<and> is_unsigned) \<or>
         (sint num \<le> 2 ^ 63 - 1 \<and> - (2 ^ 63) \<le> sint num \<and> \<not> is_unsigned)
      then conv_10 num is_unsigned
      else (let is_negative = (\<not> is_unsigned \<and> sint num < 0);
                magnitude = (if is_negative then (- (num + 1)) + 1 else num)
            in (is_negative, conv_10_loop magnitude [])))"

definition low_digits :: cstr where "low_digits = ''0123456789abcdef''"
definition upper_digits :: cstr where "upper_digits = ''0123456789ABCDEF''"

text \<open>The mask is an \<open>int\<close>; the shift count is 3 or 4.\<close>

function conv_p2_loop :: "u64 \<Rightarrow> nat \<Rightarrow> cstr \<Rightarrow> cstr \<Rightarrow> cstr" where
  "conv_p2_loop num nbits digits p =
     (let p = digits ! unat (num AND (push_bit nbits 1 - 1)) # p; num' = drop_bit nbits num
      in if num' \<noteq> 0 \<and> 0 < nbits then conv_p2_loop num' nbits digits p else p)"
  by pat_completeness auto
termination
proof (relation "measure (\<lambda>(n, b, d, p). unat n)", goal_cases)
  case (2 num nbits digits p q num')
  have d: "unat (drop_bit nbits num) = unat num div 2 ^ nbits"
    by (simp only: unat_drop_bit_eq) (simp only: drop_bit_eq_div)
  have "unat (drop_bit nbits num) \<noteq> 0" using 2 by (simp only: unat_eq_zero) simp
  then have "0 < unat num" unfolding d by (cases "unat num") auto
  moreover have "(1 :: nat) < 2 ^ nbits" using 2 by (intro one_less_power) auto
  ultimately show ?case using 2 by (simp only: in_measure prod.case d div_less_dividend)
qed simp

definition conv_p2 :: "u64 \<Rightarrow> nat \<Rightarrow> char \<Rightarrow> cstr" where
  "conv_p2 num nbits format =
     conv_p2_loop num nbits (if format = CHR ''X'' then upper_digits else low_digits) []"

definition conv_p2_quad :: "u64 \<Rightarrow> nat \<Rightarrow> char \<Rightarrow> cstr" where
  "conv_p2_quad num nbits format =
     (if unat num \<le> 2 ^ 64 - 1 then conv_p2 num nbits format
      else conv_p2_loop num nbits (if format = CHR ''X'' then upper_digits else low_digits) [])"

declare conv_10_loop.simps [simp del] conv_p2_loop.simps [simp del]

section \<open>Decimal conversion\<close>

lemma conv_10_loop_append: "conv_10_loop m p = conv_10_loop m [] @ p"
proof (induction "unat m" arbitrary: m p rule: less_induct)
  case less
  let ?c = "char_of (unat (m - m div 10 * 10 + 48))"
  have "m div 10 \<noteq> 0 \<Longrightarrow> unat (m div 10) < unat m"
    by (simp add: unat_eq_zero [symmetric] unat_div)
  then have "m div 10 \<noteq> 0 \<Longrightarrow> conv_10_loop (m div 10) (?c # q) = conv_10_loop (m div 10) [] @ ?c # q" for q
    by (rule less.hyps)
  from this [of p] this [of "[]"] show ?case
    unfolding conv_10_loop.simps [of m p] conv_10_loop.simps [of m "[]"] Let_def by auto
qed

lemma conv_10_digit: "char_of (unat (m - m div 10 * 10 + 48 :: u64)) = dec_dig (unat m mod 10)"
proof -
  have "m - m div 10 * 10 = m mod 10"
    by (metis add_diff_cancel_left' div_mult_mod_eq mult.commute)
  moreover have "unat (m mod 10 + 48) = unat m mod 10 + 48"
    by (simp add: unat_word_ariths unat_mod)
  ultimately show ?thesis by (simp add: dec_dig_def)
qed

lemma conv_10_law:
  assumes "n < 2 ^ 64"
  shows "conv_10_loop (word_of_nat n) [] = (if n < 10 then [dec_dig n]
    else conv_10_loop (word_of_nat (n div 10)) [] @ [dec_dig (n mod 10)])"
proof -
  have n: "unat (word_of_nat n :: u64) = n" using assms by (simp add: unat_of_nat take_bit_eq_mod)
  then have d: "(word_of_nat n :: u64) div 10 = word_of_nat (n div 10)"
    by (simp add: word_arith_nat_div)
  have z: "(word_of_nat n :: u64) div 10 = 0 \<longleftrightarrow> n < 10"
    using n by (simp add: unat_eq_zero [symmetric] unat_div div_eq_0_iff)
  show ?thesis
    using conv_10_loop_append [of "word_of_nat (n div 10)" "[dec_dig (n mod 10)]"]
    by (subst conv_10_loop.simps) (simp add: Let_def conv_10_digit n z d [symmetric])
qed

interpretation conv10: radix_printer 10 dec_dig dec_dval "\<lambda>n. n < 2 ^ 64"
    "\<lambda>n. conv_10_loop (word_of_nat n) []"
proof
  fix n :: nat assume "n < 2 ^ 64"
  then show "conv_10_loop (word_of_nat n) [] = (if n < 10 then [dec_dig n]
    else conv_10_loop (word_of_nat (n div 10)) [] @ [dec_dig (n mod 10)])" by (rule conv_10_law)
qed (auto simp: dec_dig_def dec_dval_def)

text \<open>Two printers in the same base and with the same digits agree where both are defined.\<close>

lemma conv_10_loop_dec: "conv_10_loop m [] = nat_dec (unat m)"
proof -
  have "n < 2 ^ 64 \<Longrightarrow> conv_10_loop (word_of_nat n) [] = nat_dec n" for n
  proof (induction n rule: nat_dec.induct)
    case (1 n)
    then show ?case by (subst conv_10_law, simp, subst nat_dec.simps) auto
  qed
  from this [of "unat m"] show ?thesis by simp
qed

lemma conv_10_magnitude: "sint num < 0 \<Longrightarrow> unat (- num) = nat (- sint num)" for num :: u64
proof -
  assume neg: "sint num < 0"
  have "uint (- num) = (- uint num) mod 2 ^ 64" by (simp add: uint_word_ariths)
  also have "uint num = sint num + 2 ^ 64"
    using neg uint_sint [of num] sint_greater_eq [of num] mod_add_self2 [of "sint num" "2 ^ 64"]
      mod_pos_pos_trivial [of "sint num + 2 ^ 64" "2 ^ 64"]
    by (simp add: take_bit_eq_mod)
  also have "(- (sint num + 2 ^ 64)) mod 2 ^ 64 = - sint num"
    using neg sint_greater_eq [of num] mod_add_self2 [of "- (sint num + 2 ^ 64)" "2 ^ 64"]
      mod_pos_pos_trivial [of "- sint num" "2 ^ 64"] by simp
  finally show ?thesis by (metis nat_uint_eq)
qed

lemma uint_nonneg: "0 \<le> sint num \<Longrightarrow> unat num = nat (sint num)" for num :: u64
proof -
  assume "0 \<le> sint num"
  then have "uint num = sint num"
    using uint_sint [of num] sint_less [of num] by (simp add: take_bit_eq_mod mod_pos_pos_trivial)
  then show ?thesis by (metis nat_uint_eq)
qed

text \<open>
  Decimal conversion: the digits of \<open>conv_10\<close>, with a minus sign when it reports a
  negative number, are the decimal notation of the argument, the most negative long included
  (whose magnitude does not fit a long); read as unsigned, of the unsigned value.
\<close>

theorem conv_10_decimal:
  "(let (neg, s) = conv_10 num False in (if neg then CHR ''-'' # s else s) = int_dec (sint num)) \<and>
   conv_10 num True = (False, nat_dec (unat num)) \<and> conv_10_quad num u = conv_10 num u"
proof -
  have "conv_10 num False = (sint num < 0, nat_dec (nat \<bar>sint num\<bar>))"
    by (simp add: conv_10_def Let_def conv_10_loop_dec conv_10_magnitude uint_nonneg)
  moreover have "conv_10 num True = (False, nat_dec (unat num))"
    by (simp add: conv_10_def Let_def conv_10_loop_dec)
  moreover have "unat num \<le> 2 ^ 64 - 1" "sint num \<le> 2 ^ 63 - 1" "- (2 ^ 63) \<le> sint num"
    using less_Suc_eq_le [of "unat num" "2 ^ 64 - 1"] sint_less [of num] sint_greater_eq [of num] by simp_all
  ultimately show ?thesis by (simp add: conv_10_quad_def int_dec_def)
qed

section \<open>Conversion to a base that is a power of two\<close>

definition p2_val :: "char \<Rightarrow> nat" where
  "p2_val c = (if c_isdigit c then code c - 48 else if c_isupper c then code c - 55 else code c - 87)"

lemma p2_val_digits:
  assumes "d < 16"
  shows "p2_val (low_digits ! d) = d" "p2_val (upper_digits ! d) = d"
proof -
  have "\<forall>d \<in> {..<16}. p2_val (low_digits ! d) = d" "\<forall>d \<in> {..<16}. p2_val (upper_digits ! d) = d"
    by (simp_all add: lessThan_nat_numeral low_digits_def upper_digits_def p2_val_def c_isdigit_def c_isupper_def code_def)
  then show "p2_val (low_digits ! d) = d" "p2_val (upper_digits ! d) = d" using assms by simp_all
qed

lemma conv_p2_loop_append: "conv_p2_loop m b ds p = conv_p2_loop m b ds [] @ p"
proof (induction m b ds p rule: conv_p2_loop.induct)
  case (1 m b ds p)
  have gen: "conv_p2_loop m b ds p = conv_p2_loop m b ds [] @ p" for p
  proof (induction "unat m" arbitrary: m p rule: less_induct)
    case less
    let ?c = "ds ! unat (m AND (push_bit b 1 - 1))" and ?m = "drop_bit b m"
    have d: "unat ?m = unat m div 2 ^ b" by (simp only: unat_drop_bit_eq) (simp only: drop_bit_eq_div)
    have "conv_p2_loop ?m b ds (?c # q) = conv_p2_loop ?m b ds [] @ ?c # q" if "?m \<noteq> 0 \<and> 0 < b" for q
    proof (rule less.hyps)
      have "unat ?m \<noteq> 0" using that by (simp only: unat_eq_zero) simp
      then have "0 < unat m" unfolding d by (cases "unat m") auto
      moreover have "(1 :: nat) < 2 ^ b" using that by (intro one_less_power) auto
      ultimately show "unat ?m < unat m" by (simp only: d div_less_dividend)
    qed
    from this [of p] this [of "[]"] show ?case
      unfolding conv_p2_loop.simps [of m b ds p] conv_p2_loop.simps [of m b ds "[]"] Let_def by auto
  qed
  show ?case by (rule gen)
qed

lemma conv_p2_law:
  assumes n: "n < 2 ^ 64" and b: "0 < nbits" "nbits < 64"
  shows "conv_p2_loop (word_of_nat n) nbits ds [] = (if n < 2 ^ nbits then [ds ! n]
    else conv_p2_loop (word_of_nat (n div 2 ^ nbits)) nbits ds [] @ [ds ! (n mod 2 ^ nbits)])"
proof -
  let ?w = "word_of_nat n :: u64"
  have u: "unat ?w = n" using n by (simp add: unat_of_nat take_bit_eq_mod)
  have m: "unat (?w AND (push_bit nbits 1 - 1)) = n mod 2 ^ nbits"
  proof -
    have "?w AND (push_bit nbits 1 - 1) = take_bit nbits ?w"
      by (simp add: take_bit_eq_mask mask_eq_exp_minus_1 push_bit_eq_mult)
    then have "unat (?w AND (push_bit nbits 1 - 1)) = take_bit nbits n"
      by (simp only: unsigned_take_bit_eq u)
    then show ?thesis by (simp only: take_bit_eq_mod)
  qed
  have d: "unat (drop_bit nbits ?w) = n div 2 ^ nbits"
    by (simp only: unat_drop_bit_eq u) (simp only: drop_bit_eq_div)
  have d': "drop_bit nbits ?w = word_of_nat (n div 2 ^ nbits)"
    using d unat_eq_nat_uint by (metis of_nat_unat ucast_id)
  have z: "drop_bit nbits ?w \<noteq> 0 \<longleftrightarrow> 2 ^ nbits \<le> n"
    by (metis d div_eq_0_iff not_le power_not_zero unat_eq_zero zero_neq_numeral)
  show ?thesis
    using b z m conv_p2_loop_append [of "drop_bit nbits ?w" nbits ds "[ds ! (n mod 2 ^ nbits)]"]
    by (subst conv_p2_loop.simps) (simp add: Let_def d' not_less [symmetric])
qed

lemma conv_p2_printer:
  assumes "0 < nbits" "nbits \<le> 4" "\<And>d. d < 16 \<Longrightarrow> p2_val (ds ! d) = d"
  shows "radix_printer (2 ^ nbits) ((!) ds) p2_val (\<lambda>n. n < 2 ^ 64) (\<lambda>n. conv_p2_loop (word_of_nat n) nbits ds [])"
proof
  have p: "(2 :: nat) ^ 1 \<le> 2 ^ nbits" "(2 :: nat) ^ nbits \<le> 2 ^ 4" using assms by (intro power_increasing; simp)+
  then show "2 \<le> (2 :: nat) ^ nbits" by simp
  show "d < 2 ^ nbits \<Longrightarrow> p2_val (ds ! d) = d" for d using p(2) by (intro assms(3)) simp
  fix n :: nat assume "n < 2 ^ 64"
  then show "conv_p2_loop (word_of_nat n) nbits ds [] = (if n < 2 ^ nbits then [ds ! n]
    else conv_p2_loop (word_of_nat (n div 2 ^ nbits)) nbits ds [] @ [ds ! (n mod 2 ^ nbits)])"
    using assms by (intro conv_p2_law) auto
qed (rule le_less_trans)

interpretation hexlow: radix_printer 16 "(!) low_digits" p2_val "\<lambda>n. n < 2 ^ 64"
    "\<lambda>n. conv_p2_loop (word_of_nat n) 4 low_digits []"
  using conv_p2_printer [of 4 low_digits] p2_val_digits by simp

text \<open>
  The conversion to octal and to hexadecimal digits of either case reads back as the
  number, has no leading zero, and fits 22 and 16 characters.
\<close>

theorem conv_p2_value:
  assumes "nbits = 3 \<or> nbits = 4"
  shows "radix_val (2 ^ nbits) p2_val (conv_p2 num nbits format) = unat num \<and>
    (hd (conv_p2 num nbits format) = CHR ''0'' \<longrightarrow> num = 0) \<and>
    length (conv_p2 num nbits format) \<le> (if nbits = 3 then 22 else 16)"
proof -
  define ds where "ds = (if format = CHR ''X'' then upper_digits else low_digits)"
  have v: "d < 16 \<Longrightarrow> p2_val (ds ! d) = d" for d by (simp add: ds_def p2_val_digits)
  have nb: "0 < nbits" "nbits \<le> 4" using assms by auto
  note p = conv_p2_printer [OF nb v]
  have c: "conv_p2 num nbits format = conv_p2_loop (word_of_nat (unat num)) nbits ds []"
    by (simp add: conv_p2_def ds_def)
  have u: "unat num < 2 ^ 64" by simp
  have z: "ds ! 0 = CHR ''0''" by (simp add: ds_def upper_digits_def low_digits_def)
  have "hd (conv_p2 num nbits format) = CHR ''0'' \<Longrightarrow> num = 0"
    using radix_printer.print_hd [OF p u] z unfolding c by (simp add: unat_eq_zero)
  moreover have "length (conv_p2 num nbits format) \<le> (if nbits = 3 then 22 else 16)"
    unfolding c using assms less_trans [OF u, of "8 ^ 22"]
    by (intro radix_printer.print_length_le [OF p u]) auto
  ultimately show ?thesis using radix_printer.print_value [OF p u] unfolding c by blast
qed

theorem conv_p2_value_witness:
  "radix_val (2 ^ 4) p2_val (conv_p2 0xBEEF 4 CHR ''X'') = 0xBEEF"
  using conv_p2_value [of 4 "0xBEEF" "CHR ''X''"] by simp

end
