(* ===== verification/FloatConv.thy ===== *)
theory FloatConv
  imports Dbl IntConv
begin

text \<open>
  The floating point conversions of \<open>runtime/pcc_snprintf.c\<close>: \<open>pcc_cvt\<close>, which produces
  digits in a buffer of \<open>NDIG\<close> bytes by repeated division and multiplication in \<open>double\<close>
  arithmetic, and \<open>pcc_gcvt\<close> and \<open>conv_fp\<close>, which lay them out.  The pointers into the
  digit buffer are indices, \<open>p1\<close> may run before its start; every access is checked.  The
  two loops that scale the number by ten carry fuel: a finite double has at most 309 digits
  before the point and at most 324 zeros after it, so that the fuel of 1200 turns is enough.
\<close>

section \<open>\<open>pcc_cvt\<close>\<close>

definition NDIG :: nat where "NDIG = 80"

definition cvt_fuel :: nat where "cvt_fuel = 1200"

abbreviation dbl_ten :: dbl where "dbl_ten \<equiv> DFin False 10 0"
abbreviation dbl_one :: dbl where "dbl_one \<equiv> DFin False 1 0"
abbreviation dbl_zero :: dbl where "dbl_zero \<equiv> DFin False 0 0"

text \<open>The literal \<open>.03\<close>: the double nearest to three hundredths.\<close>

definition dbl_003 :: dbl where
  "dbl_003 = dbl_div (DFin False 3 0) (DFin False 100 0)"

text \<open>A conversion to \<open>int\<close>, and \<open>(int) d + '0'\<close> stored in a \<open>char\<close>.\<close>

definition dbl_to_int :: "dbl \<Rightarrow> fault + int" where
  "dbl_to_int d = (case dbl_trunc d of
     Some i \<Rightarrow> if - (2 ^ 31) \<le> i \<and> i < 2 ^ 31 then Inr i else Inl ConversionRange
   | None \<Rightarrow> Inl ConversionRange)"

definition digit_char :: "int \<Rightarrow> char" where
  "digit_char i = char_of (nat ((i + 48) mod 256))"

definition wr_int :: "char list \<Rightarrow> int \<Rightarrow> char \<Rightarrow> fault + char list" where
  "wr_int buf i c = (if 0 \<le> i then wr buf (nat i) c else Inl OutOfBounds)"

definition rd_int :: "char list \<Rightarrow> int \<Rightarrow> fault + char" where
  "rd_int buf i = (if 0 \<le> i then rd buf (nat i) else Inl OutOfBounds)"

text \<open>\<open>memmove(&buf[mvl], &buf[0], n)\<close> inside one buffer.\<close>

definition memmove_up :: "char list \<Rightarrow> nat \<Rightarrow> nat \<Rightarrow> fault + char list" where
  "memmove_up buf mvl n =
     (if mvl + n \<le> length buf then Inr (take mvl buf @ take n buf @ drop (mvl + n) buf) else Inl OutOfBounds)"

text \<open>
  The integer part, from the right; when the digits reach the start of the buffer the first
  ones are moved up and written over.
\<close>

fun cvt_integer :: "nat \<Rightarrow> int \<Rightarrow> dbl \<Rightarrow> int \<Rightarrow> int \<Rightarrow> char list \<Rightarrow> fault + (int \<times> int \<times> char list)" where
  "cvt_integer 0 ndigits fi p1 r2 buf = Inl OutOfFuel"
| "cvt_integer (Suc fuel) ndigits fi p1 r2 buf =
     (if dbl_eq fi dbl_zero then Inr (p1, r2, buf)
      else let (fj, fi) = dbl_modf (dbl_div fi dbl_ten) in
        bind_res
          (if p1 \<le> 0
           then let mvl = int NDIG - ndigits in
             bind_res (if 0 < ndigits then memmove_up buf (nat mvl) (nat (int NDIG - mvl - 1)) else Inr buf)
               (\<lambda>buf. Inr (p1 + mvl, buf))
           else Inr (p1, buf)) (\<lambda>(p1, buf).
        bind_res (dbl_to_int (dbl_mul (dbl_add fj dbl_003) dbl_ten)) (\<lambda>d.
        bind_res (wr_int buf (p1 - 1) (digit_char d)) (\<lambda>buf.
          cvt_integer fuel ndigits fi (p1 - 1) (r2 + 1) buf))))"

text \<open>\<open>while (p1 < &buf[NDIG]) *p++ = *p1++\<close>\<close>

function copy_down :: "nat \<Rightarrow> int \<Rightarrow> char list \<Rightarrow> fault + (nat \<times> char list)" where
  "copy_down p p1 buf =
     (if p1 < int NDIG
      then bind_res (rd_int buf p1) (\<lambda>c. bind_res (wr buf p c) (\<lambda>buf. copy_down (p + 1) (p1 + 1) buf))
      else Inr (p, buf))"
  by pat_completeness auto
termination by (relation "measure (\<lambda>(p, p1, buf). nat (int NDIG - p1))") auto

text \<open>A number below one: the zeros after the point.\<close>

fun cvt_fraction :: "nat \<Rightarrow> bool \<Rightarrow> int \<Rightarrow> dbl \<Rightarrow> int \<Rightarrow> fault + (dbl \<times> int)" where
  "cvt_fraction 0 eflag ndigits arg r2 = Inl OutOfFuel"
| "cvt_fraction (Suc fuel) eflag ndigits arg r2 =
     (let fj = dbl_mul arg dbl_ten in
      if dbl_less fj dbl_one
      then if \<not> eflag \<and> - r2 < ndigits then Inr (arg, r2) else cvt_fraction fuel eflag ndigits fj (r2 - 1)
      else Inr (arg, r2))"

text \<open>The digits of the fraction, up to and including the rounding digit at \<open>p1\<close>.\<close>

function cvt_digits :: "nat \<Rightarrow> int \<Rightarrow> dbl \<Rightarrow> dbl \<Rightarrow> char list \<Rightarrow> fault + (nat \<times> char list)" where
  "cvt_digits p p1 arg fj buf =
     (if int p \<le> p1 \<and> p < NDIG
      then bind_res (dbl_to_int fj) (\<lambda>d. bind_res (wr buf p (digit_char d)) (\<lambda>buf.
        let (arg, fj) = dbl_modf (dbl_mul arg dbl_ten) in cvt_digits (p + 1) p1 arg fj buf))
      else Inr (p, buf))"
  by pat_completeness auto
termination by (relation "measure (\<lambda>(p, p1, arg, fj, buf). NDIG - p)") auto

definition char_add :: "char \<Rightarrow> nat \<Rightarrow> char" where
  "char_add c n = char_of ((code c + n) mod 256)"

text \<open>The carry after rounding, \<open>while (*p1 > '9')\<close>.\<close>

fun cvt_carry :: "bool \<Rightarrow> nat \<Rightarrow> nat \<Rightarrow> int \<Rightarrow> char list \<Rightarrow> fault + (nat \<times> int \<times> char list)" where
  "cvt_carry eflag 0 p decpt buf =
     bind_res (rd buf 0) (\<lambda>c.
       if schar c > 57
       then bind_res (wr buf 0 CHR ''1'') (\<lambda>buf.
         if \<not> eflag
         then bind_res (if 0 < p then wr buf p CHR ''0'' else Inr buf) (\<lambda>buf. Inr (p + 1, decpt + 1, buf))
         else Inr (p, decpt + 1, buf))
       else Inr (p, decpt, buf))"
| "cvt_carry eflag (Suc p1) p decpt buf =
     bind_res (rd buf (Suc p1)) (\<lambda>c.
       if schar c > 57
       then bind_res (wr buf (Suc p1) CHR ''0'') (\<lambda>buf.
         bind_res (rd buf p1) (\<lambda>d. bind_res (wr buf p1 (char_add d 1)) (\<lambda>buf.
           cvt_carry eflag p1 p decpt buf)))
       else Inr (p, decpt, buf))"

text \<open>
  The whole routine: the digit string in the buffer, the position of the decimal point and
  the sign.  The initial contents of the buffer are whatever they are.
\<close>

definition cvt_round :: "bool \<Rightarrow> nat \<Rightarrow> int \<Rightarrow> char list \<Rightarrow> fault + (char list \<times> int)" where
  "cvt_round eflag p1 decpt buf =
     bind_res (rd buf p1) (\<lambda>c. bind_res (wr buf p1 (char_add c 5)) (\<lambda>buf.
     bind_res (cvt_carry eflag p1 p1 decpt buf) (\<lambda>(p, decpt, buf).
     bind_res (wr buf p NUL) (\<lambda>buf. Inr (buf, decpt)))))"

definition cvt_tail :: "bool \<Rightarrow> int \<Rightarrow> dbl \<Rightarrow> nat \<Rightarrow> int \<Rightarrow> char list \<Rightarrow> fault + (char list \<times> int)" where
  "cvt_tail eflag ndigits arg p r2 buf =
     (let p1 = (if eflag then ndigits else ndigits + r2) in
      if p1 < 0 then bind_res (wr buf 0 NUL) (\<lambda>buf. Inr (buf, r2))
      else bind_res
        (if int p \<le> p1 \<and> p < NDIG
         then let (arg, fj) = dbl_modf (dbl_mul arg dbl_ten) in
           bind_res (dbl_to_int fj) (\<lambda>d.
           bind_res
             (if d = 10 then bind_res (wr buf p CHR ''1'') (\<lambda>buf. Inr (p + 1, dbl_zero, r2 + 1, buf))
              else Inr (p, fj, r2, buf)) (\<lambda>(p, fj, decpt, buf).
           bind_res (cvt_digits p p1 arg fj buf) (\<lambda>(p, buf). Inr (decpt, buf))))
         else Inr (r2, buf)) (\<lambda>(decpt, buf).
        if int NDIG \<le> p1 then bind_res (wr buf (NDIG - 1) NUL) (\<lambda>buf. Inr (buf, decpt))
        else cvt_round eflag (nat p1) decpt buf))"

definition pcc_cvt :: "dbl \<Rightarrow> int \<Rightarrow> bool \<Rightarrow> char list \<Rightarrow> fault + (char list \<times> int \<times> bool)" where
  "pcc_cvt arg ndigits eflag buf =
     (let ndigits = (if ndigits \<ge> int NDIG - 1 then int NDIG - 2 else ndigits);
          sgn = dbl_less arg dbl_zero;
          (arg, fi) = dbl_modf (if sgn then dbl_neg arg else arg)
      in bind_res
        (if \<not> dbl_eq fi dbl_zero
         then bind_res (cvt_integer cvt_fuel ndigits fi (int NDIG) 0 buf) (\<lambda>(p1, r2, buf).
              bind_res (copy_down 0 p1 buf) (\<lambda>(p, buf). Inr (arg, p, r2, buf)))
         else if dbl_less dbl_zero arg
         then bind_res (cvt_fraction cvt_fuel eflag ndigits arg 0) (\<lambda>(arg, r2). Inr (arg, 0, r2, buf))
         else Inr (arg, 0, 0, buf)) (\<lambda>(arg, p, r2, buf).
      bind_res (cvt_tail eflag ndigits arg p r2 buf) (\<lambda>(buf, decpt). Inr (buf, decpt, sgn))))"

definition pcc_ecvt :: "dbl \<Rightarrow> int \<Rightarrow> char list \<Rightarrow> fault + (char list \<times> int \<times> bool)" where
  "pcc_ecvt arg ndigits buf = pcc_cvt arg ndigits True buf"

definition pcc_fcvt :: "dbl \<Rightarrow> int \<Rightarrow> char list \<Rightarrow> fault + (char list \<times> int \<times> bool)" where
  "pcc_fcvt arg ndigits buf = pcc_cvt arg ndigits False buf"

declare copy_down.simps [simp del] cvt_digits.simps [simp del]

section \<open>\<open>pcc_gcvt\<close>\<close>

text \<open>Trailing zeros are dropped from the count of digits.\<close>

fun gcvt_strip :: "char list \<Rightarrow> nat \<Rightarrow> int \<Rightarrow> fault + int" where
  "gcvt_strip buf1 0 ndigit = Inr ndigit"
| "gcvt_strip buf1 (Suc i) ndigit =
     bind_res (rd buf1 (Suc i)) (\<lambda>c. if c = CHR ''0'' then gcvt_strip buf1 i (ndigit - 1) else Inr ndigit)"

text \<open>\<open>n\<close> digits of the buffer from index \<open>i\<close> on.\<close>

fun take_digits :: "char list \<Rightarrow> nat \<Rightarrow> nat \<Rightarrow> fault + cstr" where
  "take_digits buf1 i 0 = Inr []"
| "take_digits buf1 i (Suc n) =
     bind_res (rd buf1 i) (\<lambda>c. bind_res (take_digits buf1 (i + 1) n) (\<lambda>cs. Inr (c # cs)))"

definition gcvt_exponent :: "int \<Rightarrow> cstr" where
  "gcvt_exponent decpt =
     (let e = \<bar>decpt\<bar> in
      [if decpt < 0 then CHR ''-'' else CHR ''+''] @
      (if e div 100 > 0 then [digit_char (e div 100)] else []) @
      (if e div 10 > 0 then [digit_char ((e mod 100) div 10)] else []) @
      [digit_char (e mod 10)])"

definition gcvt_estyle :: "char list \<Rightarrow> int \<Rightarrow> int \<Rightarrow> fault + cstr" where
  "gcvt_estyle buf1 ndigit decpt =
     bind_res (rd buf1 0) (\<lambda>c. bind_res (take_digits buf1 1 (nat (ndigit - 1))) (\<lambda>ds.
       Inr ([c, CHR ''.''] @ ds @ (if ds = [] then ''0'' else []) @ [CHR ''e''] @ gcvt_exponent (decpt - 1))))"

text \<open>The digits \<open>i\<close>, \<open>i + 1\<close>, ... with the point after digit \<open>decpt\<close>.\<close>

fun gcvt_point :: "cstr \<Rightarrow> int \<Rightarrow> int \<Rightarrow> cstr" where
  "gcvt_point [] i decpt = []"
| "gcvt_point (c # cs) i decpt = c # (if i = decpt then ''.'' else []) @ gcvt_point cs (i + 1) decpt"

definition gcvt_fstyle :: "char list \<Rightarrow> int \<Rightarrow> int \<Rightarrow> fault + cstr" where
  "gcvt_fstyle buf1 ndigit decpt =
     bind_res (rd buf1 0) (\<lambda>c. bind_res (take_digits buf1 0 (nat ndigit)) (\<lambda>ds.
       Inr ((if decpt \<le> 0 then (if c \<noteq> CHR ''0'' then ''0.'' else []) @ replicate (nat (- decpt)) CHR ''0'' else []) @
         gcvt_point ds 1 (if decpt < 0 then 0 else decpt) @
         (if ndigit < decpt then replicate (nat (decpt - ndigit)) CHR ''0'' @ ''.'' else []))))"

text \<open>The result with its NUL has to fit what is left of \<open>num_buf\<close>.\<close>

definition pcc_gcvt :: "dbl \<Rightarrow> int \<Rightarrow> nat \<Rightarrow> bool \<Rightarrow> char list \<Rightarrow> fault + cstr" where
  "pcc_gcvt number ndigit room altform buf1 =
     (let ndigit = (if ndigit \<ge> int NDIG - 1 then int NDIG - 2 else ndigit) in
      bind_res (pcc_ecvt number ndigit buf1) (\<lambda>(buf1, decpt, sgn).
      bind_res (gcvt_strip buf1 (nat (ndigit - 1)) ndigit) (\<lambda>ndigit.
      bind_res
        (if (0 \<le> decpt \<and> decpt - ndigit > 4) \<or> (decpt < 0 \<and> decpt < - 3)
         then gcvt_estyle buf1 ndigit decpt else gcvt_fstyle buf1 ndigit decpt) (\<lambda>body.
      let s = (if sgn then ''-'' else []) @ body;
          s = (if s \<noteq> [] \<and> last s = CHR ''.'' \<and> \<not> altform then butlast s else s)
      in if length s < room then Inr s else Inl OutOfBounds))))"

section \<open>\<open>conv_fp\<close>\<close>

text \<open>\<open>while (*p) *s++ = *p++\<close>\<close>

function take_rest :: "char list \<Rightarrow> nat \<Rightarrow> fault + cstr" where
  "take_rest buf1 i =
     (if i < length buf1
      then if buf1 ! i = NUL then Inr [] else bind_res (take_rest buf1 (i + 1)) (\<lambda>cs. Inr (buf1 ! i # cs))
      else Inl OutOfBounds)"
  by pat_completeness auto
termination by (relation "measure (\<lambda>(b, i). length b - i)") auto

declare take_rest.simps [simp del]

definition fp_mantissa :: "char \<Rightarrow> bool \<Rightarrow> int \<Rightarrow> char list \<Rightarrow> int \<Rightarrow> fault + cstr" where
  "fp_mantissa format add_dp precision buf1 decpt =
     (if format = CHR ''f''
      then if decpt \<le> 0
        then bind_res (take_rest buf1 0) (\<lambda>rest.
          Inr (''0'' @ (if 0 < precision then ''.'' @ replicate (nat (- decpt)) CHR ''0''
                        else if add_dp then ''.'' else []) @ rest))
        else bind_res (take_digits buf1 0 (nat decpt)) (\<lambda>ds. bind_res (take_rest buf1 (nat decpt)) (\<lambda>rest.
          Inr (ds @ (if 0 < precision \<or> add_dp then ''.'' else []) @ rest)))
      else bind_res (rd buf1 0) (\<lambda>c. bind_res (take_rest buf1 1) (\<lambda>rest.
        Inr (c # (if 0 < precision \<or> add_dp then ''.'' else []) @ rest))))"

definition fp_exponent :: "char \<Rightarrow> int \<Rightarrow> cstr" where
  "fp_exponent format decpt =
     (if format = CHR ''f'' then []
      else let d = decpt - 1 in
        format # (if d \<noteq> 0
          then let (neg, p) = conv_10 (word_of_int d) False in
            (if neg then CHR ''-'' else CHR ''+'') # (if length p = 1 then ''0'' else []) @ p
          else ''+00''))"

text \<open>The sign comes back separately; a result that is text has none.\<close>

definition conv_fp :: "char \<Rightarrow> dbl \<Rightarrow> bool \<Rightarrow> int \<Rightarrow> nat \<Rightarrow> char list \<Rightarrow> fault + (bool \<times> cstr)" where
  "conv_fp format num add_dp precision room buf1 =
     bind_res (if format = CHR ''f'' then pcc_fcvt num precision buf1 else pcc_ecvt num (precision + 1) buf1)
       (\<lambda>(buf1, decpt, neg).
        bind_res (rd buf1 0) (\<lambda>c.
        bind_res
          (if c_isalpha c then bind_res (take_rest buf1 0) (\<lambda>s. Inr (False, s))
           else bind_res (fp_mantissa format add_dp precision buf1 decpt) (\<lambda>m.
             Inr (neg, m @ fp_exponent format decpt))) (\<lambda>(neg, s).
        if length s \<le> room then Inr (neg, s) else Inl OutOfBounds)))"

section \<open>Termination\<close>

text \<open>\<open>modf(fi / 10, &fi)\<close> of an integral number: the integer part loses at least two bits.\<close>

lemma integer_step:
  assumes "m \<noteq> 0" "0 \<le> e" "int (nat_bits m) + e \<le> 1024"
  shows "\<exists>fj m' e'. dbl_modf (dbl_div (DFin s m e) dbl_ten) = (fj, DFin s m' e') \<and> 0 \<le> e' \<and>
    (m' = 0 \<or> int (nat_bits m') + e' \<le> int (nat_bits m) + e - 2)"
proof -
  define q where "q = (m * 2 ^ 120) div 10"
  define M where "M = 2 * q + (if (m * 2 ^ 120) mod 10 = 0 then 0 else 1)"
  have "q \<le> (m * 2 ^ 120) div 8" unfolding q_def by (rule div_le_mono2) simp_all
  also have "\<dots> = m * 2 ^ 117" by simp
  also have "m * 2 ^ 117 < 2 ^ nat_bits m * 2 ^ 117" using nat_bits_bounds [OF assms(1)] by simp
  finally have "M < 2 ^ (nat_bits m + 118)" by (simp add: M_def power_add)
  then have bM: "nat_bits M \<le> nat_bits m + 118" by (rule nat_bits_le)
  have d: "dbl_div (DFin s m e) dbl_ten = dbl_round s M (e - 121)"
    by (simp add: q_def M_def Let_def)
  obtain m1 e1 where r: "dbl_round s M (e - 121) = DFin s m1 e1"
    and b: "m1 = 0 \<or> int (nat_bits m1) + e1 \<le> int (nat_bits M) + (e - 121) + 1"
    using dbl_round_upper [of M "e - 121" s] bM assms by auto
  show ?thesis
  proof (cases "0 \<le> e1")
    case True
    then show ?thesis using d r b bM by auto
  next
    case False
    then have "m1 div 2 ^ nat (- e1) = 0 \<or> int (nat_bits (m1 div 2 ^ nat (- e1))) \<le> int (nat_bits m1) + e1"
      using nat_bits_div [of m1 "nat (- e1)"] nat_bits_eq_0 [of "m1 div 2 ^ nat (- e1)"] by linarith
    then show ?thesis using False d r b bM by auto
  qed
qed

lemma dbl_eq_zero [simp]: "dbl_eq (DFin s m e) dbl_zero \<longleftrightarrow> m = 0"
  by (auto simp: dbl_num_def)

lemma avoids_wr_int [simp]: "avoids OutOfFuel (wr_int b i c)" "avoids OutOfFuel (rd_int b i)"
   "avoids OutOfFuel (memmove_up b k n)" "avoids OutOfFuel (dbl_to_int d)"
  by (auto simp: wr_int_def rd_int_def memmove_up_def dbl_to_int_def split: option.splits)

lemma cvt_integer_fuel:
  "\<lbrakk>0 \<le> e; 0 < fuel; m = 0 \<or> int (nat_bits m) + e < int fuel; int (nat_bits m) + e \<le> 1024\<rbrakk> \<Longrightarrow>
   avoids OutOfFuel (cvt_integer fuel ndigits (DFin s m e) p1 r2 buf)"
proof (induction fuel arbitrary: m e p1 r2 buf)
  case (Suc fuel)
  show ?case
  proof (cases "m = 0")
    case nz: False
    obtain fj m' e' where s: "dbl_modf (dbl_div (DFin s m e) dbl_ten) = (fj, DFin s m' e')" "0 \<le> e'"
      "m' = 0 \<or> int (nat_bits m') + e' \<le> int (nat_bits m) + e - 2"
      using integer_step [of m e s] nz Suc.prems by auto
    have "avoids OutOfFuel (cvt_integer fuel ndigits (DFin s m' e') p r b)" for p r b
    proof (cases "m' = 0")
      case True
      moreover have "0 < fuel" using Suc.prems(1,3) nz nat_bits_eq_0 [of m] by linarith
      then obtain f where "fuel = Suc f" by (cases fuel) auto
      ultimately show ?thesis by (simp del: dbl_eq.simps dbl_div.simps)
    next
      case False
      then show ?thesis using s Suc.prems nz nat_bits_eq_0 [of m'] by (intro Suc.IH) auto
    qed
    then show ?thesis using nz s(1)
      by (auto intro!: avoids_bind simp: Let_def simp del: dbl_div.simps dbl_modf.simps dbl_eq.simps)
  qed (simp del: dbl_eq.simps)
qed simp

lemma dbl_less_one:
  "dbl_less (DFin s m e) dbl_one \<Longrightarrow> m \<noteq> 0 \<Longrightarrow> \<not> s \<Longrightarrow> int (nat_bits m) + e \<le> 0"
proof (rule ccontr)
  assume *: "dbl_less (DFin s m e) dbl_one" "m \<noteq> 0" "\<not> s" "\<not> int (nat_bits m) + e \<le> 0"
  have "2 ^ nat (- min e 0) \<le> m * 2 ^ nat (e - min e 0)"
  proof (cases "0 \<le> e")
    case False
    have "(2 :: nat) ^ nat (- e) \<le> 2 ^ (nat_bits m - 1)" using * by (intro power_increasing) auto
    then have "2 ^ nat (- e) \<le> m" using nat_bits_bounds [OF *(2)] by (blast intro: le_trans)
    then show ?thesis using False by (simp add: min_def)
  qed (use * in \<open>simp add: min_def\<close>)
  then show False using * by (simp add: dbl_num_def flip: of_nat_power of_nat_mult)
qed

lemma cvt_fraction_fuel:
  "\<lbrakk>m \<noteq> 0; - 1074 \<le> e; int (nat_bits m) + e \<le> 0; 1 \<le> int (nat_bits m) + e + int fuel\<rbrakk> \<Longrightarrow>
   avoids OutOfFuel (cvt_fraction fuel eflag ndigits (DFin False m e) r2)"
proof (induction fuel arbitrary: m e r2)
  case (Suc fuel)
  have ten: "nat_bits (m * 10) \<le> nat_bits m + 4" "nat_bits m + 1 \<le> nat_bits (m * 10)"
  proof -
    have "m * 10 < 2 ^ nat_bits m * 2 ^ 4" using nat_bits_bounds [of m] Suc.prems by simp
    then show "nat_bits (m * 10) \<le> nat_bits m + 4" by (intro nat_bits_le) (simp add: power_add)
    have "2 ^ (nat_bits m - 1) * 2 \<le> m * 10" using nat_bits_bounds [of m] Suc.prems by simp
    moreover have "(2 :: nat) ^ (nat_bits m - 1) * 2 = 2 ^ nat_bits m"
      using Suc.prems nat_bits_eq_0 [of m] by (cases "nat_bits m") auto
    ultimately show "nat_bits m + 1 \<le> nat_bits (m * 10)" using nat_bits_gt [of "nat_bits m" "m * 10"] by simp
  qed
  obtain m' e' where r: "dbl_round False (m * 10) e = DFin False m' e'" "m' \<noteq> 0" "e \<le> e'"
    "int (nat_bits (m * 10)) + e \<le> int (nat_bits m') + e'"
    using dbl_round_lower [of "m * 10" e False] ten Suc.prems by auto
  then have f: "dbl_mul (DFin False m e) dbl_ten = DFin False m' e'" by simp
  show ?case
  proof (cases "dbl_less (DFin False m' e') dbl_one")
    case True
    then have "int (nat_bits m') + e' \<le> 0" using r by (intro dbl_less_one) auto
    then have "avoids OutOfFuel (cvt_fraction fuel eflag ndigits (DFin False m' e') (r2 - 1))"
      using Suc.prems r ten by (intro Suc.IH) auto
    then show ?thesis using f by (simp add: Let_def del: dbl_mul.simps dbl_less.simps)
  next
    case False
    then show ?thesis using f by (simp add: Let_def del: dbl_mul.simps dbl_less.simps)
  qed
qed auto

lemma cvt_rest_fuel [simp]:
  "avoids OutOfFuel (copy_down p q buf)"
  "avoids OutOfFuel (cvt_digits p q arg fj buf)"
  "avoids OutOfFuel (cvt_carry ef n p d buf)"
proof -
  show "avoids OutOfFuel (copy_down p q buf)"
    by (induction p q buf rule: copy_down.induct) (subst copy_down.simps, auto intro!: avoids_bind)
  show "avoids OutOfFuel (cvt_digits p q arg fj buf)"
    by (induction p q arg fj buf rule: cvt_digits.induct)
      (subst cvt_digits.simps, auto intro!: avoids_bind split: prod.split)
  show "avoids OutOfFuel (cvt_carry ef n p d buf)"
    by (induction n arbitrary: p d buf) (auto intro!: avoids_bind)
qed

lemma cvt_tail_fuel [simp]: "avoids OutOfFuel (cvt_tail ef nd arg p r2 buf)"
  by (auto intro!: avoids_bind simp: cvt_tail_def cvt_round_def Let_def split: prod.split)

text \<open>
  C40. \<open>pcc_cvt\<close> terminates on every finite double, for any number of digits and either
  format: the fuel of its two scaling loops is never used up.
\<close>

theorem pcc_cvt_terminates:
  assumes "dbl_ok (DFin s m e)"
  shows "pcc_cvt (DFin s m e) ndigits eflag buf \<noteq> Inl OutOfFuel"
proof -
  have ok: "- 1074 \<le> e" "int (nat_bits m) + e \<le> 1024" using assms by (auto simp: dbl_ok_def)
  define sgn where "sgn = dbl_less (DFin s m e) dbl_zero"
  have a: "(if sgn then dbl_neg (DFin s m e) else DFin s m e) = DFin (s \<noteq> sgn) m e" by (simp add: dbl_neg_def)
  have neg: "m = 0 \<or> \<not> (s \<noteq> sgn)" by (auto simp: sgn_def dbl_num_def zero_less_mult_iff mult_less_0_iff)
  define k where "k = nat (- e)"
  have int_part: "avoids OutOfFuel (cvt_integer cvt_fuel nd (DFin (s \<noteq> sgn) (nat_trunc m (min e 0)) (max e 0)) p1 r2 buf)"
    for nd p1 r2
  proof (rule cvt_integer_fuel)
    have "nat_bits (nat_trunc m (min e 0)) = (if 0 \<le> e then nat_bits m else nat_bits m - nat (- e))"
      by (simp add: nat_trunc_def nat_bits_div)
    then show "nat_trunc m (min e 0) = 0 \<or> int (nat_bits (nat_trunc m (min e 0))) + max e 0 < int cvt_fuel"
      "int (nat_bits (nat_trunc m (min e 0))) + max e 0 \<le> 1024"
      using ok by (auto simp: cvt_fuel_def)
  qed (auto simp: cvt_fuel_def)
  have frac: "avoids OutOfFuel (cvt_fraction cvt_fuel eflag nd (DFin (s \<noteq> sgn) (m mod 2 ^ nat (- e)) e) 0)"
    if "e < 0" "m mod 2 ^ nat (- e) \<noteq> 0" for nd
  proof -
    let ?f = "m mod 2 ^ nat (- e)"
    have "nat_bits ?f \<le> nat (- e)" by (intro nat_bits_le) simp
    moreover have "s = sgn" using neg that by auto
    moreover have "1 \<le> nat_bits ?f" using that(2) nat_bits_eq_0 [of ?f] by linarith
    ultimately show ?thesis using that ok by (simp add: cvt_fraction_fuel cvt_fuel_def)
  qed
  show ?thesis
    unfolding avoids_def [symmetric] pcc_cvt_def Let_def sgn_def [symmetric] a
    using int_part frac
    by (cases "0 \<le> e") (auto intro!: avoids_bind simp: nat_trunc_def dbl_num_def Let_def simp del: dbl_eq.simps)
qed

theorem pcc_cvt_terminates_witness: "pcc_cvt (DFin True 9007199254740991 971) 6 False (replicate 80 NUL) \<noteq> Inl OutOfFuel"
  by (rule pcc_cvt_terminates) (simp add: dbl_ok_def nat_bits.simps)

end
