(* ===== verification/Snprintf.thy ===== *)
theory Snprintf
  imports FloatConv
begin

text \<open>
  \<open>pcc_vformatter\<close> of \<open>runtime/pcc_snprintf.c\<close> and the two functions on top of it.  A
  format string is read from left to right; each directive is parsed into flags, width,
  precision and length modifier, its argument is converted to a string in \<open>num_buf\<close> or
  elsewhere, and the string is written to the output with its padding.

  The variables that survive a directive are the state: the text written, the count \<open>cc\<close>,
  the arguments left, \<open>i_num\<close>, and \<open>s_len\<close>, which the directive \<open>%n\<close> reads without having
  set it.  Signed arithmetic that overflows is a fault, and so is every access outside
  \<open>num_buf\<close>.
\<close>

section \<open>State\<close>

text \<open>
  A variable argument.  A pointer comes with the bytes of the object it points to; address 0
  is the null pointer.
\<close>

datatype varg = AInt u32 | ALong u64 | ADouble dbl | APtr u64 "char list"

record vf =
  vf_out :: cstr
  vf_cc :: int
  vf_args :: "varg list"
  vf_i_num :: u64
  vf_s_len :: "int option"
  vf_stores :: "(u64 \<times> nat \<times> int) list"

text \<open>Why the formatter stopped: a fault, or the early return of \<open>-1\<close> when the buffer is full.\<close>

datatype stop = Fault fault | Full vf

definition lift_fault :: "fault + 'a \<Rightarrow> stop + 'a" where
  "lift_fault m = (case m of Inl e \<Rightarrow> Inl (Fault e) | Inr x \<Rightarrow> Inr x)"

lemma lift_fault_simps [simp]:
  "lift_fault (Inl e) = Inl (Fault e)"
  "lift_fault (Inr x) = Inr x"
  by (simp_all add: lift_fault_def)

definition int32 :: "int \<Rightarrow> fault + int" where
  "int32 i = (if - (2 ^ 31) \<le> i \<and> i < 2 ^ 31 then Inr i else Inl IntOverflow)"

section \<open>Writing characters\<close>

text \<open>
  \<open>INS_CHAR\<close> with \<open>snprintf_flush\<close>, which always reports that nothing can be flushed.  The
  room is \<open>None\<close> when \<open>curpos\<close> is null: the characters are counted and not stored, and
  \<open>vf_out\<close> only records which they were.
\<close>

definition ins_char :: "nat option \<Rightarrow> char \<Rightarrow> vf \<Rightarrow> stop + vf" where
  "ins_char room c st =
     (case room of
        None \<Rightarrow> bind_res (lift_fault (int32 (vf_cc st + 1))) (\<lambda>cc.
          Inr (st\<lparr>vf_out := vf_out st @ [c], vf_cc := cc\<rparr>))
      | Some n \<Rightarrow>
          if n \<le> length (vf_out st) then Inl (Full st)
          else bind_res (lift_fault (int32 (vf_cc st + 1))) (\<lambda>cc.
            Inr (st\<lparr>vf_out := vf_out st @ [c], vf_cc := cc\<rparr>)))"

fun ins_chars :: "nat option \<Rightarrow> cstr \<Rightarrow> vf \<Rightarrow> stop + vf" where
  "ins_chars room [] st = Inr st"
| "ins_chars room (c # cs) st = bind_res (ins_char room c st) (ins_chars room cs)"

text \<open>\<open>PAD\<close>: a loop that runs at least once.\<close>

function pad_field :: "nat option \<Rightarrow> int \<Rightarrow> int \<Rightarrow> char \<Rightarrow> vf \<Rightarrow> stop + vf" where
  "pad_field room width len ch st =
     bind_res (ins_char room ch st) (\<lambda>st.
       if width - 1 > len then pad_field room (width - 1) len ch st else Inr st)"
  by pat_completeness auto
termination by (relation "measure (\<lambda>(r, w, l, c, s). nat (w - l))") auto

declare pad_field.simps [simp del]

section \<open>Reading a directive\<close>

text \<open>\<open>NUM\<close> and the loop of \<open>STR_TO_DEC\<close>.\<close>

definition NUM :: "char \<Rightarrow> int" where "NUM c = schar c - 48"

fun str_to_dec_loop :: "cstr \<Rightarrow> int \<Rightarrow> fault + (int \<times> cstr)" where
  "str_to_dec_loop [] num = Inr (num, [])"
| "str_to_dec_loop (c # fmt) num =
     (if c_isdigit c
      then bind_res (int32 (num * 10)) (\<lambda>n. bind_res (int32 (n + NUM c)) (\<lambda>n. str_to_dec_loop fmt n))
      else Inr (num, c # fmt))"

fun str_to_dec :: "cstr \<Rightarrow> fault + (int \<times> cstr)" where
  "str_to_dec [] = Inl OutOfBounds"
| "str_to_dec (c # fmt) = str_to_dec_loop fmt (NUM c)"

datatype adjust = LEFT | RIGHT

record flags =
  fl_adjust :: adjust
  fl_alt :: bool
  fl_sign :: bool
  fl_blank :: bool
  fl_pad :: char

definition default_flags :: flags where
  "default_flags = \<lparr>fl_adjust = RIGHT, fl_alt = False, fl_sign = False, fl_blank = False, fl_pad = SPACE\<rparr>"

fun parse_flags :: "cstr \<Rightarrow> flags \<Rightarrow> flags \<times> cstr" where
  "parse_flags [] fl = (fl, [])"
| "parse_flags (c # fmt) fl =
     (if c = CHR ''-'' then parse_flags fmt (fl\<lparr>fl_adjust := LEFT\<rparr>)
      else if c = CHR ''+'' then parse_flags fmt (fl\<lparr>fl_sign := True\<rparr>)
      else if c = CHR ''#'' then parse_flags fmt (fl\<lparr>fl_alt := True\<rparr>)
      else if c = CHR '' '' then parse_flags fmt (fl\<lparr>fl_blank := True\<rparr>)
      else if c = CHR ''0'' then parse_flags fmt (fl\<lparr>fl_pad := CHR ''0''\<rparr>)
      else (fl, c # fmt))"

fun va_int :: "varg list \<Rightarrow> fault + (u32 \<times> varg list)" where
  "va_int (AInt w # args) = Inr (w, args)"
| "va_int _ = Inl BadVararg"

fun va_long :: "varg list \<Rightarrow> fault + (u64 \<times> varg list)" where
  "va_long (ALong w # args) = Inr (w, args)"
| "va_long _ = Inl BadVararg"

fun va_double :: "varg list \<Rightarrow> fault + (dbl \<times> varg list)" where
  "va_double (ADouble d # args) = Inr (d, args)"
| "va_double _ = Inl BadVararg"

fun va_ptr :: "varg list \<Rightarrow> fault + (u64 \<times> char list \<times> varg list)" where
  "va_ptr (APtr a b # args) = Inr (a, b, args)"
| "va_ptr _ = Inl BadVararg"

text \<open>The width: \<open>Some\<close> when \<open>adjust_width\<close> is set.\<close>

definition parse_width :: "cstr \<Rightarrow> flags \<Rightarrow> varg list \<Rightarrow> fault + (flags \<times> int option \<times> cstr \<times> varg list)" where
  "parse_width fmt fl args =
     (if c_isdigit (at0 fmt) then bind_res (str_to_dec fmt) (\<lambda>(w, fmt). Inr (fl, Some w, fmt, args))
      else if at0 fmt = CHR ''*''
      then bind_res (va_int args) (\<lambda>(v, args).
        let w = sint v in
        if w < 0 then bind_res (int32 (- w)) (\<lambda>w. Inr (fl\<lparr>fl_adjust := LEFT\<rparr>, Some w, tl fmt, args))
        else Inr (fl, Some w, tl fmt, args))
      else Inr (fl, None, fmt, args))"

text \<open>The precision: \<open>Some\<close> when \<open>adjust_precision\<close> is set.\<close>

definition parse_precision :: "cstr \<Rightarrow> varg list \<Rightarrow> fault + (int option \<times> cstr \<times> varg list)" where
  "parse_precision fmt args =
     (if at0 fmt = CHR ''.''
      then let fmt = tl fmt in
        if c_isdigit (at0 fmt) then bind_res (str_to_dec fmt) (\<lambda>(p, fmt). Inr (Some p, fmt, args))
        else if at0 fmt = CHR ''*''
        then bind_res (va_int args) (\<lambda>(v, args). Inr (Some (if sint v < 0 then 0 else sint v), tl fmt, args))
        else Inr (Some 0, fmt, args)
      else Inr (None, fmt, args))"

datatype var_type = IS_QUAD | IS_LONG | IS_SHORT | IS_INT

definition parse_type :: "cstr \<Rightarrow> var_type \<times> cstr" where
  "parse_type fmt =
     (if at0 fmt = CHR ''q'' then (IS_QUAD, tl fmt)
      else if at0 fmt = CHR ''l'' then (IS_LONG, tl fmt)
      else if at0 fmt = CHR ''h'' then (IS_SHORT, tl fmt)
      else (IS_INT, fmt))"

record spec =
  sp_flags :: flags
  sp_width :: "int option"
  sp_prec :: "int option"
  sp_type :: var_type

definition parse_spec :: "cstr \<Rightarrow> varg list \<Rightarrow> fault + (spec \<times> cstr \<times> varg list)" where
  "parse_spec fmt args =
     bind_res
       (if \<not> c_islower (at0 fmt)
        then let (fl, fmt) = parse_flags fmt default_flags in
          bind_res (parse_width fmt fl args) (\<lambda>(fl, w, fmt, args).
          bind_res (parse_precision fmt args) (\<lambda>(p, fmt, args). Inr (fl, w, p, fmt, args)))
        else Inr (default_flags, None, None, fmt, args)) (\<lambda>(fl, w, p, fmt, args).
     let (ty, fmt) = parse_type fmt in
     Inr (\<lparr>sp_flags = fl, sp_width = w, sp_prec = p, sp_type = ty\<rparr>, fmt, args))"

section \<open>Converting an argument\<close>

text \<open>
  Where \<open>s\<close> points: into \<open>num_buf\<close> at an index, to \<open>char_buf\<close>, to the literal
  \<open>S_NULL\<close>, or elsewhere.  A string built in \<open>num_buf\<close> grows leftwards, one checked store
  at a time.
\<close>

datatype place = NumBuf nat | CharBuf | SNull | Elsewhere

definition NUM_BUF_SIZE :: nat where "NUM_BUF_SIZE = 512"
definition FLOAT_DIGITS :: int where "FLOAT_DIGITS = 6"

type_synonym numstr = "nat \<times> cstr"

definition num_end :: "cstr \<Rightarrow> fault + numstr" where
  "num_end s = (if length s \<le> NUM_BUF_SIZE then Inr (NUM_BUF_SIZE - length s, s) else Inl OutOfBounds)"

fun num_push :: "char \<Rightarrow> numstr \<Rightarrow> fault + numstr" where
  "num_push c (0, s) = Inl OutOfBounds"
| "num_push c (Suc p, s) = Inr (p, c # s)"

text \<open>\<open>FIX_PRECISION\<close>: the loop of \<open>*--s = '0'\<close> makes as many turns as digits are missing.\<close>

fun fix_loop :: "nat \<Rightarrow> numstr \<Rightarrow> fault + numstr" where
  "fix_loop 0 s = Inr s"
| "fix_loop (Suc n) s = bind_res (num_push CHR ''0'' s) (fix_loop n)"

definition fix_precision :: "int option \<Rightarrow> numstr \<Rightarrow> fault + numstr" where
  "fix_precision prec s = (case prec of None \<Rightarrow> Inr s
     | Some precision \<Rightarrow>
         let p = (if precision < int NUM_BUF_SIZE - 1 then precision else int NUM_BUF_SIZE - 1)
         in fix_loop (nat (p - int (length (snd s)))) s)"

text \<open>What a conversion leaves for the printing step.\<close>

record item =
  it_place :: place
  it_text :: cstr
  it_prefix :: char
  it_pad :: char

text \<open>The arguments of the unsigned and of the signed conversions, widened to 64 bits.\<close>

definition unsigned_arg :: "var_type \<Rightarrow> varg list \<Rightarrow> fault + (u64 \<times> varg list)" where
  "unsigned_arg ty args = (case ty of
     IS_QUAD \<Rightarrow> va_long args
   | IS_LONG \<Rightarrow> va_long args
   | IS_SHORT \<Rightarrow> bind_res (va_int args) (\<lambda>(v, args). Inr (ucast (ucast v :: u16), args))
   | IS_INT \<Rightarrow> bind_res (va_int args) (\<lambda>(v, args). Inr (ucast v, args)))"

definition signed_arg :: "var_type \<Rightarrow> varg list \<Rightarrow> fault + (u64 \<times> varg list)" where
  "signed_arg ty args = (case ty of
     IS_QUAD \<Rightarrow> va_long args
   | IS_LONG \<Rightarrow> va_long args
   | IS_SHORT \<Rightarrow> bind_res (va_int args) (\<lambda>(v, args). Inr (scast (ucast v :: u16), args))
   | IS_INT \<Rightarrow> bind_res (va_int args) (\<lambda>(v, args). Inr (scast v, args)))"

text \<open>\<open>print_sign\<close> and \<open>print_blank\<close>.\<close>

definition sign_prefix :: "bool \<Rightarrow> flags \<Rightarrow> char" where
  "sign_prefix is_negative fl =
     (if is_negative then CHR ''-'' else if fl_sign fl then CHR ''+'' else if fl_blank fl then CHR '' '' else NUL)"

text \<open>\<open>case 'u'\<close>; the value goes through \<open>i_quad\<close> for a quad and through \<open>i_num\<close> otherwise.\<close>

definition conv_u :: "spec \<Rightarrow> vf \<Rightarrow> fault + (item \<times> vf)" where
  "conv_u sp st =
     bind_res (unsigned_arg (sp_type sp) (vf_args st)) (\<lambda>(v, args).
     let (neg, digits) = (if sp_type sp = IS_QUAD then conv_10_quad v True else conv_10 v True);
         st = st\<lparr>vf_args := args, vf_i_num := if sp_type sp = IS_QUAD then vf_i_num st else v\<rparr>
     in bind_res (num_end digits) (\<lambda>s. bind_res (fix_precision (sp_prec sp) s) (\<lambda>(pos, s).
       Inr (\<lparr>it_place = NumBuf pos, it_text = s, it_prefix = NUL, it_pad = fl_pad (sp_flags sp)\<rparr>, st))))"

text \<open>\<open>case 'd'\<close>, \<open>case 'i'\<close>\<close>

definition conv_d :: "spec \<Rightarrow> vf \<Rightarrow> fault + (item \<times> vf)" where
  "conv_d sp st =
     bind_res (signed_arg (sp_type sp) (vf_args st)) (\<lambda>(v, args).
     let (neg, digits) = (if sp_type sp = IS_QUAD then conv_10_quad v False else conv_10 v False);
         st = st\<lparr>vf_args := args, vf_i_num := if sp_type sp = IS_QUAD then vf_i_num st else v\<rparr>
     in bind_res (num_end digits) (\<lambda>s. bind_res (fix_precision (sp_prec sp) s) (\<lambda>(pos, s).
       Inr (\<lparr>it_place = NumBuf pos, it_text = s, it_prefix = sign_prefix neg (sp_flags sp),
             it_pad = fl_pad (sp_flags sp)\<rparr>, st))))"

text \<open>\<open>case 'o'\<close>; the argument goes through \<open>ui_num\<close>, \<open>i_num\<close> keeps its value.\<close>

definition conv_o :: "spec \<Rightarrow> vf \<Rightarrow> fault + (item \<times> vf)" where
  "conv_o sp st =
     bind_res (unsigned_arg (sp_type sp) (vf_args st)) (\<lambda>(v, args).
     let digits = (if sp_type sp = IS_QUAD then conv_p2_quad v 3 CHR ''o'' else conv_p2 v 3 CHR ''o'')
     in bind_res (num_end digits) (\<lambda>s. bind_res (fix_precision (sp_prec sp) s) (\<lambda>s.
       bind_res (if fl_alt (sp_flags sp) \<and> hd (snd s) \<noteq> CHR ''0'' then num_push CHR ''0'' s else Inr s) (\<lambda>(pos, s).
       Inr (\<lparr>it_place = NumBuf pos, it_text = s, it_prefix = NUL, it_pad = fl_pad (sp_flags sp)\<rparr>,
            st\<lparr>vf_args := args\<rparr>)))))"

text \<open>\<open>case 'x'\<close>, \<open>case 'X'\<close>; the prefix depends on \<open>i_num\<close>, which an earlier directive set.\<close>

definition conv_x :: "char \<Rightarrow> spec \<Rightarrow> vf \<Rightarrow> fault + (item \<times> vf)" where
  "conv_x letter sp st =
     bind_res (unsigned_arg (sp_type sp) (vf_args st)) (\<lambda>(v, args).
     let digits = (if sp_type sp = IS_QUAD then conv_p2_quad v 4 letter else conv_p2 v 4 letter)
     in bind_res (num_end digits) (\<lambda>s. bind_res (fix_precision (sp_prec sp) s) (\<lambda>s.
       bind_res
         (if fl_alt (sp_flags sp) \<and> vf_i_num st \<noteq> 0
          then bind_res (num_push letter s) (num_push CHR ''0'') else Inr s) (\<lambda>(pos, s).
       Inr (\<lparr>it_place = NumBuf pos, it_text = s, it_prefix = NUL, it_pad = fl_pad (sp_flags sp)\<rparr>,
            st\<lparr>vf_args := args\<rparr>)))))"

text \<open>\<open>case 's'\<close>: \<open>strlen\<close>, or a scan that stops at the precision.\<close>

fun scan_nul :: "char list \<Rightarrow> fault + cstr" where
  "scan_nul [] = Inl OutOfBounds"
| "scan_nul (c # cs) = (if c = NUL then Inr [] else bind_res (scan_nul cs) (\<lambda>s. Inr (c # s)))"

fun scan_prec :: "nat \<Rightarrow> char list \<Rightarrow> fault + cstr" where
  "scan_prec 0 cs = Inr []"
| "scan_prec (Suc n) cs = (case cs of [] \<Rightarrow> Inl OutOfBounds
     | c # cs \<Rightarrow> if c = NUL then Inr [] else bind_res (scan_prec n cs) (\<lambda>s. Inr (c # s)))"

definition conv_s :: "spec \<Rightarrow> vf \<Rightarrow> fault + (item \<times> vf)" where
  "conv_s sp st =
     bind_res (va_ptr (vf_args st)) (\<lambda>(a, bytes, args).
     bind_res
       (if a \<noteq> 0
        then bind_res (case sp_prec sp of None \<Rightarrow> scan_nul bytes | Some p \<Rightarrow> scan_prec (nat p) bytes)
          (\<lambda>s. Inr (Elsewhere, s))
        else Inr (SNull, ''(null)'')) (\<lambda>(pl, s).
     Inr (\<lparr>it_place = pl, it_text = s, it_prefix = NUL, it_pad = SPACE\<rparr>, st\<lparr>vf_args := args\<rparr>)))"

text \<open>
  \<open>case 'f'\<close>, \<open>case 'e'\<close>, \<open>case 'E'\<close>; \<open>buf1\<close> is the indeterminate content of the digit
  buffer of \<open>conv_fp\<close>.
\<close>

fun dbl_isnan :: "dbl \<Rightarrow> bool" where
  "dbl_isnan DNaN = True"
| "dbl_isnan _ = False"

fun dbl_isinf :: "dbl \<Rightarrow> bool" where
  "dbl_isinf (DInf s) = True"
| "dbl_isinf _ = False"

definition conv_fe :: "char list \<Rightarrow> char \<Rightarrow> spec \<Rightarrow> vf \<Rightarrow> fault + (item \<times> vf)" where
  "conv_fe buf1 letter sp st =
     bind_res (va_double (vf_args st)) (\<lambda>(d, args).
     let st = st\<lparr>vf_args := args\<rparr>;
         it = \<lparr>it_place = Elsewhere, it_text = [], it_prefix = NUL, it_pad = fl_pad (sp_flags sp)\<rparr>
     in if dbl_isnan d then Inr (it\<lparr>it_text := ''nan''\<rparr>, st)
        else if dbl_isinf d then Inr (it\<lparr>it_text := ''inf''\<rparr>, st)
        else bind_res (conv_fp letter d (fl_alt (sp_flags sp))
            (case sp_prec sp of None \<Rightarrow> FLOAT_DIGITS | Some p \<Rightarrow> p) (NUM_BUF_SIZE - 1) buf1) (\<lambda>(neg, s).
          Inr (it\<lparr>it_place := NumBuf 1, it_text := s, it_prefix := sign_prefix neg (sp_flags sp)\<rparr>, st)))"

text \<open>\<open>case 'g'\<close>, \<open>case 'G'\<close>\<close>

definition conv_g :: "char list \<Rightarrow> char \<Rightarrow> spec \<Rightarrow> vf \<Rightarrow> fault + (item \<times> vf)" where
  "conv_g buf1 letter sp st =
     bind_res (va_double (vf_args st)) (\<lambda>(d, args).
     let st = st\<lparr>vf_args := args\<rparr>; fl = sp_flags sp;
         it = \<lparr>it_place = Elsewhere, it_text = [], it_prefix = NUL, it_pad = fl_pad fl\<rparr>
     in if dbl_isnan d then Inr (it\<lparr>it_text := ''NAN''\<rparr>, st)
        else if dbl_isinf d
        then Inr (it\<lparr>it_text := if dbl_less dbl_zero d then ''INF'' else ''-INF''\<rparr>, st)
        else bind_res (pcc_gcvt d
            (case sp_prec sp of None \<Rightarrow> FLOAT_DIGITS | Some p \<Rightarrow> if p = 0 then 1 else p)
            (NUM_BUF_SIZE - 1) (fl_alt fl) buf1) (\<lambda>s.
          let neg = (at0 s = CHR ''-'');
              pos = (if neg then 2 else 1);
              s = upto_nul (if neg then tl s else s)
          in bind_res
            (if fl_alt fl \<and> CHR ''.'' \<notin> set s
             then if pos + length s + 1 < NUM_BUF_SIZE then Inr (s @ ''.'') else Inl OutOfBounds
             else Inr s) (\<lambda>s.
          let s = (if letter = CHR ''G'' \<and> CHR ''e'' \<in> set s
            then takeWhile (\<lambda>c. c \<noteq> CHR ''e'') s @ CHR ''E'' # tl (dropWhile (\<lambda>c. c \<noteq> CHR ''e'') s) else s)
          in Inr (it\<lparr>it_place := NumBuf pos, it_text := s, it_prefix := sign_prefix neg fl\<rparr>, st))))"

text \<open>\<open>case 'c'\<close>, and the two uses of \<open>char_buf\<close> for \<open>%%\<close> and for an unknown letter.\<close>

definition char_item :: "cstr \<Rightarrow> item" where
  "char_item s = \<lparr>it_place = CharBuf, it_text = s, it_prefix = NUL, it_pad = SPACE\<rparr>"

definition conv_c :: "vf \<Rightarrow> fault + (item \<times> vf)" where
  "conv_c st =
     bind_res (va_int (vf_args st)) (\<lambda>(v, args).
     Inr (char_item [char_of (unat v mod 256)], st\<lparr>vf_args := args\<rparr>))"

text \<open>\<open>case 'n'\<close>: the count is stored through a pointer, in the width of its type.\<close>

definition conv_n :: "spec \<Rightarrow> vf \<Rightarrow> fault + vf" where
  "conv_n sp st =
     bind_res (va_ptr (vf_args st)) (\<lambda>(a, bytes, args).
     if a = 0 then Inl NullDeref
     else let (w, v) = (case sp_type sp of
              IS_QUAD \<Rightarrow> (64, vf_cc st) | IS_LONG \<Rightarrow> (64, vf_cc st)
            | IS_SHORT \<Rightarrow> (16, sint (word_of_int (vf_cc st) :: u16)) | IS_INT \<Rightarrow> (32, vf_cc st))
          in Inr (st\<lparr>vf_args := args, vf_stores := vf_stores st @ [(a, w, v)]\<rparr>))"

text \<open>\<open>case 'p'\<close>: the second letter is at \<open>fmt\<close>; \<open>void *\<close> is as wide as \<open>u_wide_int\<close>.\<close>

definition conv_ptr :: "char \<Rightarrow> spec \<Rightarrow> vf \<Rightarrow> fault + (item \<times> vf)" where
  "conv_ptr letter sp st =
     bind_res (va_ptr (vf_args st)) (\<lambda>(a, bytes, args).
     if letter = CHR ''p''
     then bind_res (num_end (conv_p2 a 4 CHR ''x'')) (\<lambda>(pos, s).
       Inr (\<lparr>it_place = NumBuf pos, it_text = s, it_prefix = NUL, it_pad = SPACE\<rparr>, st\<lparr>vf_args := args\<rparr>))
     else Inr (\<lparr>it_place = Elsewhere, it_text = ''bogus %p'', it_prefix = NUL, it_pad = fl_pad (sp_flags sp)\<rparr>,
       st\<lparr>vf_args := args\<rparr>))"

section \<open>Printing a field\<close>

text \<open>\<open>*--s = prefix_char\<close>\<close>

definition put_prefix :: "item \<Rightarrow> fault + item" where
  "put_prefix it =
     (if it_prefix it \<noteq> NUL \<and> it_place it \<noteq> SNull \<and> it_place it \<noteq> CharBuf
      then case it_place it of
        NumBuf (Suc p) \<Rightarrow> Inr (it\<lparr>it_place := NumBuf p, it_text := it_prefix it # it_text it\<rparr>)
      | _ \<Rightarrow> Inl OutOfBounds
      else Inr it)"

text \<open>The padding on the left; the sign goes before padding zeros.\<close>

definition pad_left :: "nat option \<Rightarrow> int \<Rightarrow> item \<Rightarrow> vf \<Rightarrow> stop + (cstr \<times> vf)" where
  "pad_left room w it st =
     (let s = it_text it in
      bind_res
        (if it_pad it = CHR ''0'' \<and> it_prefix it \<noteq> NUL
         then bind_res (ins_char room (hd s) st) (\<lambda>st. Inr (tl s, w - 1, st)) else Inr (s, w, st)) (\<lambda>(s, w, st).
      bind_res (pad_field room w (int (length s)) (it_pad it) st) (\<lambda>st. Inr (s, st))))"

text \<open>The string and its padding; \<open>s_len\<close> keeps its last value.\<close>

definition print_item :: "nat option \<Rightarrow> spec \<Rightarrow> item \<Rightarrow> vf \<Rightarrow> stop + vf" where
  "print_item room sp it st =
     bind_res (lift_fault (put_prefix it)) (\<lambda>it.
     let len = int (length (it_text it)) in
     bind_res
       (case sp_width sp of
          Some w \<Rightarrow> if fl_adjust (sp_flags sp) = RIGHT \<and> w > len then pad_left room w it st else Inr (it_text it, st)
        | None \<Rightarrow> Inr (it_text it, st)) (\<lambda>(s, st).
     bind_res (ins_chars room s (st\<lparr>vf_s_len := Some (int (length s))\<rparr>)) (\<lambda>st.
     case sp_width sp of
       Some w \<Rightarrow> if fl_adjust (sp_flags sp) = LEFT \<and> w > len then pad_field room w len (it_pad it) st else Inr st
     | None \<Rightarrow> Inr st)))"

text \<open>\<open>%n\<close> prints nothing, but is padded against the length of the previous string.\<close>

definition print_nothing :: "nat option \<Rightarrow> spec \<Rightarrow> vf \<Rightarrow> stop + vf" where
  "print_nothing room sp st =
     (case sp_width sp of None \<Rightarrow> Inr st
      | Some w \<Rightarrow> (case vf_s_len st of
          None \<Rightarrow> Inl (Fault Uninitialised)
        | Some n \<Rightarrow> if w > n then pad_field room w n (fl_pad (sp_flags sp)) st else Inr st))"

section \<open>The format loop\<close>

text \<open>
  What follows the \<open>%\<close>: the rest of the format and the new state.  \<open>buf1\<close> is the digit
  buffer on the stack of the floating point conversions.
\<close>

definition directive_body :: "char list \<Rightarrow> nat option \<Rightarrow> spec \<Rightarrow> cstr \<Rightarrow> vf \<Rightarrow> stop + (cstr \<times> vf)" where
  "directive_body buf1 room sp fmt st =
     (let letter = at0 fmt;
          item = (\<lambda>rest m. bind_res (lift_fault m) (\<lambda>(it, st).
                    bind_res (print_item room sp it st) (\<lambda>st. Inr (rest, st))))
      in if letter = NUL then Inr (fmt, st)
         else if letter = CHR ''u'' then item (tl fmt) (conv_u sp st)
         else if letter = CHR ''d'' \<or> letter = CHR ''i'' then item (tl fmt) (conv_d sp st)
         else if letter = CHR ''o'' then item (tl fmt) (conv_o sp st)
         else if letter = CHR ''x'' \<or> letter = CHR ''X'' then item (tl fmt) (conv_x letter sp st)
         else if letter = CHR ''s'' then item (tl fmt) (conv_s sp st)
         else if letter = CHR ''f'' \<or> letter = CHR ''e'' \<or> letter = CHR ''E''
         then item (tl fmt) (conv_fe buf1 letter sp st)
         else if letter = CHR ''g'' \<or> letter = CHR ''G'' then item (tl fmt) (conv_g buf1 letter sp st)
         else if letter = CHR ''c'' then item (tl fmt) (conv_c st)
         else if letter = CHR ''%'' then item (tl fmt) (Inr (char_item ''%'', st))
         else if letter = CHR ''n''
         then bind_res (lift_fault (conv_n sp st)) (\<lambda>st.
              bind_res (print_nothing room sp st) (\<lambda>st. Inr (tl fmt, st)))
         else if letter = CHR ''p''
         then (if at0 (tl fmt) = NUL then Inr (tl fmt, st)
               else item (tl (tl fmt)) (conv_ptr (at0 (tl fmt)) sp st))
         else item (tl fmt) (Inr (char_item [CHR ''%'', letter], st)))"

definition directive :: "char list \<Rightarrow> nat option \<Rightarrow> cstr \<Rightarrow> vf \<Rightarrow> stop + (cstr \<times> vf)" where
  "directive buf1 room fmt st =
     bind_res (lift_fault (parse_spec fmt (vf_args st))) (\<lambda>(sp, fmt, args).
     directive_body buf1 room sp fmt (st\<lparr>vf_args := args\<rparr>))"

text \<open>A directive consumes its part of the format, so that the loop ends.\<close>

lemma lift_fault_eq_Inr [simp]: "lift_fault m = Inr x \<longleftrightarrow> m = Inr x"
  by (cases m) auto

lemma str_to_dec_loop_shorter: "str_to_dec_loop fmt num = Inr (n, f) \<Longrightarrow> length f \<le> length fmt"
  by (induction fmt num rule: str_to_dec_loop.induct) (fastforce simp: bind_res_eq_Inr int32_def split: if_splits)+

lemma str_to_dec_shorter: "str_to_dec fmt = Inr (n, f) \<Longrightarrow> length f \<le> length fmt"
  by (cases fmt) (auto dest: str_to_dec_loop_shorter)

lemma parse_flags_shorter: "parse_flags fmt fl = (fl', f) \<Longrightarrow> length f \<le> length fmt"
  by (induction fmt fl rule: parse_flags.induct) (auto split: if_splits)

lemma parse_width_shorter: "parse_width fmt fl args = Inr (fl', w, f, a) \<Longrightarrow> length f \<le> length fmt"
  by (auto simp: parse_width_def bind_res_eq_Inr Let_def dest: str_to_dec_shorter split: if_splits)

lemma parse_precision_shorter: "parse_precision fmt args = Inr (p, f, a) \<Longrightarrow> length f \<le> length fmt"
  by (fastforce simp: parse_precision_def bind_res_eq_Inr Let_def dest: str_to_dec_shorter split: if_splits)

lemma parse_type_shorter: "length (snd (parse_type fmt)) \<le> length fmt"
  by (auto simp: parse_type_def split: if_splits)

lemma parse_spec_shorter:
  assumes "parse_spec fmt args = Inr (sp, f, a)"
  shows "length f \<le> length fmt"
proof (cases "c_islower (at0 fmt)")
  case True
  with assms show ?thesis using parse_type_shorter [of fmt] by (auto simp: parse_spec_def split_beta)
next
  case False
  obtain fl f1 where 1: "parse_flags fmt default_flags = (fl, f1)" by force
  with assms False obtain fl' w f2 a2 p f3 a3 where
    "parse_width f1 fl args = Inr (fl', w, f2, a2)" "parse_precision f2 a2 = Inr (p, f3, a3)" "snd (parse_type f3) = f"
    by (auto simp: parse_spec_def bind_res_eq_Inr split_beta)
  with parse_flags_shorter [OF 1] show ?thesis
    using parse_type_shorter [of f3] by (meson parse_width_shorter parse_precision_shorter le_trans)
qed

lemma directive_shorter:
  assumes "directive buf1 room fmt st = Inr (f, st')"
  shows "length f \<le> length fmt"
proof -
  from assms obtain sp f1 a where p: "parse_spec fmt (vf_args st) = Inr (sp, f1, a)"
    and "f = f1 \<or> f = tl f1 \<or> f = tl (tl f1)"
    by (simp add: directive_def directive_body_def bind_res_eq_Inr Let_def split: if_splits prod.splits) blast+
  with parse_spec_shorter [OF p] show ?thesis by auto
qed

function vformat_loop :: "char list \<Rightarrow> nat option \<Rightarrow> cstr \<Rightarrow> vf \<Rightarrow> stop + vf" where
  "vformat_loop buf1 room fmt st =
     (case fmt of
        [] \<Rightarrow> Inr st
      | c # fmt \<Rightarrow>
          if c \<noteq> CHR ''%'' then bind_res (ins_char room c st) (vformat_loop buf1 room fmt)
          else bind_res (directive buf1 room fmt st) (\<lambda>(fmt, st). vformat_loop buf1 room fmt st))"
  by pat_completeness auto
termination
  by (relation "measure (\<lambda>(b, r, f, s). length f)") (auto dest: directive_shorter)

declare vformat_loop.simps [simp del]

text \<open>The state on entry, and the two outcomes of the whole call.\<close>

definition vf_init :: "varg list \<Rightarrow> vf" where
  "vf_init args = \<lparr>vf_out = [], vf_cc = 0, vf_args = args, vf_i_num = 0, vf_s_len = None, vf_stores = []\<rparr>"

definition pcc_vformatter :: "char list \<Rightarrow> nat option \<Rightarrow> cstr \<Rightarrow> varg list \<Rightarrow> fault + (cstr \<times> int \<times> (u64 \<times> nat \<times> int) list)" where
  "pcc_vformatter buf1 room fmt args =
     (case vformat_loop buf1 room fmt (vf_init args) of
        Inl (Fault e) \<Rightarrow> Inl e
      | Inl (Full st) \<Rightarrow> Inr (vf_out st, - 1, vf_stores st)
      | Inr st \<Rightarrow> Inr (vf_out st, vf_cc st, vf_stores st))"

text \<open>
  \<open>pcc_vsnprintf\<close>, and \<open>pcc_snprintf\<close>, which builds the \<open>va_list\<close>: the bytes written to
  the buffer, the return value and the stores of \<open>%n\<close>.  \<open>(int) len\<close> keeps the low 32 bits.
\<close>

definition pcc_vsnprintf :: "char list \<Rightarrow> u64 \<Rightarrow> cstr \<Rightarrow> varg list \<Rightarrow> fault + (cstr \<times> int \<times> (u64 \<times> nat \<times> int) list)" where
  "pcc_vsnprintf buf1 len fmt args =
     bind_res (pcc_vformatter buf1 (if len = 0 then None else Some (unat (len - 1))) fmt args) (\<lambda>(out, cc, w).
     Inr (if len \<noteq> 0 then out @ [NUL] else [], if cc = - 1 then sint (ucast len :: u32) else cc, w))"

definition pcc_snprintf :: "char list \<Rightarrow> u64 \<Rightarrow> cstr \<Rightarrow> varg list \<Rightarrow> fault + (cstr \<times> int \<times> (u64 \<times> nat \<times> int) list)" where
  "pcc_snprintf buf1 len format args = pcc_vsnprintf buf1 len format args"

section \<open>A short buffer truncates\<close>

text \<open>
  A computation with room for \<open>k\<close> characters against the same one that only counts: it goes
  the same way as long as the output fits, and is stopped with the first \<open>k\<close> characters
  written otherwise.  \<open>proj\<close> selects the state in the result.
\<close>

definition trunc_ok :: "nat \<Rightarrow> ('a \<Rightarrow> vf) \<Rightarrow> vf \<Rightarrow> stop + 'a \<Rightarrow> stop + 'a \<Rightarrow> bool" where
  "trunc_ok k proj st mk m \<longleftrightarrow> (\<forall>s. m \<noteq> Inl (Full s)) \<and>
     (\<forall>x. m = Inr x \<longrightarrow>
        (\<exists>cs. vf_out (proj x) = vf_out st @ cs \<and> vf_cc (proj x) = vf_cc st + int (length cs)) \<and>
        (length (vf_out st) \<le> k \<longrightarrow>
          (if length (vf_out (proj x)) \<le> k then mk = Inr x
           else \<exists>s. mk = Inl (Full s) \<and> vf_out s = take k (vf_out (proj x)))))"

lemma trunc_ok_Fault [simp]: "trunc_ok k proj st mk (Inl (Fault e))"
  by (simp add: trunc_ok_def)

lemma trunc_ok_Inr [simp]:
  "vf_out (proj x) = vf_out st \<Longrightarrow> vf_cc (proj x) = vf_cc st \<Longrightarrow> trunc_ok k proj st (Inr x) (Inr x)"
  by (simp add: trunc_ok_def)

lemma trunc_ok_bind:
  assumes 1: "trunc_ok k proj st mk m" and 2: "\<And>x. m = Inr x \<Longrightarrow> trunc_ok k proj' (proj x) (fk x) (f x)"
  shows "trunc_ok k proj' st (bind_res mk fk) (bind_res m f)"
  unfolding trunc_ok_def
proof (intro conjI allI impI)
  show "bind_res m f \<noteq> Inl (Full s)" for s
    using 1 2 by (cases m) (auto simp: trunc_ok_def)
next
  fix y assume "bind_res m f = Inr y"
  then obtain x where x: "m = Inr x" "f x = Inr y" by (auto simp: bind_res_eq_Inr)
  note a = 1 [unfolded trunc_ok_def, THEN conjunct2, rule_format, OF x(1)]
  note b = 2 [OF x(1), unfolded trunc_ok_def, THEN conjunct2, rule_format, OF x(2)]
  from a b obtain cs ds where out: "vf_out (proj x) = vf_out st @ cs" "vf_out (proj' y) = vf_out st @ cs @ ds"
    "vf_cc (proj' y) = vf_cc st + int (length (cs @ ds))" by auto
  have "if length (vf_out (proj' y)) \<le> k then bind_res mk fk = Inr y
      else \<exists>s. bind_res mk fk = Inl (Full s) \<and> vf_out s = take k (vf_out (proj' y))"
    if len: "length (vf_out st) \<le> k"
  proof (cases "length (vf_out (proj x)) \<le> k")
    case True
    then have "mk = Inr x" using a len by simp
    then show ?thesis using b True by simp
  next
    case False
    then obtain s where s: "mk = Inl (Full s)" "vf_out s = take k (vf_out (proj x))" using a len by auto
    have "take k (vf_out (proj' y)) = take k (vf_out (proj x))" using out False by simp
    then show ?thesis using s out False by simp
  qed
  note run = this
  show "\<exists>cs. vf_out (proj' y) = vf_out st @ cs \<and> vf_cc (proj' y) = vf_cc st + int (length cs)"
    using out by blast
  show "if length (vf_out (proj' y)) \<le> k then bind_res mk fk = Inr y
      else \<exists>s. bind_res mk fk = Inl (Full s) \<and> vf_out s = take k (vf_out (proj' y))"
    if "length (vf_out st) \<le> k" using run that .
qed

text \<open>A step that does not print, then one that may.\<close>

lemma trunc_ok_bind_pure:
  assumes "\<And>x. m = Inr x \<Longrightarrow> trunc_ok k proj' st (fk x) (f x)"
  shows "trunc_ok k proj' st (bind_res (lift_fault m) fk) (bind_res (lift_fault m) f)"
  using assms by (cases m) auto

lemma trunc_ok_state:
  "vf_out st = vf_out st' \<Longrightarrow> vf_cc st = vf_cc st' \<Longrightarrow> trunc_ok k proj st mk m = trunc_ok k proj st' mk m"
  by (simp add: trunc_ok_def)

lemma trunc_ok_ins_char: "trunc_ok k (\<lambda>s. s) st (ins_char (Some k) c st) (ins_char None c st)"
  by (auto simp: trunc_ok_def ins_char_def int32_def bind_res_eq_Inr)

lemma trunc_ok_ins_chars: "trunc_ok k (\<lambda>s. s) st (ins_chars (Some k) cs st) (ins_chars None cs st)"
proof (induction cs arbitrary: st)
  case (Cons c cs)
  show ?case unfolding ins_chars.simps by (rule trunc_ok_bind [OF trunc_ok_ins_char]) (simp add: Cons)
qed simp

lemma trunc_ok_pad: "trunc_ok k (\<lambda>s. s) st (pad_field (Some k) w n c st) (pad_field None w n c st)"
proof (induction "nat (w - n)" arbitrary: w st rule: less_induct)
  case less
  show ?case unfolding pad_field.simps [of _ w]
    by (rule trunc_ok_bind [OF trunc_ok_ins_char]) (auto intro: less)
qed

lemma trunc_ok_return:
  "trunc_ok k (\<lambda>s. s) st mk m \<Longrightarrow> (\<And>x. proj (g x) = x) \<Longrightarrow>
   trunc_ok k proj st (bind_res mk (\<lambda>st. Inr (g st))) (bind_res m (\<lambda>st. Inr (g st)))"
  by (erule trunc_ok_bind) simp

lemma trunc_ok_print_nothing: "trunc_ok k (\<lambda>s. s) st (print_nothing (Some k) sp st) (print_nothing None sp st)"
  by (auto simp: print_nothing_def trunc_ok_pad split: option.split)

lemma trunc_ok_pad_left: "trunc_ok k snd st (pad_left (Some k) w it st) (pad_left None w it st)"
  unfolding pad_left_def Let_def
proof (rule trunc_ok_bind [where proj = "\<lambda>(s, w, st). st"])
  show "trunc_ok k (\<lambda>(s, w, st). st) st
     (if it_pad it = CHR ''0'' \<and> it_prefix it \<noteq> NUL
      then bind_res (ins_char (Some k) (hd (it_text it)) st) (\<lambda>st. Inr (tl (it_text it), w - 1, st)) else Inr (it_text it, w, st))
     (if it_pad it = CHR ''0'' \<and> it_prefix it \<noteq> NUL
      then bind_res (ins_char None (hd (it_text it)) st) (\<lambda>st. Inr (tl (it_text it), w - 1, st)) else Inr (it_text it, w, st))"
    by (simp add: trunc_ok_return [OF trunc_ok_ins_char])
qed (auto intro!: trunc_ok_return trunc_ok_pad)

lemma trunc_ok_print_item: "trunc_ok k (\<lambda>s. s) st (print_item (Some k) sp it st) (print_item None sp it st)"
  unfolding print_item_def Let_def
proof (rule trunc_ok_bind_pure, rule trunc_ok_bind [where proj = snd], goal_cases)
  case (1 it)
  show ?case by (auto simp: trunc_ok_pad_left split: option.split)
next
  case (2 it x)
  obtain s st' where x: "x = (s, st')" by force
  have "trunc_ok k (\<lambda>s. s) st' (ins_chars (Some k) s (st'\<lparr>vf_s_len := n\<rparr>)) (ins_chars None s (st'\<lparr>vf_s_len := n\<rparr>))" for n
    by (subst trunc_ok_state [of _ "st'\<lparr>vf_s_len := n\<rparr>"]) (simp_all add: trunc_ok_ins_chars)
  then show ?case unfolding x by (auto intro!: trunc_ok_bind simp: trunc_ok_pad split: option.split)
qed

text \<open>No conversion writes to the output.\<close>

definition silent :: "vf \<Rightarrow> fault + (item \<times> vf) \<Rightarrow> bool" where
  "silent st m \<longleftrightarrow> (\<forall>it st'. m = Inr (it, st') \<longrightarrow> vf_out st' = vf_out st \<and> vf_cc st' = vf_cc st)"

lemma silent_Inl: "silent st (Inl e)"
  by (simp add: silent_def)

lemma silent_bind: "(\<And>x. silent st (f x)) \<Longrightarrow> silent st (bind_res m f)"
  by (cases m) (simp_all add: silent_Inl)

lemma silent_Inr: "vf_out st' = vf_out st \<Longrightarrow> vf_cc st' = vf_cc st \<Longrightarrow> silent st (Inr (it, st'))"
  by (simp add: silent_def)

lemma silent_if: "silent st a \<Longrightarrow> silent st b \<Longrightarrow> silent st (if c then a else b)"
  by simp

lemmas silent_intros = silent_Inl silent_bind silent_Inr silent_if

lemma prod_case_silent: "(\<And>a b. silent st (f a b)) \<Longrightarrow> silent st (case p of (a, b) \<Rightarrow> f a b)"
  by (cases p) simp

lemma silent_let: "(\<And>x. silent st (f x)) \<Longrightarrow> silent st (Let m f)"
  by simp

lemma silent_conv_u: "silent st (conv_u sp st)"
  unfolding conv_u_def Let_def
  by (intro silent_intros prod_case_silent silent_let; simp)

lemma silent_conv_d: "silent st (conv_d sp st)"
  unfolding conv_d_def Let_def
  by (intro silent_intros prod_case_silent silent_let; simp)

lemma silent_conv_o: "silent st (conv_o sp st)"
  unfolding conv_o_def Let_def
  by (intro silent_intros prod_case_silent silent_let; simp)

lemma silent_conv_x: "silent st (conv_x c sp st)"
  unfolding conv_x_def Let_def
  by (intro silent_intros prod_case_silent silent_let; simp)

lemma silent_conv_s: "silent st (conv_s sp st)"
  unfolding conv_s_def Let_def
  by (intro silent_intros prod_case_silent silent_let; simp)

lemma silent_conv_c: "silent st (conv_c st)"
  unfolding conv_c_def Let_def
  by (intro silent_intros prod_case_silent silent_let; simp)

lemma silent_conv_ptr: "silent st (conv_ptr c sp st)"
  unfolding conv_ptr_def Let_def
  by (intro silent_intros prod_case_silent silent_let; simp)

lemma silent_conv_fe: "silent st (conv_fe b c sp st)"
  unfolding conv_fe_def Let_def
  by (intro silent_intros prod_case_silent silent_let; simp)

lemma silent_conv_g: "silent st (conv_g b c sp st)"
  unfolding conv_g_def Let_def
  by (intro silent_intros prod_case_silent silent_let; simp)

lemmas conv_silent = silent_conv_u silent_conv_d silent_conv_o silent_conv_x silent_conv_s silent_conv_c silent_conv_ptr silent_conv_fe silent_conv_g

lemma trunc_ok_item:
  assumes "silent st m"
  shows "trunc_ok k snd st
    (bind_res (lift_fault m) (\<lambda>(it, st). bind_res (print_item (Some k) sp it st) (\<lambda>st. Inr (rest, st))))
    (bind_res (lift_fault m) (\<lambda>(it, st). bind_res (print_item None sp it st) (\<lambda>st. Inr (rest, st))))"
proof (rule trunc_ok_bind_pure)
  fix x assume x: "m = Inr x"
  obtain it st' where i: "x = (it, st')" by force
  have "trunc_ok k snd st' (bind_res (print_item (Some k) sp it st') (\<lambda>st. Inr (rest, st)))
    (bind_res (print_item None sp it st') (\<lambda>st. Inr (rest, st)))"
    by (simp add: trunc_ok_return [OF trunc_ok_print_item])
  then show "trunc_ok k snd st (case x of (it, st) \<Rightarrow> bind_res (print_item (Some k) sp it st) (\<lambda>st. Inr (rest, st)))
    (case x of (it, st) \<Rightarrow> bind_res (print_item None sp it st) (\<lambda>st. Inr (rest, st)))"
    using assms x unfolding i silent_def by (subst trunc_ok_state [of st st']) auto
qed

lemma if_trunc:
  "trunc_ok k p st a a' \<Longrightarrow> trunc_ok k p st b b' \<Longrightarrow> trunc_ok k p st (if c then a else b) (if c then a' else b')"
  by simp

lemma trunc_ok_directive: "trunc_ok k snd st (directive b (Some k) fmt st) (directive b None fmt st)"
  unfolding directive_def
proof (rule trunc_ok_bind_pure, clarify)
  fix sp fmt a
  define st' where "st' = st\<lparr>vf_args := a\<rparr>"
  have n: "trunc_ok k snd st' (bind_res (lift_fault (conv_n sp st')) (\<lambda>st. bind_res (print_nothing (Some k) sp st) (\<lambda>st. Inr (r, st))))
    (bind_res (lift_fault (conv_n sp st')) (\<lambda>st. bind_res (print_nothing None sp st) (\<lambda>st. Inr (r, st))))" for r
  proof (rule trunc_ok_bind_pure)
    fix x assume "conv_n sp st' = Inr x"
    then have "vf_out st' = vf_out x" "vf_cc st' = vf_cc x"
      by (auto simp: conv_n_def bind_res_eq_Inr Let_def split: if_splits var_type.splits)
    then show "trunc_ok k snd st' (bind_res (print_nothing (Some k) sp x) (\<lambda>st. Inr (r, st)))
      (bind_res (print_nothing None sp x) (\<lambda>st. Inr (r, st)))"
      by (subst trunc_ok_state [of st' x]) (simp_all add: trunc_ok_return [OF trunc_ok_print_nothing])
  qed
  have p: "silent st' (Inr (it, st'))" for it by (simp add: silent_def)
  note items = conv_silent [THEN trunc_ok_item] p [THEN trunc_ok_item]
  have ret: "trunc_ok k snd st' (Inr (r, st')) (Inr (r, st'))" for r by simp
  have "trunc_ok k snd st' (directive_body b (Some k) sp fmt st') (directive_body b None sp fmt st')"
    unfolding directive_body_def Let_def by (intro if_trunc items n ret)
  then show "trunc_ok k snd st (directive_body b (Some k) sp fmt (st\<lparr>vf_args := a\<rparr>)) (directive_body b None sp fmt (st\<lparr>vf_args := a\<rparr>))"
    unfolding st'_def by (subst trunc_ok_state [of st "st\<lparr>vf_args := a\<rparr>"]) simp_all
qed
lemma trunc_ok_loop: "trunc_ok k (\<lambda>s. s) st (vformat_loop b (Some k) fmt st) (vformat_loop b None fmt st)"
proof (induction "length fmt" arbitrary: fmt st rule: less_induct)
  case less
  show ?case
  proof (cases fmt)
    case (Cons c cs)
    show ?thesis
    proof (cases "c = CHR ''%''")
      case True
      have "trunc_ok k (\<lambda>s. s) (snd x) (case x of (fmt, st) \<Rightarrow> vformat_loop b (Some k) fmt st)
          (case x of (fmt, st) \<Rightarrow> vformat_loop b None fmt st)" if "directive b None cs st = Inr x" for x
        using that directive_shorter [of b None cs st] less Cons by (auto split: prod.split)
      then show ?thesis unfolding vformat_loop.simps [of _ _ fmt]
        using Cons True by (simp add: trunc_ok_bind [OF trunc_ok_directive])
    next
      case False
      then show ?thesis unfolding vformat_loop.simps [of _ _ fmt]
        using Cons less by (simp add: trunc_ok_bind [OF trunc_ok_ins_char])
    qed
  qed (simp add: vformat_loop.simps)
qed

lemma snprintf_truncates_core:
  assumes "pcc_vformatter buf1 None fmt args = Inr (out, cc, w)"
  shows "cc = int (length out) \<and> pcc_snprintf buf1 0 fmt args = Inr ([], cc, w) \<and>
    (len \<noteq> 0 \<longrightarrow> (\<exists>w'. pcc_snprintf buf1 len fmt args =
       Inr (take (unat len - 1) out @ [NUL], if length out < unat len then cc else sint (ucast len :: u32), w')))"
proof -
  define k where "k = unat (len - 1)"
  obtain st where st: "vformat_loop buf1 None fmt (vf_init args) = Inr st" "vf_out st = out" "vf_cc st = cc" "vf_stores st = w"
  proof (cases "vformat_loop buf1 None fmt (vf_init args)")
    case (Inl e)
    then have "e \<noteq> Full s" for s using trunc_ok_loop [of k "vf_init args" buf1 fmt] by (auto simp: trunc_ok_def)
    then show ?thesis using assms Inl by (cases e) (auto simp: pcc_vformatter_def)
  qed (use assms in \<open>auto simp: pcc_vformatter_def\<close>)
  note t = trunc_ok_loop [of k "vf_init args" buf1 fmt, unfolded trunc_ok_def, THEN conjunct2, rule_format, OF st(1)]
  have cc: "cc = int (length out)" using t st by (auto simp: vf_init_def)
  moreover have "pcc_snprintf buf1 0 fmt args = Inr ([], cc, w)"
    using assms cc by (simp add: pcc_snprintf_def pcc_vsnprintf_def)
  moreover have "\<exists>w'. pcc_snprintf buf1 len fmt args =
       Inr (take (unat len - 1) out @ [NUL], if length out < unat len then cc else sint (ucast len :: u32), w')"
    if len: "len \<noteq> 0"
  proof -
    have k: "k = unat len - 1" "0 < unat len" using len unat_minus_one [of len] by (auto simp: k_def unat_gt_0)
    show ?thesis
    proof (cases "length out \<le> k")
      case True
      then have "vformat_loop buf1 (Some k) fmt (vf_init args) = Inr st" using t st by (simp add: vf_init_def)
      then show ?thesis using len True k st cc
        by (auto simp: pcc_snprintf_def pcc_vsnprintf_def pcc_vformatter_def k_def [symmetric])
    next
      case False
      then obtain s where "vformat_loop buf1 (Some k) fmt (vf_init args) = Inl (Full s)" "vf_out s = take k out"
        using t st by (auto simp: vf_init_def)
      then show ?thesis using len False k
        by (auto simp: pcc_snprintf_def pcc_vsnprintf_def pcc_vformatter_def k_def [symmetric])
    qed
  qed
  ultimately show ?thesis by blast
qed

text \<open>
  C8. A short buffer truncates and nothing else: when the formatter with nowhere to write
  counts the text \<open>out\<close>, \<open>pcc_snprintf\<close> with no buffer returns its length, and with a
  buffer of \<open>len\<close> bytes it stores the longest prefix of \<open>out\<close> that leaves room for the
  NUL, and returns the length of \<open>out\<close> if all of it was stored and \<open>len\<close> otherwise.
\<close>

theorem pcc_snprintf_truncates:
  assumes "pcc_vformatter buf1 None fmt args = Inr (out, cc, w)"
  shows "cc = int (length out) \<and> pcc_snprintf buf1 0 fmt args = Inr ([], cc, w) \<and>
    (len \<noteq> 0 \<longrightarrow> (\<exists>w'. pcc_snprintf buf1 len fmt args =
       Inr (take (unat len - 1) out @ [NUL], if length out < unat len then cc else sint (ucast len :: u32), w')))"
  by (rule snprintf_truncates_core [OF assms])

theorem pcc_snprintf_truncates_witness:
  "\<exists>w. pcc_snprintf [] 4 ''hello'' [] = Inr (''hel'' @ [NUL], 4, w)"
  using pcc_snprintf_truncates [of "[]" "''hello''" "[]" "''hello''" 5 "[]" 4]
  by (simp add: pcc_vformatter_def vformat_loop.simps vf_init_def ins_char_def int32_def)

end
