(* ===== verification/PrintfField.thy ===== *)
theory PrintfField
  imports Snprintf
begin

text \<open>
  What whole directives of \<open>pcc_vformatter\<close> print, as functions of the flags, the width and
  the precision written in the format: \<open>%d\<close> in full, and the alternate form of \<open>%x\<close>.
\<close>

section \<open>Integer fields\<close>

lemma NUM_digit: "c_isdigit c \<Longrightarrow> NUM c = int (dec_dval c)"
  by (auto simp: NUM_def schar_def c_isdigit_def dec_dval_def)

lemma foldl_dec_mono: "n \<le> foldl (\<lambda>v c. v * 10 + dec_dval c) n ds"
proof (induction ds arbitrary: n)
  case (Cons d ds)
  have "n \<le> n * 10 + dec_dval d" by simp
  also have "\<dots> \<le> foldl (\<lambda>v c. v * 10 + dec_dval c) (n * 10 + dec_dval d) ds" by (rule Cons)
  finally show ?case by simp
qed simp

lemma str_to_dec_loop_digits:
  "\<lbrakk>\<forall>c \<in> set ds. c_isdigit c; \<not> c_isdigit (at0 rest); foldl (\<lambda>v c. v * 10 + dec_dval c) n ds < 2 ^ 31\<rbrakk> \<Longrightarrow>
   str_to_dec_loop (ds @ rest) (int n) = Inr (int (foldl (\<lambda>v c. v * 10 + dec_dval c) n ds), rest)"
proof (induction ds arbitrary: n)
  case Nil
  then show ?case by (cases rest) auto
next
  case (Cons d ds)
  let ?n = "n * 10 + dec_dval d"
  have "?n < 2 ^ 31" using foldl_dec_mono [of ?n ds] Cons.prems by simp
  moreover have "NUM d = int (dec_dval d)" using Cons.prems by (intro NUM_digit) auto
  moreover have "str_to_dec_loop (ds @ rest) (int ?n) = Inr (int (foldl (\<lambda>v c. v * 10 + dec_dval c) ?n ds), rest)"
    using Cons.prems by (intro Cons.IH) auto
  ultimately show ?case using Cons.prems by (simp add: int32_def)
qed

lemma str_to_dec_nat_dec:
  assumes "n < 2 ^ 31" "\<not> c_isdigit (at0 rest)"
  shows "str_to_dec (nat_dec n @ rest) = Inr (int n, rest)"
proof -
  obtain d ds where d: "nat_dec n = d # ds" using dec.print_nonempty [OF TrueI, of n] by (cases "nat_dec n") auto
  have "foldl (\<lambda>v c. v * 10 + dec_dval c) (dec_dval d) ds = n"
    using dec.print_value [OF TrueI, of n] unfolding d by (simp add: radix_val_def)
  moreover have "\<forall>c \<in> set (d # ds). c_isdigit c" using nat_dec_digits [of _ n] d by auto
  ultimately show ?thesis using str_to_dec_loop_digits [of ds rest "dec_dval d"] assms
    unfolding d by (simp add: NUM_digit)
qed

text \<open>The flag characters, in any order and number.\<close>

definition flag_chars :: "char set" where
  "flag_chars = {CHR ''-'', CHR ''+'', CHR ''#'', CHR '' '', CHR ''0''}"

definition flags_of :: "cstr \<Rightarrow> flags" where
  "flags_of fs = \<lparr>fl_adjust = if CHR ''-'' \<in> set fs then LEFT else RIGHT, fl_alt = (CHR ''#'' \<in> set fs),
     fl_sign = (CHR ''+'' \<in> set fs), fl_blank = (CHR '' '' \<in> set fs),
     fl_pad = if CHR ''0'' \<in> set fs then CHR ''0'' else SPACE\<rparr>"

lemma parse_flags_append:
  "set fs \<subseteq> flag_chars \<Longrightarrow> at0 rest \<notin> flag_chars \<Longrightarrow>
   parse_flags (fs @ rest) fl = (\<lparr>fl_adjust = if CHR ''-'' \<in> set fs then LEFT else fl_adjust fl,
     fl_alt = (fl_alt fl \<or> CHR ''#'' \<in> set fs), fl_sign = (fl_sign fl \<or> CHR ''+'' \<in> set fs),
     fl_blank = (fl_blank fl \<or> CHR '' '' \<in> set fs),
     fl_pad = if CHR ''0'' \<in> set fs then CHR ''0'' else fl_pad fl\<rparr>, rest)"
proof (induction fs arbitrary: fl)
  case Nil
  then show ?case by (cases rest; cases fl) (auto simp: flag_chars_def)
next
  case (Cons c fs)
  then have "c \<in> flag_chars" by simp
  then show ?case using Cons by (auto simp: flag_chars_def)
qed

lemma parse_flags_default:
  "set fs \<subseteq> flag_chars \<Longrightarrow> at0 rest \<notin> flag_chars \<Longrightarrow> parse_flags (fs @ rest) default_flags = (flags_of fs, rest)"
  by (simp add: parse_flags_append flags_of_def default_flags_def)

text \<open>A directive as text: flags, width, precision and letter.\<close>

definition dir_text :: "cstr \<Rightarrow> nat option \<Rightarrow> nat option \<Rightarrow> cstr" where
  "dir_text fs w p = fs @ (case w of None \<Rightarrow> [] | Some n \<Rightarrow> nat_dec n) @ (case p of None \<Rightarrow> [] | Some n \<Rightarrow> CHR ''.'' # nat_dec n)"

lemma at0_nat_dec: "at0 (nat_dec n @ rest) = hd (nat_dec n)"
  using dec.print_nonempty [OF TrueI, of n] by (cases "nat_dec n") auto

lemma hd_nat_dec: "c_isdigit (hd (nat_dec n))" "0 < n \<Longrightarrow> hd (nat_dec n) \<noteq> CHR ''0''"
  using nat_dec_digits [of "hd (nat_dec n)" n] dec.print_nonempty [OF TrueI, of n] dec.print_hd [of n] dec_dig_0
  by (auto simp: nat_dec_digits)

lemma parse_spec_dir_text:
  assumes fs: "set fs \<subseteq> flag_chars" and w: "\<forall>n. w = Some n \<longrightarrow> 0 < n \<and> n < 2 ^ 31"
    and p: "\<forall>n. p = Some n \<longrightarrow> n < 2 ^ 31" and c: "c_islower c" "c \<notin> {CHR ''q'', CHR ''l'', CHR ''h''}"
  shows "parse_spec (dir_text fs w p @ c # rest) args =
    Inr (\<lparr>sp_flags = flags_of fs, sp_width = map_option int w, sp_prec = map_option int p, sp_type = IS_INT\<rparr>, c # rest, args)"
proof -
  have cc: "c \<notin> flag_chars" "\<not> c_isdigit c" "c \<noteq> CHR ''*''" "c \<noteq> CHR ''.''"
    using c by (auto simp: flag_chars_def c_islower_def c_isdigit_def code_def)
  have digit: "d \<notin> flag_chars \<and> d \<noteq> CHR ''*'' \<and> d \<noteq> CHR ''.'' \<and> \<not> c_islower d"
    if "c_isdigit d" "d \<noteq> CHR ''0''" for d
    using that by (auto simp: flag_chars_def c_islower_def c_isdigit_def code_def)
  have dot: "CHR ''.'' \<notin> flag_chars" "\<not> c_isdigit (CHR ''.'')" "\<not> c_islower (CHR ''.'')"
    by (auto simp: flag_chars_def c_islower_def c_isdigit_def code_def)
  have fl: "\<not> c_islower d" if "d \<in> flag_chars" for d
    using that by (auto simp: flag_chars_def c_islower_def code_def)
  define r2 where "r2 = (case p of None \<Rightarrow> [] | Some n \<Rightarrow> CHR ''.'' # nat_dec n) @ c # rest"
  define r1 where "r1 = (case w of None \<Rightarrow> [] | Some n \<Rightarrow> nat_dec n) @ r2"
  have r2: "at0 r2 \<notin> flag_chars" "\<not> c_isdigit (at0 r2)" "at0 r2 \<noteq> CHR ''*''" "c_islower (at0 r2) = (p = None)"
    using cc dot c by (auto simp: r2_def split: option.split)
  have r1: "at0 r1 \<notin> flag_chars" "c_islower (at0 r1) = (w = None \<and> p = None)"
    using r2 w digit hd_nat_dec by (auto simp: r1_def at0_nat_dec split: option.split)
  have width: "parse_width r1 f args = Inr (f, map_option int w, r2, args)" for f
    using w r2 hd_nat_dec by (cases w) (auto simp: parse_width_def r1_def at0_nat_dec str_to_dec_nat_dec)
  have prec: "parse_precision r2 args = Inr (map_option int p, c # rest, args)"
    using p cc hd_nat_dec by (cases p) (auto simp: parse_precision_def r2_def at0_nat_dec str_to_dec_nat_dec)
  have ty: "parse_type (c # rest) = (IS_INT, c # rest)" using c by (simp add: parse_type_def)
  have t: "dir_text fs w p @ c # rest = fs @ r1" by (simp add: dir_text_def r1_def r2_def)
  show ?thesis
  proof (cases "c_islower (at0 (fs @ r1))")
    case True
    then have e: "fs = []" "w = None" "p = None" using fs fl r1 by (cases fs; auto)+
    moreover have "fs @ r1 = c # rest" by (simp add: e r1_def r2_def)
    ultimately show ?thesis using True ty by (simp add: e dir_text_def parse_spec_def flags_of_def default_flags_def)
  next
    case False
    then show ?thesis
      using parse_flags_default [OF fs r1(1)] width prec ty by (simp add: t parse_spec_def)
  qed
qed
text \<open>Output without a buffer.\<close>

definition emit :: "cstr \<Rightarrow> vf \<Rightarrow> vf" where
  "emit cs st = st\<lparr>vf_out := vf_out st @ cs, vf_cc := vf_cc st + int (length cs)\<rparr>"

lemma emit_simps [simp]:
  "emit [] st = st" "vf_cc (emit cs st) = vf_cc st + int (length cs)" "vf_out (emit cs st) = vf_out st @ cs"
  "emit ds (emit cs st) = emit (cs @ ds) st"
  by (simp_all add: emit_def)

lemma ins_char_emit: "0 \<le> vf_cc st \<Longrightarrow> vf_cc st + 1 < 2 ^ 31 \<Longrightarrow> ins_char None c st = Inr (emit [c] st)"
  by (simp add: ins_char_def int32_def emit_def)

lemma ins_chars_emit: "0 \<le> vf_cc st \<Longrightarrow> vf_cc st + int (length cs) < 2 ^ 31 \<Longrightarrow> ins_chars None cs st = Inr (emit cs st)"
proof (induction cs arbitrary: st)
  case (Cons c cs)
  then show ?case by (simp add: ins_char_emit)
qed simp

lemma pad_field_emit:
  "0 \<le> vf_cc st \<Longrightarrow> vf_cc st + (w - n) < 2 ^ 31 \<Longrightarrow> n < w \<Longrightarrow> pad_field None w n c st = Inr (emit (replicate (nat (w - n)) c) st)"
proof (induction "nat (w - n)" arbitrary: w st rule: less_induct)
  case less
  show ?case
  proof (cases "w - 1 > n")
    case True
    then have r: "nat (w - n) = Suc (nat (w - 1 - n))" by simp
    have "pad_field None (w - 1) n c (emit [c] st) = Inr (emit (replicate (nat (w - 1 - n)) c) (emit [c] st))"
      using less.prems True by (intro less.hyps) auto
    then show ?thesis using less.prems True unfolding r by (subst pad_field.simps) (simp add: ins_char_emit)
  next
    case False
    with less.prems have w: "w = n + 1" by simp
    show ?thesis using less.prems by (subst pad_field.simps) (simp add: ins_char_emit w)
  qed
qed

lemma fix_loop_zeros: "n \<le> pos \<Longrightarrow> fix_loop n (pos, s) = Inr (pos - n, replicate n CHR ''0'' @ s)"
proof (induction n arbitrary: pos s)
  case (Suc n)
  then obtain q where "pos = Suc q" by (cases pos) auto
  then show ?case using Suc by (simp add: replicate_app_Cons_same)
qed simp

text \<open>The field a directive stands for, from the description of the flags alone.\<close>

definition zero_ext :: "nat option \<Rightarrow> cstr \<Rightarrow> cstr" where
  "zero_ext p ds = replicate (min (case p of None \<Rightarrow> 0 | Some n \<Rightarrow> n) 511 - length ds) CHR ''0'' @ ds"

definition field_text :: "cstr \<Rightarrow> nat option \<Rightarrow> cstr \<Rightarrow> cstr \<Rightarrow> cstr" where
  "field_text fs w sg ds =
     (let gap = (case w of None \<Rightarrow> 0 | Some n \<Rightarrow> n) - length (sg @ ds);
          zero = (CHR ''0'' \<in> set fs) in
      if CHR ''-'' \<in> set fs then sg @ ds @ replicate gap (if zero then CHR ''0'' else SPACE)
      else if zero then sg @ replicate gap CHR ''0'' @ ds
      else replicate gap SPACE @ sg @ ds)"

definition sign_text :: "cstr \<Rightarrow> int \<Rightarrow> cstr" where
  "sign_text fs i = (if i < 0 then ''-'' else if CHR ''+'' \<in> set fs then ''+''
     else if CHR '' '' \<in> set fs then '' '' else [])"

lemma length_field_text: "length (field_text fs w sg ds) = max (length (sg @ ds)) (case w of None \<Rightarrow> 0 | Some n \<Rightarrow> n)"
  by (cases w) (auto simp: field_text_def Let_def)

lemma fix_precision_zero_ext:
  assumes "length ds \<le> 511"
  shows "bind_res (num_end ds) (fix_precision (map_option int p)) = Inr (512 - length (zero_ext p ds), zero_ext p ds)"
    "length (zero_ext p ds) \<le> 511"
proof -
  show l: "length (zero_ext p ds) \<le> 511" using assms by (simp add: zero_ext_def split: option.split)
  show "bind_res (num_end ds) (fix_precision (map_option int p)) = Inr (512 - length (zero_ext p ds), zero_ext p ds)"
  proof (cases p)
    case (Some n)
    have c: "n - length ds + length ds = length ds + (n - length ds)" by simp
    have n: "nat (int n - int (length ds)) = n - length ds" "nat (511 - int (length ds)) = 511 - length ds" by auto
    show ?thesis using assms Some n by (simp add: num_end_def NUM_BUF_SIZE_def fix_precision_def zero_ext_def fix_loop_zeros c)
  qed (use assms in \<open>simp add: num_end_def NUM_BUF_SIZE_def fix_precision_def zero_ext_def\<close>)
qed

lemma print_item_field:
  assumes it: "it_place it = NumBuf (Suc pos)" "it_pad it = (if CHR ''0'' \<in> set fs then CHR ''0'' else SPACE)"
    "sg = (if it_prefix it = NUL then [] else [it_prefix it])"
    and sp: "sp_flags sp = flags_of fs" "sp_width sp = map_option int w"
    and st: "0 \<le> vf_cc st" "vf_cc st + int (length (field_text fs w sg (it_text it))) < 2 ^ 31"
  shows "\<exists>n. print_item None sp it st = Inr (emit (field_text fs w sg (it_text it)) (st\<lparr>vf_s_len := n\<rparr>))"
proof -
  let ?s = "sg @ it_text it" and ?pad = "if CHR ''0'' \<in> set fs then CHR ''0'' else SPACE"
  obtain it' where put: "put_prefix it = Inr it'" and it': "it_text it' = ?s" "it_pad it' = ?pad" "it_prefix it' = it_prefix it"
  proof (cases "it_prefix it = NUL")
    case True
    then have "put_prefix it = Inr it" by (simp add: put_prefix_def)
    then show ?thesis using True it that by auto
  next
    case False
    then have "put_prefix it = Inr (it\<lparr>it_place := NumBuf pos, it_text := it_prefix it # it_text it\<rparr>)"
      using it by (simp add: put_prefix_def)
    then show ?thesis using False it that by auto
  qed
  have len: "length (field_text fs w sg (it_text it)) = max (length ?s) (case w of None \<Rightarrow> 0 | Some n \<Rightarrow> n)"
    by (rule length_field_text)
  have put_s: "ins_chars None cs (t\<lparr>vf_s_len := n\<rparr>) = Inr (emit cs (t\<lparr>vf_s_len := n\<rparr>))"
    if "0 \<le> vf_cc t" "vf_cc t + int (length cs) < 2 ^ 31" for cs t n
    using that by (intro ins_chars_emit) auto
  show ?thesis
  proof (cases "\<exists>n. w = Some n \<and> length ?s < n")
    case False
    then have e: "field_text fs w sg (it_text it) = ?s"
      by (auto simp: field_text_def Let_def split: option.split)
    have "print_item None sp it st = Inr (emit ?s (st\<lparr>vf_s_len := Some (int (length ?s))\<rparr>))"
      using False put sp it' st(1) st(2) [unfolded e]
      by (cases w) (auto simp: print_item_def put_s not_less)
    then show ?thesis unfolding e by blast
  next
    case True
    then obtain n where n: "w = Some n" "length ?s < n" by blast
    define gap where "gap = n - length ?s"
    have gap: "nat (int n - int (length ?s)) = gap" "0 < gap" "int (length ?s) + int gap = int n" using n by (auto simp: gap_def)
    have bound: "vf_cc st + int n < 2 ^ 31" using st(2) len n by simp
    show ?thesis
    proof (cases "CHR ''-'' \<in> set fs")
      case True
      have "print_item None sp it st = Inr (emit (?s @ replicate gap ?pad) (st\<lparr>vf_s_len := Some (int (length ?s))\<rparr>))"
        using n put sp it' st(1) bound gap True
        by (simp add: print_item_def put_s flags_of_def pad_field_emit)
      then show ?thesis using True n by (auto simp: field_text_def Let_def gap_def)
    next
      case right: False
      show ?thesis
      proof (cases "CHR ''0'' \<in> set fs \<and> it_prefix it \<noteq> NUL")
        case True
        then have sg: "sg = [it_prefix it]" using it by simp
        have "pad_left None (int n) it' st = Inr (it_text it, emit ([it_prefix it] @ replicate gap CHR ''0'') st)"
          using True it it' st(1) bound n gap sg
          by (simp add: pad_left_def ins_char_emit pad_field_emit diff_diff_eq add.commute)
        then have "print_item None sp it st = Inr (emit ([it_prefix it] @ replicate gap CHR ''0'' @ it_text it)
            (st\<lparr>vf_s_len := Some (int (length (it_text it)))\<rparr>))"
          using n put sp it' st(1) bound gap right True sg
          by (simp add: print_item_def flags_of_def put_s) (simp add: emit_def)
        then show ?thesis using True n right sg by (auto simp: field_text_def Let_def gap_def)
      next
        case False
        have "pad_left None (int n) it' st = Inr (?s, emit (replicate gap ?pad) st)"
          using False it it' st(1) bound n gap by (auto simp: pad_left_def pad_field_emit Let_def)
        then have "print_item None sp it st = Inr (emit (replicate gap ?pad @ ?s)
            (st\<lparr>vf_s_len := Some (int (length ?s))\<rparr>))"
          using n put sp it' st(1) bound gap right
          by (simp add: print_item_def flags_of_def put_s) (simp add: emit_def)
        then show ?thesis using False n right it by (auto simp: field_text_def Let_def gap_def)
      qed
    qed
  qed
qed
lemma conv_10_fields:
  "conv_10 v False = (sint v < 0, nat_dec (nat \<bar>sint v\<bar>))" "conv_10 v True = (False, nat_dec (unat v))"
  by (simp_all add: conv_10_def Let_def conv_10_loop_dec conv_10_magnitude uint_nonneg)

lemma nat_dec_short: "n < 2 ^ 64 \<Longrightarrow> length (nat_dec n) \<le> 20"
  by (rule dec.print_length_le) simp_all

lemma sint_scast_32: "sint (scast (v :: u32) :: u64) = sint v"
  by (rule sint_up_scast) (simp add: is_up)

definition d_field :: "cstr \<Rightarrow> nat option \<Rightarrow> nat option \<Rightarrow> int \<Rightarrow> cstr" where
  "d_field fs w p i = field_text fs w (sign_text fs i) (zero_ext p (nat_dec (nat \<bar>i\<bar>)))"

lemma directive_d:
  assumes dir: "set fs \<subseteq> flag_chars" "\<forall>n. w = Some n \<longrightarrow> 0 < n \<and> n < 2 ^ 31" "\<forall>n. p = Some n \<longrightarrow> n < 2 ^ 31"
    and st: "vf_args st = AInt v # args" "0 \<le> vf_cc st" "vf_cc st + int (length (d_field fs w p (sint v))) < 2 ^ 31"
  shows "\<exists>n. directive buf1 None (dir_text fs w p @ CHR ''d'' # rest) st =
    Inr (rest, emit (d_field fs w p (sint v)) (st\<lparr>vf_args := args, vf_i_num := scast v, vf_s_len := n\<rparr>))"
proof -
  define sp where "sp = \<lparr>sp_flags = flags_of fs, sp_width = map_option int w, sp_prec = map_option int p, sp_type = IS_INT\<rparr>"
  define ds where "ds = nat_dec (nat \<bar>sint v\<bar>)"
  define st' where "st' = st\<lparr>vf_args := args, vf_i_num := scast v\<rparr>"
  define it where "it = \<lparr>it_place = NumBuf (512 - length (zero_ext p ds)), it_text = zero_ext p ds,
    it_prefix = sign_prefix (sint v < 0) (flags_of fs), it_pad = fl_pad (flags_of fs)\<rparr>"
  have parse: "parse_spec (dir_text fs w p @ CHR ''d'' # rest) a = Inr (sp, CHR ''d'' # rest, a)" for a
    using parse_spec_dir_text [OF dir, of "CHR ''d''" rest] by (simp add: sp_def c_islower_def code_def)
  have "nat \<bar>sint v\<bar> < 2 ^ 64" using sint_less [of v] sint_greater_eq [of v] by simp
  then have ds: "length ds \<le> 511" using nat_dec_short [of "nat \<bar>sint v\<bar>"] by (simp add: ds_def)
  note z = fix_precision_zero_ext [OF ds, of p]
  have conv: "conv_d sp st = Inr (it, st')"
    using z(1) st(1) by (simp add: conv_d_def sp_def signed_arg_def conv_10_fields sint_scast_32 ds_def [symmetric]
      bind_res_assoc [symmetric] it_def st'_def)
  have sign: "sign_text fs (sint v) = (if it_prefix it = NUL then [] else [it_prefix it])"
    by (simp add: sign_text_def it_def sign_prefix_def flags_of_def)
  have pos: "it_place it = NumBuf (Suc (511 - length (zero_ext p ds)))" using z(2) by (simp add: it_def)
  obtain n where "print_item None sp it st' = Inr (emit (d_field fs w p (sint v)) (st'\<lparr>vf_s_len := n\<rparr>))"
    using print_item_field [OF pos _ sign, of fs sp w st'] st(2,3)
    by (auto simp: it_def sp_def flags_of_def st'_def d_field_def ds_def)
  moreover have "directive buf1 None (dir_text fs w p @ CHR ''d'' # rest) st =
      directive_body buf1 None sp (CHR ''d'' # rest) st"
    using parse by (simp add: directive_def)
  ultimately show ?thesis
    using conv by (auto simp: directive_body_def Let_def st'_def)
qed

text \<open>
  C14. A whole \<open>%d\<close> directive: for any flags, width and precision, the formatter prints the
  decimal notation of the argument with its sign, extended by zeros to the precision (511
  at most), in a field of at least the width - blank or zero padded on the left, the zeros
  after the sign, or padded on the right with the \<open>-\<close> flag, with zeros if \<open>0\<close> is
  given as well.
\<close>

theorem snprintf_d_field:
  assumes "set fs \<subseteq> flag_chars" "\<forall>n. w = Some n \<longrightarrow> 0 < n \<and> n < 2 ^ 31" "\<forall>n. p = Some n \<longrightarrow> n < 2 ^ 31"
  shows "pcc_vformatter buf1 None (CHR ''%'' # dir_text fs w p @ ''d'') [AInt v] =
    (let s = field_text fs w (sign_text fs (sint v)) (zero_ext p (nat_dec (nat \<bar>sint v\<bar>)))
     in Inr (s, int (length s), []))"
proof -
  have "nat \<bar>sint v\<bar> < 2 ^ 64" using sint_less [of v] sint_greater_eq [of v] by simp
  then have "length (nat_dec (nat \<bar>sint v\<bar>)) \<le> 511" using nat_dec_short [of "nat \<bar>sint v\<bar>"] by simp
  from fix_precision_zero_ext(2) [OF this, of p] have "length (d_field fs w p (sint v)) < 2 ^ 31"
    using assms(2) by (auto simp: d_field_def length_field_text sign_text_def split: option.split)
  then obtain n where "directive buf1 None (dir_text fs w p @ ''d'') (vf_init [AInt v]) =
      Inr ([], emit (d_field fs w p (sint v)) ((vf_init [AInt v])\<lparr>vf_args := [], vf_i_num := scast v, vf_s_len := n\<rparr>))"
    using directive_d [OF assms, of "vf_init [AInt v]" v "[]" buf1 "[]"] by (auto simp: vf_init_def)
  then show ?thesis
    by (simp add: pcc_vformatter_def vformat_loop.simps Let_def d_field_def emit_def vf_init_def)
qed

theorem snprintf_d_field_witness:
  "pcc_vformatter [] None (CHR ''%'' # dir_text ''0+'' (Some 6) None @ ''d'') [AInt 42] = Inr (''+00042'', 6, [])"
proof -
  have rep: "replicate 3 c = [c, c, c]" for c :: char by (simp add: numeral_3_eq_3)
  show ?thesis using snprintf_d_field [of "''0+''" "Some 6" None "[]" 42]
    by (simp add: flag_chars_def field_text_def sign_text_def zero_ext_def nat_dec.simps dec_dig_def Let_def
      char_of_def rep bit_0)
qed
text \<open>Hexadecimal digits, zero-extended.\<close>

lemma hex_length: "length (conv_p2 v 4 CHR ''x'') \<le> 16"
proof -
  have "unat v < 16 ^ 16" by simp
  then show ?thesis using hexlow.print_length_le [of "unat v" 16] by (simp add: conv_p2_def)
qed

lemma conv_x_hex:
  assumes "sp_type sp = IS_INT" "sp_prec sp = map_option int p" "vf_args st = AInt v # args"
  shows "conv_x CHR ''x'' sp st =
    (let ds = zero_ext p (conv_p2 (ucast v) 4 CHR ''x'') in
     bind_res
       (if fl_alt (sp_flags sp) \<and> vf_i_num st \<noteq> 0
        then bind_res (num_push CHR ''x'' (512 - length ds, ds)) (num_push CHR ''0'') else Inr (512 - length ds, ds))
       (\<lambda>(pos, s). Inr (\<lparr>it_place = NumBuf pos, it_text = s, it_prefix = NUL, it_pad = fl_pad (sp_flags sp)\<rparr>,
            st\<lparr>vf_args := args\<rparr>)))"
proof -
  have "length (conv_p2 (ucast v) 4 CHR ''x'') \<le> 511" using hex_length [of "ucast v"] by simp
  note z = fix_precision_zero_ext(1) [OF this, of p]
  show ?thesis
    using assms by (simp add: conv_x_def unsigned_arg_def Let_def bind_res_assoc [symmetric] z del: num_push.simps)
qed

text \<open>
  The alternate form of \<open>%x\<close> is decided by \<open>i_num\<close>, which \<open>%x\<close> does not set: as
  the first directive it never prints the \<open>0x\<close>, whatever the argument.
\<close>

theorem snprintf_x_no_prefix:
  "pcc_vformatter buf1 None ''%#x'' [AInt v] =
    Inr (conv_p2 (ucast v) 4 CHR ''x'', int (length (conv_p2 (ucast v) 4 CHR ''x'')), [])"
proof -
  define ds where "ds = conv_p2 (ucast v) 4 CHR ''x''"
  have ds: "length ds \<le> 16" unfolding ds_def by (rule hex_length)
  define sp where "sp = \<lparr>sp_flags = flags_of ''#'', sp_width = None :: int option, sp_prec = None, sp_type = IS_INT\<rparr>"
  have parse: "parse_spec ''#x'' args = Inr (sp, ''x'', args)" for args
    using parse_spec_dir_text [of "''#''" None None "CHR ''x''" "[]"]
    by (simp add: sp_def flag_chars_def dir_text_def c_islower_def code_def)
  have "conv_x CHR ''x'' sp (vf_init [AInt v]) =
     Inr (\<lparr>it_place = NumBuf (512 - length ds), it_text = ds, it_prefix = NUL, it_pad = SPACE\<rparr>, (vf_init [AInt v])\<lparr>vf_args := []\<rparr>)"
    by (subst conv_x_hex [where p = None]) (simp_all add: sp_def vf_init_def zero_ext_def ds_def flags_of_def Let_def)
  moreover have "ins_chars None ds st = Inr (emit ds st)" if "vf_cc st = 0" for st
    using ds that by (intro ins_chars_emit) auto
  ultimately show ?thesis
    using parse by (simp add: pcc_vformatter_def vformat_loop.simps directive_def directive_body_def vf_init_def
      print_item_def put_prefix_def sp_def ds_def [symmetric] emit_def)
qed

text \<open>
  After a directive that sets \<open>i_num\<close>, \<open>%#.511x\<close> writes in front of \<open>num_buf\<close>: the
  precision leaves one byte and the prefix takes two.
\<close>

theorem snprintf_x_underflow:
  "pcc_vformatter buf1 None ''%d%#.511x'' [AInt 1, AInt v] = Inl OutOfBounds"
proof -
  define sp where "sp = \<lparr>sp_flags = flags_of ''#'', sp_width = None :: int option, sp_prec = Some 511, sp_type = IS_INT\<rparr>"
  have len: "length (zero_ext (Some 511) (conv_p2 (ucast v) 4 CHR ''x'')) = 511"
    using hex_length [of "ucast v"] by (simp add: zero_ext_def)
  have "nat_dec 511 = ''511''" by (simp add: nat_dec.simps dec_dig_def char_of_def bit_0)
  then have parse: "parse_spec ''#.511x'' args = Inr (sp, ''x'', args)" for args
    using parse_spec_dir_text [of "''#''" None "Some 511" "CHR ''x''" "[]"]
    by (simp add: sp_def flag_chars_def dir_text_def c_islower_def code_def)
  have hex: "conv_x CHR ''x'' sp st = Inl OutOfBounds" if "vf_args st = [AInt v]" "vf_i_num st = 1" for st
    using that len by (subst conv_x_hex [where p = "Some 511" and v = v and args = "[]"]) (simp_all add: sp_def flags_of_def Let_def)
  have one: "d_field [] None None (sint (1 :: u32)) = ''1''"
    by (simp add: d_field_def field_text_def sign_text_def zero_ext_def nat_dec.simps dec_dig_def char_of_def bit_0)
  obtain n where "directive buf1 None ''d%#.511x'' (vf_init [AInt 1, AInt v]) =
      Inr (''%#.511x'', emit ''1'' ((vf_init [AInt 1, AInt v])\<lparr>vf_args := [AInt v], vf_i_num := 1, vf_s_len := n\<rparr>))"
    using directive_d [of "[]" None None "vf_init [AInt 1, AInt v]" 1 "[AInt v]" buf1 "''%#.511x''"] one
    by (auto simp: vf_init_def dir_text_def)
  then show ?thesis
    using parse by (simp add: pcc_vformatter_def vformat_loop.simps directive_def [of _ _ "''#.511x''"]
      directive_body_def hex emit_def vf_init_def)
qed

end
