(* ===== verification/Fnmatch.thy ===== *)
theory Fnmatch
  imports Prelude
begin

text \<open>
  \<open>tools/libwebserver/src/fnmatch.c\<close>, with which the web server selects the handler of a
  request.  Strings end with NUL, so that \<open>*string == EOS\<close> is the empty list; \<open>seen\<close> holds
  the characters between \<open>stringstart\<close> and \<open>string\<close>, the last one first.
\<close>

section \<open>The code\<close>

record fnm_flags =
  FNM_NOESCAPE :: bool
  FNM_PATHNAME :: bool
  FNM_PERIOD :: bool

text \<open>
  One turn of the loop of \<open>rangematch\<close>: a character or a range, and the pattern after it;
  nothing when the pattern ends inside the bracket.
\<close>

definition escaped :: "fnm_flags \<Rightarrow> char \<Rightarrow> cstr \<Rightarrow> char \<times> cstr" where
  "escaped fl c p = (if c = CHR 0x5C \<and> \<not> FNM_NOESCAPE fl then (at0 p, tl p) else (c, p))"

definition range_item :: "fnm_flags \<Rightarrow> cstr \<Rightarrow> ((char \<times> char option) \<times> cstr) option" where
  "range_item fl p =
     (let (c, p) = escaped fl (at0 p) (tl p) in
      if c = NUL then None
      else if at0 p = CHR ''-'' \<and> at0 (tl p) \<noteq> NUL \<and> at0 (tl p) \<noteq> CHR '']''
      then let (c2, p) = escaped fl (at0 (tl p)) (tl (tl p)) in
        if c2 = NUL then None else Some ((c, Some c2), p)
      else Some ((c, None), p))"

fun in_item :: "char \<Rightarrow> char \<times> char option \<Rightarrow> bool" where
  "in_item test (c, Some c2) \<longleftrightarrow> schar c \<le> schar test \<and> schar test \<le> schar c2"
| "in_item test (c, None) \<longleftrightarrow> c = test"

lemma range_item_shorter: "range_item fl p = Some (it, q) \<Longrightarrow> length q < length p"
  by (cases p) (auto simp: range_item_def escaped_def Let_def split: if_splits)

text \<open>The loop: what it finds for the character \<open>test\<close> and the pattern after the bracket.\<close>

function range_loop :: "fnm_flags \<Rightarrow> char \<Rightarrow> bool \<Rightarrow> cstr \<Rightarrow> (bool \<times> cstr) option" where
  "range_loop fl test ok p =
     (if at0 p = CHR '']'' then Some (ok, tl p)
      else case range_item fl p of
        None \<Rightarrow> None
      | Some (it, q) \<Rightarrow> range_loop fl test (ok \<or> in_item test it) q)"
  by pat_completeness auto
termination by (relation "measure (\<lambda>(fl, t, ok, p). length p)") (auto dest: range_item_shorter)

definition rangematch :: "cstr \<Rightarrow> char \<Rightarrow> fnm_flags \<Rightarrow> cstr option" where
  "rangematch pattern test fl =
     (let negate = (at0 pattern = CHR ''!'' \<or> at0 pattern = CHR ''^'') in
      case range_loop fl test False (if negate then tl pattern else pattern) of
        None \<Rightarrow> None
      | Some (ok, p) \<Rightarrow> if ok = negate then None else Some p)"

declare range_loop.simps [simp del]

text \<open>A leading period has to be matched by a period in the pattern.\<close>

definition hidden :: "fnm_flags \<Rightarrow> cstr \<Rightarrow> cstr \<Rightarrow> bool" where
  "hidden fl seen str \<longleftrightarrow> at0 str = CHR ''.'' \<and> FNM_PERIOD fl \<and>
     (seen = [] \<or> (FNM_PATHNAME fl \<and> hd seen = CHR ''/''))"

definition slash :: "fnm_flags \<Rightarrow> cstr \<Rightarrow> bool" where
  "slash fl str \<longleftrightarrow> at0 str = CHR ''/'' \<and> FNM_PATHNAME fl"

definition skip_to_slash :: "cstr \<Rightarrow> cstr" where
  "skip_to_slash str = dropWhile (\<lambda>c. c \<noteq> CHR ''/'') str"

lemma range_loop_shorter: "range_loop fl test ok p = Some (b, r) \<Longrightarrow> length r \<le> length p"
proof (induction fl test ok p rule: range_loop.induct)
  case (1 fl test ok p)
  show ?case
  proof (cases "at0 p = CHR '']''")
    case True
    then show ?thesis using 1(2) by (auto simp: range_loop.simps [of _ _ _ p])
  next
    case False
    then obtain it q where q: "range_item fl p = Some (it, q)" "range_loop fl test (ok \<or> in_item test it) q = Some (b, r)"
      using 1(2) by (simp add: range_loop.simps [of _ _ _ p] split: option.splits prod.splits)
    then show ?thesis using 1(1) [OF False q(1) refl q(2)] range_item_shorter [OF q(1)] by simp
  qed
qed

lemma rangematch_shorter: "rangematch p test fl = Some r \<Longrightarrow> length r \<le> length p"
  by (auto simp: rangematch_def Let_def split: option.splits if_splits dest!: range_loop_shorter)

lemma dropWhile_shorter: "length (dropWhile P xs) \<le> length xs"
  by (induction xs) auto

lemma dropWhile_measure:
  "2 * length (dropWhile P xs) < Suc (Suc (2 * length xs))"
  "2 * length (dropWhile P xs) < Suc (2 * length xs)"
  using dropWhile_shorter [of P xs] by simp_all

text \<open>
  \<open>fnmatch\<close>, and the loop after a star, which tries the rest of the pattern at each
  character of the string up to and including the first slash, without the period rule.
  \<open>True\<close> stands for the result 0.
\<close>

function (sequential) fnmatch :: "fnm_flags \<Rightarrow> cstr \<Rightarrow> cstr \<Rightarrow> cstr \<Rightarrow> bool"
  and star_loop :: "fnm_flags \<Rightarrow> cstr \<Rightarrow> cstr \<Rightarrow> bool" where
  "fnmatch fl [] seen str = (str = [])"
| "fnmatch fl (c # p) seen str =
     (if c = CHR ''?''
      then str \<noteq> [] \<and> \<not> slash fl str \<and> \<not> hidden fl seen str \<and> fnmatch fl p (hd str # seen) (tl str)
      else if c = CHR ''*''
      then let p' = dropWhile (\<lambda>c. c = CHR ''*'') p in
        \<not> hidden fl seen str \<and>
        (if p' = [] then \<not> FNM_PATHNAME fl \<or> CHR ''/'' \<notin> set str
         else if at0 p' = CHR ''/'' \<and> FNM_PATHNAME fl
         then CHR ''/'' \<in> set str \<and>
           fnmatch fl p' (rev (takeWhile (\<lambda>c. c \<noteq> CHR ''/'') str) @ seen) (skip_to_slash str)
         else star_loop (fl\<lparr>FNM_PERIOD := False\<rparr>) p' str)
      else if c = CHR ''[''
      then str \<noteq> [] \<and> \<not> slash fl str \<and> \<not> hidden fl seen str \<and>
        (case rangematch p (hd str) fl of None \<Rightarrow> False | Some p' \<Rightarrow> fnmatch fl p' (hd str # seen) (tl str))
      else let (c, p) = (if c = CHR 0x5C \<and> \<not> FNM_NOESCAPE fl \<and> p \<noteq> [] then (hd p, tl p) else (c, p)) in
        str \<noteq> [] \<and> c = hd str \<and> fnmatch fl p (hd str # seen) (tl str))"
| "star_loop fl p [] = False"
| "star_loop fl p (c # str) =
     (fnmatch fl p [] (c # str) \<or> (\<not> (c = CHR ''/'' \<and> FNM_PATHNAME fl) \<and> star_loop fl p str))"
  by pat_completeness auto
termination
  by (relation "measures [\<lambda>x. case x of Inl (fl, p, seen, str) \<Rightarrow> 2 * length p | Inr (fl, p, str) \<Rightarrow> 2 * length p + 1,
      \<lambda>x. case x of Inl (fl, p, seen, str) \<Rightarrow> length str | Inr (fl, p, str) \<Rightarrow> length str]")
    (auto simp: dropWhile_measure dest!: rangematch_shorter split: if_splits)

declare fnmatch.simps [simp del] star_loop.simps [simp del]

section \<open>What a pattern denotes\<close>

text \<open>A pattern as a list of tokens; a bracket that is not closed matches nothing.\<close>

datatype tok = TLit char | TAny | TStar | TSet "(char \<times> char option) list" bool | TBad

function bracket :: "fnm_flags \<Rightarrow> cstr \<Rightarrow> ((char \<times> char option) list \<times> cstr) option" where
  "bracket fl p =
     (if at0 p = CHR '']'' then Some ([], tl p)
      else case range_item fl p of None \<Rightarrow> None
      | Some (it, q) \<Rightarrow> map_option (\<lambda>(its, r). (it # its, r)) (bracket fl q))"
  by pat_completeness auto
termination by (relation "measure (\<lambda>(fl, p). length p)") (auto dest: range_item_shorter)

declare bracket.simps [simp del]

lemma range_loop_bracket:
  "range_loop fl test ok p = map_option (\<lambda>(its, r). (ok \<or> (\<exists>it \<in> set its. in_item test it), r)) (bracket fl p)"
proof (induction fl test ok p rule: range_loop.induct)
  case (1 fl test ok p)
  show ?case
  proof (cases "at0 p = CHR '']''")
    case True
    then show ?thesis by (simp add: range_loop.simps [of _ _ _ p] bracket.simps [of _ p])
  next
    case False
    then show ?thesis
      using 1 by (auto simp: range_loop.simps [of _ _ _ p] bracket.simps [of _ p] map_option_case split: option.split)
  qed
qed

lemma bracket_shorter: "bracket fl p = Some (its, r) \<Longrightarrow> length r \<le> length p"
  using range_loop_bracket [of fl NUL False p] range_loop_shorter [of fl NUL False p] by auto

function tokens :: "fnm_flags \<Rightarrow> cstr \<Rightarrow> tok list" where
  "tokens fl [] = []"
| "tokens fl (c # p) =
     (if c = CHR ''?'' then TAny # tokens fl p
      else if c = CHR ''*'' then TStar # tokens fl p
      else if c = CHR ''[''
      then let negate = (at0 p = CHR ''!'' \<or> at0 p = CHR ''^'') in
        case bracket fl (if negate then tl p else p) of
          None \<Rightarrow> [TBad]
        | Some (its, q) \<Rightarrow> TSet its negate # tokens fl q
      else if c = CHR 0x5C \<and> \<not> FNM_NOESCAPE fl \<and> p \<noteq> [] then TLit (hd p) # tokens fl (tl p)
      else TLit c # tokens fl p)"
  by pat_completeness auto
termination
  by (relation "measure (\<lambda>(fl, p). length p)") (auto simp: less_Suc_eq_le dest!: bracket_shorter split: if_splits)

declare tokens.simps [simp del]

text \<open>The strings of a token list; with \<open>pn\<close> the wild cards do not match a slash.\<close>

inductive gmatch :: "bool \<Rightarrow> tok list \<Rightarrow> cstr \<Rightarrow> bool" for pn :: bool where
  gm_nil: "gmatch pn [] []"
| gm_lit: "gmatch pn ts s \<Longrightarrow> gmatch pn (TLit c # ts) (c # s)"
| gm_any: "gmatch pn ts s \<Longrightarrow> \<not> (pn \<and> c = CHR ''/'') \<Longrightarrow> gmatch pn (TAny # ts) (c # s)"
| gm_set: "gmatch pn ts s \<Longrightarrow> \<not> (pn \<and> c = CHR ''/'') \<Longrightarrow> (\<exists>it \<in> set its. in_item c it) \<noteq> neg \<Longrightarrow>
     gmatch pn (TSet its neg # ts) (c # s)"
| gm_star0: "gmatch pn ts s \<Longrightarrow> gmatch pn (TStar # ts) s"
| gm_star: "gmatch pn (TStar # ts) s \<Longrightarrow> \<not> (pn \<and> c = CHR ''/'') \<Longrightarrow> gmatch pn (TStar # ts) (c # s)"

inductive_simps gmatch_simps:
  "gmatch pn [] s" "gmatch pn (TLit c # ts) s" "gmatch pn (TAny # ts) s"
  "gmatch pn (TSet its neg # ts) s" "gmatch pn (TBad # ts) s"

inductive_simps gmatch_star_simps:
  "gmatch pn (TStar # ts) []" "gmatch pn (TStar # ts) (c # s)"

lemma gmatch_star_split:
  "gmatch pn (TStar # ts) s \<longleftrightarrow> (\<exists>a b. s = a @ b \<and> \<not> (pn \<and> CHR ''/'' \<in> set a) \<and> gmatch pn ts b)"
proof (induction s)
  case Nil
  then show ?case by (auto simp: gmatch_star_simps)
next
  case (Cons c s)
  show ?case
  proof
    assume "gmatch pn (TStar # ts) (c # s)"
    then consider "gmatch pn ts (c # s)" | a b where "s = a @ b" "\<not> (pn \<and> CHR ''/'' \<in> set (c # a))" "gmatch pn ts b"
      using Cons by (auto simp: gmatch_star_simps(2))
    then show "\<exists>a b. c # s = a @ b \<and> \<not> (pn \<and> CHR ''/'' \<in> set a) \<and> gmatch pn ts b"
    proof cases
      case 1
      then show ?thesis by (intro exI [of _ "[]"] exI [of _ "c # s"]) auto
    next
      case (2 a b)
      then show ?thesis by (intro exI [of _ "c # a"] exI [of _ b]) auto
    qed
  next
    assume "\<exists>a b. c # s = a @ b \<and> \<not> (pn \<and> CHR ''/'' \<in> set a) \<and> gmatch pn ts b"
    then obtain a b where ab: "c # s = a @ b" "\<not> (pn \<and> CHR ''/'' \<in> set a)" "gmatch pn ts b" by blast
    show "gmatch pn (TStar # ts) (c # s)"
    proof (cases a)
      case Nil
      then show ?thesis using ab by (simp add: gm_star0)
    next
      case (Cons d a')
      then have "gmatch pn (TStar # ts) s" using ab Cons.IH by auto
      then show ?thesis using ab Cons by (intro gm_star) auto
    qed
  qed
qed

lemma gmatch_star_star: "gmatch pn (TStar # TStar # ts) s = gmatch pn (TStar # ts) s"
proof -
  have "gmatch pn (TStar # TStar # ts) s \<Longrightarrow> gmatch pn (TStar # ts) s"
    unfolding gmatch_star_split [of pn "TStar # ts"] gmatch_star_split [of pn ts]
    by (clarsimp) (metis Un_iff append.assoc set_append)
  then show ?thesis by (auto intro: gm_star0)
qed

lemma gmatch_tokens_stars:
  "gmatch pn (TStar # tokens fl (dropWhile (\<lambda>c. c = CHR ''*'') p)) s = gmatch pn (TStar # tokens fl p) s"
  by (induction p) (auto simp: tokens.simps gmatch_star_star)

lemma gmatch_star_end: "gmatch pn [TStar] s \<longleftrightarrow> \<not> (pn \<and> CHR ''/'' \<in> set s)"
  by (subst gmatch_star_split) (auto simp: gmatch_simps)

lemma gmatch_star_slash:
  "gmatch True (TStar # TLit CHR ''/'' # ts) s \<longleftrightarrow>
   CHR ''/'' \<in> set s \<and> gmatch True (TLit CHR ''/'' # ts) (skip_to_slash s)"
  by (induction s) (auto simp: gmatch_star_simps gmatch_simps skip_to_slash_def)

lemma rangematch_set:
  "rangematch p c fl =
    (let neg = (at0 p = CHR ''!'' \<or> at0 p = CHR ''^'') in
     case bracket fl (if neg then tl p else p) of None \<Rightarrow> None
     | Some (its, q) \<Rightarrow> if (\<exists>it \<in> set its. in_item c it) \<noteq> neg then Some q else None)"
  by (cases "bracket fl (if at0 p = CHR ''!'' \<or> at0 p = CHR ''^'' then tl p else p)")
    (auto simp: rangematch_def range_loop_bracket Let_def)

lemma fnmatch_core:
  assumes "\<not> FNM_PERIOD fl"
  shows "fnmatch fl p seen str \<longleftrightarrow> gmatch (FNM_PATHNAME fl) (tokens fl p) str"
proof -
  have "(\<not> FNM_PERIOD fl \<longrightarrow> fnmatch fl p seen str = gmatch (FNM_PATHNAME fl) (tokens fl p) str)"
    and "(\<not> FNM_PERIOD fl \<longrightarrow> p \<noteq> [] \<longrightarrow> hd p \<noteq> CHR ''*'' \<longrightarrow> \<not> (hd p = CHR ''/'' \<and> FNM_PATHNAME fl) \<longrightarrow>
      star_loop fl p str = gmatch (FNM_PATHNAME fl) (TStar # tokens fl p) str)"
    for fl p seen str
  proof (induction fl p seen str and fl p str rule: fnmatch_star_loop.induct)
    case (1 fl seen str)
    then show ?case by (auto simp: fnmatch.simps tokens.simps gmatch_simps)
  next
    case (2 fl c p seen str)
    show ?case
    proof
      assume per: "\<not> FNM_PERIOD fl"
      then have hid: "\<not> hidden fl seen str" by (simp add: hidden_def)
      consider "c = CHR ''?''" | "c = CHR ''*''" | "c = CHR ''[''"
        | (lit) "c \<noteq> CHR ''?''" "c \<noteq> CHR ''*''" "c \<noteq> CHR ''[''" by blast
      then show "fnmatch fl (c # p) seen str = gmatch (FNM_PATHNAME fl) (tokens fl (c # p)) str"
      proof cases
        case 1
        then show ?thesis using 2(1) hid per
          by (cases str) (auto simp: fnmatch.simps tokens.simps gmatch_simps slash_def)
      next
        case star: 2
        let ?p = "dropWhile (\<lambda>c. c = CHR ''*'') p"
        have fl: "fl\<lparr>FNM_PERIOD := False\<rparr> = fl" using per by (cases fl) simp
        have "gmatch (FNM_PATHNAME fl) (tokens fl (c # p)) str = gmatch (FNM_PATHNAME fl) (TStar # tokens fl ?p) str"
          using star by (simp add: tokens.simps gmatch_tokens_stars)
        moreover have "tokens fl ?p = TLit CHR ''/'' # tokens fl (tl ?p)" if "at0 ?p = CHR ''/''"
          using that by (cases ?p) (auto simp: tokens.simps)
        moreover have "hd ?p \<noteq> CHR ''*''" if "?p \<noteq> []" using hd_dropWhile [OF that] .
        moreover have "at0 ?p = hd ?p" if "?p \<noteq> []" using that by (cases ?p) auto
        ultimately show ?thesis using 2(2,3) [unfolded fl] star hid per
          unfolding fnmatch.simps(2) fl
          by (cases "?p = []") (auto simp: tokens.simps gmatch_star_end gmatch_star_slash Let_def)
      next
        case 3
        then show ?thesis using 2(4) hid per
          by (cases str) (auto simp: fnmatch.simps tokens.simps gmatch_simps slash_def rangematch_set Let_def split: option.split)
      next
        case lit
        then show ?thesis using 2(5) per
          by (cases str) (auto simp: fnmatch.simps tokens.simps gmatch_simps)
      qed
    qed
  next
    case (3 fl p)
    then show ?case
      by (cases p) (auto simp: star_loop.simps gmatch_star_simps tokens.simps gmatch_simps Let_def split: option.splits)
  next
    case (4 fl p c str)
    then show ?case by (auto simp: star_loop.simps gmatch_star_simps)
  qed
  then show ?thesis using assms by blast
qed

text \<open>
  C20. \<open>fnmatch\<close> without \<open>FNM_PERIOD\<close> decides exactly whether the string belongs to the
  language of the pattern: stars stand for any substring, question marks and brackets for one
  character, with \<open>FNM_PATHNAME\<close> none of them for a slash, and its shortcuts for a star
  at the end and for a star before a slash change nothing.
\<close>

theorem fnmatch_correct:
  assumes "\<not> FNM_PERIOD fl"
  shows "fnmatch fl p seen str \<longleftrightarrow> gmatch (FNM_PATHNAME fl) (tokens fl p) str"
  by (rule fnmatch_core [OF assms])

theorem fnmatch_correct_witness:
  "fnmatch \<lparr>FNM_NOESCAPE = True, FNM_PATHNAME = False, FNM_PERIOD = False\<rparr> ''*.c'' [] ''x/y.c'' \<longleftrightarrow>
   gmatch False [TStar, TLit CHR ''.'', TLit CHR ''c''] ''x/y.c''"
  using fnmatch_correct [of "\<lparr>FNM_NOESCAPE = True, FNM_PATHNAME = False, FNM_PERIOD = False\<rparr>" "''*.c''" "[]" "''x/y.c''"]
  by (simp add: tokens.simps)

text \<open>
  The period rule does not survive a star: a file that starts with a period is hidden from
  \<open>*\<close> in its directory, as \<open>FNM_PERIOD\<close> with \<open>FNM_PATHNAME\<close> demands, but not when an
  earlier component of the pattern has a star in front of other characters.
\<close>

theorem fnmatch_period_lost:
  fixes ne :: bool
  defines "fl \<equiv> \<lparr>FNM_NOESCAPE = ne, FNM_PATHNAME = True, FNM_PERIOD = True\<rparr>"
  shows "\<not> fnmatch fl ''ab/*'' [] ''ab/.rc'' \<and> fnmatch fl ''*b/*'' [] ''ab/.rc''"
  unfolding fl_def by (simp add: fnmatch.simps star_loop.simps hidden_def slash_def skip_to_slash_def)

end
