(* ===== verification/LwsUtils.thy ===== *)
theory LwsUtils
  imports Prelude
begin

text \<open>
  \<open>tools/libwebserver/src/utils.c\<close>: the decoder of the credentials of an HTTP request,
  \<open>__ILWS_base64decode\<close>, and the search \<open>__ILWS_stristr\<close>.
\<close>

section \<open>Base 64\<close>

definition chtb :: "u8 list" where
  "chtb =
    [64, 64, 64, 64, 64, 64, 64, 64, 64, 64, 64, 64, 64, 64, 64, 64,
     64, 64, 64, 64, 64, 64, 64, 64, 64, 64, 64, 64, 64, 64, 64, 64,
     64, 64, 64, 64, 64, 64, 64, 64, 64, 64, 64, 62, 64, 64, 64, 63,
     52, 53, 54, 55, 56, 57, 58, 59, 60, 61, 64, 64, 64, 64, 64, 64,
     64, 0, 1, 2, 3, 4, 5, 6, 7, 8, 9, 10, 11, 12, 13, 14,
     15, 16, 17, 18, 19, 20, 21, 22, 23, 24, 25, 64, 64, 64, 64, 64,
     64, 26, 27, 28, 29, 30, 31, 32, 33, 34, 35, 36, 37, 38, 39, 40,
     41, 42, 43, 44, 45, 46, 47, 48, 49, 50, 51, 64, 64, 64, 64, 64,
     64, 64, 64, 64, 64, 64, 64, 64, 64, 64, 64, 64, 64, 64, 64, 64,
     64, 64, 64, 64, 64, 64, 64, 64, 64, 64, 64, 64, 64, 64, 64, 64,
     64, 64, 64, 64, 64, 64, 64, 64, 64, 64, 64, 64, 64, 64, 64, 64,
     64, 64, 64, 64, 64, 64, 64, 64, 64, 64, 64, 64, 64, 64, 64, 64,
     64, 64, 64, 64, 64, 64, 64, 64, 64, 64, 64, 64, 64, 64, 64, 64,
     64, 64, 64, 64, 64, 64, 64, 64, 64, 64, 64, 64, 64, 64, 64, 64,
     64, 64, 64, 64, 64, 64, 64, 64, 64, 64, 64, 64, 64, 64, 64, 64,
     64, 64, 64, 64, 64, 64, 64, 64, 64, 64, 64, 64, 64, 64, 64, 64]"

definition b64_val :: "char \<Rightarrow> u8" where
  "b64_val c = chtb ! code c"

text \<open>The three bytes of four characters.\<close>

definition b64_byte1 :: "cstr \<Rightarrow> u8" where
  "b64_byte1 s = push_bit 2 (b64_val (s ! 0)) OR drop_bit 4 (b64_val (s ! 1))"

definition b64_byte2 :: "cstr \<Rightarrow> u8" where
  "b64_byte2 s = push_bit 4 (b64_val (s ! 1)) OR drop_bit 2 (b64_val (s ! 2))"

definition b64_byte3 :: "cstr \<Rightarrow> u8" where
  "b64_byte3 s = push_bit 6 (b64_val (s ! 2)) OR b64_val (s ! 3)"

function b64_quads :: "nat \<Rightarrow> cstr \<Rightarrow> u8 list \<Rightarrow> nat \<times> cstr \<times> u8 list" where
  "b64_quads nprbytes s out =
     (if nprbytes > 4
      then b64_quads (nprbytes - 4) (drop 4 s) (out @ [b64_byte1 s, b64_byte2 s, b64_byte3 s])
      else (nprbytes, s, out))"
  by pat_completeness auto
termination by (relation "measure (\<lambda>(n, s, out). n)") auto

text \<open>
  The result and the bytes written.  The terminating NUL ends the first loop, its table entry
  being 64.
\<close>

definition base64decode :: "cstr \<Rightarrow> int \<times> u8 list" where
  "base64decode bufcoded =
     (let nprbytes = length (takeWhile (\<lambda>c. b64_val c \<le> 63) bufcoded);
          nb = int ((nprbytes + 3) div 4 * 3);
          (n, s, out) = b64_quads nprbytes bufcoded [];
          out = (if n > 1 then out @ [b64_byte1 s] else out);
          out = (if n > 2 then out @ [b64_byte2 s] else out);
          out = (if n > 3 then out @ [b64_byte3 s] else out)
      in (nb - ((4 - int n) AND 3), out))"

declare b64_quads.simps [simp del]

section \<open>The decoder inverts the encoding of RFC 4648\<close>

definition b64_alphabet :: cstr where
  "b64_alphabet = ''ABCDEFGHIJKLMNOPQRSTUVWXYZabcdefghijklmnopqrstuvwxyz0123456789+/''"

definition b64_chr :: "u8 \<Rightarrow> char" where
  "b64_chr w = b64_alphabet ! unat w"

text \<open>The four groups of six bits of three bytes.\<close>

definition b64_six1 :: "u8 \<Rightarrow> u8" where "b64_six1 a = drop_bit 2 a"
definition b64_six2 :: "u8 \<Rightarrow> u8 \<Rightarrow> u8" where "b64_six2 a b = push_bit 4 (a AND 3) OR drop_bit 4 b"
definition b64_six3 :: "u8 \<Rightarrow> u8 \<Rightarrow> u8" where "b64_six3 b c = push_bit 2 (b AND 15) OR drop_bit 6 c"
definition b64_six4 :: "u8 \<Rightarrow> u8" where "b64_six4 c = c AND 63"

fun b64_encode :: "u8 list \<Rightarrow> cstr" where
  "b64_encode [] = []"
| "b64_encode [a] = [b64_chr (b64_six1 a), b64_chr (b64_six2 a 0), CHR ''='', CHR ''='']"
| "b64_encode [a, b] = [b64_chr (b64_six1 a), b64_chr (b64_six2 a b), b64_chr (b64_six3 b 0), CHR ''='']"
| "b64_encode (a # b # c # ws) =
     b64_chr (b64_six1 a) # b64_chr (b64_six2 a b) # b64_chr (b64_six3 b c) # b64_chr (b64_six4 c) # b64_encode ws"

lemma b64_val_alphabet: "n < 64 \<Longrightarrow> b64_val (b64_alphabet ! n) = word_of_nat n"
proof -
  have "\<forall>n \<in> {..<64}. b64_val (b64_alphabet ! n) = word_of_nat n"
    by (simp add: lessThan_nat_numeral b64_alphabet_def b64_val_def chtb_def code_def)
  then show "n < 64 \<Longrightarrow> b64_val (b64_alphabet ! n) = word_of_nat n" by blast
qed

lemma b64_val_chr: "w < 64 \<Longrightarrow> b64_val (b64_chr w) = w"
  using b64_val_alphabet [of "unat w"] by (simp add: b64_chr_def word_less_nat_alt)

lemma b64_val_equals: "b64_val CHR ''='' = 64"
  by (simp add: b64_val_def chtb_def code_def)

text \<open>The six-bit groups.\<close>

lemma and_masks:
  "w AND 3 = take_bit 2 w" "w AND 15 = take_bit 4 w" "w AND 63 = take_bit 6 w" for w :: u8
  by (simp_all add: take_bit_eq_mask mask_eq_exp_minus_1)

lemma bit_high [simp]: "8 \<le> n \<Longrightarrow> \<not> bit (w :: u8) n"
  using bit_imp_le_length [of w n] by auto

lemma u8_eqI:
  "\<lbrakk>bit v 0 = bit w 0; bit v 1 = bit w 1; bit v 2 = bit w 2; bit v 3 = bit w 3;
    bit v 4 = bit w 4; bit v 5 = bit w 5; bit v 6 = bit w 6; bit v 7 = bit w 7\<rbrakk> \<Longrightarrow> v = w" for v w :: u8
proof (rule bit_word_eqI)
  fix n assume *: "bit v 0 = bit w 0" "bit v 1 = bit w 1" "bit v 2 = bit w 2" "bit v 3 = bit w 3"
    "bit v 4 = bit w 4" "bit v 5 = bit w 5" "bit v 6 = bit w 6" "bit v 7 = bit w 7" and n: "n < LENGTH(8)"
  have "n = 0 \<or> n = 1 \<or> n = 2 \<or> n = 3 \<or> n = 4 \<or> n = 5 \<or> n = 6 \<or> n = 7"
    using n by (simp only: len_num0 len_num1 len_bit0 len_bit1 mult_2 mult_1) presburger
  then show "bit v n = bit w n" using * by (elim disjE; simp only:)
qed

lemma sextet_less: "b64_six1 a < 64" "b64_six2 a b < 64" "b64_six3 b c < 64" "b64_six4 c < 64"
proof -
  have less: "w < 64" if "take_bit 6 w = w" for w :: u8
  proof -
    have "unat (take_bit 6 w) = unat w mod 64" by (simp add: take_bit_eq_mod unat_mod)
    then have "unat w = unat w mod 64" by (simp only: that)
    also have "\<dots> < 64" by simp
    finally show ?thesis by (simp add: word_less_nat_alt)
  qed
  show "b64_six1 a < 64" "b64_six2 a b < 64" "b64_six3 b c < 64" "b64_six4 c < 64"
    unfolding and_masks b64_six1_def b64_six2_def b64_six3_def b64_six4_def
    by (rule less, rule u8_eqI; simp add: bit_simps)+
qed

lemma sextet_le: "b64_six1 a \<le> 63" "b64_six2 a b \<le> 63" "b64_six3 b c \<le> 63" "b64_six4 c \<le> 63"
proof -
  have "w < 64 \<Longrightarrow> w \<le> 63" for w :: u8 by (simp add: word_less_nat_alt word_le_nat_alt)
  then show "b64_six1 a \<le> 63" "b64_six2 a b \<le> 63" "b64_six3 b c \<le> 63" "b64_six4 c \<le> 63"
    using sextet_less by blast+
qed

text \<open>The three bytes put together again.\<close>

lemma b64_join:
  "push_bit 2 (b64_six1 a) OR drop_bit 4 (b64_six2 a b) = a"
  "push_bit 4 (b64_six2 a b) OR drop_bit 2 (b64_six3 b c) = b"
  "push_bit 6 (b64_six3 b c) OR b64_six4 c = c"
  unfolding and_masks b64_six1_def b64_six2_def b64_six3_def b64_six4_def
  by (rule u8_eqI; simp add: bit_simps)+

lemma b64_quad_bytes:
  "b64_byte1 (b64_encode (a # b # c # ws)) = a" "b64_byte2 (b64_encode (a # b # c # ws)) = b"
  "b64_byte3 (b64_encode (a # b # c # ws)) = c"
  "b64_byte1 (b64_encode [a, b]) = a" "b64_byte2 (b64_encode [a, b]) = b" "b64_byte1 (b64_encode [a]) = a"
  by (simp_all add: b64_byte1_def b64_byte2_def b64_byte3_def b64_val_chr sextet_less b64_join)

definition b64_data :: "u8 list \<Rightarrow> nat" where
  "b64_data ws = length ws + (length ws + 2) div 3"

lemma takeWhile_encode: "length (takeWhile (\<lambda>c. b64_val c \<le> 63) (b64_encode ws)) = b64_data ws"
proof (induction ws rule: b64_encode.induct)
  case (4 a b c ws)
  then show ?case by (simp add: b64_val_chr sextet_less sextet_le b64_data_def)
qed (simp_all add: b64_val_chr sextet_less sextet_le b64_val_equals b64_data_def)

lemma b64_data_pos: "0 < b64_data (a # ws)"
  by (simp add: b64_data_def)

text \<open>The loop leaves the last group, which the three conditional steps decode.\<close>

definition b64_last :: "nat \<times> cstr \<times> u8 list \<Rightarrow> nat \<times> u8 list" where
  "b64_last r = (case r of (n, s, out) \<Rightarrow>
     (n, out @ (if n > 1 then [b64_byte1 s] else []) @ (if n > 2 then [b64_byte2 s] else []) @
         (if n > 3 then [b64_byte3 s] else [])))"

lemma b64_quads_decode:
  "b64_last (b64_quads (b64_data ws) (b64_encode ws) out) =
    (if ws = [] then 0 else b64_data (drop (3 * ((length ws - 1) div 3)) ws), out @ ws)"
proof (induction ws arbitrary: out rule: b64_encode.induct)
  case (4 a b c ws)
  show ?case
  proof (cases ws)
    case Nil
    have "b64_quads 4 (b64_encode [a, b, c]) out = (4, b64_encode [a, b, c], out)"
      by (subst b64_quads.simps) simp
    moreover have "b64_data [a, b, c] = 4" by (simp add: b64_data_def)
    ultimately show ?thesis unfolding Nil using b64_quad_bytes(1-3) [of a b c "[]"]
      by (simp add: b64_last_def del: b64_encode.simps)
  next
    case (Cons d ds)
    have d: "b64_data (a # b # c # ws) = b64_data ws + 4" "0 < b64_data ws"
      by (simp_all add: b64_data_def Cons)
    have l: "3 * ((length (a # b # c # ws) - 1) div 3) = 3 * ((length ws - 1) div 3) + 3"
      by (simp add: Cons) presburger
    have "b64_quads (b64_data (a # b # c # ws)) (b64_encode (a # b # c # ws)) out =
        b64_quads (b64_data ws) (b64_encode ws) (out @ [a, b, c])"
      using d b64_quad_bytes(1-3) [of a b c ws] by (subst b64_quads.simps) simp
    moreover have "drop (3 * k + 3) (a # b # c # ws) = drop (3 * k) ws" for k
      using drop_drop [of "3 * k" 3 "a # b # c # ws"] by simp
    ultimately show ?thesis unfolding l using 4 [of "out @ [a, b, c]"] Cons by simp
  qed
qed (simp_all add: b64_quads.simps b64_last_def b64_data_def b64_quad_bytes [simplified])

text \<open>
  C31. Base 64 decoding inverts the encoding: from the text of any byte string the decoder
  writes the bytes back and returns their number.
\<close>

theorem base64_roundtrip: "base64decode (b64_encode ws) = (int (length ws), ws)"
proof -
  obtain n s out where q: "b64_quads (b64_data ws) (b64_encode ws) [] = (n, s, out)" by (cases "b64_quads (b64_data ws) (b64_encode ws) []") auto
  have l: "n = (if ws = [] then 0 else b64_data (drop (3 * ((length ws - 1) div 3)) ws))"
    "out @ (if n > 1 then [b64_byte1 s] else []) @ (if n > 2 then [b64_byte2 s] else []) @
      (if n > 3 then [b64_byte3 s] else []) = ws"
    using b64_quads_decode [of ws "[]"] unfolding q b64_last_def by auto
  have "int ((b64_data ws + 3) div 4 * 3) - ((4 - int n) AND 3) = int (length ws)"
  proof (cases ws)
    case (Cons a as)
    define k where "k = length as div 3"
    obtain r where r: "length as = 3 * k + r" "r < 3" unfolding k_def by (metis mod_less_divisor mult_div_mod_eq zero_less_numeral)
    have "length (drop (3 * k) ws) = r + 1" using r Cons by simp
    moreover have "(length ws - 1) div 3 = k" using Cons by (simp add: k_def)
    moreover have cases: "r = 0 \<or> r = 1 \<or> r = 2" using r(2) by linarith
    ultimately have n: "n = r + 2" using l(1) Cons by (auto simp: b64_data_def)
    have "b64_data ws = 4 * k + r + 2" using r cases Cons by (auto simp: b64_data_def)
    then have "(b64_data ws + 3) div 4 * 3 = 3 * k + 3" using cases by auto
    moreover have "(4 - int n) AND 3 = 2 - int r" using cases n by auto
    ultimately show ?thesis using r Cons by simp
  qed (use l in \<open>simp add: b64_data_def\<close>)
  then show ?thesis using l(2) q by (auto simp: base64decode_def takeWhile_encode Let_def split: if_splits)
qed

section \<open>Searching without regard to case\<close>

text \<open>\<open>strncasecmp\<close> of the string from an index on and a needle: whether the result is 0.\<close>

fun ncase_eq :: "nat \<Rightarrow> cstr \<Rightarrow> cstr \<Rightarrow> bool" where
  "ncase_eq 0 s t = True"
| "ncase_eq (Suc n) s t =
     (if c_tolower (at0 s) \<noteq> c_tolower (at0 t) then False
      else if at0 s = NUL then True else ncase_eq n (tl s) (tl t))"

text \<open>
  The pointers are compared as \<open>unsigned int\<close>: only the low half of an address counts.
  \<open>base\<close> is the address of the string.
\<close>

function stristr_loop :: "u64 \<Rightarrow> cstr \<Rightarrow> cstr \<Rightarrow> nat \<Rightarrow> fault + nat option" where
  "stristr_loop base str nedle i =
     (if i > length str then Inl OutOfBounds
      else if \<not> ncase_eq (length nedle) (drop i str) nedle \<and>
        (ucast (base + of_nat (i + length nedle)) :: u32) \<le> ucast (base + of_nat (length str))
      then stristr_loop base str nedle (i + 1)
      else Inr (if \<not> ncase_eq (length nedle) (drop i str) nedle then None else Some i))"
  by pat_completeness auto
termination by (relation "measure (\<lambda>(b, s, n, i). Suc (length s) - i)") auto

definition stristr :: "u64 \<Rightarrow> cstr \<Rightarrow> cstr \<Rightarrow> fault + nat option" where
  "stristr base str nedle =
     (if length str < length nedle then Inr None else stristr_loop base str nedle 0)"

declare stristr_loop.simps [simp del]

lemma ncase_eq_prefix:
  "nul_free s \<Longrightarrow> nul_free t \<Longrightarrow> ncase_eq (length t) s t \<longleftrightarrow> map c_tolower (take (length t) s) = map c_tolower t"
proof (induction t arbitrary: s)
  case (Cons d t)
  have "d \<noteq> NUL" using Cons.prems by simp
  then have "c_tolower NUL \<noteq> c_tolower d" by (metis c_tolower_NUL)
  with Cons show ?case by (cases s) auto
qed simp

definition case_occ :: "cstr \<Rightarrow> cstr \<Rightarrow> nat \<Rightarrow> bool" where
  "case_occ str nedle i \<longleftrightarrow> i + length nedle \<le> length str \<and>
     map c_tolower (take (length nedle) (drop i str)) = map c_tolower nedle"

lemma low_half: "unat base mod 2 ^ 32 + k < 2 ^ 32 \<Longrightarrow> unat (ucast (base + of_nat k :: u64) :: u32) = unat base mod 2 ^ 32 + k"
proof -
  assume k: "unat base mod 2 ^ 32 + k < 2 ^ 32"
  have "unat (ucast (base + of_nat k :: u64) :: u32) = (unat base + k) mod 2 ^ 64 mod 2 ^ 32"
    by (simp add: unsigned_ucast_eq take_bit_eq_mod unat_word_ariths unat_of_nat mod_simps)
  also have "\<dots> = (unat base + k) mod 2 ^ 32" by (rule mod_mod_cancel) simp
  also have "\<dots> = (unat base mod 2 ^ 32 + k) mod 2 ^ 32" by (rule mod_add_left_eq [symmetric])
  finally show ?thesis using k by simp
qed

lemma stristr_loop_spec:
  assumes nf: "nul_free str" "nul_free nedle" and low: "unat base mod 2 ^ 32 + length str + 1 < 2 ^ 32"
    and n: "length nedle \<le> length str"
  shows "i + length nedle \<le> length str + 1 \<Longrightarrow> \<forall>j < i. \<not> case_occ str nedle j \<Longrightarrow> i \<le> length str \<Longrightarrow>
    stristr_loop base str nedle i =
      Inr (if \<exists>i. case_occ str nedle i then Some (LEAST i. case_occ str nedle i) else None)"
proof (induction "Suc (length str) - i" arbitrary: i rule: less_induct)
  case less
  have eq: "ncase_eq (length nedle) (drop i str) nedle = case_occ str nedle i"
  proof -
    have "map c_tolower (take (length nedle) (drop i str)) = map c_tolower nedle \<Longrightarrow> i + length nedle \<le> length str"
      using less.prems(3) by (drule_tac arg_cong [where f = length]) auto
    then show ?thesis using nf ncase_eq_prefix [of "drop i str" nedle] by (auto simp: case_occ_def)
  qed
  have ptr: "(ucast (base + of_nat (i + length nedle)) :: u32) \<le> ucast (base + of_nat (length str)) \<longleftrightarrow> i + length nedle \<le> length str"
    using low less.prems low_half [of base "i + length nedle"] low_half [of base "length str"]
    by (simp only: word_le_nat_alt) auto
  show ?case
  proof (cases "case_occ str nedle i")
    case True
    then have "(LEAST i. case_occ str nedle i) = i" using less.prems(2) by (intro Least_equality) (auto simp: not_less [symmetric])
    then show ?thesis using True less.prems eq by (subst stristr_loop.simps) auto
  next
    case False
    show ?thesis
    proof (cases "i + length nedle \<le> length str")
      case in_range: True
      have "nedle \<noteq> []" using False less.prems by (auto simp: case_occ_def)
      then have "i + 1 \<le> length str" using in_range by (cases nedle) auto
      then have "stristr_loop base str nedle (i + 1) =
          Inr (if \<exists>i. case_occ str nedle i then Some (LEAST i. case_occ str nedle i) else None)"
        using less.prems in_range False by (intro less.hyps) (auto simp: less_Suc_eq)
      then show ?thesis using less.prems eq ptr in_range False by (subst stristr_loop.simps) simp
    next
      case out: False
      then have "\<not> (\<exists>i. case_occ str nedle i)" using less.prems(1,2) by (force simp: case_occ_def)
      then show ?thesis using less.prems eq ptr out by (subst stristr_loop.simps) auto
    qed
  qed
qed

text \<open>
  In a string that does not cross a 4 GB boundary, \<open>__ILWS_stristr\<close> finds the first
  occurrence of the needle up to case, and nothing exactly when there is none; it does not
  read outside the string.
\<close>

theorem stristr_correct:
  assumes "nul_free str" "nul_free nedle" "unat base mod 2 ^ 32 + length str + 1 < 2 ^ 32"
  shows "stristr base str nedle =
    Inr (if \<exists>i. case_occ str nedle i then Some (LEAST i. case_occ str nedle i) else None)"
proof (cases "length str < length nedle")
  case True
  then have "\<not> (\<exists>i. case_occ str nedle i)" by (auto simp: case_occ_def)
  then show ?thesis using True by (simp add: stristr_def)
next
  case False
  then show ?thesis using stristr_loop_spec [OF assms, of 0] by (simp add: stristr_def)
qed

lemma ab_lower: "c_tolower CHR ''a'' = CHR ''a''" "c_tolower CHR ''b'' = CHR ''b''" "c_tolower CHR ''B'' = CHR ''b''"
  by (simp_all add: c_tolower_def c_isupper_def code_def char_of_def bit_0)

theorem stristr_correct_witness: "stristr 0x1000 ''ab'' ''B'' = Inr (Some 1)"
proof -
  have 1: "case_occ ''ab'' ''B'' 1" by (simp add: case_occ_def ab_lower)
  moreover have "(LEAST i. case_occ ''ab'' ''B'' i) = 1"
  proof (rule Least_equality, rule 1)
    fix i assume "case_occ ''ab'' ''B'' i"
    then show "1 \<le> i" by (cases i) (simp_all add: case_occ_def ab_lower)
  qed
  ultimately show ?thesis using stristr_correct [of "''ab''" "''B''" "0x1000"] by auto
qed

text \<open>
  Across such a boundary the comparison of the truncated addresses goes wrong: the search
  gives up after the first position.
\<close>

lemma stristr_boundary: "stristr 0xFFFFFFFE ''ab'' ''B'' = Inr None \<and> case_occ ''ab'' ''B'' 1"
  by (simp add: stristr_def stristr_loop.simps [of _ _ _ 0] ab_lower case_occ_def)

end
