(* ===== verification/LwsHeap.thy ===== *)
theory LwsHeap
  imports Prelude
begin

text \<open>
  The linked lists of \<open>tools/libwebserver/src\<close>: \<open>memory.c\<close> (the buffers of a request),
  \<open>outstream.c\<close> (the output files of a client) and \<open>gethandler.c\<close> (the handlers of a
  server).  They live in a store of cells; \<open>malloc\<close> may fail at any call, which a list of
  outcomes decides, and an address that is not allocated cannot be read, written or freed.
\<close>

section \<open>The store\<close>

record 'c heap =
  cells :: "nat \<Rightarrow> 'c option"
  brk :: nat
  fails :: "bool list"

text \<open>\<open>malloc\<close>: a fresh cell, or a null pointer when the next outcome is a failure.\<close>

definition halloc :: "'c \<Rightarrow> 'c heap \<Rightarrow> nat option \<times> 'c heap" where
  "halloc c h =
     (if fails h \<noteq> [] \<and> hd (fails h) then (None, h\<lparr>fails := tl (fails h)\<rparr>)
      else (Some (brk h), h\<lparr>cells := (cells h)(brk h \<mapsto> c), brk := brk h + 1, fails := tl (fails h)\<rparr>))"

definition hload :: "'c heap \<Rightarrow> nat \<Rightarrow> fault + 'c" where
  "hload h a = (case cells h a of None \<Rightarrow> Inl BadPointer | Some c \<Rightarrow> Inr c)"

definition hstore :: "nat \<Rightarrow> 'c \<Rightarrow> 'c heap \<Rightarrow> fault + 'c heap" where
  "hstore a c h = (case cells h a of None \<Rightarrow> Inl BadPointer | Some _ \<Rightarrow> Inr (h\<lparr>cells := (cells h)(a \<mapsto> c)\<rparr>))"

definition hfree :: "nat \<Rightarrow> 'c heap \<Rightarrow> fault + 'c heap" where
  "hfree a h = (case cells h a of None \<Rightarrow> Inl BadPointer | Some _ \<Rightarrow> Inr (h\<lparr>cells := (cells h)(a := None)\<rparr>))"

text \<open>\<open>__ILWS_free\<close>: the null pointer is skipped.\<close>

definition ilws_free :: "nat option \<Rightarrow> 'c heap \<Rightarrow> fault + 'c heap" where
  "ilws_free p h = (case p of None \<Rightarrow> Inr h | Some a \<Rightarrow> hfree a h)"

definition hload_ptr :: "'c heap \<Rightarrow> nat option \<Rightarrow> fault + 'c" where
  "hload_ptr h p = (case p of None \<Rightarrow> Inl NullDeref | Some a \<Rightarrow> hload h a)"

text \<open>
  \<open>while(temp->next!=NULL) temp=temp->next\<close>.  A list has fewer nodes than addresses were
  given out, so that \<open>brk\<close> turns are enough.
\<close>

fun last_node :: "('c \<Rightarrow> nat option option) \<Rightarrow> nat \<Rightarrow> 'c heap \<Rightarrow> nat \<Rightarrow> fault + nat" where
  "last_node nxt 0 h a = Inl OutOfFuel"
| "last_node nxt (Suc fuel) h a =
     bind_res (hload h a) (\<lambda>c. case nxt c of
         None \<Rightarrow> Inl BadPointer
       | Some None \<Rightarrow> Inr a
       | Some (Some b) \<Rightarrow> last_node nxt fuel h b)"

section \<open>Chains of nodes\<close>

fun chain :: "('c \<Rightarrow> nat option option) \<Rightarrow> (nat \<Rightarrow> 'c option) \<Rightarrow> nat option \<Rightarrow> nat list \<Rightarrow> bool" where
  "chain nxt m p [] \<longleftrightarrow> p = None"
| "chain nxt m p (a # as) \<longleftrightarrow> p = Some a \<and> (\<exists>c n. m a = Some c \<and> nxt c = Some n \<and> chain nxt m n as)"

lemma chain_dom: "chain nxt m p as \<Longrightarrow> set as \<subseteq> dom m"
  by (induction as arbitrary: p) auto

lemma chain_upd: "a \<notin> set as \<Longrightarrow> chain nxt (m(a := v)) p as = chain nxt m p as"
  by (induction as arbitrary: p) auto

text \<open>A node type: a link field that can be read and replaced.\<close>

locale node_type =
  fixes nxt :: "'c \<Rightarrow> nat option option" and set_next :: "nat option \<Rightarrow> 'c \<Rightarrow> 'c"
  assumes nxt_set: "nxt c \<noteq> None \<Longrightarrow> nxt (set_next n c) = Some n"
begin

lemma last_node_chain:
  "chain nxt (cells h) (Some a) as \<Longrightarrow> length as \<le> fuel \<Longrightarrow> last_node nxt fuel h a = Inr (last as)"
proof (induction as arbitrary: a fuel)
  case (Cons b as)
  then obtain c n where b: "a = b" "cells h b = Some c" "nxt c = Some n" "chain nxt (cells h) n as" by auto
  from Cons.prems obtain f where f: "fuel = Suc f" by (cases fuel) auto
  show ?case
  proof (cases as)
    case Nil
    then show ?thesis using b f by (simp add: hload_def)
  next
    case (Cons d ds)
    then have "n = Some d" using b by simp
    then show ?thesis using Cons.IH [of d f] Cons.prems b f Cons by (simp add: hload_def)
  qed
qed simp

text \<open>Linking a fresh node after the last one.\<close>

lemma chain_snoc:
  "\<lbrakk>chain nxt m p (as @ [b]); m b = Some c; distinct (as @ [b]); a \<notin> set (as @ [b]); nxt v = Some None\<rbrakk> \<Longrightarrow>
   chain nxt (m(a \<mapsto> v, b \<mapsto> set_next (Some a) c)) p (as @ [b, a])"
proof (induction as arbitrary: p)
  case Nil
  then have "nxt c \<noteq> None" by auto
  with Nil show ?case using nxt_set by auto
next
  case (Cons d as)
  then show ?case by auto
qed

text \<open>A link to storage that was released: whoever walks the list reads it.\<close>

lemma last_node_dangling:
  "\<lbrakk>chain nxt m (Some p) (bs @ [b]); distinct (bs @ [b]); m b = Some c; cells h = m(b \<mapsto> set_next (Some a) c);
    a \<notin> dom m; a \<noteq> b; length bs + 1 < fuel\<rbrakk> \<Longrightarrow>
   last_node nxt fuel h p = Inl BadPointer"
proof (induction bs arbitrary: p fuel)
  case Nil
  then obtain f where f: "fuel = Suc (Suc f)" by (cases fuel; cases "fuel - 1") auto
  have "nxt c \<noteq> None" "cells h a = None" using Nil by auto
  then show ?case using Nil f nxt_set [of c "Some a"] by (auto simp: hload_def)
next
  case (Cons d bs)
  obtain f where f: "fuel = Suc f" using Cons.prems by (cases fuel) auto
  from Cons.prems(1) obtain cd n where d: "p = d" "m d = Some cd" "nxt cd = Some n" "chain nxt m n (bs @ [b])" by auto
  then obtain q where q: "n = Some q" by (cases bs) auto
  have "d \<noteq> b" using Cons.prems(2) by auto
  then have "cells h d = Some cd" using d Cons.prems(4) by simp
  moreover have "last_node nxt f h q = Inl BadPointer"
    using Cons.prems d q f by (intro Cons.IH) auto
  ultimately show ?case using d q f by (simp add: hload_def)
qed

text \<open>Unlinking the second node.\<close>

lemma chain_cut:
  "\<lbrakk>chain nxt m p (b # a # as); m b = Some c; distinct (b # a # as); m a = Some d; nxt d = Some n\<rbrakk> \<Longrightarrow>
   chain nxt (m(b \<mapsto> set_next n c)) p (b # as)"
  using nxt_set [of c n] by (auto simp: chain_upd)

end

end
