(* ===== verification/LwsMemory.thy ===== *)
theory LwsMemory
  imports LwsHeap
begin

text \<open>
  \<open>tools/libwebserver/src/memory.c\<close>: the list of the buffers allocated for a request, which
  are all released together.
\<close>

section \<open>The code\<close>

text \<open>A \<open>struct memrequest\<close>, or a block of bytes.\<close>

datatype mcell = MNode "nat option" "nat option" | MBlock nat

fun m_next :: "mcell \<Rightarrow> nat option option" where
  "m_next (MNode p n) = Some n"
| "m_next (MBlock s) = None"

fun m_set_next :: "nat option \<Rightarrow> mcell \<Rightarrow> mcell" where
  "m_set_next n (MNode p _) = MNode p n"
| "m_set_next n (MBlock s) = MBlock s"

fun m_node :: "mcell \<Rightarrow> fault + (nat option \<times> nat option)" where
  "m_node (MNode p n) = Inr (p, n)"
| "m_node (MBlock s) = Inl BadPointer"

interpretation mem: node_type m_next m_set_next
proof
  fix c n assume "m_next c \<noteq> None"
  then show "m_next (m_set_next n c) = Some n" by (cases c) auto
qed

definition init_buffer_list :: "mcell heap \<Rightarrow> nat option \<times> mcell heap" where
  "init_buffer_list h = halloc (MNode None None) h"

definition add_buffer :: "nat option \<Rightarrow> nat \<Rightarrow> mcell heap \<Rightarrow> fault + (nat option \<times> mcell heap)" where
  "add_buffer list sz h =
     (if sz = 0 then Inr (None, h)
      else case list of
        None \<Rightarrow> Inr (None, h)
      | Some l \<Rightarrow>
          bind_res (last_node m_next (brk h) h l) (\<lambda>tmem.
          let (p, h) = halloc (MNode None None) h in
          bind_res (hload h tmem) (\<lambda>c. bind_res (hstore tmem (m_set_next p c) h) (\<lambda>h.
          case p of
            None \<Rightarrow> Inr (None, h)
          | Some a \<Rightarrow>
              let (q, h) = halloc (MBlock sz) h in
              bind_res (hstore a (MNode q None) h) (\<lambda>h. Inr (q, h))))))"

definition delete_buffer :: "nat \<Rightarrow> mcell heap \<Rightarrow> fault + mcell heap" where
  "delete_buffer m h =
     bind_res (hload h m) (\<lambda>c. bind_res (m_node c) (\<lambda>(p, n).
     bind_res (ilws_free p h) (hfree m)))"

definition delete_next_buffer :: "nat \<Rightarrow> mcell heap \<Rightarrow> fault + mcell heap" where
  "delete_next_buffer m h =
     bind_res (hload h m) (\<lambda>c. bind_res (m_node c) (\<lambda>(p, tmem).
     bind_res (hload_ptr h tmem) (\<lambda>d. bind_res (m_node d) (\<lambda>(_, n).
     bind_res (hstore m (MNode p n) h) (\<lambda>h. delete_buffer (the tmem) h)))))"

text \<open>The loop of \<open>__ILWS_delete_buffer_list\<close>; \<open>brk\<close> turns are enough.\<close>

fun delete_rest :: "nat \<Rightarrow> nat \<Rightarrow> mcell heap \<Rightarrow> fault + mcell heap" where
  "delete_rest 0 m h = Inl OutOfFuel"
| "delete_rest (Suc fuel) m h =
     bind_res (hload h m) (\<lambda>c. bind_res (m_node c) (\<lambda>(p, n).
     if n = None then Inr h else bind_res (delete_next_buffer m h) (delete_rest fuel m)))"

definition delete_buffer_list :: "nat option \<Rightarrow> mcell heap \<Rightarrow> fault + mcell heap" where
  "delete_buffer_list list h =
     (case list of None \<Rightarrow> Inr h
      | Some l \<Rightarrow> bind_res (delete_rest (brk h) l h) (delete_buffer l))"

section \<open>Everything is released\<close>

text \<open>
  The list \<open>l\<close> in the store \<open>h\<close>, where \<open>m0\<close> was allocated before: its nodes \<open>as\<close> and
  their blocks \<open>pf\<close> are all different and new, and nothing else has changed.
\<close>

definition owned :: "nat list \<Rightarrow> (nat \<Rightarrow> nat option) \<Rightarrow> nat set" where
  "owned as pf = set as \<union> {b. \<exists>a \<in> set as. pf a = Some b}"

definition mem_inv :: "(nat \<Rightarrow> mcell option) \<Rightarrow> mcell heap \<Rightarrow> nat \<Rightarrow> nat list \<Rightarrow> (nat \<Rightarrow> nat option) \<Rightarrow> bool" where
  "mem_inv m0 h l as pf \<longleftrightarrow>
     chain m_next (cells h) (Some l) as \<and> distinct as \<and> as \<noteq> [] \<and>
     (\<forall>a \<in> set as. \<exists>n. cells h a = Some (MNode (pf a) n)) \<and>
     (\<forall>a \<in> set as. \<forall>b. pf a = Some b \<longrightarrow> b \<notin> set as \<and> b \<in> dom (cells h)) \<and>
     (\<forall>a \<in> set as. \<forall>a' \<in> set as. pf a = pf a' \<longrightarrow> pf a \<noteq> None \<longrightarrow> a = a') \<and>
     owned as pf \<inter> dom m0 = {} \<and>
     (\<forall>x. x \<notin> owned as pf \<longrightarrow> cells h x = m0 x) \<and>
     (\<forall>x. brk h \<le> x \<longrightarrow> cells h x = None)"

definition heap_ok :: "'c heap \<Rightarrow> bool" where
  "heap_ok h \<longleftrightarrow> (\<forall>x. brk h \<le> x \<longrightarrow> cells h x = None)"

lemma init_inv:
  assumes "heap_ok h" "init_buffer_list h = (Some l, h')"
  shows "mem_inv (cells h) h' l [l] (\<lambda>_. None)"
  using assms by (auto simp: init_buffer_list_def halloc_def mem_inv_def owned_def heap_ok_def split: if_splits)

lemma mem_inv_simps:
  assumes "mem_inv m0 h l as pf"
  shows "chain m_next (cells h) (Some l) as" "distinct as" "as \<noteq> []"
    "a \<in> set as \<Longrightarrow> \<exists>n. cells h a = Some (MNode (pf a) n)"
    "a \<in> set as \<Longrightarrow> pf a = Some b \<Longrightarrow> b \<notin> set as \<and> b \<in> dom (cells h)"
    "a \<in> set as \<Longrightarrow> a' \<in> set as \<Longrightarrow> pf a = pf a' \<Longrightarrow> pf a \<noteq> None \<Longrightarrow> a = a'"
    "owned as pf \<inter> dom m0 = {}" "x \<notin> owned as pf \<Longrightarrow> cells h x = m0 x" "brk h \<le> x \<Longrightarrow> cells h x = None"
proof -
  show "chain m_next (cells h) (Some l) as" using assms unfolding mem_inv_def by (elim conjE)
  show "distinct as" using assms unfolding mem_inv_def by (elim conjE)
  show "as \<noteq> []" using assms unfolding mem_inv_def by (elim conjE)
  show "owned as pf \<inter> dom m0 = {}" using assms unfolding mem_inv_def by (elim conjE)
  have "\<forall>a \<in> set as. \<exists>n. cells h a = Some (MNode (pf a) n)" using assms unfolding mem_inv_def by (elim conjE)
  then show "a \<in> set as \<Longrightarrow> \<exists>n. cells h a = Some (MNode (pf a) n)" by (rule bspec)
  have "\<forall>a \<in> set as. \<forall>b. pf a = Some b \<longrightarrow> b \<notin> set as \<and> b \<in> dom (cells h)"
    using assms unfolding mem_inv_def by (elim conjE)
  then show "a \<in> set as \<Longrightarrow> pf a = Some b \<Longrightarrow> b \<notin> set as \<and> b \<in> dom (cells h)" by blast
  have "\<forall>a \<in> set as. \<forall>a' \<in> set as. pf a = pf a' \<longrightarrow> pf a \<noteq> None \<longrightarrow> a = a'"
    using assms unfolding mem_inv_def by (elim conjE)
  then show "a \<in> set as \<Longrightarrow> a' \<in> set as \<Longrightarrow> pf a = pf a' \<Longrightarrow> pf a \<noteq> None \<Longrightarrow> a = a'" by blast
  have "\<forall>x. x \<notin> owned as pf \<longrightarrow> cells h x = m0 x" using assms unfolding mem_inv_def by (elim conjE)
  then show "x \<notin> owned as pf \<Longrightarrow> cells h x = m0 x" by blast
  have "\<forall>x. brk h \<le> x \<longrightarrow> cells h x = None" using assms unfolding mem_inv_def by (elim conjE)
  then show "brk h \<le> x \<Longrightarrow> cells h x = None" by blast
qed

lemma mem_invI:
  assumes "chain m_next (cells h) (Some l) as" "distinct as" "as \<noteq> []"
    "\<And>a. a \<in> set as \<Longrightarrow> \<exists>n. cells h a = Some (MNode (pf a) n)"
    "\<And>a b. a \<in> set as \<Longrightarrow> pf a = Some b \<Longrightarrow> b \<notin> set as \<and> b \<in> dom (cells h)"
    "\<And>a a'. a \<in> set as \<Longrightarrow> a' \<in> set as \<Longrightarrow> pf a = pf a' \<Longrightarrow> pf a \<noteq> None \<Longrightarrow> a = a'"
    "owned as pf \<inter> dom m0 = {}" "\<And>x. x \<notin> owned as pf \<Longrightarrow> cells h x = m0 x" "\<And>x. brk h \<le> x \<Longrightarrow> cells h x = None"
  shows "mem_inv m0 h l as pf"
  unfolding mem_inv_def by (intro conjI allI ballI impI assms; assumption?)

lemma nodes_le_brk:
  assumes "mem_inv m0 h l as pf" shows "length as \<le> brk h"
proof -
  have "set as \<subseteq> {..<brk h}"
  proof
    fix x assume "x \<in> set as"
    then show "x \<in> {..<brk h}" using mem_inv_simps(4,9) [OF assms, of x] by (cases "brk h \<le> x") auto
  qed
  then show ?thesis using card_mono [of "{..<brk h}" "set as"] distinct_card [OF mem_inv_simps(2) [OF assms]] by simp
qed

lemma mem_last: "mem_inv m0 h l as pf \<Longrightarrow> last_node m_next (brk h) h l = Inr (last as)"
  by (rule mem.last_node_chain) (auto dest: mem_inv_simps(1) nodes_le_brk)

lemma owned_less_brk: "mem_inv m0 h l as pf \<Longrightarrow> x \<in> owned as pf \<Longrightarrow> x < brk h"
proof -
  assume inv: "mem_inv m0 h l as pf" and "x \<in> owned as pf"
  then have "cells h x \<noteq> None"
    using mem_inv_simps(4,5) [OF inv] unfolding owned_def by blast
  then show "x < brk h" using mem_inv_simps(9) [OF inv, of x] by (cases "brk h \<le> x") auto
qed

text \<open>The link of a node at the end, and the effect of linking a new one there.\<close>

lemma chain_last_next: "chain nxt m p (bs @ [b]) \<Longrightarrow> m b = Some c \<Longrightarrow> nxt c = Some None"
  by (induction bs arbitrary: p) auto

lemma owned_snoc: "a \<notin> set as \<Longrightarrow> owned (as @ [a]) (pf(a := None)) = insert a (owned as pf)"
  by (auto simp: owned_def)

lemma mem_inv_link:
  assumes inv: "mem_inv m0 h l as pf" and b: "as = bs @ [b]" "cells h b = Some (MNode (pf b) nb)"
    and h': "cells h' = (cells h)(brk h \<mapsto> MNode None None, b \<mapsto> MNode (pf b) (Some (brk h)))" "brk h' = brk h + 1"
  shows "mem_inv m0 h' l (as @ [brk h]) (pf(brk h := None))"
proof -
  note m = mem_inv_simps [OF inv]
  let ?a = "brk h"
  have own: "x \<in> owned as pf \<Longrightarrow> x < ?a" for x using owned_less_brk [OF inv] .
  then have a: "?a \<notin> set as" "?a \<notin> owned as pf" and bset: "b \<in> set as" "b \<noteq> ?a"
    using b(1) by (force simp: owned_def)+
  have "chain m_next ((cells h)(?a \<mapsto> MNode None None, b \<mapsto> m_set_next (Some ?a) (MNode (pf b) nb))) (Some l) (bs @ [b, ?a])"
    using m(1,2) b a(1) by (intro mem.chain_snoc) auto
  then have 1: "chain m_next (cells h') (Some l) (as @ [?a])" by (simp add: h' b(1))
  have 2: "\<exists>n. cells h' x = Some (MNode ((pf(?a := None)) x) n)" if "x \<in> set (as @ [?a])" for x
    using that m(4) [of x] bset by (auto simp: h')
  have 3: "y \<notin> set (as @ [?a]) \<and> y \<in> dom (cells h')" if "x \<in> set (as @ [?a])" "(pf(?a := None)) x = Some y" for x y
  proof -
    have x: "x \<in> set as" "pf x = Some y" using that by (auto split: if_splits)
    then show ?thesis using m(5) [OF x] own [of y] by (auto simp: h' owned_def)
  qed
  have 4: "x = x'" if "x \<in> set (as @ [?a])" "x' \<in> set (as @ [?a])" "(pf(?a := None)) x = (pf(?a := None)) x'"
    "(pf(?a := None)) x \<noteq> None" for x x'
    using that m(6) [of x x'] by (auto split: if_splits)
  have 5: "owned (as @ [?a]) (pf(?a := None)) = insert ?a (owned as pf)" using a(1) by (rule owned_snoc)
  have "m0 ?a = None" using m(8) [OF a(2)] m(9) [of ?a] by simp
  then have 6: "insert ?a (owned as pf) \<inter> dom m0 = {}" using m(7) by auto
  have 7: "x \<notin> insert ?a (owned as pf) \<Longrightarrow> cells h' x = m0 x" for x
    using m(8) [of x] bset by (auto simp: h' owned_def)
  have 8: "brk h' \<le> x \<Longrightarrow> cells h' x = None" for x
    using m(9) [of x] own [of b] bset by (auto simp: h' owned_def)
  show ?thesis
  proof (rule mem_invI, unfold 5)
    show "distinct (as @ [?a])" using m(2) a(1) by simp
    show "insert ?a (owned as pf) \<inter> dom m0 = {}" by (rule 6)
  qed ((rule 1 2 3 7 8; assumption)+ | (rule 4; assumption) | simp)+
qed

lemma owned_block: "a \<in> set as \<Longrightarrow> pf a = None \<Longrightarrow> owned as (pf(a := Some x)) = insert x (owned as pf)"
proof -
  assume a: "a \<in> set as" "pf a = None"
  have "(\<exists>c \<in> set as. (pf(a := Some x)) c = Some b) \<longleftrightarrow> b = x \<or> (\<exists>c \<in> set as. pf c = Some b)" for b
  proof
    assume "b = x \<or> (\<exists>c \<in> set as. pf c = Some b)"
    then show "\<exists>c \<in> set as. (pf(a := Some x)) c = Some b"
    proof
      assume "\<exists>c \<in> set as. pf c = Some b"
      then obtain c where "c \<in> set as" "pf c = Some b" by blast
      then show ?thesis using a by (intro bexI [of _ c]) auto
    qed (use a in \<open>intro bexI [of _ a], simp\<close>)
  qed (auto split: if_splits)
  then show ?thesis by (auto simp: owned_def)
qed

lemma mem_inv_block:
  assumes inv: "mem_inv m0 h l as pf" and a: "a \<in> set as" "pf a = None" "cells h a = Some (MNode None n)"
    and h': "cells h' = (cells h)(brk h \<mapsto> MBlock sz, a \<mapsto> MNode (Some (brk h)) n)" "brk h' = brk h + 1"
  shows "mem_inv m0 h' l as (pf(a := Some (brk h)))"
proof -
  note m = mem_inv_simps [OF inv]
  let ?x = "brk h"
  have own: "x \<in> owned as pf \<Longrightarrow> x < ?x" for x using owned_less_brk [OF inv] .
  have x: "?x \<notin> set as" "?x \<notin> owned as pf" and ax: "a \<noteq> ?x"
    using a(1) own [of ?x] own [of a] by (auto simp: owned_def)
  have fresh: "pf y \<noteq> Some ?x" if "y \<in> set as" for y using x(2) that by (auto simp: owned_def)
  have ch: "chain m_next m p bs \<Longrightarrow> m a = Some (MNode None n) \<Longrightarrow> ?x \<notin> set bs \<Longrightarrow>
      chain m_next (m(?x \<mapsto> MBlock sz, a \<mapsto> MNode (Some ?x) n)) p bs" for m p bs
    by (induction bs arbitrary: p) auto
  have 1: "chain m_next (cells h') (Some l) as" unfolding h' using m(1) a(3) x(1) by (rule ch)
  have 2: "\<exists>n. cells h' y = Some (MNode ((pf(a := Some ?x)) y) n)" if "y \<in> set as" for y
    using that m(4) [of y] x(1) by (auto simp: h')
  have 3: "z \<notin> set as \<and> z \<in> dom (cells h')" if "y \<in> set as" "(pf(a := Some ?x)) y = Some z" for y z
    using that m(5) [of y z] x(1) ax by (auto simp: h' split: if_splits)
  have 4: "y = y'" if "y \<in> set as" "y' \<in> set as" "(pf(a := Some ?x)) y = (pf(a := Some ?x)) y'"
    "(pf(a := Some ?x)) y \<noteq> None" for y y'
    using that m(6) [of y y'] fresh [of y] fresh [of y'] by (auto split: if_splits)
  have 5: "owned as (pf(a := Some ?x)) = insert ?x (owned as pf)" using a by (intro owned_block)
  have "m0 ?x = None" using m(8) [OF x(2)] m(9) [of ?x] by simp
  then have 6: "insert ?x (owned as pf) \<inter> dom m0 = {}" using m(7) by auto
  have 7: "y \<notin> insert ?x (owned as pf) \<Longrightarrow> cells h' y = m0 y" for y
    using m(8) [of y] a(1) by (auto simp: h' owned_def)
  have 8: "brk h' \<le> y \<Longrightarrow> cells h' y = None" for y
    using m(9) [of y] own [of a] a(1) by (auto simp: h' owned_def)
  show ?thesis
    by (rule mem_invI, unfold 5) ((rule 1 2 3 6 7 8 m(2,3); assumption) | (rule 4; assumption))+
qed

lemma mem_inv_cong:
  assumes "cells h' = cells h" "brk h' = brk h" "mem_inv m0 h l as pf"
  shows "mem_inv m0 h' l as pf"
  using assms(3) unfolding mem_inv_def assms(1,2) .

lemma halloc_cases:
  "fails h \<noteq> [] \<and> hd (fails h) \<Longrightarrow> halloc c h = (None, h\<lparr>fails := tl (fails h)\<rparr>)"
  "\<not> (fails h \<noteq> [] \<and> hd (fails h)) \<Longrightarrow>
     halloc c h = (Some (brk h), h\<lparr>cells := (cells h)(brk h \<mapsto> c), brk := brk h + 1, fails := tl (fails h)\<rparr>)"
  by (auto simp: halloc_def)

lemma add_inv:
  assumes inv: "mem_inv m0 h l as pf"
  shows "\<exists>q h' as' pf'. add_buffer (Some l) sz h = Inr (q, h') \<and> mem_inv m0 h' l as' pf'"
proof (cases "sz = 0")
  case True
  then show ?thesis using inv by (auto simp: add_buffer_def)
next
  case False
  note m = mem_inv_simps [OF inv]
  define b where "b = last as"
  have "as = butlast as @ [b]" unfolding b_def by (simp add: m(3))
  then obtain bs where as: "as = bs @ [b]" by blast
  then have "b \<in> set as" by simp
  then obtain nb where cb: "cells h b = Some (MNode (pf b) nb)" using m(4) by blast
  have bb: "b \<noteq> brk h" using owned_less_brk [OF inv, of b] \<open>b \<in> set as\<close> by (auto simp: owned_def)
  have walk: "last_node m_next (brk h) h l = Inr b" unfolding b_def by (rule mem_last [OF inv])
  show ?thesis
  proof (cases "fails h \<noteq> [] \<and> hd (fails h)")
    case True
    have "m_next (MNode (pf b) nb) = Some None"
      using m(1) unfolding as by (rule chain_last_next) (rule cb)
    then have "add_buffer (Some l) sz h = Inr (None, h\<lparr>fails := tl (fails h), cells := cells h\<rparr>)"
      using False True walk cb by (simp add: add_buffer_def halloc_def hload_def hstore_def fun_upd_idem)
    moreover have "mem_inv m0 (h\<lparr>fails := tl (fails h), cells := cells h\<rparr>) l as pf"
      by (rule mem_inv_cong [OF _ _ inv]) simp_all
    ultimately show ?thesis by blast
  next
    case node: False
    let ?a = "brk h"
    define h1 where "h1 = h\<lparr>brk := ?a + 1, fails := tl (fails h),
      cells := (cells h)(?a \<mapsto> MNode None None, b \<mapsto> MNode (pf b) (Some ?a))\<rparr>"
    have inv1: "mem_inv m0 h1 l (as @ [?a]) (pf(?a := None))"
      by (rule mem_inv_link [OF inv as cb]) (simp_all add: h1_def)
    have c1: "cells h1 ?a = Some (MNode None None)" using bb by (simp add: h1_def)
    have h1: "add_buffer (Some l) sz h =
      (let (q, h) = halloc (MBlock sz) h1 in bind_res (hstore ?a (MNode q None) h) (\<lambda>h. Inr (q, h)))"
      using False walk cb bb by (simp add: add_buffer_def halloc_cases(2) [OF node] hload_def hstore_def h1_def)
    show ?thesis
    proof (cases "fails h1 \<noteq> [] \<and> hd (fails h1)")
      case True
      have "add_buffer (Some l) sz h = Inr (None, h1\<lparr>fails := tl (fails h1), cells := cells h1\<rparr>)"
        unfolding h1 halloc_cases(1) [OF True] using c1 by (simp add: hstore_def fun_upd_idem)
      moreover have "mem_inv m0 (h1\<lparr>fails := tl (fails h1), cells := cells h1\<rparr>) l (as @ [?a]) (pf(?a := None))"
        by (rule mem_inv_cong [OF _ _ inv1]) simp_all
      ultimately show ?thesis by blast
    next
      case False
      let ?h2 = "h1\<lparr>cells := (cells h1)(brk h1 \<mapsto> MBlock sz, ?a \<mapsto> MNode (Some (brk h1)) None), brk := brk h1 + 1, fails := tl (fails h1)\<rparr>"
      have "brk h1 \<noteq> ?a" by (simp add: h1_def)
      then have "add_buffer (Some l) sz h = Inr (Some (brk h1), ?h2)"
        unfolding h1 halloc_cases(2) [OF False] using c1 by (simp add: hstore_def)
      moreover have "mem_inv m0 ?h2 l (as @ [?a]) ((pf(?a := None))(?a := Some (brk h1)))"
        by (rule mem_inv_block [OF inv1 _ _ c1]) simp_all
      ultimately show ?thesis by blast
    qed
  qed
qed

text \<open>Releasing the buffer after a node.\<close>

lemma delete_next_inv:
  assumes inv: "mem_inv m0 h l (b # a # as) pf"
  shows "\<exists>h'. delete_next_buffer b h = Inr h' \<and> mem_inv m0 h' l (b # as) pf"
proof -
  note m = mem_inv_simps [OF inv]
  from m(1) obtain cb ca n where c: "cells h b = Some cb" "m_next cb = Some (Some a)" "cells h a = Some ca" "m_next ca = Some n"
    by auto
  obtain nb na where "cells h b = Some (MNode (pf b) nb)" "cells h a = Some (MNode (pf a) na)"
    using m(4) [of b] m(4) [of a] by auto
  with c have cb: "cells h b = Some (MNode (pf b) (Some a))" and ca: "cells h a = Some (MNode (pf a) n)" by auto
  have ab: "a \<noteq> b" "a \<notin> set as" "b \<notin> set as" using m(2) by auto
  have pa: "pf a = Some q \<Longrightarrow> q \<noteq> a \<and> q \<noteq> b \<and> q \<notin> set as \<and> q \<in> dom (cells h)" for q
    using m(5) [of a q] by auto
  define h' where "h' = h\<lparr>cells := (case pf a of None \<Rightarrow> (cells h)(b \<mapsto> MNode (pf b) n)
      | Some q \<Rightarrow> (cells h)(b \<mapsto> MNode (pf b) n, q := None))(a := None)\<rparr>"
  have run: "delete_next_buffer b h = Inr h'"
  proof (cases "pf a")
    case None
    then show ?thesis using cb ca ab
      by (simp add: delete_next_buffer_def delete_buffer_def hload_def hload_ptr_def hstore_def hfree_def ilws_free_def h'_def)
  next
    case (Some q)
    then show ?thesis using cb ca ab pa [OF Some]
      by (auto simp: delete_next_buffer_def delete_buffer_def hload_def hload_ptr_def hstore_def hfree_def ilws_free_def h'_def
        split: option.split)
  qed
  have other: "cells h' x = (if x = a \<or> pf a = Some x then None else if x = b then Some (MNode (pf b) n) else cells h x)" for x
    using pa by (cases "pf a") (auto simp: h'_def)
  have own: "owned (b # a # as) pf = insert a ({x. pf a = Some x} \<union> owned (b # as) pf)" by (auto simp: owned_def)
  have notown: "x \<notin> owned (b # as) pf" if "x = a \<or> pf a = Some x" for x
  proof -
    have "pf c \<noteq> Some a" if "c \<in> set (b # as)" for c using m(5) [of c a] that by auto
    moreover have "pf c \<noteq> Some x" if "c \<in> set (b # as)" "pf a = Some x" for c
      using m(6) [of a c] that ab by auto
    moreover have "x \<notin> set (b # as)" using that pa ab by auto
    ultimately show ?thesis using that by (auto simp: owned_def)
  qed
  have "chain m_next (cells h') q cs" if "chain m_next (cells h) q cs" "set cs \<subseteq> set as" for q cs
    using that
  proof (induction cs arbitrary: q)
    case (Cons d ds)
    then have "cells h' d = cells h d" using other [of d] notown [of d] ab by (auto simp: owned_def)
    then show ?case using Cons by auto
  qed simp
  moreover have "chain m_next (cells h) n as" using m(1) ca ab by auto
  ultimately have 1: "chain m_next (cells h') (Some l) (b # as)"
    using other [of b] notown [of b] m(1) ab by (auto simp: owned_def)
  have 2: "\<exists>n. cells h' x = Some (MNode (pf x) n)" if "x \<in> set (b # as)" for x
    using that other [of x] notown [of x] m(4) [of x] by (auto simp: owned_def)
  have 3: "y \<notin> set (b # as) \<and> y \<in> dom (cells h')" if "x \<in> set (b # as)" "pf x = Some y" for x y
    using that other [of y] notown [of y] m(5) [of x y] by (auto simp: owned_def)
  have 4: "x = x'" if "x \<in> set (b # as)" "x' \<in> set (b # as)" "pf x = pf x'" "pf x \<noteq> None" for x x'
    using that m(6) [of x x'] by auto
  have 6: "owned (b # as) pf \<inter> dom m0 = {}" using m(7) own by blast
  have 7: "cells h' x = m0 x" if "x \<notin> owned (b # as) pf" for x
  proof (cases "x = a \<or> pf a = Some x")
    case True
    then have "x \<in> owned (b # a # as) pf" using own by blast
    then have "x \<notin> dom m0" using m(7) by blast
    then show ?thesis using other [of x] True by (simp add: domIff)
  next
    case False
    then have "x \<notin> owned (b # a # as) pf" "x \<noteq> b" using own that by (auto simp: owned_def)
    then show ?thesis using m(8) other [of x] False by auto
  qed
  have 8: "cells h' x = None" if "brk h' \<le> x" for x
    using that m(9) [of x] other [of x] cb by (auto simp: h'_def)
  have "mem_inv m0 h' l (b # as) pf"
  proof (rule mem_invI)
    show "distinct (b # as)" using m(2) by simp
  qed ((rule 1 2 3 6 7 8; assumption)+ | (rule 4; assumption) | simp)+
  with run show ?thesis by blast
qed

lemma delete_rest_inv:
  "mem_inv m0 h l (l # as) pf \<Longrightarrow> length as < fuel \<Longrightarrow> \<exists>h'. delete_rest fuel l h = Inr h' \<and> mem_inv m0 h' l [l] pf"
proof (induction as arbitrary: fuel h)
  case Nil
  then obtain f c where "fuel = Suc f" "cells h l = Some (MNode (pf l) c)"
    using mem_inv_simps(4) [OF Nil.prems(1), of l] by (cases fuel) auto
  moreover have "c = None" if "cells h l = Some (MNode (pf l) c)" for c
    using mem_inv_simps(1) [OF Nil.prems(1)] that by auto
  ultimately show ?case using Nil by (auto simp: hload_def)
next
  case (Cons a as)
  obtain f where f: "fuel = Suc f" using Cons.prems by (cases fuel) auto
  obtain c where c: "cells h l = Some (MNode (pf l) (Some a))"
    using mem_inv_simps(1) [OF Cons.prems(1)] mem_inv_simps(4) [OF Cons.prems(1), of l] by auto
  obtain h' where h': "delete_next_buffer l h = Inr h'" "mem_inv m0 h' l (l # as) pf"
    using delete_next_inv [OF Cons.prems(1)] by blast
  then obtain h2 where "delete_rest f l h' = Inr h2" "mem_inv m0 h2 l [l] pf"
    using Cons.IH [of h' f] Cons.prems f by auto
  then show ?case using f c h' by (auto simp: hload_def)
qed

lemma mem_inv_head: "mem_inv m0 h l as pf \<Longrightarrow> \<exists>bs. as = l # bs"
  using mem_inv_simps(1,3) [of m0 h l as pf] by (cases as) auto

lemma delete_list_inv:
  assumes "mem_inv m0 h l as pf"
  shows "\<exists>h'. delete_buffer_list (Some l) h = Inr h' \<and> cells h' = m0"
proof -
  obtain bs where as: "as = l # bs" using mem_inv_head [OF assms] by blast
  have "length bs < brk h" using nodes_le_brk [OF assms] as by simp
  then obtain h' where h': "delete_rest (brk h) l h = Inr h'" "mem_inv m0 h' l [l] pf"
    using delete_rest_inv assms as by blast
  note m = mem_inv_simps [OF h'(2)]
  obtain n where cl: "cells h' l = Some (MNode (pf l) n)" using m(4) [of l] by auto
  have out: "x \<notin> owned [l] pf \<Longrightarrow> cells h' x = m0 x" "x \<in> owned [l] pf \<Longrightarrow> m0 x = None" for x
    using m(8) [of x] m(7) by auto
  show ?thesis
  proof (cases "pf l")
    case None
    then have "delete_buffer l h' = Inr (h'\<lparr>cells := (cells h')(l := None)\<rparr>)"
      using cl by (simp add: delete_buffer_def hload_def ilws_free_def hfree_def)
    moreover have "(cells h')(l := None) = m0"
      using out None by (auto simp: owned_def fun_eq_iff)
    ultimately show ?thesis using h' by (auto simp: delete_buffer_list_def)
  next
    case (Some q)
    then have q: "q \<noteq> l" "q \<in> dom (cells h')" using m(5) [of l q] by auto
    then have "delete_buffer l h' = Inr (h'\<lparr>cells := (cells h')(q := None, l := None)\<rparr>)"
      using cl Some by (auto simp: delete_buffer_def hload_def ilws_free_def hfree_def)
    moreover have "(cells h')(q := None, l := None) = m0"
      using out Some by (auto simp: owned_def fun_eq_iff)
    ultimately show ?thesis using h' by (auto simp: delete_buffer_list_def)
  qed
qed

text \<open>The calls of a request: a list of buffer sizes.\<close>

fun add_buffers :: "nat option \<Rightarrow> nat list \<Rightarrow> mcell heap \<Rightarrow> fault + mcell heap" where
  "add_buffers l [] h = Inr h"
| "add_buffers l (s # ss) h = bind_res (add_buffer l s h) (\<lambda>(q, h). add_buffers l ss h)"

lemma add_buffers_inv:
  "mem_inv m0 h l as pf \<Longrightarrow> \<exists>h' as' pf'. add_buffers (Some l) ss h = Inr h' \<and> mem_inv m0 h' l as' pf'"
proof (induction ss arbitrary: h as pf)
  case (Cons s ss)
  obtain q h1 as1 pf1 where "add_buffer (Some l) s h = Inr (q, h1)" "mem_inv m0 h1 l as1 pf1"
    using add_inv [OF Cons.prems] by blast
  then show ?case using Cons.IH by auto
qed auto

text \<open>
  C10. The buffers of a request leave nothing behind: whatever sizes are asked for and whichever
  allocations fail, every call succeeds without a bad access, and deleting the list releases
  each node and each buffer once, so that the store is what it was before.
\<close>

theorem request_buffers_released:
  assumes "heap_ok h" "init_buffer_list h = (Some l, h1)"
  shows "\<exists>h2 h3. add_buffers (Some l) sizes h1 = Inr h2 \<and> delete_buffer_list (Some l) h2 = Inr h3 \<and> cells h3 = cells h"
proof -
  obtain h2 as pf where "add_buffers (Some l) sizes h1 = Inr h2" "mem_inv (cells h) h2 l as pf"
    using add_buffers_inv [OF init_inv [OF assms]] by blast
  then show ?thesis using delete_list_inv by blast
qed

theorem request_buffers_released_witness:
  "\<exists>h2 h3. add_buffers (Some 0) [10, 0, 7] (snd (init_buffer_list \<lparr>cells = Map.empty, brk = 0, fails = [False, True]\<rparr>)) = Inr h2 \<and>
     delete_buffer_list (Some 0) h2 = Inr h3 \<and> cells h3 = Map.empty"
  using request_buffers_released [of "\<lparr>cells = Map.empty, brk = 0, fails = [False, True]\<rparr>" 0 _ "[10, 0, 7]"]
  by (simp add: heap_ok_def init_buffer_list_def halloc_def)

end
