(* ===== verification/LwsHandlers.thy ===== *)
theory LwsHandlers
  imports LwsHeap
begin

text \<open>
  \<open>tools/libwebserver/src/gethandler.c\<close>: the list of the handlers of a server.  A
  \<open>struct gethandler\<close> and the strings it points to are cells of a store; the field \<open>type\<close>
  of the list head is never set.
\<close>

section \<open>The code\<close>

datatype hdl = HFunc "nat option" | HPath nat

record gethandler =
  gh_str :: "nat option"
  gh_type :: "int option"
  gh_hdl :: hdl
  gh_flag :: int
  gh_next :: "nat option"

datatype hcell = HNode gethandler | HText cstr

abbreviation "GH_FUNCTION \<equiv> 0 :: int"
abbreviation "GH_DIRECTORY \<equiv> 1 :: int"
abbreviation "GH_CGI \<equiv> 2 :: int"

fun h_next :: "hcell \<Rightarrow> nat option option" where
  "h_next (HNode g) = Some (gh_next g)"
| "h_next (HText s) = None"

fun h_set_next :: "nat option \<Rightarrow> hcell \<Rightarrow> hcell" where
  "h_set_next n (HNode g) = HNode (g\<lparr>gh_next := n\<rparr>)"
| "h_set_next n (HText s) = HText s"

interpretation hnd: node_type h_next h_set_next
proof
  fix c n assume "h_next c \<noteq> None"
  then show "h_next (h_set_next n c) = Some n" by (cases c) auto
qed

definition init_handler_list :: "hcell heap \<Rightarrow> nat option \<times> hcell heap" where
  "init_handler_list h =
     halloc (HNode \<lparr>gh_str = None, gh_type = None, gh_hdl = HFunc None, gh_flag = 0, gh_next = None\<rparr>) h"

text \<open>The handle of the new node: \<open>None\<close> when \<open>strdup\<close> finds no storage.\<close>

definition new_hdl :: "int \<Rightarrow> nat option \<Rightarrow> cstr option \<Rightarrow> hcell heap \<Rightarrow> fault + (hdl option \<times> hcell heap)" where
  "new_hdl type func path h =
     (if type = GH_FUNCTION then Inr (Some (HFunc func), h)
      else if type = GH_DIRECTORY \<or> type = GH_CGI
      then case path of
          None \<Rightarrow> Inl NullDeref
        | Some s \<Rightarrow> let (p, h) = halloc (HText s) h in Inr (map_option HPath p, h)
      else Inr (Some (HFunc None), h))"

definition add_handler :: "nat \<Rightarrow> cstr \<Rightarrow> nat option \<Rightarrow> cstr option \<Rightarrow> int \<Rightarrow> int \<Rightarrow> hcell heap \<Rightarrow> fault + (bool \<times> hcell heap)" where
  "add_handler handler mstr func path flag type h =
     bind_res (last_node h_next (brk h) h handler) (\<lambda>temp.
     let g = \<lparr>gh_str = None, gh_type = None, gh_hdl = HFunc None, gh_flag = 0, gh_next = None\<rparr>;
         (p, h) = halloc (HNode g) h
     in bind_res (hload h temp) (\<lambda>c. bind_res (hstore temp (h_set_next p c) h) (\<lambda>h.
     case p of
       None \<Rightarrow> Inr (False, h)
     | Some a \<Rightarrow>
         let (q, h) = halloc (HText mstr) h in
         case q of
           None \<Rightarrow> bind_res (hfree a h) (\<lambda>h. Inr (False, h))
         | Some s \<Rightarrow>
             bind_res (new_hdl type func path h) (\<lambda>(d, h).
             case d of
               None \<Rightarrow> bind_res (hfree s h) (\<lambda>h. bind_res (hfree a h) (\<lambda>h. Inr (False, h)))
             | Some d \<Rightarrow>
                 bind_res (hstore a (HNode \<lparr>gh_str = Some s, gh_type = Some type, gh_hdl = d, gh_flag = flag, gh_next = None\<rparr>) h)
                   (\<lambda>h. Inr (True, h))))))"

section \<open>Adding a handler\<close>

lemma chain_le_brk:
  assumes "chain nxt (cells h) p as" "distinct as" "\<forall>x. brk h \<le> x \<longrightarrow> cells h x = None"
  shows "length as \<le> brk h" "x \<in> set as \<Longrightarrow> x < brk h"
proof -
  have sub: "set as \<subseteq> {..<brk h}"
  proof
    fix x assume "x \<in> set as"
    then have "cells h x \<noteq> None" using chain_dom [OF assms(1)] by auto
    then show "x \<in> {..<brk h}" using assms(3) by (cases "brk h \<le> x") auto
  qed
  then show "x \<in> set as \<Longrightarrow> x < brk h" by auto
  show "length as \<le> brk h" using card_mono [OF _ sub] distinct_card [OF assms(2)] by simp
qed

text \<open>
  With enough storage a handler for a function becomes the last of the list, with its
  string.  When the storage for the string is refused, the call reports the failure but
  leaves the released node linked, and every further call walks into it.
\<close>

theorem add_handler_result:
  assumes list: "chain h_next (cells h) (Some l) as" "distinct as" "\<forall>x. brk h \<le> x \<longrightarrow> cells h x = None"
  shows "(fails h = [] \<longrightarrow> (\<exists>h' g. add_handler l mstr func path flag GH_FUNCTION h = Inr (True, h') \<and>
      chain h_next (cells h') (Some l) (as @ [brk h]) \<and> cells h' (brk h) = Some (HNode g) \<and>
      gh_hdl g = HFunc func \<and> (\<exists>s. gh_str g = Some s \<and> cells h' s = Some (HText mstr)))) \<and>
    (fails h = [False, True] \<longrightarrow> (\<exists>h'. add_handler l mstr func path flag type h = Inr (False, h') \<and>
      (\<forall>mstr func path flag type. add_handler l mstr func path flag type h' = Inl BadPointer)))"
proof -
  obtain b bs where as: "as = bs @ [b]" using list(1) by (cases as rule: rev_cases) auto
  then obtain g where cb: "cells h b = Some (HNode g)" "gh_next g = None"
  proof -
    have "chain h_next m p (bs @ [b]) \<Longrightarrow> \<exists>c. m b = Some c \<and> h_next c = Some None" for m p
      by (induction bs arbitrary: p) auto
    then obtain c where "cells h b = Some c" "h_next c = Some None" using list(1) as by blast
    then show ?thesis using that by (cases c) auto
  qed
  have blt: "b < brk h" using chain_le_brk(2) [OF list, of b] as by simp
  have walk: "last_node h_next (brk h) h l = Inr b"
    using hnd.last_node_chain [OF list(1) chain_le_brk(1) [OF list]] as by simp
  let ?a = "brk h"
  have notin: "?a \<notin> set as" using chain_le_brk(2) [OF list, of ?a] by auto
  define g0 where "g0 = \<lparr>gh_str = None, gh_type = None, gh_hdl = HFunc None, gh_flag = 0, gh_next = None\<rparr>"
  have snoc: "chain h_next ((cells h)(?a \<mapsto> HNode v, b \<mapsto> HNode (g\<lparr>gh_next := Some ?a\<rparr>))) (Some l) (as @ [?a])"
    if "gh_next v = None" for v
    using hnd.chain_snoc [of "cells h" "Some l" bs b "HNode g" ?a "HNode v"] list as cb notin that by simp
  have ok: "\<exists>h' g. add_handler l mstr func path flag GH_FUNCTION h = Inr (True, h') \<and>
      chain h_next (cells h') (Some l) (as @ [brk h]) \<and> cells h' (brk h) = Some (HNode g) \<and>
      gh_hdl g = HFunc func \<and> (\<exists>s. gh_str g = Some s \<and> cells h' s = Some (HText mstr))" if emp: "fails h = []"
  proof -
    define v where "v = \<lparr>gh_str = Some (?a + 1), gh_type = Some GH_FUNCTION, gh_hdl = HFunc func, gh_flag = flag, gh_next = None\<rparr>"
    define m where "m = (cells h)(?a \<mapsto> HNode v, b \<mapsto> HNode (g\<lparr>gh_next := Some ?a\<rparr>), ?a + 1 \<mapsto> HText mstr)"
    obtain h' where h': "add_handler l mstr func path flag GH_FUNCTION h = Inr (True, h')" "cells h' = m"
      using emp walk cb blt
      by (simp add: add_handler_def halloc_def hload_def hstore_def new_hdl_def m_def v_def fun_upd_twist Let_def)
    have "?a + 1 \<notin> set (as @ [?a])" using chain_le_brk(2) [OF list, of "?a + 1"] by auto
    then have "chain h_next m (Some l) (as @ [?a])"
      unfolding m_def using snoc [of v] by (simp add: chain_upd v_def)
    moreover have "m ?a = Some (HNode v)" "m (?a + 1) = Some (HText mstr)" using blt by (auto simp: m_def)
    ultimately show ?thesis using h' by (auto simp: v_def)
  qed
  have bad: "\<exists>h'. add_handler l mstr func path flag type h = Inr (False, h') \<and>
      (\<forall>mstr func path flag type. add_handler l mstr func path flag type h' = Inl BadPointer)" if ff: "fails h = [False, True]"
  proof -
    define m where "m = (cells h)(b \<mapsto> h_set_next (Some ?a) (HNode g))"
    have "m = (cells h)(?a := None, b \<mapsto> HNode (g\<lparr>gh_next := Some ?a\<rparr>))"
      using list(3) by (auto simp: m_def fun_eq_iff)
    then obtain h' where h': "add_handler l mstr func path flag type h = Inr (False, h')" "cells h' = m" "brk h' = brk h + 1"
      using ff walk cb blt
      by (simp add: add_handler_def halloc_def hload_def hstore_def hfree_def fun_upd_twist Let_def)
    have "length bs + 1 < brk h + 1" using chain_le_brk(1) [OF list] as by simp
    then have "last_node h_next (brk h') h' l = Inl BadPointer"
      unfolding h'(3) using list as cb(1) h'(2) m_def blt
      by (intro hnd.last_node_dangling [of "cells h" l bs b "HNode g"]) auto
    then show ?thesis using h'(1) by (auto simp: add_handler_def)
  qed
  show ?thesis using ok bad by blast
qed

theorem add_handler_result_witness:
  "\<exists>h'. add_handler 0 ''/x'' None None 0 GH_FUNCTION
      \<lparr>cells = [0 \<mapsto> HNode \<lparr>gh_str = None, gh_type = None, gh_hdl = HFunc None, gh_flag = 0, gh_next = None\<rparr>],
       brk = 1, fails = [False, True]\<rparr> = Inr (False, h') \<and>
    add_handler 0 ''/y'' None None 0 GH_FUNCTION h' = Inl BadPointer"
  using add_handler_result [of "\<lparr>cells = [0 \<mapsto> HNode \<lparr>gh_str = None, gh_type = None, gh_hdl = HFunc None, gh_flag = 0,
      gh_next = None\<rparr>], brk = 1, fails = [False, True]\<rparr>" 0 "[0]" "''/x''" None None 0 GH_FUNCTION]
  by auto

end
