(* ===== verification/LwsOutstream.thy ===== *)
theory LwsOutstream
  imports LwsHeap
begin

text \<open>
  \<open>tools/libwebserver/src/outstream.c\<close>: the list of the files that are sent to a client, some
  of them temporary and deleted afterwards.  The calls of the file system are recorded in a
  log; whether a name can be opened and whether a file can be removed are parameters.
\<close>

section \<open>The code\<close>

text \<open>A \<open>struct outstream\<close>; fields that were not set hold nothing.\<close>

record ostream =
  os_fstream :: "nat option"
  os_fname :: "nat option"
  os_todelete :: bool
  os_wsize :: "int option"
  os_rsize :: "int option"
  os_wrotesize :: "int option"
  os_varsize :: "int option"
  os_flags :: "int option"
  os_next :: "nat option"

datatype ocell = OStream ostream | OText cstr

datatype fs_call = FOpen cstr | FClose nat | Unlink cstr

fun o_next :: "ocell \<Rightarrow> nat option option" where
  "o_next (OStream s) = Some (os_next s)"
| "o_next (OText t) = None"

fun o_set_next :: "nat option \<Rightarrow> ocell \<Rightarrow> ocell" where
  "o_set_next n (OStream s) = OStream (s\<lparr>os_next := n\<rparr>)"
| "o_set_next n (OText t) = OText t"

fun o_stream :: "ocell \<Rightarrow> fault + ostream" where
  "o_stream (OStream s) = Inr s"
| "o_stream (OText t) = Inl BadPointer"

fun o_text :: "ocell \<Rightarrow> fault + cstr" where
  "o_text (OStream s) = Inl BadPointer"
| "o_text (OText t) = Inr t"

interpretation out: node_type o_next o_set_next
proof
  fix c n assume "o_next c \<noteq> None"
  then show "o_next (o_set_next n c) = Some n" by (cases c) auto
qed

definition blank_stream :: ostream where
  "blank_stream = \<lparr>os_fstream = None, os_fname = None, os_todelete = False, os_wsize = None, os_rsize = None,
     os_wrotesize = None, os_varsize = None, os_flags = None, os_next = None\<rparr>"

text \<open>The name is opened before it is looked at, so that a null pointer must not be passed.\<close>

definition add_outstream :: "(cstr \<Rightarrow> bool) \<Rightarrow> nat \<Rightarrow> cstr option \<Rightarrow> nat option \<Rightarrow> bool \<Rightarrow> ocell heap \<Rightarrow>
    fault + (bool \<times> ocell heap \<times> fs_call list)" where
  "add_outstream can_open list fname stream istmp h =
     bind_res (last_node o_next (brk h) h list) (\<lambda>temp.
     let (p, h) = halloc (OStream blank_stream) h in
     bind_res (hload h temp) (\<lambda>c. bind_res (hstore temp (o_set_next p c) h) (\<lambda>h.
     case p of
       None \<Rightarrow> Inr (False, h, [])
     | Some a \<Rightarrow>
         (case fname of
            None \<Rightarrow> Inl NullDeref
          | Some name \<Rightarrow>
              if \<not> can_open name
              then bind_res (hfree a h) (\<lambda>h. bind_res (hstore temp (o_set_next None c) h) (\<lambda>h. Inr (False, h, [])))
              else let (q, h) = halloc (OText name) h in
                case q of
                  None \<Rightarrow> bind_res (hfree a h) (\<lambda>h. bind_res (hstore temp (o_set_next None c) h) (\<lambda>h.
                    Inr (False, h, [FOpen name])))
                | Some s \<Rightarrow>
                    bind_res (hstore a (OStream \<lparr>os_fstream = stream, os_fname = Some s, os_todelete = istmp,
                        os_wsize = Some 1, os_rsize = Some 0, os_wrotesize = Some 0, os_varsize = Some 0,
                        os_flags = None, os_next = None\<rparr>) h) (\<lambda>h.
                      Inr (True, h, [FOpen name]))))))"

definition init_outstream_list :: "ocell heap \<Rightarrow> nat option \<times> ocell heap" where
  "init_outstream_list h = halloc (OStream (blank_stream\<lparr>os_flags := Some 0\<rparr>)) h"

definition delete_outstream :: "nat \<Rightarrow> ocell heap \<Rightarrow> fault + (ocell heap \<times> fs_call list)" where
  "delete_outstream node h =
     bind_res (hload h node) (\<lambda>c. bind_res (o_stream c) (\<lambda>s.
     bind_res
       (if os_todelete s then bind_res (hload_ptr h (os_fname s)) (\<lambda>t. bind_res (o_text t) (\<lambda>n. Inr [Unlink n]))
        else Inr []) (\<lambda>unl.
     bind_res (ilws_free (os_fname s) h) (\<lambda>h. bind_res (hfree node h) (\<lambda>h.
     Inr (h, (case os_fstream s of None \<Rightarrow> [] | Some f \<Rightarrow> [FClose f]) @ unl))))))"

definition delete_next_outstream :: "nat \<Rightarrow> ocell heap \<Rightarrow> fault + (ocell heap \<times> fs_call list)" where
  "delete_next_outstream node h =
     bind_res (hload h node) (\<lambda>c. bind_res (o_stream c) (\<lambda>s.
     bind_res (hload_ptr h (os_next s)) (\<lambda>d. bind_res (o_stream d) (\<lambda>t.
     bind_res (hstore node (OStream (s\<lparr>os_next := os_next t\<rparr>)) h) (delete_outstream (the (os_next s)))))))"

fun delete_outstreams :: "nat \<Rightarrow> nat \<Rightarrow> ocell heap \<Rightarrow> fault + (ocell heap \<times> fs_call list)" where
  "delete_outstreams 0 node h = Inl OutOfFuel"
| "delete_outstreams (Suc fuel) node h =
     bind_res (hload h node) (\<lambda>c. bind_res (o_stream c) (\<lambda>s.
     if os_next s = None then Inr (h, [])
     else bind_res (delete_next_outstream node h) (\<lambda>(h, l).
          bind_res (delete_outstreams fuel node h) (\<lambda>(h, l'). Inr (h, l @ l')))))"

definition delete_outstream_list :: "nat \<Rightarrow> ocell heap \<Rightarrow> fault + (ocell heap \<times> fs_call list)" where
  "delete_outstream_list list h =
     bind_res (delete_outstreams (brk h) list h) (\<lambda>(h, l).
     bind_res (delete_outstream list h) (\<lambda>(h, l'). Inr (h, l @ l')))"

section \<open>A file that cannot be opened\<close>

text \<open>
  A file that cannot be opened is refused and leaves no trace: the call returns 0 and every
  cell of the store is what it was.
\<close>

lemma add_outstream_refused:
  assumes list: "chain o_next (cells h) (Some l) as" "distinct as" "length as \<le> brk h" "\<forall>x. brk h \<le> x \<longrightarrow> cells h x = None"
    and name: "\<not> can_open name"
  shows "\<exists>h'. add_outstream can_open l (Some name) stream istmp h = Inr (False, h', []) \<and> cells h' = cells h"
proof -
  obtain b bs where as: "as = bs @ [b]" using list(1) by (cases as rule: rev_cases) auto
  have "chain o_next m p (bs @ [b]) \<Longrightarrow> \<exists>c. m b = Some c \<and> o_next c = Some None" for m p
    by (induction bs arbitrary: p) auto
  then obtain c where c: "cells h b = Some c" "o_next c = Some None" using list(1) as by blast
  then obtain s where s: "c = OStream s" "os_next s = None" by (cases c) auto
  have keep: "c = OStream (s\<lparr>os_next := None\<rparr>)" using s by (cases s) simp
  have "b < brk h" using c(1) list(4) by (cases "brk h \<le> b") auto
  moreover have "last_node o_next (brk h) h l = Inr b"
    using out.last_node_chain [OF list(1,3)] as by simp
  moreover have "(cells h)(brk h := None) = cells h" "(cells h)(b \<mapsto> c) = cells h"
    using list(4) c(1) by (simp_all add: fun_upd_idem)
  ultimately show ?thesis
    using c(1) s name keep
    by (cases "fails h \<noteq> [] \<and> hd (fails h)")
      (auto simp: add_outstream_def halloc_def hload_def hstore_def hfree_def fun_upd_twist fun_eq_iff)
qed

end
