(* ===== verification/OutGif.thy ===== *)
theory OutGif
  imports Prelude
begin

text \<open>
  \<open>tools/libwebserver/src/outgif.c\<close>: the GIF writer.  The LZW compressor keeps its code
  table in a hash table with open addressing, \<open>htab\<close> and \<open>codetab\<close>, packs codes of
  growing width into bytes and the bytes into packets.  The module's variables are one
  record; codes and bit counts are small and never wrap, so they are naturals.  Table
  accesses and reads of the pixels are checked.
\<close>

section \<open>State\<close>

definition HSIZE :: nat where "HSIZE = 5003"
definition XV_BITS :: nat where "XV_BITS = 12"
definition maxmaxcode :: nat where "maxmaxcode = 4096"

definition MAXCODE :: "nat \<Rightarrow> nat" where "MAXCODE n_bits = 2 ^ n_bits - 1"

record gif =
  g_file :: "u8 list"        \<comment> \<open>what was written to the file\<close>
  g_accum :: "u8 list"       \<comment> \<open>the packet; \<open>a_count\<close> is its length\<close>
  g_cur_accum :: nat
  g_cur_bits :: nat
  g_n_bits :: nat
  g_maxcode :: nat
  g_free_ent :: nat
  g_clear_flg :: bool
  g_init_bits :: nat
  g_ClearCode :: nat
  g_EOFCode :: nat
  g_htab :: "int list"
  g_codetab :: "nat list"

section \<open>Packets\<close>

definition fput :: "nat \<Rightarrow> gif \<Rightarrow> gif" where
  "fput c g = g\<lparr>g_file := g_file g @ [word_of_nat c]\<rparr>"

definition char_init :: "gif \<Rightarrow> gif" where
  "char_init g = g\<lparr>g_accum := []\<rparr>"

definition flush_char :: "gif \<Rightarrow> gif" where
  "flush_char g =
     (if 0 < length (g_accum g)
      then g\<lparr>g_file := g_file g @ word_of_nat (length (g_accum g)) # g_accum g, g_accum := []\<rparr> else g)"

text \<open>The packet holds 256 bytes.\<close>

definition char_out :: "nat \<Rightarrow> gif \<Rightarrow> fault + gif" where
  "char_out c g =
     (if length (g_accum g) < 256
      then let g = g\<lparr>g_accum := g_accum g @ [word_of_nat c]\<rparr>
        in Inr (if length (g_accum g) \<ge> 254 then flush_char g else g)
      else Inl OutOfBounds)"

section \<open>Codes\<close>

definition masks :: "nat list" where
  "masks = [0x0000, 0x0001, 0x0003, 0x0007, 0x000F, 0x001F, 0x003F, 0x007F, 0x00FF,
    0x01FF, 0x03FF, 0x07FF, 0x0FFF, 0x1FFF, 0x3FFF, 0x7FFF, 0xFFFF]"

text \<open>\<open>while (cur_bits >= 8)\<close>\<close>

function out_bytes :: "gif \<Rightarrow> fault + gif" where
  "out_bytes g =
     (if g_cur_bits g \<ge> 8
      then bind_res (char_out (g_cur_accum g AND 0xff) g) (\<lambda>h.
        out_bytes (h\<lparr>g_cur_accum := drop_bit 8 (g_cur_accum g), g_cur_bits := g_cur_bits g - 8\<rparr>))
      else Inr g)"
  by pat_completeness auto
termination by (relation "measure g_cur_bits") auto

text \<open>At the end: \<open>while (cur_bits > 0)\<close>, where the count may fall below 0.\<close>

function out_rest :: "gif \<Rightarrow> fault + gif" where
  "out_rest g =
     (if g_cur_bits g > 0
      then bind_res (char_out (g_cur_accum g AND 0xff) g) (\<lambda>h.
        out_rest (h\<lparr>g_cur_accum := drop_bit 8 (g_cur_accum g), g_cur_bits := g_cur_bits g - 8\<rparr>))
      else Inr g)"
  by pat_completeness auto
termination by (relation "measure g_cur_bits") auto

declare out_bytes.simps [simp del] out_rest.simps [simp del]

text \<open>The width of the next code.\<close>

definition adjust_width :: "gif \<Rightarrow> gif" where
  "adjust_width g =
     (if g_free_ent g > g_maxcode g \<or> g_clear_flg g
      then if g_clear_flg g
        then g\<lparr>g_n_bits := g_init_bits g, g_maxcode := MAXCODE (g_init_bits g), g_clear_flg := False\<rparr>
        else let n = g_n_bits g + 1 in
          g\<lparr>g_n_bits := n, g_maxcode := if n = XV_BITS then maxmaxcode else MAXCODE n\<rparr>
      else g)"

definition gif_output :: "nat \<Rightarrow> gif \<Rightarrow> fault + gif" where
  "gif_output cd g =
     bind_res (rd masks (g_cur_bits g)) (\<lambda>m.
     let acc = g_cur_accum g AND m;
         acc = (if g_cur_bits g > 0 then acc OR push_bit (g_cur_bits g) cd else cd)
     in bind_res (out_bytes (g\<lparr>g_cur_accum := acc, g_cur_bits := g_cur_bits g + g_n_bits g\<rparr>)) (\<lambda>g.
     let g = adjust_width g in
     if cd = g_EOFCode g then bind_res (out_rest g) (\<lambda>g. Inr (flush_char g)) else Inr g))"

section \<open>The code table\<close>

text \<open>
  \<open>cl_hash\<close> fills the table with -1 from its end, 16 entries a turn and then one at a time.
\<close>

function cl_hash_blocks :: "int \<Rightarrow> int \<Rightarrow> int list \<Rightarrow> int \<times> int \<times> int list" where
  "cl_hash_blocks i p tab =
     (let tab = fold (\<lambda>k t. t[nat (p - k) := - 1]) (map int (rev [1..<17])) tab; p = p - 16; i = i - 16
      in if i \<ge> 0 then cl_hash_blocks i p tab else (i, p, tab))"
  by pat_completeness auto
termination by (relation "measure (\<lambda>(i, p, tab). nat i)") auto

fun cl_hash_rest :: "nat \<Rightarrow> int \<Rightarrow> int list \<Rightarrow> int list" where
  "cl_hash_rest 0 p tab = tab"
| "cl_hash_rest (Suc i) p tab = cl_hash_rest i (p - 1) (tab[nat (p - 1) := - 1])"

definition cl_hash :: "nat \<Rightarrow> int list \<Rightarrow> int list" where
  "cl_hash hsize tab =
     (let (i, p, tab) = cl_hash_blocks (int hsize - 16) (int hsize) tab in cl_hash_rest (nat (i + 16)) p tab)"

definition cl_block :: "gif \<Rightarrow> fault + gif" where
  "cl_block g =
     gif_output (g_ClearCode g)
       (g\<lparr>g_htab := cl_hash HSIZE (g_htab g), g_free_ent := g_ClearCode g + 2, g_clear_flg := True\<rparr>)"

text \<open>
  The search for a code: the first slot, and from the second one on a walk with the stride
  \<open>disp\<close>.  After \<open>HSIZE\<close> steps the walk is back where it was.
\<close>

datatype slot = Hit nat | Miss nat

fun probe :: "nat \<Rightarrow> int list \<Rightarrow> nat list \<Rightarrow> int \<Rightarrow> int \<Rightarrow> int \<Rightarrow> fault + slot" where
  "probe 0 htab codetab disp fcode i = Inl OutOfFuel"
| "probe (Suc fuel) htab codetab disp fcode i =
     (let i = (if i - disp < 0 then i - disp + int HSIZE else i - disp) in
      bind_res (rd htab (nat i)) (\<lambda>v.
      if v = fcode then bind_res (rd codetab (nat i)) (\<lambda>c. Inr (Hit c))
      else if v \<ge> 0 then probe fuel htab codetab disp fcode i
      else Inr (Miss (nat i))))"

definition find_code :: "int list \<Rightarrow> nat list \<Rightarrow> int \<Rightarrow> nat \<Rightarrow> fault + slot" where
  "find_code htab codetab fcode i =
     bind_res (rd htab i) (\<lambda>v.
     if v = fcode then bind_res (rd codetab i) (\<lambda>c. Inr (Hit c))
     else if v < 0 then Inr (Miss i)
     else probe HSIZE htab codetab (if i = 0 then 1 else int HSIZE - int i) fcode (int i))"

section \<open>The compressor\<close>

text \<open>One more pixel \<open>c\<close> after the prefix \<open>ent\<close>; \<open>hshift\<close> is 4 for this table size.\<close>

definition compress_step :: "nat \<Rightarrow> nat \<Rightarrow> gif \<Rightarrow> fault + (nat \<times> gif)" where
  "compress_step c ent g =
     (let fcode = int (push_bit XV_BITS c + ent); i = push_bit 4 c XOR ent in
      bind_res (find_code (g_htab g) (g_codetab g) fcode i) (\<lambda>s.
      case s of
        Hit e \<Rightarrow> Inr (e, g)
      | Miss i \<Rightarrow>
          bind_res (gif_output ent g) (\<lambda>g.
          if g_free_ent g < maxmaxcode
          then bind_res (wr (g_codetab g) i (g_free_ent g)) (\<lambda>ct.
               bind_res (wr (g_htab g) i fcode) (\<lambda>ht.
               Inr (c, g\<lparr>g_codetab := ct, g_htab := ht, g_free_ent := g_free_ent g + 1\<rparr>)))
          else bind_res (cl_block g) (\<lambda>g. Inr (c, g)))))"

text \<open>\<open>while (len)\<close>: the pixels from index \<open>k\<close> on, through the colour table \<open>pc2nc\<close>.\<close>

definition pixel :: "u8 list \<Rightarrow> u8 list \<Rightarrow> nat \<Rightarrow> fault + nat" where
  "pixel pc2nc data k = bind_res (rd data k) (\<lambda>d. bind_res (rd pc2nc (unat d)) (\<lambda>c. Inr (unat c)))"

function compress_loop :: "u8 list \<Rightarrow> u8 list \<Rightarrow> nat \<Rightarrow> int \<Rightarrow> nat \<Rightarrow> gif \<Rightarrow> fault + (nat \<times> gif)" where
  "compress_loop pc2nc data k len ent g =
     (if len = 0 then Inr (ent, g)
      else if k < length data
      then bind_res (pixel pc2nc data k) (\<lambda>c.
        bind_res (compress_step c ent g) (\<lambda>(ent, g). compress_loop pc2nc data (k + 1) (len - 1) ent g))
      else Inl OutOfBounds)"
  by pat_completeness auto
termination by (relation "measure (\<lambda>(p, d, k, l, e, g). length d - k)") auto

declare compress_loop.simps [simp del]

definition compress_init :: "nat \<Rightarrow> u8 list \<Rightarrow> gif" where
  "compress_init init_bits file =
     \<lparr>g_file = file, g_accum = [], g_cur_accum = 0, g_cur_bits = 0, g_n_bits = init_bits,
      g_maxcode = MAXCODE init_bits, g_free_ent = 2 ^ (init_bits - 1) + 2, g_clear_flg = False,
      g_init_bits = init_bits, g_ClearCode = 2 ^ (init_bits - 1), g_EOFCode = 2 ^ (init_bits - 1) + 1,
      g_htab = cl_hash HSIZE (replicate HSIZE 0), g_codetab = replicate HSIZE 0\<rparr>"

definition compress :: "nat \<Rightarrow> u8 list \<Rightarrow> u8 list \<Rightarrow> int \<Rightarrow> u8 list \<Rightarrow> fault + u8 list" where
  "compress init_bits pc2nc data len file =
     (let g = char_init (compress_init init_bits file) in
      bind_res (pixel pc2nc data 0) (\<lambda>ent.
      bind_res (gif_output (g_ClearCode g) g) (\<lambda>g.
      bind_res (compress_loop pc2nc data 1 (len - 1) ent g) (\<lambda>(ent, g).
      bind_res (gif_output ent g) (\<lambda>g.
      bind_res (gif_output (g_EOFCode g) g) (\<lambda>g. Inr (g_file g)))))))"

section \<open>The file\<close>

text \<open>The colours without repetition: the index \<open>j\<close> of the first colour equal to colour \<open>i\<close>.\<close>

fun find_color :: "nat \<Rightarrow> nat \<Rightarrow> u8 list \<Rightarrow> u8 list \<Rightarrow> u8 list \<Rightarrow> nat" where
  "find_color 0 i rmap gmap bmap = i"
| "find_color (Suc n) i rmap gmap bmap =
     (let j = i - Suc n in
      if rmap ! i = rmap ! j \<and> gmap ! i = gmap ! j \<and> bmap ! i = bmap ! j then j
      else find_color n i rmap gmap bmap)"

record palette =
  pal_pc2nc :: "u8 list"
  pal_r :: "u8 list"
  pal_g :: "u8 list"
  pal_b :: "u8 list"
  pal_nc :: nat

function palette_loop :: "nat \<Rightarrow> nat \<Rightarrow> u8 list \<Rightarrow> u8 list \<Rightarrow> u8 list \<Rightarrow> palette \<Rightarrow> fault + palette" where
  "palette_loop i numcols rmap gmap bmap p =
     (if i < numcols
      then bind_res (rd rmap i) (\<lambda>r. bind_res (rd gmap i) (\<lambda>g. bind_res (rd bmap i) (\<lambda>b.
        let j = find_color i i rmap gmap bmap in
        if j = i
        then bind_res (wr (pal_pc2nc p) i (word_of_nat (pal_nc p))) (\<lambda>pc.
             bind_res (wr (pal_r p) (pal_nc p) r) (\<lambda>r1. bind_res (wr (pal_g p) (pal_nc p) g) (\<lambda>g1.
             bind_res (wr (pal_b p) (pal_nc p) b) (\<lambda>b1.
             palette_loop (i + 1) numcols rmap gmap bmap
               \<lparr>pal_pc2nc = pc, pal_r = r1, pal_g = g1, pal_b = b1, pal_nc = pal_nc p + 1\<rparr>))))
        else bind_res (rd (pal_pc2nc p) j) (\<lambda>c. bind_res (wr (pal_pc2nc p) i c) (\<lambda>pc.
             palette_loop (i + 1) numcols rmap gmap bmap (p\<lparr>pal_pc2nc := pc\<rparr>))))))
      else Inr p)"
  by pat_completeness auto
termination by (relation "measure (\<lambda>(i, n, r, g, b, p). n - i)") auto

definition empty_palette :: palette where
  "empty_palette = \<lparr>pal_pc2nc = replicate 256 0, pal_r = replicate 256 0, pal_g = replicate 256 0,
     pal_b = replicate 256 0, pal_nc = 0\<rparr>"

text \<open>\<open>for (i=1; i<8; i++) if ((1<<i) >= nc) break;\<close>\<close>

fun bits_per_pixel :: "nat \<Rightarrow> nat \<Rightarrow> nat" where
  "bits_per_pixel 0 nc = 8"
| "bits_per_pixel (Suc n) nc = (let i = 8 - Suc n in if 2 ^ i \<ge> nc then i else bits_per_pixel n nc)"

definition gif_byte :: "int \<Rightarrow> u8" where
  "gif_byte i = word_of_int i"

definition putword :: "int \<Rightarrow> u8 list" where
  "putword w = [gif_byte (w AND 0xff), gif_byte (drop_bit 8 w AND 0xff)]"

definition MONO :: "u8 \<Rightarrow> u8 \<Rightarrow> u8 \<Rightarrow> nat" where
  "MONO re gn bl = drop_bit 5 (unat re * 11 + unat gn * 16 + unat bl * 5)"

definition color_map :: "int \<Rightarrow> nat \<Rightarrow> palette \<Rightarrow> u8 list" where
  "color_map colorstyle n p = concat (map (\<lambda>i.
     if colorstyle = 1 then replicate 3 (word_of_nat (MONO (pal_r p ! i) (pal_g p ! i) (pal_b p ! i)))
     else [pal_r p ! i, pal_g p ! i, pal_b p ! i]) [0..<n])"

text \<open>A comment in blocks of at most 255 bytes.\<close>

function comment_blocks :: "cstr \<Rightarrow> u8 list" where
  "comment_blocks sp =
     (let blen = length sp in
      if blen > 0
      then let blen = (if blen > 255 then 255 else blen) in
        word_of_nat blen # map (word_of_nat \<circ> code) (take blen sp) @ comment_blocks (drop blen sp)
      else [])"
  by pat_completeness auto
termination by (relation "measure length") auto

definition gif_comment :: "int \<Rightarrow> cstr \<Rightarrow> u8 list" where
  "gif_comment transparency comment =
     (if comment = [] then []
      else [0x21, 0xF9, 4, 0x1, 100, 100, gif_byte transparency, 0, 0x21, 0xFE] @ comment_blocks comment @ [0])"

declare palette_loop.simps [simp del] comment_blocks.simps [simp del]

text \<open>
  \<open>__ILWS_WriteGIF\<close>: the bytes written.  A null comment is the empty one; \<open>w\<close> times \<open>h\<close> is
  computed in \<open>int\<close>.
\<close>

definition WriteGIF :: "u8 list \<Rightarrow> int \<Rightarrow> int \<Rightarrow> u8 list \<Rightarrow> u8 list \<Rightarrow> u8 list \<Rightarrow> nat \<Rightarrow> int \<Rightarrow> int \<Rightarrow> cstr \<Rightarrow>
    fault + u8 list" where
  "WriteGIF pic w h rmap gmap bmap numcols colorstyle transparency comment =
     bind_res (palette_loop 0 numcols rmap gmap bmap empty_palette) (\<lambda>p.
     let bpp = bits_per_pixel 7 (pal_nc p);
         init_code = (if bpp \<le> 1 then 2 else bpp);
         head = map (word_of_nat \<circ> code) (if comment \<noteq> [] then ''GIF89a'' else ''GIF87a'') @
           putword w @ putword h @ [word_of_nat (0x80 OR push_bit 4 7 OR (bpp - 1)), 0, 0] @
           color_map colorstyle (2 ^ bpp) p @ gif_comment transparency comment @
           word_of_nat (code CHR '','') # putword 0 @ putword 0 @ putword w @ putword h @ [0x00, word_of_nat init_code]
     in if - (2 ^ 31) \<le> w * h \<and> w * h < 2 ^ 31
        then bind_res (compress (init_code + 1) (pal_pc2nc p) pic (w * h) head) (\<lambda>f.
          Inr (f @ [0, word_of_nat (code CHR '';'')]))
        else Inl IntOverflow)"

end
