(* ===== verification/GifBits.thy ===== *)
theory GifBits
  imports OutGif
begin

text \<open>
  The lower half of the GIF compressor: bytes go into packets, codes into the bits of the
  bytes, least significant bit first.  What a sequence of calls of \<open>gif_output\<close> has written
  is the concatenation of the bits of the codes, each in the width that was current.
\<close>

section \<open>Packets\<close>

definition packets :: "u8 list list \<Rightarrow> u8 list" where
  "packets ps = concat (map (\<lambda>p. word_of_nat (length p) # p) ps)"

text \<open>The bytes \<open>data\<close> have been written after \<open>base\<close>, the last ones still in the packet.\<close>

definition written :: "u8 list \<Rightarrow> u8 list \<Rightarrow> gif \<Rightarrow> bool" where
  "written base data g \<longleftrightarrow> (\<exists>ps. g_file g = base @ packets ps \<and> data = concat ps @ g_accum g \<and>
     (\<forall>p \<in> set ps. 0 < length p \<and> length p \<le> 254)) \<and> length (g_accum g) < 254"

lemma written_flush:
  assumes "written base data g"
  shows "written base data (flush_char g) \<and> g_accum (flush_char g) = []"
proof -
  obtain ps where ps: "g_file g = base @ packets ps" "data = concat ps @ g_accum g"
    "\<forall>p \<in> set ps. 0 < length p \<and> length p \<le> 254" "length (g_accum g) < 254"
    using assms unfolding written_def by blast
  show ?thesis
  proof (cases "g_accum g = []")
    case False
    then show ?thesis using ps unfolding written_def
      by (auto simp: flush_char_def packets_def intro!: exI [of _ "ps @ [g_accum g]"])
  qed (use assms in \<open>simp add: flush_char_def\<close>)
qed

text \<open>Writing leaves the code table and the width alone.\<close>

definition same_table :: "gif \<Rightarrow> gif \<Rightarrow> bool" where
  "same_table g g' \<longleftrightarrow> g_n_bits g' = g_n_bits g \<and> g_maxcode g' = g_maxcode g \<and> g_free_ent g' = g_free_ent g \<and>
     g_clear_flg g' = g_clear_flg g \<and> g_init_bits g' = g_init_bits g \<and> g_ClearCode g' = g_ClearCode g \<and>
     g_EOFCode g' = g_EOFCode g \<and> g_htab g' = g_htab g \<and> g_codetab g' = g_codetab g"

lemma same_table_trans: "same_table g h \<Longrightarrow> same_table h k \<Longrightarrow> same_table g k"
  by (simp add: same_table_def)

lemma char_out_written:
  assumes "written base data g"
  shows "\<exists>g'. char_out c g = Inr g' \<and> written base (data @ [word_of_nat c]) g' \<and>
    same_table g g' \<and> g_cur_accum g' = g_cur_accum g \<and> g_cur_bits g' = g_cur_bits g"
proof -
  define h where "h = g\<lparr>g_accum := g_accum g @ [word_of_nat c]\<rparr>"
  obtain ps where ps: "g_file g = base @ packets ps" "data = concat ps @ g_accum g"
    "\<forall>p \<in> set ps. 0 < length p \<and> length p \<le> 254" "length (g_accum g) < 254"
    using assms unfolding written_def by blast
  have run: "char_out c g = Inr (if length (g_accum h) \<ge> 254 then flush_char h else h)"
    using ps(4) by (simp add: char_out_def h_def)
  show ?thesis
  proof (cases "length (g_accum h) \<ge> 254")
    case True
    then have "length (g_accum h) = 254" using ps(4) by (simp add: h_def)
    then have "written base (data @ [word_of_nat c]) (flush_char h)"
      using ps unfolding written_def
      by (auto simp: h_def flush_char_def packets_def intro!: exI [of _ "ps @ [g_accum h]"])
    then show ?thesis using run True by (auto simp: h_def flush_char_def same_table_def)
  next
    case False
    then have "written base (data @ [word_of_nat c]) h"
      using ps unfolding written_def by (auto simp: h_def intro!: exI [of _ ps])
    then show ?thesis using run False by (auto simp: h_def same_table_def)
  qed
qed

section \<open>Bits\<close>

definition bits_of :: "nat \<Rightarrow> nat \<Rightarrow> bool list" where
  "bits_of n w = map (bit n) [0..<w]"

definition byte_bits :: "u8 list \<Rightarrow> bool list" where
  "byte_bits bs = concat (map (\<lambda>b. map (bit b) [0..<8]) bs)"

lemma byte_bits_append [simp]: "byte_bits (xs @ ys) = byte_bits xs @ byte_bits ys"
  by (simp add: byte_bits_def)

lemma length_bits_of [simp]: "length (bits_of n w) = w"
  by (simp add: bits_of_def)

lemma bits_of_append: "bits_of n (k + w) = bits_of n k @ bits_of (drop_bit k n) w"
proof -
  have "map (bit n) [k..<k + w] = map (bit (drop_bit k n)) [0..<w]"
    by (simp add: list_eq_iff_nth_eq bit_drop_bit_eq)
  then show ?thesis unfolding bits_of_def upt_add_eq_append [OF le0] by simp
qed

lemma bits_of_cong: "(\<And>i. i < w \<Longrightarrow> bit m i = bit n i) \<Longrightarrow> bits_of m w = bits_of n w"
  by (simp add: bits_of_def)

lemma byte_bits_acc: "byte_bits [word_of_nat (n AND 0xff)] = bits_of n 8"
proof -
  have "bit (word_of_nat (n AND 0xff) :: u8) i = bit n i" if "i < 8" for i
  proof -
    have "n AND 0xff = take_bit 8 n" by (simp add: take_bit_eq_mask mask_eq_exp_minus_1)
    then show ?thesis using that by (simp add: bit_of_nat_iff bit_take_bit_iff)
  qed
  then show ?thesis by (simp add: byte_bits_def bits_of_def)
qed

lemma masks_mask: "k \<le> 16 \<Longrightarrow> rd masks k = Inr (mask k)"
proof -
  assume "k \<le> 16"
  then have "k \<in> set [0..<17]" by simp
  moreover have "\<forall>k \<in> set [0..<17]. rd masks k = Inr (mask k)"
    by (simp add: upt_rec rd_def masks_def mask_eq_exp_minus_1)
  ultimately show ?thesis by blast
qed

section \<open>Writing a code\<close>

text \<open>What is written and what is still in the accumulator.\<close>

definition stream :: "u8 list \<Rightarrow> gif \<Rightarrow> bool list \<Rightarrow> bool" where
  "stream base g bits \<longleftrightarrow>
     (\<exists>data. written base data g \<and> bits = byte_bits data @ bits_of (g_cur_accum g) (g_cur_bits g))"

lemma stream_cong:
  "g_file g' = g_file g \<Longrightarrow> g_accum g' = g_accum g \<Longrightarrow> g_cur_accum g' = g_cur_accum g \<Longrightarrow>
   g_cur_bits g' = g_cur_bits g \<Longrightarrow> stream base g bits \<Longrightarrow> stream base g' bits"
  by (simp add: stream_def written_def)

lemma out_bytes_stream:
  "stream base g bits \<Longrightarrow> \<exists>g'. out_bytes g = Inr g' \<and> stream base g' bits \<and> g_cur_bits g' < 8 \<and> same_table g g'"
proof (induction "g_cur_bits g" arbitrary: g rule: less_induct)
  case less
  show ?case
  proof (cases "g_cur_bits g \<ge> 8")
    case True
    obtain data where d: "written base data g" "bits = byte_bits data @ bits_of (g_cur_accum g) (g_cur_bits g)"
      using less.prems by (auto simp: stream_def)
    obtain h where h: "char_out (g_cur_accum g AND 0xff) g = Inr h"
      "written base (data @ [word_of_nat (g_cur_accum g AND 0xff)]) h" "same_table g h"
      using char_out_written [OF d(1)] by blast
    define k where "k = h\<lparr>g_cur_accum := drop_bit 8 (g_cur_accum g), g_cur_bits := g_cur_bits g - 8\<rparr>"
    have "g_cur_bits g = 8 + (g_cur_bits g - 8)" using True by simp
    then have "bits_of (g_cur_accum g) (g_cur_bits g) = bits_of (g_cur_accum g) 8 @ bits_of (drop_bit 8 (g_cur_accum g)) (g_cur_bits g - 8)"
      by (metis bits_of_append)
    then have "bits = byte_bits (data @ [word_of_nat (g_cur_accum g AND 0xff)]) @ bits_of (g_cur_accum k) (g_cur_bits k)"
      using d(2) by (simp only: byte_bits_append byte_bits_acc k_def) simp
    moreover have "written base (data @ [word_of_nat (g_cur_accum g AND 0xff)]) k" using h(2) by (simp add: k_def written_def)
    ultimately have "stream base k bits" unfolding stream_def by blast
    moreover have "g_cur_bits k < g_cur_bits g" using True by (simp add: k_def)
    ultimately obtain g' where g': "out_bytes k = Inr g'" "stream base g' bits" "g_cur_bits g' < 8" "same_table k g'"
      using less.hyps by blast
    have "out_bytes g = Inr g'" using True h(1) g'(1) by (subst out_bytes.simps) (simp add: k_def)
    moreover have "same_table g g'" using h(3) g'(4) by (simp add: k_def same_table_def)
    ultimately show ?thesis using g'(2,3) by blast
  next
    case False
    then have "out_bytes g = Inr g" by (subst out_bytes.simps) simp
    then show ?thesis using less.prems False by (simp add: same_table_def)
  qed
qed

text \<open>At the end the last bits are filled up with a byte and the packet is closed.\<close>

lemma out_rest_stream:
  assumes s: "stream base g bits" and b: "g_cur_bits g < 8"
  shows "\<exists>g' ps pad. out_rest g = Inr g' \<and> g_file (flush_char g') = base @ packets ps \<and>
    (\<forall>p \<in> set ps. 0 < length p \<and> length p \<le> 254) \<and> byte_bits (concat ps) = bits @ pad"
proof -
  obtain data where d: "written base data g" "bits = byte_bits data @ bits_of (g_cur_accum g) (g_cur_bits g)"
    using s by (auto simp: stream_def)
  have fin: "\<exists>ps. g_file (flush_char h) = base @ packets ps \<and> (\<forall>p \<in> set ps. 0 < length p \<and> length p \<le> 254) \<and>
      concat ps = dat" if "written base dat h" for dat h
    using written_flush [OF that] unfolding written_def by auto
  show ?thesis
  proof (cases "g_cur_bits g = 0")
    case True
    then have "out_rest g = Inr g" by (subst out_rest.simps) simp
    moreover have "bits = byte_bits data" using d(2) True by (simp add: bits_of_def)
    ultimately show ?thesis using fin [OF d(1)] by (metis append_Nil2)
  next
    case False
    obtain h where h: "char_out (g_cur_accum g AND 0xff) g = Inr h"
      "written base (data @ [word_of_nat (g_cur_accum g AND 0xff)]) h" "same_table g h"
      using char_out_written [OF d(1)] by blast
    define k where "k = h\<lparr>g_cur_accum := drop_bit 8 (g_cur_accum g), g_cur_bits := 0\<rparr>"
    have k: "out_rest k = Inr k" by (subst out_rest.simps) (simp add: k_def)
    have "out_rest g = Inr k" using False h(1) k b by (subst out_rest.simps) (simp add: k_def)
    moreover have "written base (data @ [word_of_nat (g_cur_accum g AND 0xff)]) k" using h(2) by (simp add: k_def written_def)
    moreover have "8 = g_cur_bits g + (8 - g_cur_bits g)" using b by simp
    then have "bits_of (g_cur_accum g) 8 = bits_of (g_cur_accum g) (g_cur_bits g) @
        bits_of (drop_bit (g_cur_bits g) (g_cur_accum g)) (8 - g_cur_bits g)"
      by (metis bits_of_append)
    then have "byte_bits (data @ [word_of_nat (g_cur_accum g AND 0xff)]) =
        bits @ bits_of (drop_bit (g_cur_bits g) (g_cur_accum g)) (8 - g_cur_bits g)"
      using d(2) by (simp only: byte_bits_append byte_bits_acc) simp
    ultimately show ?thesis using fin by metis
  qed
qed

text \<open>A code that is not the last one appends its bits; the last one closes the file.\<close>

lemma gif_output_acc:
  assumes s: "stream base g bits" and b: "g_cur_bits g < 8" and c: "cd < 2 ^ g_n_bits g"
  shows "\<exists>h. gif_output cd g = (let g = adjust_width h in
        if cd = g_EOFCode g then bind_res (out_rest g) (\<lambda>g. Inr (flush_char g)) else Inr g) \<and>
    stream base h (bits @ bits_of cd (g_n_bits g)) \<and> g_cur_bits h < 8 \<and> same_table g h"
proof -
  define acc where "acc = (if g_cur_bits g > 0 then (g_cur_accum g AND mask (g_cur_bits g)) OR push_bit (g_cur_bits g) cd else cd)"
  define k where "k = g\<lparr>g_cur_accum := acc, g_cur_bits := g_cur_bits g + g_n_bits g\<rparr>"
  have low: "bits_of acc (g_cur_bits g) = bits_of (g_cur_accum g) (g_cur_bits g)"
    by (rule bits_of_cong) (auto simp: acc_def bit_simps)
  have high: "bits_of (drop_bit (g_cur_bits g) acc) (g_n_bits g) = bits_of cd (g_n_bits g)"
    by (rule bits_of_cong) (auto simp: acc_def bit_simps)
  have "stream base k (bits @ bits_of cd (g_n_bits g))"
    using s by (auto simp: stream_def written_def k_def bits_of_append low high)
  then obtain h where h: "out_bytes k = Inr h" "stream base h (bits @ bits_of cd (g_n_bits g))" "g_cur_bits h < 8" "same_table k h"
    using out_bytes_stream by blast
  have "rd masks (g_cur_bits g) = Inr (mask (g_cur_bits g))" using b by (simp add: masks_mask)
  then have "gif_output cd g = (let g = adjust_width h in
        if cd = g_EOFCode g then bind_res (out_rest g) (\<lambda>g. Inr (flush_char g)) else Inr g)"
    using h(1) by (simp add: gif_output_def Let_def acc_def [symmetric] k_def)
  moreover have "same_table g h" using h(4) by (simp add: k_def same_table_def)
  ultimately show ?thesis using h(2,3) by blast
qed

lemma adjust_width_frame:
  "g_file (adjust_width g) = g_file g" "g_accum (adjust_width g) = g_accum g" "g_cur_accum (adjust_width g) = g_cur_accum g"
  "g_cur_bits (adjust_width g) = g_cur_bits g" "g_free_ent (adjust_width g) = g_free_ent g"
  "g_init_bits (adjust_width g) = g_init_bits g" "g_ClearCode (adjust_width g) = g_ClearCode g"
  "g_EOFCode (adjust_width g) = g_EOFCode g" "g_htab (adjust_width g) = g_htab g" "g_codetab (adjust_width g) = g_codetab g"
  "\<not> g_clear_flg (adjust_width g)"
  by (auto simp: adjust_width_def Let_def)

lemma stream_adjust [simp]: "stream base (adjust_width g) bits = stream base g bits"
  by (simp add: stream_def written_def adjust_width_frame)

lemma gif_output_stream:
  assumes "stream base g bits" "g_cur_bits g < 8" "cd \<noteq> g_EOFCode g" "cd < 2 ^ g_n_bits g"
  shows "\<exists>h. gif_output cd g = Inr (adjust_width h) \<and> same_table g h \<and>
    stream base (adjust_width h) (bits @ bits_of cd (g_n_bits g)) \<and> g_cur_bits (adjust_width h) < 8"
proof -
  obtain h where h: "gif_output cd g = (let g = adjust_width h in
        if cd = g_EOFCode g then bind_res (out_rest g) (\<lambda>g. Inr (flush_char g)) else Inr g)"
    "stream base h (bits @ bits_of cd (g_n_bits g))" "g_cur_bits h < 8" "same_table g h"
    using gif_output_acc [OF assms(1,2,4)] by blast
  then have "g_EOFCode (adjust_width h) = g_EOFCode g" by (simp add: adjust_width_frame same_table_def)
  then show ?thesis using h assms(3) by (auto simp: adjust_width_frame)
qed

lemma gif_output_eof:
  assumes "stream base g bits" "g_cur_bits g < 8" "g_EOFCode g < 2 ^ g_n_bits g"
  shows "\<exists>g' ps pad. gif_output (g_EOFCode g) g = Inr g' \<and> g_file g' = base @ packets ps \<and>
    (\<forall>p \<in> set ps. 0 < length p \<and> length p \<le> 254) \<and> byte_bits (concat ps) = bits @ bits_of (g_EOFCode g) (g_n_bits g) @ pad"
proof -
  obtain h where h: "gif_output (g_EOFCode g) g = (let k = adjust_width h in
        if g_EOFCode g = g_EOFCode k then bind_res (out_rest k) (\<lambda>g. Inr (flush_char g)) else Inr k)"
    "stream base h (bits @ bits_of (g_EOFCode g) (g_n_bits g))" "g_cur_bits h < 8" "same_table g h"
    using gif_output_acc [OF assms] by blast
  have "stream base (adjust_width h) (bits @ bits_of (g_EOFCode g) (g_n_bits g))" "g_cur_bits (adjust_width h) < 8"
    using h(2,3) by (simp_all add: adjust_width_frame)
  from out_rest_stream [OF this] obtain g' ps pad where "out_rest (adjust_width h) = Inr g'"
    "g_file (flush_char g') = base @ packets ps" "\<forall>p \<in> set ps. 0 < length p \<and> length p \<le> 254"
    "byte_bits (concat ps) = (bits @ bits_of (g_EOFCode g) (g_n_bits g)) @ pad"
    by blast
  moreover have "g_EOFCode (adjust_width h) = g_EOFCode g" using h(4) by (simp add: adjust_width_frame same_table_def)
  ultimately show ?thesis using h(1) by auto
qed

end
