(* ===== verification/GifTable.thy ===== *)
theory GifTable
  imports OutGif
begin

text \<open>
  The code table of the GIF compressor.  \<open>htab\<close> and \<open>codetab\<close> with their open addressing
  refine a partial map from keys to codes: a search reports the code of the key, or an empty
  slot at which the key may be entered.  The walk of a search visits every slot, because the
  size of the table is prime.
\<close>

section \<open>The walk\<close>

lemma HSIZE_pos [simp]: "0 < HSIZE"
  by (simp add: HSIZE_def)

lemma HSIZE_no_factor: "1 < k \<Longrightarrow> k < 71 \<Longrightarrow> \<not> k dvd HSIZE"
proof -
  assume "1 < k" "k < 71"
  then have "2 \<le> k \<and> k < 71" by simp
  then have "k \<in> set [2..<71]" by (simp only: set_upt atLeastLessThan_iff)
  moreover have "\<forall>k \<in> set [2..<71]. HSIZE mod k \<noteq> 0" by (simp add: HSIZE_def upt_rec)
  ultimately have "HSIZE mod k \<noteq> 0" by (rule bspec [rotated])
  then show ?thesis by (simp add: dvd_eq_mod_eq_0)
qed

lemma HSIZE_coprime:
  assumes "0 < d" "d < HSIZE"
  shows "coprime d HSIZE"
proof -
  obtain q where q: "HSIZE = gcd d HSIZE * q" using gcd_dvd2 [of d HSIZE] unfolding dvd_def by blast
  have le: "gcd d HSIZE \<le> d" by (rule gcd_le1_nat) (use assms in simp)
  show ?thesis
  proof (rule ccontr)
    assume "\<not> coprime d HSIZE"
    then have "gcd d HSIZE \<noteq> 1" by (simp add: coprime_iff_gcd_eq_1)
    moreover have "gcd d HSIZE \<noteq> 0" using assms by simp
    ultimately have g: "1 < gcd d HSIZE" by linarith
    have q1: "1 < q"
    proof (rule ccontr)
      assume "\<not> 1 < q"
      then have "HSIZE \<le> gcd d HSIZE" using mult_le_mono2 [of q 1 "gcd d HSIZE"] q by simp
      then show False using le assms by linarith
    qed
    have "gcd d HSIZE dvd HSIZE" "q dvd HSIZE" by (simp, metis q dvd_triv_right)
    then have "71 \<le> gcd d HSIZE" "71 \<le> q" using g q1 HSIZE_no_factor leI by blast+
    then have "71 * 71 \<le> gcd d HSIZE * q" by (rule mult_le_mono)
    then show False using q by (simp add: HSIZE_def)
  qed
qed

text \<open>The keys are \<open>(c << 12) + ent\<close>; the first slot of a key, its stride, and slot \<open>t\<close>.\<close>

definition key_slot :: "nat \<Rightarrow> nat" where
  "key_slot f = push_bit 4 (f div 4096) XOR (f mod 4096)"

definition stride :: "nat \<Rightarrow> nat" where
  "stride i = (if i = 0 then 1 else HSIZE - i)"

definition slot_at :: "nat \<Rightarrow> nat \<Rightarrow> nat" where
  "slot_at f t = nat ((int (key_slot f) - int t * int (stride (key_slot f))) mod int HSIZE)"

definition key :: "nat \<Rightarrow> bool" where
  "key f \<longleftrightarrow> f < 256 * 4096"

lemma key_slot_less: "key f \<Longrightarrow> key_slot f < 4096"
proof -
  assume "key f"
  then have "f div 4096 < 256" by (simp add: key_def div_less_iff_less_mult)
  then have "push_bit 4 (f div 4096) < 2 ^ 12" by (simp add: push_bit_eq_mult)
  then have "take_bit 12 (push_bit 4 (f div 4096)) = push_bit 4 (f div 4096)" by (simp only: take_bit_nat_eq_self_iff)
  moreover have "take_bit 12 (f mod 4096) = f mod 4096" by (simp add: take_bit_nat_eq_self_iff)
  ultimately have "take_bit 12 (key_slot f) = key_slot f" by (simp add: key_slot_def)
  then show ?thesis by (simp add: take_bit_nat_eq_self_iff)
qed

lemma slot_less: "slot_at f t < HSIZE"
  by (simp add: slot_at_def nat_less_iff)

lemma slot_0: "key f \<Longrightarrow> slot_at f 0 = key_slot f"
  using key_slot_less [of f] by (simp add: slot_at_def HSIZE_def)

lemma mod_wrap_sub:
  fixes i d n :: int
  assumes "0 \<le> i" "i < n" "0 < d" "d < n"
  shows "(i - d) mod n = (if i - d < 0 then i - d + n else i - d)"
proof (cases "i - d < 0")
  case True
  have "(i - d) mod n = (i - d + n) mod n" by simp
  also have "\<dots> = i - d + n" by (rule mod_pos_pos_trivial) (use assms True in linarith)+
  finally show ?thesis using True by simp
qed (use assms in \<open>simp add: mod_pos_pos_trivial\<close>)

lemma slot_Suc:
  assumes "key f"
  shows "int (slot_at f (Suc t)) =
    (let i = int (slot_at f t) - int (stride (key_slot f)) in if i < 0 then i + int HSIZE else i)"
proof -
  define d where "d = int (stride (key_slot f))"
  define k where "k = int (key_slot f)"
  have d: "0 < d" "d < int HSIZE" using key_slot_less [OF assms] by (auto simp: d_def stride_def HSIZE_def)
  have at: "int (slot_at f u) = (k - int u * d) mod int HSIZE" for u
    by (simp add: slot_at_def d_def k_def)
  have "0 \<le> int (slot_at f t)" "int (slot_at f t) < int HSIZE" using slot_less [of f t] by simp_all
  then have wrap: "(int (slot_at f t) - d) mod int HSIZE =
      (if int (slot_at f t) - d < 0 then int (slot_at f t) - d + int HSIZE else int (slot_at f t) - d)"
    by (rule mod_wrap_sub) (use d in simp_all)
  have "k - int (Suc t) * d = k - int t * d - d" by (simp add: distrib_right)
  then have "int (slot_at f (Suc t)) = (int (slot_at f t) - d) mod int HSIZE"
    unfolding at by (simp only: mod_diff_left_eq)
  then show ?thesis using wrap by (simp only: d_def Let_def)
qed

lemma slot_inj:
  assumes f: "key f"
  shows "inj_on (slot_at f) {..<HSIZE}"
proof -
  have "\<not> slot_at f s = slot_at f t" if st: "s < t" "t < HSIZE" for s t
  proof
    define d where "d = stride (key_slot f)"
    have d: "0 < d" "d < HSIZE" using key_slot_less [OF f] by (auto simp: d_def stride_def HSIZE_def)
    assume "slot_at f s = slot_at f t"
    then have "(int (key_slot f) - int s * int d) mod int HSIZE = (int (key_slot f) - int t * int d) mod int HSIZE"
      by (simp add: slot_at_def d_def eq_nat_nat_iff)
    then have "int HSIZE dvd (int (key_slot f) - int s * int d) - (int (key_slot f) - int t * int d)"
      by (simp add: mod_eq_dvd_iff)
    moreover have "(int (key_slot f) - int s * int d) - (int (key_slot f) - int t * int d) = int ((t - s) * d)"
      using st by (simp add: of_nat_diff algebra_simps)
    ultimately have "HSIZE dvd (t - s) * d" by (simp only: int_dvd_int_iff)
    then have "HSIZE dvd t - s" using HSIZE_coprime [OF d]
      by (metis coprime_commute coprime_dvd_mult_left_iff)
    then show False using st by (auto dest!: dvd_imp_le)
  qed
  then show ?thesis unfolding inj_on_def by (metis lessThan_iff linorder_neqE_nat)
qed

text \<open>A table that is not full has an empty slot on every walk.\<close>

definition occupied :: "int list \<Rightarrow> nat set" where
  "occupied ht = {j. j < HSIZE \<and> 0 \<le> ht ! j}"

lemma finite_occupied [simp]: "finite (occupied ht)"
  by (simp add: occupied_def)

lemma walk_finds_empty:
  assumes "key f" "card (occupied ht) < HSIZE"
  shows "\<exists>t < HSIZE. ht ! slot_at f t < 0"
proof (rule ccontr)
  assume "\<not> ?thesis"
  then have "slot_at f ` {..<HSIZE} \<subseteq> occupied ht" by (force simp: occupied_def slot_less)
  then have "card (slot_at f ` {..<HSIZE}) \<le> card (occupied ht)" by (rule card_mono [rotated]) simp
  then show False using assms by (simp add: card_image slot_inj)
qed

section \<open>The table\<close>

definition table :: "(nat \<Rightarrow> nat option) \<Rightarrow> int list \<Rightarrow> nat list \<Rightarrow> bool" where
  "table m ht ct \<longleftrightarrow> length ht = HSIZE \<and> length ct = HSIZE \<and>
     (\<forall>j < HSIZE. ht ! j = - 1 \<or> (\<exists>f. ht ! j = int f \<and> m f = Some (ct ! j))) \<and>
     (\<forall>f c. m f = Some c \<longrightarrow> (\<exists>t < HSIZE. ht ! slot_at f t = int f \<and> (\<forall>s < t. 0 \<le> ht ! slot_at f s)))"

lemma table_empty: "table Map.empty (replicate HSIZE (- 1)) ct" if "length ct = HSIZE"
  using that by (simp add: table_def)

lemma table_entry:
  "table m ht ct \<Longrightarrow> j < HSIZE \<Longrightarrow> ht ! j < 0 \<and> ht ! j = - 1 \<or> (\<exists>f. ht ! j = int f \<and> m f = Some (ct ! j))"
  unfolding table_def by auto

lemma table_probe:
  "table m ht ct \<Longrightarrow> m f = Some c \<Longrightarrow> \<exists>t < HSIZE. ht ! slot_at f t = int f \<and> (\<forall>s < t. 0 \<le> ht ! slot_at f s)"
  unfolding table_def by blast

lemma table_rd:
  assumes "table m ht ct" "j < HSIZE"
  shows "rd ht j = Inr (ht ! j) \<and> rd ct j = Inr (ct ! j)"
  using assms by (simp add: table_def rd_def)

text \<open>The walk from slot \<open>t\<close> on ends at the first slot \<open>n\<close> with the key or without one.\<close>

lemma probe_walk:
  assumes tab: "table m ht ct" and f: "key f"
    and stop: "ht ! slot_at f n = int f \<or> ht ! slot_at f n < 0"
    and go: "\<And>s. s < n \<Longrightarrow> ht ! slot_at f s \<noteq> int f \<and> 0 \<le> ht ! slot_at f s"
  shows "t < n \<Longrightarrow> n - t \<le> fuel \<Longrightarrow>
    probe fuel ht ct (int (stride (key_slot f))) (int f) (int (slot_at f t)) =
      Inr (if ht ! slot_at f n = int f then Hit (ct ! slot_at f n) else Miss (slot_at f n))"
proof (induction fuel arbitrary: t)
  case (Suc fuel)
  define i where "i = (let i = int (slot_at f t) - int (stride (key_slot f)) in if i < 0 then i + int HSIZE else i)"
  have i: "i = int (slot_at f (Suc t))" unfolding i_def by (rule slot_Suc [OF f, symmetric])
  have step: "probe (Suc fuel) ht ct (int (stride (key_slot f))) (int f) (int (slot_at f t)) =
    bind_res (rd ht (nat i)) (\<lambda>v.
      if v = int f then bind_res (rd ct (nat i)) (\<lambda>c. Inr (Hit c))
      else if v \<ge> 0 then probe fuel ht ct (int (stride (key_slot f))) (int f) i
      else Inr (Miss (nat i)))"
    by (simp only: probe.simps i_def Let_def)
  show ?case
  proof (cases "Suc t = n")
    case True
    then show ?thesis unfolding step i using stop table_rd [OF tab slot_less] by auto
  next
    case False
    then have "Suc t < n" "n - Suc t \<le> fuel" using Suc.prems by auto
    then show ?thesis unfolding step i
      using go [of "Suc t"] Suc.IH [of "Suc t"] table_rd [OF tab slot_less] by simp
  qed
qed simp

text \<open>What a search finds.\<close>

lemma find_code_table:
  assumes tab: "table m ht ct" and f: "key f" and room: "card (occupied ht) < HSIZE"
  shows "case m f of
      Some c \<Rightarrow> find_code ht ct (int f) (key_slot f) = Inr (Hit c)
    | None \<Rightarrow> \<exists>n < HSIZE. find_code ht ct (int f) (key_slot f) = Inr (Miss (slot_at f n)) \<and>
        ht ! slot_at f n = - 1 \<and> (\<forall>s < n. 0 \<le> ht ! slot_at f s)"
proof -
  define stop where "stop n \<longleftrightarrow> ht ! slot_at f n = int f \<or> ht ! slot_at f n < 0" for n
  obtain t where t: "t < HSIZE" "ht ! slot_at f t < 0" using walk_finds_empty [OF f room] by blast
  define n where "n = (LEAST n. stop n)"
  have n: "stop n" unfolding n_def by (rule LeastI [of stop t]) (simp add: stop_def t)
  have "n \<le> t" unfolding n_def by (rule Least_le) (simp add: stop_def t)
  then have nH: "n < HSIZE" using t by simp
  have go: "ht ! slot_at f s \<noteq> int f \<and> 0 \<le> ht ! slot_at f s" if "s < n" for s
    using not_less_Least [of s stop] that by (simp add: n_def stop_def)
  have dis: "int (stride i) = (if i = 0 then 1 else int HSIZE - int i)" if "i < HSIZE" for i
    using that by (simp add: stride_def of_nat_diff)
  have less: "key_slot f < HSIZE" using slot_less [of f 0] by (simp add: slot_0 f)
  have found: "find_code ht ct (int f) (key_slot f) =
      Inr (if ht ! slot_at f n = int f then Hit (ct ! slot_at f n) else Miss (slot_at f n))"
  proof (cases "n = 0")
    case True
    then show ?thesis using n table_rd [OF tab less] by (auto simp: find_code_def slot_0 f stop_def)
  next
    case False
    then have "probe HSIZE ht ct (int (stride (key_slot f))) (int f) (int (key_slot f)) =
      Inr (if ht ! slot_at f n = int f then Hit (ct ! slot_at f n) else Miss (slot_at f n))"
      using probe_walk [OF tab f, of n 0 HSIZE] n go nH by (simp add: stop_def slot_0 f)
    then show ?thesis using go [of 0] False table_rd [OF tab less] dis [OF less]
      by (auto simp: find_code_def slot_0 f)
  qed
  show ?thesis
  proof (cases "m f")
    case None
    have "ht ! slot_at f n \<noteq> int f" using table_entry [OF tab slot_less, of f n] None by auto
    moreover have "ht ! slot_at f n = - 1" using calculation n table_entry [OF tab slot_less, of f n]
      by (auto simp: stop_def)
    ultimately show ?thesis using None found nH go by auto
  next
    case (Some c)
    obtain k where k: "ht ! slot_at f k = int f" "\<forall>s < k. 0 \<le> ht ! slot_at f s"
      using table_probe [OF tab Some] by blast
    then have "n \<le> k" unfolding n_def by (intro Least_le) (simp add: stop_def)
    then have "ht ! slot_at f n = int f"
    proof (cases "n = k")
      case False
      then have "0 \<le> ht ! slot_at f n" using k \<open>n \<le> k\<close> by simp
      then show ?thesis using n by (simp add: stop_def)
    qed (use k in simp)
    moreover have "ct ! slot_at f n = c" using calculation table_entry [OF tab slot_less, of f n] Some by auto
    ultimately show ?thesis using Some found by simp
  qed
qed

text \<open>Entering the key there.\<close>

lemma table_insert:
  assumes tab: "table m ht ct" and f: "m f = None" and n: "n < HSIZE" "ht ! slot_at f n = - 1"
    and walk: "\<forall>s < n. 0 \<le> ht ! slot_at f s"
  shows "table (m(f \<mapsto> c)) (ht[slot_at f n := int f]) (ct[slot_at f n := c])"
proof -
  let ?i = "slot_at f n"
  have len: "length ht = HSIZE" "length ct = HSIZE" using tab by (simp_all add: table_def)
  have ent: "ht[?i := int f] ! j = - 1 \<or> (\<exists>g. ht[?i := int f] ! j = int g \<and> (m(f \<mapsto> c)) g = Some (ct[?i := c] ! j))"
    if "j < HSIZE" for j
    using table_entry [OF tab that] f that len by (cases "j = ?i") auto
  have keep: "0 \<le> ht ! j \<Longrightarrow> 0 \<le> ht[?i := int f] ! j" for j
    using len by (cases "j = ?i") (auto simp: slot_less)
  have prb: "\<exists>t < HSIZE. ht[?i := int f] ! slot_at g t = int g \<and> (\<forall>s < t. 0 \<le> ht[?i := int f] ! slot_at g s)"
    if g: "(m(f \<mapsto> c)) g = Some d" for g d
  proof (cases "g = f")
    case True
    then show ?thesis using n walk keep len by (intro exI [of _ n]) (simp add: slot_less)
  next
    case False
    then have "m g = Some d" using g by simp
    then obtain t where t: "t < HSIZE" "ht ! slot_at g t = int g" "\<forall>s < t. 0 \<le> ht ! slot_at g s"
      using table_probe [OF tab] by blast
    then have "slot_at g t \<noteq> ?i" using n by auto
    then show ?thesis using t keep by (intro exI [of _ t]) simp
  qed
  show ?thesis unfolding table_def using len ent prb by simp
qed

lemma occupied_insert: "card (occupied (ht[i := v])) \<le> card (occupied ht) + 1"
proof -
  have "occupied (ht[i := v]) \<subseteq> insert i (occupied ht)" by (auto simp: occupied_def nth_list_update split: if_splits)
  then have "card (occupied (ht[i := v])) \<le> card (insert i (occupied ht))" by (rule card_mono [rotated]) simp
  then show ?thesis using card_insert_le_m1 [of "card (occupied ht) + 1" "occupied ht" i] by simp
qed

section \<open>Clearing\<close>

definition clear_from :: "int \<Rightarrow> int list \<Rightarrow> bool" where
  "clear_from p tab \<longleftrightarrow> (\<forall>j < length tab. p \<le> int j \<longrightarrow> tab ! j = - 1)"

lemma clear_fold:
  "length (fold (\<lambda>k t. t[nat (p - k) := - 1]) ks tab) = length tab \<and>
   (j < length tab \<longrightarrow> fold (\<lambda>k t. t[nat (p - k) := - 1]) ks tab ! j =
     (if \<exists>k \<in> set ks. nat (p - k) = j then - 1 else tab ! j))" for tab :: "int list"
  by (induction ks arbitrary: tab) auto

lemma clear_block:
  assumes "clear_from p tab" "16 \<le> p" "p \<le> int (length tab)"
  shows "clear_from (p - 16) (fold (\<lambda>k t. t[nat (p - k) := - 1]) (map int (rev [1..<17])) tab)"
proof -
  have "fold (\<lambda>k t. t[nat (p - k) := - 1]) (map int (rev [1..<17])) tab ! j = - 1"
    if j: "j < length tab" "p - 16 \<le> int j" for j
  proof (cases "p \<le> int j")
    case True
    then have "tab ! j = - 1" using assms(1) j unfolding clear_from_def by blast
    then show ?thesis using clear_fold [of p "map int (rev [1..<17])" tab j] j by presburger
  next
    case False
    have "nat (p - int j) \<in> set (rev [1..<17])" using False j by (simp only: set_rev set_upt) auto
    then have "int (nat (p - int j)) \<in> set (map int (rev [1..<17]))" unfolding set_map by (rule imageI)
    moreover have "nat (p - int (nat (p - int j))) = j" using False by simp
    ultimately have "\<exists>k \<in> set (map int (rev [1..<17])). nat (p - k) = j" by blast
    then show ?thesis using clear_fold [of p "map int (rev [1..<17])" tab j] j by presburger
  qed
  moreover have "length (fold (\<lambda>k t. t[nat (p - k) := - 1]) (map int (rev [1..<17])) tab) = length tab"
    using clear_fold by blast
  ultimately show ?thesis unfolding clear_from_def by presburger
qed

lemma cl_hash_blocks_clear:
  "clear_from p tab \<Longrightarrow> 16 \<le> p \<Longrightarrow> p \<le> int (length tab) \<Longrightarrow>
   \<exists>q tab'. cl_hash_blocks (p - 16) p tab = (q - 16, q, tab') \<and> clear_from q tab' \<and> 0 \<le> q \<and> q \<le> int (length tab') \<and>
     length tab' = length tab"
proof (induction "nat p" arbitrary: p tab rule: less_induct)
  case less
  define tab2 where "tab2 = fold (\<lambda>k t. t[nat (p - k) := - 1]) (map int (rev [1..<17])) tab"
  have t2: "clear_from (p - 16) tab2" unfolding tab2_def by (rule clear_block [OF less.prems])
  have len: "length tab2 = length tab" using clear_fold by (simp add: tab2_def)
  have run: "cl_hash_blocks (p - 16) p tab =
      (if p - 16 - 16 \<ge> 0 then cl_hash_blocks (p - 16 - 16) (p - 16) tab2 else (p - 16 - 16, p - 16, tab2))"
    by (subst cl_hash_blocks.simps) (simp only: Let_def tab2_def)
  show ?case
  proof (cases "p - 16 - 16 \<ge> 0")
    case True
    have "nat (p - 16) < nat p" using less.prems by simp
    then show ?thesis unfolding run using less.hyps [of "p - 16" tab2] True t2 less.prems len by simp
  next
    case False
    then show ?thesis unfolding run using t2 less.prems len by simp
  qed
qed

lemma cl_hash_rest_clear:
  "clear_from (int p) tab \<Longrightarrow> p \<le> length tab \<Longrightarrow> cl_hash_rest p (int p) tab = replicate (length tab) (- 1)"
proof (induction p arbitrary: tab)
  case 0
  then show ?case by (auto simp: clear_from_def list_eq_iff_nth_eq)
next
  case (Suc p)
  have "clear_from (int p) (tab[p := - 1])"
    using Suc.prems by (auto simp: clear_from_def nth_list_update)
  then show ?case using Suc.IH [of "tab[p := - 1]"] Suc.prems by simp
qed

lemma cl_hash_clears:
  assumes "length tab = HSIZE"
  shows "cl_hash HSIZE tab = replicate HSIZE (- 1)"
proof -
  have "clear_from (int HSIZE) tab" using assms by (simp add: clear_from_def)
  moreover have "16 \<le> int HSIZE" "int HSIZE \<le> int (length tab)" using assms by (simp_all add: HSIZE_def)
  ultimately obtain q tab' where q: "cl_hash_blocks (int HSIZE - 16) (int HSIZE) tab = (q - 16, q, tab')"
    "clear_from q tab'" "0 \<le> q" "q \<le> int (length tab')" "length tab' = length tab"
    using cl_hash_blocks_clear by blast
  moreover have "cl_hash_rest (nat q) (int (nat q)) tab' = replicate (length tab') (- 1)"
    by (rule cl_hash_rest_clear) (use q in simp_all)
  ultimately show ?thesis using assms by (simp add: cl_hash_def)
qed

end
