(* ===== verification/GifLzw.thy ===== *)
theory GifLzw
  imports GifBits GifTable
begin

text \<open>
  The GIF compressor against the decoder of the GIF89a specification (appendix F): the
  decoder keeps the strings of all codes and the string of the last code, and its width
  grows when the strings no longer fit.  Reading what \<open>compress\<close> wrote gives the pixels back.
\<close>

section \<open>The decoder of the specification\<close>

record decoder =
  d_dict :: "nat list list"
  d_prev :: "nat list option"
  d_width :: nat
  d_out :: "nat list"

definition init_dict :: "nat \<Rightarrow> nat list list" where
  "init_dict C = map (\<lambda>i. [i]) [0..<C] @ [[], []]"

definition dec_init :: "nat \<Rightarrow> decoder" where
  "dec_init ib = \<lparr>d_dict = init_dict (2 ^ (ib - 1)), d_prev = None, d_width = ib, d_out = []\<rparr>"

text \<open>The entry that the code completes: the last string and the first pixel of the new one.\<close>

definition dec_dict :: "nat \<Rightarrow> decoder \<Rightarrow> nat list list" where
  "dec_dict k st =
     (case d_prev st of
        None \<Rightarrow> d_dict st
      | Some p \<Rightarrow>
          if length (d_dict st) < 4096
          then d_dict st @ [p @ [hd (if k < length (d_dict st) then d_dict st ! k else p)]] else d_dict st)"

definition dec_code :: "nat \<Rightarrow> nat \<Rightarrow> decoder \<Rightarrow> decoder option" where
  "dec_code ib k st =
     (if k = 2 ^ (ib - 1) then Some ((dec_init ib)\<lparr>d_out := d_out st\<rparr>)
      else let d = dec_dict k st in
        if k < length d
        then Some \<lparr>d_dict = d, d_prev = Some (d ! k),
          d_width = (if length d = 2 ^ d_width st \<and> d_width st < 12 then d_width st + 1 else d_width st),
          d_out = d_out st @ d ! k\<rparr>
        else None)"

definition nat_of_bits :: "bool list \<Rightarrow> nat" where
  "nat_of_bits bs = horner_sum of_bool 2 bs"

function gif_decode :: "nat \<Rightarrow> decoder \<Rightarrow> bool list \<Rightarrow> nat list option" where
  "gif_decode ib st bits =
     (if d_width st = 0 \<or> length bits < d_width st then None
      else let k = nat_of_bits (take (d_width st) bits) in
        if k = 2 ^ (ib - 1) + 1 then Some (d_out st)
        else case dec_code ib k st of
          None \<Rightarrow> None
        | Some st' \<Rightarrow> gif_decode ib st' (drop (d_width st) bits))"
  by pat_completeness auto
termination by (relation "measure (\<lambda>(ib, st, bits). length bits)") auto

declare gif_decode.simps [simp del]

lemma nat_of_bits_of: "k < 2 ^ w \<Longrightarrow> nat_of_bits (bits_of k w) = k"
  by (simp add: nat_of_bits_def bits_of_def horner_sum_bit_eq_take_bit take_bit_nat_eq_self)

lemma gif_decode_code:
  assumes "0 < d_width st" "k < 2 ^ d_width st"
  shows "gif_decode ib st (bits_of k (d_width st) @ rest) =
    (if k = 2 ^ (ib - 1) + 1 then Some (d_out st)
     else case dec_code ib k st of None \<Rightarrow> None | Some st' \<Rightarrow> gif_decode ib st' rest)"
  using assms by (subst gif_decode.simps) (simp add: nat_of_bits_of Let_def split: option.split)

section \<open>Strings and codes\<close>

text \<open>\<open>S\<close> holds the strings of the codes the compressor may emit.\<close>

definition good :: "nat list list \<Rightarrow> nat \<Rightarrow> bool" where
  "good S k \<longleftrightarrow> k < length S \<and> S ! k \<noteq> []"

definition strings_ok :: "nat \<Rightarrow> nat list list \<Rightarrow> bool" where
  "strings_ok C S \<longleftrightarrow> (\<exists>E. S = init_dict C @ E)"

definition codes_ok :: "nat \<Rightarrow> nat list list \<Rightarrow> (nat \<Rightarrow> nat option) \<Rightarrow> bool" where
  "codes_ok C S m \<longleftrightarrow> (\<forall>e c k. e < 4096 \<and> m (c * 4096 + e) = Some k \<longrightarrow> good S e \<and> good S k \<and> S ! k = S ! e @ [c])"

lemma init_dict_simps [simp]:
  "length (init_dict C) = C + 2" "i < C \<Longrightarrow> init_dict C ! i = [i]" "init_dict C ! C = []" "init_dict C ! Suc C = []"
  by (simp_all add: init_dict_def nth_append)

lemma strings_ok_init: "strings_ok C (init_dict C)"
  by (simp add: strings_ok_def)

lemma strings_ok_snoc: "strings_ok C S \<Longrightarrow> strings_ok C (S @ [s])"
  by (auto simp: strings_ok_def)

lemma strings_ok_simps:
  assumes "strings_ok C S"
  shows "C + 2 \<le> length S" "c < C \<Longrightarrow> S ! c = [c]" "c < C \<Longrightarrow> good S c" "\<not> good S C" "\<not> good S (C + 1)"
  using assms by (auto simp: strings_ok_def good_def nth_append)

lemma good_snoc: "good S k \<Longrightarrow> good (S @ [s]) k \<and> (S @ [s]) ! k = S ! k"
  by (auto simp: good_def nth_append)

lemma good_last: "s \<noteq> [] \<Longrightarrow> good (S @ [s]) (length S)"
  by (simp add: good_def)

lemma codes_ok_empty: "codes_ok C S Map.empty"
  by (simp add: codes_ok_def)

lemma codes_okD:
  "codes_ok C S m \<Longrightarrow> e < 4096 \<Longrightarrow> m (c * 4096 + e) = Some k \<Longrightarrow> good S e \<and> good S k \<and> S ! k = S ! e @ [c]"
  unfolding codes_ok_def by blast

lemma key_inject:
  fixes c e :: nat
  assumes "e < 4096" "e' < 4096" "c * 4096 + e = c' * 4096 + e'"
  shows "c = c' \<and> e = e'"
proof -
  have "(c * 4096 + e) mod 4096 = (c' * 4096 + e') mod 4096" using assms(3) by (rule arg_cong)
  then have "e = e'" using assms(1,2) by simp
  then show ?thesis using assms(3) by simp
qed

lemma codes_okI:
  "(\<And>e c k. e < 4096 \<Longrightarrow> m (c * 4096 + e) = Some k \<Longrightarrow> good S e \<and> good S k \<and> S ! k = S ! e @ [c]) \<Longrightarrow> codes_ok C S m"
  unfolding codes_ok_def by blast

lemma codes_ok_insert:
  assumes cs: "codes_ok C S m" and e: "good S e" "e < 4096" and f: "f = c * 4096 + e"
  shows "codes_ok C (S @ [S ! e @ [c]]) (m(f \<mapsto> length S))"
proof (rule codes_okI)
  fix x y k
  assume x: "x < 4096" and k: "(m(f \<mapsto> length S)) (y * 4096 + x) = Some k"
  show "good (S @ [S ! e @ [c]]) x \<and> good (S @ [S ! e @ [c]]) k \<and> (S @ [S ! e @ [c]]) ! k = (S @ [S ! e @ [c]]) ! x @ [y]"
  proof (cases "y * 4096 + x = f")
    case True
    then have "y = c \<and> x = e" unfolding f by (rule key_inject [OF x e(2)])
    moreover have "k = length S" using k unfolding True by (simp only: fun_upd_same option.inject)
    moreover have "good (S @ [S ! e @ [c]]) (length S)" by (rule good_last) blast
    ultimately show ?thesis using good_snoc [OF e(1), of "S ! e @ [c]"] by (simp only: nth_append_length)
  next
    case False
    then have "m (y * 4096 + x) = Some k" using k by (simp add: fun_upd_other)
    then have k: "good S x" "good S k" "S ! k = S ! x @ [y]" using codes_okD [OF cs x] by blast+
    show ?thesis using k(3) good_snoc [OF k(1)] good_snoc [OF k(2)] by simp
  qed
qed

section \<open>The decoder keeps up\<close>

text \<open>
  The decoder lags by one string: the one that the compressor entered last is completed by
  the first pixel of the code that is still open.
\<close>

definition lag :: "nat list list \<Rightarrow> nat \<Rightarrow> decoder \<Rightarrow> bool" where
  "lag S e st \<longleftrightarrow> (case d_prev st of None \<Rightarrow> d_dict st = S
     | Some p \<Rightarrow> p \<noteq> [] \<and> S = d_dict st @ [p @ [hd (S ! e)]])"

lemma lag_dict:
  assumes l: "lag S e st" and e: "good S e" and len: "length S \<le> 4096"
  shows "dec_dict e st = S"
proof (cases "d_prev st")
  case None
  then show ?thesis using l by (simp add: lag_def dec_dict_def)
next
  case (Some p)
  then have p: "p \<noteq> []" and S: "S = d_dict st @ [p @ [hd (S ! e)]]" using l unfolding lag_def by simp_all
  from S have "length S = length (d_dict st) + 1" by (metis length_append_singleton Suc_eq_plus1)
  then have room: "length (d_dict st) < 4096" using len by simp
  have hd: "hd (if e < length (d_dict st) then d_dict st ! e else p) = hd (S ! e)"
  proof (cases "e < length (d_dict st)")
    case True
    have "S ! e = d_dict st ! e" using nth_append_left [OF True] S by metis
    then show ?thesis using True by simp
  next
    case False
    have "e < length S" using e by (simp add: good_def)
    then have "e = length (d_dict st)" using False \<open>length S = length (d_dict st) + 1\<close> by simp
    then have "S ! e = p @ [hd (S ! e)]" using S by (metis nth_append_length)
    then have "hd (S ! e) = hd (p @ [hd (S ! e)])" by (rule arg_cong)
    also have "\<dots> = hd p" using p by (rule hd_append2)
    finally show ?thesis using False by simp
  qed
  have "dec_dict e st = d_dict st @ [p @ [hd (if e < length (d_dict st) then d_dict st ! e else p)]]"
    using Some room by (simp add: dec_dict_def)
  then show ?thesis unfolding hd using S by metis
qed

lemma dec_code_lag:
  assumes "lag S e st" "good S e" "length S \<le> 4096" "strings_ok (2 ^ (ib - 1)) S"
  shows "dec_code ib e st = Some \<lparr>d_dict = S, d_prev = Some (S ! e),
    d_width = (if length S = 2 ^ d_width st \<and> d_width st < 12 then d_width st + 1 else d_width st),
    d_out = d_out st @ S ! e\<rparr>"
proof -
  have "e \<noteq> 2 ^ (ib - 1)" using assms(2,4) strings_ok_simps(4) by blast
  then show ?thesis using lag_dict [OF assms(1,2,3)] assms(2) by (simp add: dec_code_def good_def)
qed

section \<open>Emitting a code\<close>

definition synced :: "nat \<Rightarrow> u8 list \<Rightarrow> gif \<Rightarrow> decoder \<Rightarrow> bool" where
  "synced ib base g st \<longleftrightarrow> g_cur_bits g < 8 \<and> d_width st = g_n_bits g \<and>
     (\<exists>bits. stream base g bits \<and> (\<forall>rest. gif_decode ib (dec_init ib) (bits @ rest) = gif_decode ib st rest))"

lemma syncedI:
  "g_cur_bits g < 8 \<Longrightarrow> d_width st = g_n_bits g \<Longrightarrow> stream base g bits \<Longrightarrow>
   (\<And>rest. gif_decode ib (dec_init ib) (bits @ rest) = gif_decode ib st rest) \<Longrightarrow> synced ib base g st"
  unfolding synced_def by blast

lemma syncedE:
  assumes "synced ib base g st"
  obtains bits where "g_cur_bits g < 8" "d_width st = g_n_bits g" "stream base g bits"
    "\<And>rest. gif_decode ib (dec_init ib) (bits @ rest) = gif_decode ib st rest"
  using assms unfolding synced_def by blast

lemma synced_cong:
  "g_file g' = g_file g \<Longrightarrow> g_accum g' = g_accum g \<Longrightarrow> g_cur_accum g' = g_cur_accum g \<Longrightarrow>
   g_cur_bits g' = g_cur_bits g \<Longrightarrow> g_n_bits g' = g_n_bits g \<Longrightarrow> synced ib base g st \<Longrightarrow> synced ib base g' st"
  unfolding synced_def using stream_cong [of g' g base] by metis

lemma emit:
  assumes s: "synced ib base g st" and n: "0 < g_n_bits g" "cd < 2 ^ g_n_bits g"
    and e: "g_EOFCode g = 2 ^ (ib - 1) + 1" "cd \<noteq> g_EOFCode g" and d: "dec_code ib cd st = Some st'"
  shows "\<exists>h. gif_output cd g = Inr (adjust_width h) \<and> same_table g h \<and>
    (d_width st' = g_n_bits (adjust_width h) \<longrightarrow> synced ib base (adjust_width h) st')"
proof -
  obtain bits where b: "g_cur_bits g < 8" "d_width st = g_n_bits g" "stream base g bits"
    and run: "\<And>rest. gif_decode ib (dec_init ib) (bits @ rest) = gif_decode ib st rest"
    using s by (rule syncedE) blast
  obtain h where h: "gif_output cd g = Inr (adjust_width h)" "same_table g h"
    "stream base (adjust_width h) (bits @ bits_of cd (g_n_bits g))" "g_cur_bits (adjust_width h) < 8"
    using gif_output_stream [OF b(3,1) e(2) n(2)] by blast
  have "gif_decode ib (dec_init ib) ((bits @ bits_of cd (g_n_bits g)) @ rest) = gif_decode ib st' rest" for rest
    using gif_decode_code [of st cd ib rest] n b(2) run e d by simp
  then have "synced ib base (adjust_width h) st'" if "d_width st' = g_n_bits (adjust_width h)"
    by (rule syncedI [OF h(4) that h(3)])
  then show ?thesis using h(1,2) by blast
qed

lemma emit_eof:
  assumes s: "synced ib base g st" and n: "0 < g_n_bits g" "g_EOFCode g < 2 ^ g_n_bits g"
    and e: "g_EOFCode g = 2 ^ (ib - 1) + 1"
  shows "\<exists>g' ps. gif_output (g_EOFCode g) g = Inr g' \<and> g_file g' = base @ packets ps \<and>
    (\<forall>p \<in> set ps. 0 < length p \<and> length p \<le> 254) \<and>
    gif_decode ib (dec_init ib) (byte_bits (concat ps)) = Some (d_out st)"
proof -
  obtain bits where b: "g_cur_bits g < 8" "d_width st = g_n_bits g" "stream base g bits"
    and run: "\<And>rest. gif_decode ib (dec_init ib) (bits @ rest) = gif_decode ib st rest"
    using s by (rule syncedE) blast
  obtain g' ps pad where g': "gif_output (g_EOFCode g) g = Inr g'" "g_file g' = base @ packets ps"
    "\<forall>p \<in> set ps. 0 < length p \<and> length p \<le> 254"
    "byte_bits (concat ps) = bits @ bits_of (g_EOFCode g) (g_n_bits g) @ pad"
    using gif_output_eof [OF b(3,1) n(2)] by blast
  have "gif_decode ib (dec_init ib) (byte_bits (concat ps)) = Some (d_out st)"
    unfolding g'(4) run using gif_decode_code [of st "g_EOFCode g" ib pad] n b(2) e by simp
  then show ?thesis using g' by blast
qed

section \<open>The invariant of the compressor\<close>

definition constants :: "nat \<Rightarrow> gif \<Rightarrow> bool" where
  "constants ib g \<longleftrightarrow> g_init_bits g = ib \<and> g_ClearCode g = 2 ^ (ib - 1) \<and> g_EOFCode g = 2 ^ (ib - 1) + 1 \<and>
     3 \<le> ib \<and> ib \<le> 9"

definition widths :: "nat \<Rightarrow> gif \<Rightarrow> bool" where
  "widths ib g \<longleftrightarrow> ib \<le> g_n_bits g \<and> g_n_bits g \<le> 12 \<and> g_free_ent g \<le> 2 ^ g_n_bits g \<and>
     g_maxcode g = (if g_n_bits g = 12 then 4096 else 2 ^ g_n_bits g - 1) \<and> \<not> g_clear_flg g"

definition tables :: "nat \<Rightarrow> gif \<Rightarrow> nat list list \<Rightarrow> bool" where
  "tables C g S \<longleftrightarrow> g_free_ent g = length S \<and> length S \<le> 4096 \<and> strings_ok C S \<and>
     card (occupied (g_htab g)) + C + 2 \<le> length S \<and>
     (\<exists>m. table m (g_htab g) (g_codetab g) \<and> codes_ok C S m)"

lemma adjust_width_grow:
  assumes "widths ib g"
  shows "widths ib (adjust_width g) \<and>
    g_n_bits (adjust_width g) = (if g_free_ent g = 2 ^ g_n_bits g \<and> g_n_bits g < 12 then g_n_bits g + 1 else g_n_bits g) \<and>
    (g_free_ent g < 2 ^ g_n_bits (adjust_width g) \<or> g_n_bits (adjust_width g) = 12)"
proof (cases "g_free_ent g = 2 ^ g_n_bits g \<and> g_n_bits g < 12")
  case True
  moreover have "(1::nat) \<le> 2 ^ g_n_bits g" by simp
  ultimately show ?thesis using assms
    by (auto simp: adjust_width_def widths_def XV_BITS_def maxmaxcode_def MAXCODE_def Let_def)
next
  case False
  have "\<not> g_maxcode g < g_free_ent g"
  proof (cases "g_n_bits g = 12")
    case True
    then show ?thesis using assms by (simp add: widths_def)
  next
    case F: False
    then have "g_free_ent g < 2 ^ g_n_bits g" using assms False by (auto simp: widths_def)
    then show ?thesis using assms F by (simp add: widths_def)
  qed
  then have "adjust_width g = g" using assms by (simp add: adjust_width_def widths_def)
  then show ?thesis using assms False by (auto simp: widths_def)
qed

lemma widths_cong:
  "g_n_bits h = g_n_bits g \<Longrightarrow> g_free_ent h = g_free_ent g \<Longrightarrow> g_maxcode h = g_maxcode g \<Longrightarrow>
   g_clear_flg h = g_clear_flg g \<Longrightarrow> widths ib h = widths ib g"
  by (simp add: widths_def)

lemma widths_same_table: "same_table g h \<Longrightarrow> widths ib h = widths ib g"
  by (rule widths_cong) (simp_all add: same_table_def)

lemma constants_same_table: "same_table g h \<Longrightarrow> constants ib (adjust_width h) = constants ib g"
  by (simp add: constants_def same_table_def adjust_width_frame)

lemma tables_same_table: "same_table g h \<Longrightarrow> tables C (adjust_width h) S = tables C g S"
  by (simp add: tables_def same_table_def adjust_width_frame)

text \<open>The prefix \<open>ent\<close> is open, the pixels \<open>px\<close> were read.\<close>

definition coder_inv :: "nat \<Rightarrow> u8 list \<Rightarrow> nat \<Rightarrow> gif \<Rightarrow> nat list \<Rightarrow> bool" where
  "coder_inv ib base e g px \<longleftrightarrow> constants ib g \<and> widths ib g \<and> (\<exists>S st. tables (2 ^ (ib - 1)) g S \<and> good S e \<and>
     synced ib base g st \<and> lag S e st \<and> px = d_out st @ S ! e)"

lemma coder_invI:
  "constants ib g \<Longrightarrow> widths ib g \<Longrightarrow> tables (2 ^ (ib - 1)) g S \<Longrightarrow> good S e \<Longrightarrow> synced ib base g st \<Longrightarrow>
   lag S e st \<Longrightarrow> px = d_out st @ S ! e \<Longrightarrow> coder_inv ib base e g px"
  unfolding coder_inv_def by blast

lemma coder_invE:
  assumes "coder_inv ib base e g px"
  obtains S st where "constants ib g" "widths ib g" "tables (2 ^ (ib - 1)) g S" "good S e" "synced ib base g st"
    "lag S e st" "px = d_out st @ S ! e"
  using assms unfolding coder_inv_def by blast

lemma emit_open:
  assumes c: "constants ib g" and w: "widths ib g" and t: "tables (2 ^ (ib - 1)) g S" and e: "good S e"
    and s: "synced ib base g st" and l: "lag S e st"
  shows "\<exists>g' st'. gif_output e g = Inr g' \<and> constants ib g' \<and> widths ib g' \<and> tables (2 ^ (ib - 1)) g' S \<and>
    synced ib base g' st' \<and> d_dict st' = S \<and> d_prev st' = Some (S ! e) \<and> d_out st' = d_out st @ S ! e \<and>
    (length S < 2 ^ g_n_bits g' \<or> g_n_bits g' = 12) \<and> g_htab g' = g_htab g \<and> g_codetab g' = g_codetab g"
proof -
  have S: "g_free_ent g = length S" "length S \<le> 4096" "strings_ok (2 ^ (ib - 1)) S" using t by (simp_all add: tables_def)
  define st' where "st' = \<lparr>d_dict = S, d_prev = Some (S ! e),
    d_width = (if length S = 2 ^ d_width st \<and> d_width st < 12 then d_width st + 1 else d_width st),
    d_out = d_out st @ S ! e\<rparr>"
  have d: "dec_code ib e st = Some st'" unfolding st'_def by (rule dec_code_lag [OF l e S(2,3)])
  have n: "0 < g_n_bits g" using w c by (simp add: widths_def constants_def)
  have "e < length S" using e by (simp add: good_def)
  then have less: "e < 2 ^ g_n_bits g" using w S(1) unfolding widths_def by linarith
  have eof: "g_EOFCode g = 2 ^ (ib - 1) + 1" using c by (simp add: constants_def)
  have "e \<noteq> g_EOFCode g" unfolding eof using e strings_ok_simps(5) [OF S(3)] by blast
  then obtain h where h: "gif_output e g = Inr (adjust_width h)" "same_table g h"
    "d_width st' = g_n_bits (adjust_width h) \<Longrightarrow> synced ib base (adjust_width h) st'"
    using emit [OF s n less eof _ d] by blast
  have wh: "widths ib h" using w h(2) by (simp add: widths_same_table)
  have dw: "d_width st = g_n_bits g" using s by (auto elim: syncedE)
  have st: "g_n_bits h = g_n_bits g" "g_free_ent h = length S" using h(2) S(1) by (simp_all add: same_table_def)
  have "d_width st' = g_n_bits (adjust_width h)"
    using adjust_width_grow [OF wh] dw by (simp add: st'_def st)
  then have "synced ib base (adjust_width h) st'" by (rule h(3))
  moreover have "constants ib (adjust_width h)" "tables (2 ^ (ib - 1)) (adjust_width h) S"
    using c t h(2) by (simp_all add: constants_same_table tables_same_table)
  moreover have "g_htab (adjust_width h) = g_htab g" "g_codetab (adjust_width h) = g_codetab g"
    using h(2) by (simp_all add: adjust_width_frame same_table_def)
  moreover have "widths ib (adjust_width h)" "length S < 2 ^ g_n_bits (adjust_width h) \<or> g_n_bits (adjust_width h) = 12"
    using adjust_width_grow [OF wh] unfolding st by blast+
  ultimately show ?thesis using h(1) by (intro exI [of _ "adjust_width h"] exI [of _ st']) (simp add: st'_def)
qed

text \<open>A new string: the table grows by one entry.\<close>

lemma tables_grow:
  assumes t: "tables C g S" and room: "length S < 4096" and e: "good S e" and f: "f = c * 4096 + e" "key f"
    and m: "table m (g_htab g) (g_codetab g)" "codes_ok C S m" "m f = None"
    and n: "n < HSIZE" "g_htab g ! slot_at f n = - 1" "\<forall>s < n. 0 \<le> g_htab g ! slot_at f s"
  shows "tables C (g\<lparr>g_codetab := (g_codetab g)[slot_at f n := g_free_ent g],
      g_htab := (g_htab g)[slot_at f n := int f], g_free_ent := g_free_ent g + 1\<rparr>) (S @ [S ! e @ [c]])"
proof -
  have e4: "e < 4096" using e room by (simp add: good_def)
  have "table (m(f \<mapsto> length S)) ((g_htab g)[slot_at f n := int f]) ((g_codetab g)[slot_at f n := length S])"
    by (rule table_insert [OF m(1,3) n])
  moreover have "codes_ok C (S @ [S ! e @ [c]]) (m(f \<mapsto> length S))"
    by (rule codes_ok_insert [OF m(2) e e4 f(1)])
  moreover have "card (occupied ((g_htab g)[slot_at f n := int f])) + C + 2 \<le> length S + 1"
    using occupied_insert [of "g_htab g" "slot_at f n" "int f"] t unfolding tables_def by linarith
  ultimately show ?thesis using t room by (auto simp: tables_def strings_ok_snoc)
qed

text \<open>The table is full: it is cleared and the decoder is told so.\<close>

lemma cl_block_sync:
  assumes c: "constants ib g" and w: "widths ib g" and t: "tables (2 ^ (ib - 1)) g S" and s: "synced ib base g st"
  shows "\<exists>g'. cl_block g = Inr g' \<and> constants ib g' \<and> widths ib g' \<and> tables (2 ^ (ib - 1)) g' (init_dict (2 ^ (ib - 1))) \<and>
    synced ib base g' ((dec_init ib)\<lparr>d_out := d_out st\<rparr>)"
proof -
  define k where "k = g\<lparr>g_htab := cl_hash HSIZE (g_htab g), g_free_ent := g_ClearCode g + 2, g_clear_flg := True\<rparr>"
  obtain m where m: "table m (g_htab g) (g_codetab g)" using t by (auto simp: tables_def)
  then have len: "length (g_htab g) = HSIZE" "length (g_codetab g) = HSIZE" by (simp_all add: table_def)
  have ib: "3 \<le> ib" "ib \<le> 9" and clr: "g_ClearCode g = 2 ^ (ib - 1)" "g_EOFCode g = 2 ^ (ib - 1) + 1" "g_init_bits g = ib"
    using c by (simp_all add: constants_def)
  have ks: "synced ib base k st"
    by (rule synced_cong [OF _ _ _ _ _ s]) (simp_all add: k_def)
  have kn: "g_n_bits k = g_n_bits g" "g_EOFCode k = g_EOFCode g" by (simp_all add: k_def)
  have "(2::nat) ^ (ib - 1) < 2 ^ g_n_bits g"
    using w ib unfolding widths_def by (intro power_strict_increasing) auto
  then have less: "2 ^ (ib - 1) < (2::nat) ^ g_n_bits k" by (simp add: kn)
  have n: "0 < g_n_bits k" using w ib by (simp add: widths_def kn)
  have d: "dec_code ib (2 ^ (ib - 1)) st = Some ((dec_init ib)\<lparr>d_out := d_out st\<rparr>)" by (simp add: dec_code_def)
  have "2 ^ (ib - 1) \<noteq> g_EOFCode k" by (simp add: kn clr)
  then obtain h where h: "gif_output (2 ^ (ib - 1)) k = Inr (adjust_width h)" "same_table k h"
    "d_width ((dec_init ib)\<lparr>d_out := d_out st\<rparr>) = g_n_bits (adjust_width h) \<Longrightarrow>
      synced ib base (adjust_width h) ((dec_init ib)\<lparr>d_out := d_out st\<rparr>)"
    using emit [OF ks n less _ _ d] clr by (auto simp: kn)
  have hs: "g_init_bits h = ib" "g_free_ent h = 2 ^ (ib - 1) + 2" "g_clear_flg h" "g_htab h = replicate HSIZE (- 1)"
    "g_codetab h = g_codetab g"
    using h(2) clr len by (simp_all add: same_table_def k_def cl_hash_clears)
  have adj: "adjust_width h = h\<lparr>g_n_bits := ib, g_maxcode := MAXCODE ib, g_clear_flg := False\<rparr>"
    using hs by (simp add: adjust_width_def)
  have fit: "(2::nat) ^ (ib - 1) + 2 \<le> 2 ^ ib"
  proof -
    have "(2::nat) ^ 1 \<le> 2 ^ (ib - 1)" using ib by (intro power_increasing) auto
    moreover have "(2::nat) ^ ib = 2 * 2 ^ (ib - 1)" using ib by (simp flip: power_Suc)
    ultimately show ?thesis by simp
  qed
  have "constants ib (adjust_width h)"
    using h(2) c by (simp add: constants_same_table) (simp add: constants_def k_def)
  moreover have "widths ib (adjust_width h)" using ib fit by (simp add: widths_def adj hs MAXCODE_def)
  moreover have "(2::nat) ^ (ib - 1) + 2 \<le> 4096"
    using power_increasing [of "ib" 9 "2::nat"] fit ib by simp
  then have "tables (2 ^ (ib - 1)) (adjust_width h) (init_dict (2 ^ (ib - 1)))"
    using table_empty [OF len(2)] codes_ok_empty strings_ok_init
    by (auto simp: tables_def adj hs occupied_def)
  moreover have "synced ib base (adjust_width h) ((dec_init ib)\<lparr>d_out := d_out st\<rparr>)"
    by (rule h(3)) (simp add: adj dec_init_def)
  ultimately show ?thesis using h(1) clr by (intro exI [of _ "adjust_width h"]) (simp add: cl_block_def k_def)
qed

section \<open>One pixel\<close>

lemma compress_step_inv:
  assumes inv: "coder_inv ib base e g px" and c: "c < 2 ^ (ib - 1)"
  shows "\<exists>e' g'. compress_step c e g = Inr (e', g') \<and> coder_inv ib base e' g' (px @ [c])"
proof -
  obtain S st where I: "constants ib g" "widths ib g" "tables (2 ^ (ib - 1)) g S" "good S e" "synced ib base g st"
    "lag S e st" "px = d_out st @ S ! e"
    using inv by (rule coder_invE)
  obtain m where m: "table m (g_htab g) (g_codetab g)" "codes_ok (2 ^ (ib - 1)) S m" using I(3) by (auto simp: tables_def)
  have S: "g_free_ent g = length S" "length S \<le> 4096" "strings_ok (2 ^ (ib - 1)) S"
    "card (occupied (g_htab g)) \<le> length S" using I(3) by (simp_all add: tables_def)
  have e: "e < 4096" using I(4) S(2) by (simp add: good_def)
  have "(2::nat) ^ (ib - 1) \<le> 2 ^ 8" using I(1) by (intro power_increasing) (auto simp: constants_def)
  then have c256: "c < 256" using c by simp
  define f where "f = c * 4096 + e"
  have f: "key f" using c256 e by (simp add: key_def f_def)
  have fcode: "push_bit XV_BITS c + e = f" by (simp add: f_def push_bit_eq_mult XV_BITS_def)
  have "f div 4096 = c" "f mod 4096 = e" using e by (simp_all add: f_def)
  then have slot: "push_bit 4 c XOR e = key_slot f" by (simp add: key_slot_def)
  have room: "card (occupied (g_htab g)) < HSIZE" using S by (simp add: HSIZE_def)
  note look = find_code_table [OF m(1) f room]
  show ?thesis
  proof (cases "m f")
    case (Some k)
    then have k: "good S e" "good S k" "S ! k = S ! e @ [c]" using codes_okD [OF m(2) e, of c k] by (auto simp: f_def)
    have "find_code (g_htab g) (g_codetab g) (int f) (key_slot f) = Inr (Hit k)" using look Some by simp
    then have "compress_step c e g = Inr (k, g)" by (simp add: compress_step_def fcode slot Let_def)
    moreover have "hd (S ! k) = hd (S ! e)" using k(1,3) by (simp add: good_def)
    then have "lag S k st" using I(6) by (simp add: lag_def split: option.splits)
    then have "coder_inv ib base k g (px @ [c])"
      by (rule coder_invI [OF I(1,2,3) k(2) I(5)]) (simp add: I(7) k(3))
    ultimately show ?thesis by blast
  next
    case None
    then obtain n where n: "n < HSIZE" "find_code (g_htab g) (g_codetab g) (int f) (key_slot f) = Inr (Miss (slot_at f n))"
      "g_htab g ! slot_at f n = - 1" "\<forall>s < n. 0 \<le> g_htab g ! slot_at f s"
      using look by auto
    obtain g' st' where g': "gif_output e g = Inr g'" "constants ib g'" "widths ib g'" "tables (2 ^ (ib - 1)) g' S"
      "synced ib base g' st'" "d_dict st' = S" "d_prev st' = Some (S ! e)" "d_out st' = d_out st @ S ! e"
      "length S < 2 ^ g_n_bits g' \<or> g_n_bits g' = 12" "g_htab g' = g_htab g" "g_codetab g' = g_codetab g"
      using emit_open [OF I(1-6)] by blast
    have free: "g_free_ent g' = length S" using g'(4) by (simp add: tables_def)
    have len: "length (g_htab g) = HSIZE" "length (g_codetab g) = HSIZE" using m(1) by (simp_all add: table_def)
    have px: "px = d_out st'" using I(7) g'(8) by simp
    show ?thesis
    proof (cases "length S < 4096")
      case True
      define k where "k = g'\<lparr>g_codetab := (g_codetab g')[slot_at f n := g_free_ent g'],
        g_htab := (g_htab g')[slot_at f n := int f], g_free_ent := g_free_ent g' + 1\<rparr>"
      have run: "compress_step c e g = Inr (c, k)"
        using n(2) g'(1) True len slot_less [of f n]
        by (simp add: compress_step_def fcode slot Let_def free maxmaxcode_def wr_def g'(10,11) k_def)
      have tk: "tables (2 ^ (ib - 1)) k (S @ [S ! e @ [c]])"
        unfolding k_def using tables_grow [OF g'(4) True I(4) f_def f _ m(2) None n(1)] m(1) n(3,4) by (simp add: g'(10,11))
      have wk: "widths ib k" using g'(3,9) free True by (auto simp: widths_def k_def)
      have ck: "constants ib k" using g'(2) by (simp add: constants_def k_def)
      have sk: "synced ib base k st'" by (rule synced_cong [OF _ _ _ _ _ g'(5)]) (simp_all add: k_def)
      have cS: "(S @ [S ! e @ [c]]) ! c = [c]" "good (S @ [S ! e @ [c]]) c"
        using strings_ok_simps(2,3) [OF strings_ok_snoc [OF S(3)] c] by blast+
      have lk: "lag (S @ [S ! e @ [c]]) c st'" using g'(6,7) I(4) cS by (simp add: lag_def good_def)
      have "coder_inv ib base c k (px @ [c])"
        by (rule coder_invI [OF ck wk tk cS(2) sk lk]) (simp only: px cS(1))
      with run show ?thesis by blast
    next
      case False
      obtain k where k: "cl_block g' = Inr k" "constants ib k" "widths ib k"
        "tables (2 ^ (ib - 1)) k (init_dict (2 ^ (ib - 1)))" "synced ib base k ((dec_init ib)\<lparr>d_out := d_out st'\<rparr>)"
        using cl_block_sync [OF g'(2,3,4,5)] by blast
      have "compress_step c e g = Inr (c, k)"
        using n(2) g'(1) False k(1) by (simp add: compress_step_def fcode slot Let_def free maxmaxcode_def)
      moreover have "coder_inv ib base c k (px @ [c])"
      proof (rule coder_invI [OF k(2,3,4) _ k(5)])
        show "lag (init_dict (2 ^ (ib - 1))) c ((dec_init ib)\<lparr>d_out := d_out st'\<rparr>)"
          by (simp add: lag_def dec_init_def)
        show "good (init_dict (2 ^ (ib - 1))) c" using c by (simp add: good_def)
        show "px @ [c] = d_out ((dec_init ib)\<lparr>d_out := d_out st'\<rparr>) @ init_dict (2 ^ (ib - 1)) ! c"
          using c by (simp add: px)
      qed
      ultimately show ?thesis by blast
    qed
  qed
qed

section \<open>All pixels\<close>

lemma pixel_in:
  "length pc2nc = 256 \<Longrightarrow> k < length data \<Longrightarrow> pixel pc2nc data k = Inr (unat (pc2nc ! unat (data ! k)))"
  using unsigned_less [of "data ! k"] by (simp add: pixel_def rd_def)

lemma compress_loop_inv:
  assumes pal: "length pc2nc = 256" "\<And>c. c \<in> set pc2nc \<Longrightarrow> unat c < 2 ^ (ib - 1)"
  shows "coder_inv ib base e g px \<Longrightarrow> k \<le> length data \<Longrightarrow>
    \<exists>e' g'. compress_loop pc2nc data k (int (length data - k)) e g = Inr (e', g') \<and>
      coder_inv ib base e' g' (px @ map (\<lambda>d. unat (pc2nc ! unat d)) (drop k data))"
proof (induction "length data - k" arbitrary: k e g px)
  case 0
  then show ?case by (subst compress_loop.simps) simp
next
  case (Suc n)
  have k: "k < length data" using Suc(2) by simp
  define c where "c = unat (pc2nc ! unat (data ! k))"
  have "unat (data ! k) < length pc2nc" using pal(1) unsigned_less [of "data ! k"] by simp
  then have "c < 2 ^ (ib - 1)" unfolding c_def by (intro pal(2) nth_mem)
  then obtain e2 g2 where step: "compress_step c e g = Inr (e2, g2)" "coder_inv ib base e2 g2 (px @ [c])"
    using compress_step_inv [OF Suc(3)] by blast
  have n: "n = length data - (k + 1)" using Suc(2) by simp
  obtain e3 g3 where rest: "compress_loop pc2nc data (k + 1) (int (length data - (k + 1))) e2 g2 = Inr (e3, g3)"
    "coder_inv ib base e3 g3 ((px @ [c]) @ map (\<lambda>d. unat (pc2nc ! unat d)) (drop (k + 1) data))"
    using Suc(1) [OF n step(2)] k by (auto simp: Suc_le_eq)
  have "int (length data - k) - 1 = int (length data - (k + 1))" using k by simp
  then have "compress_loop pc2nc data k (int (length data - k)) e g = Inr (e3, g3)"
    using k step(1) rest(1) pixel_in [OF pal(1) k]
    by (subst compress_loop.simps) (simp add: c_def diff_diff_eq add.commute)
  moreover have "drop k data = data ! k # drop (k + 1) data" using k by (simp add: Cons_nth_drop_Suc)
  ultimately show ?case using rest(2) by (simp add: c_def)
qed

lemma compress_start:
  assumes ib: "3 \<le> ib" "ib \<le> 9" and c: "c < 2 ^ (ib - 1)"
  shows "\<exists>g. gif_output (2 ^ (ib - 1)) (char_init (compress_init ib base)) = Inr g \<and> coder_inv ib base c g [c]"
proof -
  define g where "g = char_init (compress_init ib base)"
  define C :: nat where "C = 2 ^ (ib - 1)"
  have C: "4 \<le> C" "2 ^ ib = 2 * C" "C \<le> 256"
    using power_increasing [of 2 "ib - 1" "2::nat"] power_increasing [of "ib - 1" 8 "2::nat"] ib
    by (simp_all add: C_def flip: power_Suc)
  have gs: "g_n_bits g = ib" "g_EOFCode g = C + 1" "g_free_ent g = C + 2" "g_maxcode g = 2 ^ ib - 1" "\<not> g_clear_flg g"
    "g_htab g = replicate HSIZE (- 1)" "length (g_codetab g) = HSIZE" "g_init_bits g = ib" "g_ClearCode g = C"
    by (simp_all add: g_def char_init_def compress_init_def C_def MAXCODE_def cl_hash_clears)
  have "stream base g []"
    by (simp add: g_def stream_def written_def char_init_def compress_init_def bits_of_def packets_def byte_bits_def
        exI [of _ "[]"])
  then have s: "synced ib base g (dec_init ib)"
    by (intro syncedI [of _ _ _ "[]"]) (simp_all add: g_def char_init_def compress_init_def dec_init_def)
  have d: "dec_code ib C (dec_init ib) = Some (dec_init ib)" by (simp add: dec_code_def C_def dec_init_def)
  have less: "0 < g_n_bits g" "C < 2 ^ g_n_bits g" using ib C by (simp_all add: gs)
  obtain h where h: "gif_output C g = Inr (adjust_width h)" "same_table g h"
    "d_width (dec_init ib) = g_n_bits (adjust_width h) \<Longrightarrow> synced ib base (adjust_width h) (dec_init ib)"
    using emit [OF s less _ _ d] gs by (auto simp: C_def)
  have "widths ib g" using ib C by (simp add: widths_def gs)
  then have wh: "widths ib h" using h(2) by (simp add: widths_same_table)
  have hs: "g_n_bits h = ib" "g_free_ent h = C + 2" using h(2) by (simp_all add: same_table_def gs)
  have w: "widths ib (adjust_width h)" and n: "g_n_bits (adjust_width h) = ib"
    using adjust_width_grow [OF wh] C unfolding hs by simp_all
  have "constants ib g" using ib by (simp add: constants_def gs C_def)
  then have "constants ib (adjust_width h)" using h(2) by (simp add: constants_same_table)
  moreover have "tables C g (init_dict C)"
    using table_empty [of "g_codetab g"] codes_ok_empty strings_ok_init C gs by (auto simp: tables_def occupied_def)
  then have "tables (2 ^ (ib - 1)) (adjust_width h) (init_dict C)" using h(2) by (simp add: tables_same_table C_def)
  moreover have "good (init_dict C) c" using c by (simp add: good_def C_def)
  moreover have "synced ib base (adjust_width h) (dec_init ib)" by (rule h(3)) (simp add: n dec_init_def)
  ultimately have "coder_inv ib base c (adjust_width h) [c]"
    using w c by (intro coder_invI [of _ _ "init_dict C" _ _ "dec_init ib"]) (simp_all add: lag_def dec_init_def C_def)
  then show ?thesis using h(1) by (simp add: C_def g_def)
qed

lemma compress_finish:
  assumes "coder_inv ib base e g px"
  shows "\<exists>g' g'' ps. gif_output e g = Inr g' \<and> gif_output (g_EOFCode g') g' = Inr g'' \<and> g_file g'' = base @ packets ps \<and>
    (\<forall>p \<in> set ps. 0 < length p \<and> length p \<le> 254) \<and>
    gif_decode ib (dec_init ib) (byte_bits (concat ps)) = Some px"
proof -
  obtain S st where I: "constants ib g" "widths ib g" "tables (2 ^ (ib - 1)) g S" "good S e" "synced ib base g st"
    "lag S e st" "px = d_out st @ S ! e"
    using assms by (rule coder_invE)
  obtain g' st' where g': "gif_output e g = Inr g'" "constants ib g'" "widths ib g'"
    "synced ib base g' st'" "d_out st' = d_out st @ S ! e"
    using emit_open [OF I(1-6)] by blast
  have n: "0 < g_n_bits g'" using g'(2,3) by (simp add: widths_def constants_def)
  have eof: "g_EOFCode g' = 2 ^ (ib - 1) + 1" using g'(2) by (simp add: constants_def)
  have ib: "3 \<le> ib" "ib \<le> g_n_bits g'" using g'(2,3) by (simp_all add: constants_def widths_def)
  then have "(2::nat) ^ 1 \<le> 2 ^ (ib - 1)" by (intro power_increasing) auto
  then have "(2::nat) ^ (ib - 1) + 1 < 2 * 2 ^ (ib - 1)" by simp
  also have "\<dots> = 2 ^ ib" using ib by (simp flip: power_Suc)
  also have "\<dots> \<le> 2 ^ g_n_bits g'" using ib by (intro power_increasing) auto
  finally have less: "g_EOFCode g' < 2 ^ g_n_bits g'" by (simp add: eof)
  show ?thesis using emit_eof [OF g'(4) n less eof] g'(1,5) I(7) by auto
qed

text \<open>
  The bytes that \<open>compress\<close> appends to the file are packets of at most 254 bytes, and
  the decoder of the GIF specification reads from them the colours of the pixels.
\<close>

lemma compress_roundtrip:
  assumes "3 \<le> init_bits" "init_bits \<le> 9" "data \<noteq> []"
    and "length pc2nc = 256" "\<And>c. c \<in> set pc2nc \<Longrightarrow> unat c < 2 ^ (init_bits - 1)"
  shows "\<exists>ps. compress init_bits pc2nc data (int (length data)) file = Inr (file @ packets ps) \<and>
    (\<forall>p \<in> set ps. 0 < length p \<and> length p \<le> 254) \<and>
    gif_decode init_bits (dec_init init_bits) (byte_bits (concat ps)) = Some (map (\<lambda>d. unat (pc2nc ! unat d)) data)"
proof -
  define c where "c = unat (pc2nc ! unat (data ! 0))"
  have "unat (data ! 0) < length pc2nc" using assms(4) unsigned_less [of "data ! 0"] by simp
  then have "c < 2 ^ (init_bits - 1)" unfolding c_def by (intro assms(5) nth_mem)
  then obtain g where g: "gif_output (2 ^ (init_bits - 1)) (char_init (compress_init init_bits file)) = Inr g"
    "coder_inv init_bits file c g [c]"
    using compress_start [OF assms(1,2)] by blast
  have len: "1 \<le> length data" using assms(3) by (cases data) auto
  obtain e h where h: "compress_loop pc2nc data 1 (int (length data - 1)) c g = Inr (e, h)"
    "coder_inv init_bits file e h ([c] @ map (\<lambda>d. unat (pc2nc ! unat d)) (drop 1 data))"
    using compress_loop_inv [OF assms(4,5) g(2) len] by blast
  have px: "[c] @ map (\<lambda>d. unat (pc2nc ! unat d)) (drop 1 data) = map (\<lambda>d. unat (pc2nc ! unat d)) data"
    using assms(3) by (cases data) (simp_all add: c_def)
  obtain k l ps where k: "gif_output e h = Inr k" "gif_output (g_EOFCode k) k = Inr l" "g_file l = file @ packets ps"
    "\<forall>p \<in> set ps. 0 < length p \<and> length p \<le> 254"
    "gif_decode init_bits (dec_init init_bits) (byte_bits (concat ps)) = Some (map (\<lambda>d. unat (pc2nc ! unat d)) data)"
    using compress_finish [OF h(2)] unfolding px by blast
  have "int (length data) - 1 = int (length data - 1)" using len by simp
  then have loop: "compress_loop pc2nc data 1 (int (length data) - 1) c g = Inr (e, h)" using h(1) by (simp only:)
  have pix: "pixel pc2nc data 0 = Inr c" using pixel_in [OF assms(4), of 0 data] assms(3) by (simp add: c_def)
  have "g_ClearCode (char_init (compress_init init_bits file)) = 2 ^ (init_bits - 1)"
    by (simp add: char_init_def compress_init_def)
  then have "compress init_bits pc2nc data (int (length data)) file = Inr (file @ packets ps)"
    by (simp only: compress_def Let_def g(1) loop pix k(1,2,3) bind_res_simps prod.case)
  then show ?thesis using k(4,5) by blast
qed

end
