(* ===== verification/GifFile.thy ===== *)
theory GifFile
  imports GifLzw
begin

text \<open>
  The whole GIF file: the palette without repetitions, the colour table and the compressed
  pixels.  A decoder that looks the decoded indices up in the colour table of the file sees
  the colours of the picture.
\<close>

section \<open>The palette\<close>

definition palette_ok :: "nat \<Rightarrow> u8 list \<Rightarrow> u8 list \<Rightarrow> u8 list \<Rightarrow> palette \<Rightarrow> bool" where
  "palette_ok i rmap gmap bmap p \<longleftrightarrow>
     length (pal_pc2nc p) = 256 \<and> length (pal_r p) = 256 \<and> length (pal_g p) = 256 \<and> length (pal_b p) = 256 \<and>
     pal_nc p \<le> i \<and>
     (\<forall>k < i. unat (pal_pc2nc p ! k) < pal_nc p \<and> pal_r p ! unat (pal_pc2nc p ! k) = rmap ! k \<and>
       pal_g p ! unat (pal_pc2nc p ! k) = gmap ! k \<and> pal_b p ! unat (pal_pc2nc p ! k) = bmap ! k) \<and>
     (\<forall>k < 256. i \<le> k \<longrightarrow> pal_pc2nc p ! k = 0)"

lemma find_color_eq:
  "n \<le> i \<Longrightarrow> find_color n i rmap gmap bmap = j \<Longrightarrow>
   j \<le> i \<and> rmap ! j = rmap ! i \<and> gmap ! j = gmap ! i \<and> bmap ! j = bmap ! i"
  by (induction n) (auto simp: Let_def split: if_splits)

lemma palette_ok_0: "palette_ok 0 rmap gmap bmap empty_palette"
  by (simp add: palette_ok_def empty_palette_def)

lemma palette_new:
  assumes p: "palette_ok i rmap gmap bmap p" and i: "i < 256"
  shows "palette_ok (i + 1) rmap gmap bmap
    \<lparr>pal_pc2nc = (pal_pc2nc p)[i := word_of_nat (pal_nc p)], pal_r = (pal_r p)[pal_nc p := rmap ! i],
     pal_g = (pal_g p)[pal_nc p := gmap ! i], pal_b = (pal_b p)[pal_nc p := bmap ! i], pal_nc = pal_nc p + 1\<rparr>"
proof -
  have nc: "pal_nc p < 256" using p i by (simp add: palette_ok_def)
  then have "unat (word_of_nat (pal_nc p) :: u8) = pal_nc p" by (simp add: unat_of_nat)
  then show ?thesis using p i nc by (auto simp: palette_ok_def nth_list_update less_Suc_eq)
qed

lemma palette_old:
  assumes p: "palette_ok i rmap gmap bmap p" and i: "i < 256" and j: "j < i"
    and same: "rmap ! j = rmap ! i" "gmap ! j = gmap ! i" "bmap ! j = bmap ! i"
  shows "palette_ok (i + 1) rmap gmap bmap (p\<lparr>pal_pc2nc := (pal_pc2nc p)[i := pal_pc2nc p ! j]\<rparr>)"
  using assms by (auto simp: palette_ok_def nth_list_update less_Suc_eq)

lemma palette_loop_ok:
  "palette_ok i rmap gmap bmap p \<Longrightarrow> i \<le> n \<Longrightarrow> n \<le> 256 \<Longrightarrow> n \<le> length rmap \<Longrightarrow> n \<le> length gmap \<Longrightarrow> n \<le> length bmap \<Longrightarrow>
   \<exists>q. palette_loop i n rmap gmap bmap p = Inr q \<and> palette_ok n rmap gmap bmap q"
proof (induction "n - i" arbitrary: i p)
  case 0
  then show ?case by (subst palette_loop.simps) simp
next
  case (Suc m)
  have i: "i < n" using Suc(2) by simp
  define j where "j = find_color i i rmap gmap bmap"
  have j: "j \<le> i" "rmap ! j = rmap ! i" "gmap ! j = gmap ! i" "bmap ! j = bmap ! i"
    using find_color_eq [OF le_refl j_def [symmetric]] by simp_all
  have len: "length (pal_pc2nc p) = 256" "length (pal_r p) = 256" "length (pal_g p) = 256" "length (pal_b p) = 256"
    "pal_nc p < 256" using Suc.prems i by (simp_all add: palette_ok_def)
  obtain q where q: "palette_loop i n rmap gmap bmap p = palette_loop (i + 1) n rmap gmap bmap q"
    "palette_ok (i + 1) rmap gmap bmap q"
  proof (cases "j = i")
    case True
    show ?thesis
      by (rule that [OF _ palette_new [OF Suc.prems(1)]])
        (use True i Suc.prems len in \<open>simp_all add: palette_loop.simps [of i] rd_def wr_def flip: j_def\<close>)
  next
    case False
    show ?thesis
      by (rule that [OF _ palette_old [OF Suc.prems(1), of j]])
        (use False i j Suc.prems len in \<open>simp_all add: palette_loop.simps [of i] rd_def wr_def flip: j_def\<close>)
  qed
  then show ?case using Suc(1) [of "i + 1" q] Suc(2-) i by simp
qed

lemma palette_bound:
  assumes "palette_ok n rmap gmap bmap p" "n \<le> 256" "c \<in> set (pal_pc2nc p)"
  shows "unat c < max 1 (pal_nc p)"
proof -
  obtain k where k: "k < 256" "c = pal_pc2nc p ! k" using assms by (auto simp: in_set_conv_nth palette_ok_def)
  show ?thesis using assms k by (cases "k < n") (auto simp: palette_ok_def less_max_iff_disj)
qed

lemma bits_per_pixel_fit:
  "n \<le> 7 \<Longrightarrow> nc \<le> 256 \<Longrightarrow> nc \<le> 2 ^ bits_per_pixel n nc \<and> 1 \<le> bits_per_pixel n nc \<and> bits_per_pixel n nc \<le> 8"
  by (induction n) (auto simp: Let_def)

section \<open>The file\<close>

text \<open>The colour that a table entry shows.\<close>

definition shown :: "int \<Rightarrow> u8 \<Rightarrow> u8 \<Rightarrow> u8 \<Rightarrow> u8 list" where
  "shown colorstyle r g b = (if colorstyle = 1 then replicate 3 (word_of_nat (MONO r g b)) else [r, g, b])"

lemma length_shown [simp]: "length (shown colorstyle r g b) = 3"
  by (simp add: shown_def)

lemma concat_triples:
  assumes "\<And>i. length (f i) = 3"
  shows "length (concat (map f [0..<n])) = 3 * n \<and> (i < n \<longrightarrow> take 3 (drop (3 * i) (concat (map f [0..<n]))) = f i)"
proof (induction n)
  case (Suc n)
  then show ?case using assms by (cases "i = n") (auto simp: take_append drop_append)
qed simp

lemma color_map_shown:
  "color_map colorstyle n p = concat (map (\<lambda>i. shown colorstyle (pal_r p ! i) (pal_g p ! i) (pal_b p ! i)) [0..<n])"
  by (simp add: color_map_def shown_def)

lemma color_map_entry:
  "length (color_map colorstyle n p) = 3 * n"
  "i < n \<Longrightarrow> take 3 (drop (3 * i) (color_map colorstyle n p)) = shown colorstyle (pal_r p ! i) (pal_g p ! i) (pal_b p ! i)"
  unfolding color_map_shown
  using concat_triples [of "\<lambda>i. shown colorstyle (pal_r p ! i) (pal_g p ! i) (pal_b p ! i)" n i] by simp_all

lemma table_size_byte:
  assumes "1 \<le> n" "n \<le> 8"
  shows "unat ((word_of_nat (0x80 OR push_bit 4 7 OR (n - 1)) :: u8) AND 7) + 1 = n"
proof -
  have "n \<in> {1, 2, 3, 4, 5, 6, 7, 8}" using assms by auto
  then show ?thesis by auto
qed

lemma WriteGIF_core:
  assumes "0 < w" "0 < h" "w * h < 2 ^ 31" "int (length pic) = w * h" "numcols \<le> 256"
    and "numcols \<le> length rmap" "numcols \<le> length gmap" "numcols \<le> length bmap"
    and "\<And>d. d \<in> set pic \<Longrightarrow> unat d < numcols"
  shows "\<exists>hdr tab cmt desc ib ps idx.
    WriteGIF pic w h rmap gmap bmap numcols colorstyle transparency comment =
      Inr (hdr @ tab @ cmt @ desc @ [word_of_nat ib] @ packets ps @ [0, 0x3B]) \<and>
    length hdr = 13 \<and> length desc = 10 \<and> ib \<le> 8 \<and> length tab = 3 * 2 ^ (unat (hdr ! 10 AND 7) + 1) \<and>
    (\<forall>p \<in> set ps. 0 < length p \<and> length p \<le> 254) \<and>
    gif_decode (ib + 1) (dec_init (ib + 1)) (byte_bits (concat ps)) = Some idx \<and>
    map (\<lambda>i. take 3 (drop (3 * i) tab)) idx =
      map (\<lambda>d. shown colorstyle (rmap ! unat d) (gmap ! unat d) (bmap ! unat d)) pic"
proof -
  obtain p where p: "palette_loop 0 numcols rmap gmap bmap empty_palette = Inr p" "palette_ok numcols rmap gmap bmap p"
    using palette_loop_ok [OF palette_ok_0] assms(5-8) by blast
  define bpp where "bpp = bits_per_pixel 7 (pal_nc p)"
  define ib where "ib = (if bpp \<le> 1 then 2 else bpp)"
  define hdr where "hdr = map (word_of_nat \<circ> code) (if comment \<noteq> [] then ''GIF89a'' else ''GIF87a'') @
           putword w @ putword h @ [word_of_nat (0x80 OR push_bit 4 7 OR (bpp - 1)), 0, 0 :: u8]"
  define desc where "desc = word_of_nat (code CHR '','') # putword 0 @ putword 0 @ putword w @ putword h @ [0x00]"
  have "pal_nc p \<le> 256" using p(2) assms(5) by (simp add: palette_ok_def)
  then have bpp: "pal_nc p \<le> 2 ^ bpp" "1 \<le> bpp" "bpp \<le> 8" using bits_per_pixel_fit [of 7] by (simp_all add: bpp_def)
  have ib: "2 \<le> ib" "ib \<le> 8" "bpp \<le> ib" using bpp by (auto simp: ib_def)
  have len: "length (pal_pc2nc p) = 256" using p(2) by (simp add: palette_ok_def)
  have fits: "unat c < 2 ^ (ib + 1 - 1)" if "c \<in> set (pal_pc2nc p)" for c
  proof -
    have "unat c < max 1 (pal_nc p)" using palette_bound [OF p(2) assms(5) that] .
    also have "\<dots> \<le> 2 ^ bpp" using bpp(1) by simp
    also have "\<dots> \<le> 2 ^ ib" using ib(3) by (intro power_increasing) auto
    finally show ?thesis by simp
  qed
  have pic: "pic \<noteq> []" using assms(1,2,4) by auto
  have ib1: "3 \<le> ib + 1" "ib + 1 \<le> 9" using ib by simp_all
  obtain ps where ps: "compress (ib + 1) (pal_pc2nc p) pic (int (length pic))
      (hdr @ color_map colorstyle (2 ^ bpp) p @ gif_comment transparency comment @ desc @ [word_of_nat ib]) =
      Inr ((hdr @ color_map colorstyle (2 ^ bpp) p @ gif_comment transparency comment @ desc @ [word_of_nat ib]) @ packets ps)"
    "\<forall>p \<in> set ps. 0 < length p \<and> length p \<le> 254"
    "gif_decode (ib + 1) (dec_init (ib + 1)) (byte_bits (concat ps)) = Some (map (\<lambda>d. unat (pal_pc2nc p ! unat d)) pic)"
    using compress_roundtrip [OF ib1 pic len fits] by blast
  have "0 < w * h" using assms(1,2) by simp
  then have range: "- (2 ^ 31) \<le> w * h \<and> w * h < 2 ^ 31" using assms(3) by simp
  have whole: "WriteGIF pic w h rmap gmap bmap numcols colorstyle transparency comment =
      Inr (hdr @ color_map colorstyle (2 ^ bpp) p @ gif_comment transparency comment @ desc @ [word_of_nat ib] @
        packets ps @ [0, 0x3B])"
    unfolding WriteGIF_def p(1) bind_res_simps Let_def bpp_def [symmetric] ib_def [symmetric]
    using ps(1) assms(4) range by (simp add: hdr_def desc_def code_def)
  have hdr: "length hdr = 13" "hdr ! 10 = word_of_nat (0x80 OR push_bit 4 7 OR (bpp - 1))"
    by (auto simp: hdr_def putword_def nth_append nth_Cons')
  have colour: "take 3 (drop (3 * unat (pal_pc2nc p ! unat d)) (color_map colorstyle (2 ^ bpp) p)) =
      shown colorstyle (rmap ! unat d) (gmap ! unat d) (bmap ! unat d)" if "d \<in> set pic" for d
  proof -
    have d: "unat d < numcols" using assms(9) that .
    then have "unat (pal_pc2nc p ! unat d) < 2 ^ bpp" using p(2) bpp(1) unfolding palette_ok_def by (meson less_le_trans)
    then show ?thesis using p(2) d unfolding palette_ok_def by (simp add: color_map_entry)
  qed
  show ?thesis
    apply (intro exI conjI)
           apply (rule whole)
          apply (rule hdr(1))
         apply (simp add: desc_def putword_def)
        apply (rule ib(2))
       apply (simp only: color_map_entry hdr(2) table_size_byte [OF bpp(2,3)])
      apply (rule ps(2))
     apply (rule ps(3))
    using colour apply simp
    done
qed

text \<open>
  C2. The file that \<open>__ILWS_WriteGIF\<close> writes: a header of 13 bytes, whose packed byte gives
  the size of the colour table, the table, a comment, an image descriptor of 10 bytes, the
  code size, packets of at most 254 bytes and the two final bytes.  The GIF89a decoder reads
  an index for every pixel from the packets, and the table has the colour of the pixel there.
\<close>

theorem WriteGIF_shows_picture:
  assumes "0 < w" "0 < h" "w * h < 2 ^ 31" "int (length pic) = w * h" "numcols \<le> 256"
    and "numcols \<le> length rmap" "numcols \<le> length gmap" "numcols \<le> length bmap"
    and "\<And>d. d \<in> set pic \<Longrightarrow> unat d < numcols"
  shows "\<exists>hdr tab cmt desc ib ps idx.
    WriteGIF pic w h rmap gmap bmap numcols colorstyle transparency comment =
      Inr (hdr @ tab @ cmt @ desc @ [word_of_nat ib] @ packets ps @ [0, 0x3B]) \<and>
    length hdr = 13 \<and> length desc = 10 \<and> ib \<le> 8 \<and> length tab = 3 * 2 ^ (unat (hdr ! 10 AND 7) + 1) \<and>
    (\<forall>p \<in> set ps. 0 < length p \<and> length p \<le> 254) \<and>
    gif_decode (ib + 1) (dec_init (ib + 1)) (byte_bits (concat ps)) = Some idx \<and>
    map (\<lambda>i. take 3 (drop (3 * i) tab)) idx =
      map (\<lambda>d. shown colorstyle (rmap ! unat d) (gmap ! unat d) (bmap ! unat d)) pic"
  by (rule WriteGIF_core [OF assms])

theorem WriteGIF_shows_picture_witness:
  "\<exists>hdr tab cmt desc ib ps idx.
    WriteGIF [1, 0] 2 1 [5, 6] [7, 8] [9, 10] 2 0 0 ''c'' =
      Inr (hdr @ tab @ cmt @ desc @ [word_of_nat ib] @ packets ps @ [0, 0x3B]) \<and>
    length hdr = 13 \<and> length desc = 10 \<and> ib \<le> 8 \<and> length tab = 3 * 2 ^ (unat (hdr ! 10 AND 7) + 1) \<and>
    (\<forall>p \<in> set ps. 0 < length p \<and> length p \<le> 254) \<and>
    gif_decode (ib + 1) (dec_init (ib + 1)) (byte_bits (concat ps)) = Some idx \<and>
    map (\<lambda>i. take 3 (drop (3 * i) tab)) idx =
      map (\<lambda>d. shown 0 ([5, 6] ! unat d) ([7, 8] ! unat d) ([9, 10] ! unat d)) [1, 0 :: u8]"
  by (rule WriteGIF_shows_picture) auto

end
