(* ===== verification/LwsRequest.thy ===== *)
theory LwsRequest
  imports LwsUtils
begin

text \<open>
  \<open>tools/libwebserver/src/clientinfo.c\<close>: what a request handler asks of the request.  The
  request buffer is its bytes and the NUL after them; pointers into it are positions.  The
  lists of known headers, parameters and cookies grow with each question; their dummy first
  nodes are not modelled.  Allocation succeeds here (its failures are the subject of the
  memory theories) and the buffer is shorter than 4 GB, so that sizes in \<open>unsigned int\<close> and
  the comparison of truncated pointers are exact.
\<close>

section \<open>Searching in the buffer\<close>

fun c_strstr :: "cstr \<Rightarrow> cstr \<Rightarrow> nat option" where
  "c_strstr [] t = (if t = [] then Some 0 else None)"
| "c_strstr (c # s) t =
     (if take (length t) (c # s) = t then Some 0 else map_option Suc (c_strstr s t))"

definition strstr_at :: "char list \<Rightarrow> nat \<Rightarrow> cstr \<Rightarrow> fault + nat option" where
  "strstr_at buf p t =
     (if p < length buf then Inr (map_option (\<lambda>i. p + i) (c_strstr (upto_nul (drop p buf)) t)) else Inl OutOfBounds)"

text \<open>\<open>size\<close> bytes from a position, copied into a fresh string.\<close>

definition copy_out :: "char list \<Rightarrow> nat \<Rightarrow> nat \<Rightarrow> fault + cstr" where
  "copy_out buf p sz = (if p + sz \<le> length buf then Inr (upto_nul (take sz (drop p buf))) else Inl OutOfBounds)"

section \<open>Hexadecimal escapes\<close>

text \<open>\<open>strtol(s, NULL, 16)\<close>\<close>

definition hex_val :: "char \<Rightarrow> nat" where
  "hex_val c = (if c_isdigit c then code c - 48 else code (c_tolower c) - 87)"

definition hex_number :: "cstr \<Rightarrow> int" where
  "hex_number s = foldl (\<lambda>a c. a * 16 + int (hex_val c)) 0 (takeWhile c_isxdigit s)"

definition strtol16 :: "cstr \<Rightarrow> int" where
  "strtol16 s =
     (let s = dropWhile c_isspace s; neg = (at0 s = CHR ''-''); s = (if at0 s = CHR ''-'' \<or> at0 s = CHR ''+'' then tl s else s);
          s = (if at0 s = CHR ''0'' \<and> c_tolower (at0 (tl s)) = CHR ''x'' \<and> c_isxdigit (at0 (tl (tl s))) then drop 2 s else s)
      in if neg then - hex_number s else hex_number s)"

text \<open>The two characters after a percent sign: \<open>strncpy\<close> stops at a NUL.\<close>

definition hex_char :: "char list \<Rightarrow> nat \<Rightarrow> char" where
  "hex_char buf p = char_of (strtol16 (take 2 (upto_nul (drop p buf))) mod 256)"

text \<open>
  The translation of \<open>size\<close> bytes from \<open>tmp2\<close> on.  For every percent sign \<open>size\<close>, a
  \<open>size_t\<close>, shrinks by two.
\<close>

function hex_loop :: "char list \<Rightarrow> nat \<Rightarrow> nat \<Rightarrow> nat \<Rightarrow> nat \<Rightarrow> char list \<Rightarrow> fault + (nat \<times> char list)" where
  "hex_loop buf tmp2 i j sz dat =
     (if i < sz
      then bind_res (rd buf (tmp2 + j)) (\<lambda>c.
        let (ch, j, sz) =
          (if c = CHR ''+'' then (SPACE, j, sz)
           else if c = CHR ''%'' then (hex_char buf (tmp2 + j + 1), j + 2, (sz + 2 ^ 64 - 2) mod 2 ^ 64)
           else (c, j, sz))
        in if i < length dat then hex_loop buf tmp2 (i + 1) (j + 1) sz (dat[i := ch]) else Inl OutOfBounds)
      else Inr (sz, dat))"
  by pat_completeness auto
termination by (relation "measure (\<lambda>(b, t, i, j, s, d). length d - i)") (auto split: if_splits)

declare hex_loop.simps [simp del]

definition hex_translate :: "char list \<Rightarrow> nat \<Rightarrow> nat \<Rightarrow> fault + cstr" where
  "hex_translate buf tmp2 sz =
     bind_res (hex_loop buf tmp2 0 0 sz (replicate (sz + 1) NUL)) (\<lambda>(sz, dat).
     bind_res (wr dat sz NUL) (\<lambda>dat. Inr (upto_nul dat)))"

section \<open>The request line\<close>

definition getmethod :: "char list \<Rightarrow> fault + cstr" where
  "getmethod buf =
     bind_res (strstr_at buf 0 '' '') (\<lambda>tmp1. case tmp1 of None \<Rightarrow> Inr [] | Some tmp1 \<Rightarrow> copy_out buf 0 tmp1)"

text \<open>The searches from the slash happen before it is known that there is one.\<close>

definition getreqname :: "char list \<Rightarrow> fault + cstr" where
  "getreqname buf =
     bind_res (strstr_at buf 0 ''/'') (\<lambda>tmp1. case tmp1 of
       None \<Rightarrow> Inl NullDeref
     | Some tmp1 \<Rightarrow>
         bind_res (strstr_at buf tmp1 ''?'') (\<lambda>tmp2. bind_res (strstr_at buf tmp1 '' HTTP'') (\<lambda>tmp3. case tmp3 of
           None \<Rightarrow> Inr []
         | Some tmp3 \<Rightarrow>
             let tmp2 = (case tmp2 of None \<Rightarrow> tmp3 | Some tmp2 \<Rightarrow> if tmp2 > tmp3 then tmp3 else tmp2); sz = tmp2 - tmp1
             in if sz < 1 then Inr [] else hex_translate buf tmp1 sz)))"

definition getquerystring :: "char list \<Rightarrow> fault + cstr" where
  "getquerystring buf =
     bind_res (strstr_at buf 0 ''?'') (\<lambda>tmp1. bind_res (strstr_at buf 0 ''HTTP'') (\<lambda>tmp2.
     case (tmp1, tmp2) of
       (Some tmp1, Some tmp2) \<Rightarrow> if tmp1 < tmp2 then copy_out buf (tmp1 + 1) (tmp2 - (tmp1 + 1) - 1) else Inr []
     | _ \<Rightarrow> Inr []))"

text \<open>All bytes after the header, NULs included; \<open>rbufsize\<close> is the length without the last NUL.\<close>

definition getpostdata :: "char list \<Rightarrow> fault + char list" where
  "getpostdata buf =
     bind_res (strstr_at buf 0 [CR, LF, CR, LF]) (\<lambda>tmp1. case tmp1 of
       None \<Rightarrow> Inr []
     | Some tmp1 \<Rightarrow> Inr (if tmp1 + 4 < length buf - 1 then take (length buf - 1 - (tmp1 + 4)) (drop (tmp1 + 4) buf) else []))"

section \<open>Credentials\<close>

text \<open>
  The decoded text of the header \<open>Authorization: Basic\<close>; \<open>None\<close> where the functions return
  their default.  The size of the decoder's result is at most that of its input.
\<close>

definition auth_text :: "char list \<Rightarrow> fault + cstr option" where
  "auth_text buf =
     bind_res (strstr_at buf 0 ''Authorization: Basic'') (\<lambda>tmp1. case tmp1 of
       None \<Rightarrow> Inr None
     | Some tmp1 \<Rightarrow>
         let tmp1 = tmp1 + 21 in
         bind_res (strstr_at buf tmp1 [CR, LF]) (\<lambda>tmp2. case tmp2 of
           None \<Rightarrow> Inr None
         | Some tmp2 \<Rightarrow>
             bind_res (copy_out buf tmp1 (tmp2 - tmp1)) (\<lambda>s.
             let (n, out) = base64decode s in
             if 0 \<le> n \<and> n \<le> int (tmp2 - tmp1)
             then Inr (Some (upto_nul (take (nat n) (map (\<lambda>w. char_of (unat w)) out)))) else Inl OutOfBounds)))"

definition getauthuser :: "char list \<Rightarrow> fault + cstr" where
  "getauthuser buf =
     bind_res (auth_text buf) (\<lambda>t. case t of
       None \<Rightarrow> Inr []
     | Some out \<Rightarrow> (case c_strstr out '':'' of None \<Rightarrow> Inr [] | Some k \<Rightarrow> Inr (take k out)))"

text \<open>The password: the search result is used without a test.\<close>

definition getauthpass :: "char list \<Rightarrow> fault + cstr" where
  "getauthpass buf =
     bind_res (auth_text buf) (\<lambda>t. case t of
       None \<Rightarrow> Inr []
     | Some out \<Rightarrow> (case c_strstr out '':'' of None \<Rightarrow> Inl BadPointer | Some k \<Rightarrow> Inr (drop (k + 1) out)))"

section \<open>Headers and cookies\<close>

text \<open>\<open>__ILWS_Header\<close>: the list of known headers and the result.\<close>

type_synonym known = "(cstr \<times> cstr) list"

definition Header :: "u64 \<Rightarrow> char list \<Rightarrow> cstr \<Rightarrow> known \<Rightarrow> fault + (known \<times> cstr)" where
  "Header base buf str hl =
     (case map_of hl str of
        Some v \<Rightarrow> Inr (hl, v)
      | None \<Rightarrow>
          bind_res (stristr base (upto_nul buf) (str @ '': '')) (\<lambda>tmp1. case tmp1 of
            None \<Rightarrow> Inr (hl @ [(str, [])], [])
          | Some tmp1 \<Rightarrow>
              let tmp1 = tmp1 + length str + 2 in
              bind_res (strstr_at buf tmp1 [CR, LF]) (\<lambda>tmp2. case tmp2 of
                None \<Rightarrow> Inr (hl @ [(str, [])], [])
              | Some tmp2 \<Rightarrow>
                  bind_res (copy_out buf tmp1 (tmp2 - tmp1)) (\<lambda>v. Inr (hl @ [(str, v)], v)))))"

text \<open>The search for a cookie: a flag cookie \<open>Inl\<close>, or the position of its name \<open>Inr\<close>.\<close>

datatype cookie_pos = NoCookie | FlagCookie | CookieAt nat

fun find_cookie :: "nat \<Rightarrow> char list \<Rightarrow> nat \<Rightarrow> cstr \<Rightarrow> fault + cookie_pos" where
  "find_cookie 0 buf tmp1 h = Inl OutOfFuel"
| "find_cookie (Suc fuel) buf tmp1 h =
     bind_res (strstr_at buf tmp1 h) (\<lambda>tmp2. case tmp2 of
       None \<Rightarrow> Inr NoCookie
     | Some tmp2 \<Rightarrow>
         bind_res (rd buf (tmp2 + length h)) (\<lambda>d. bind_res (rd buf (tmp2 - 1)) (\<lambda>c.
         if d = CHR '';'' \<and> c = SPACE then Inr FlagCookie
         else if c \<noteq> SPACE \<or> d \<noteq> CHR ''='' then find_cookie fuel buf (tmp2 + length h) h
         else Inr (CookieAt tmp2))))"

text \<open>A flag cookie is \<open>True\<close>: \<open>snprintf\<close> with a size of 5 writes its four letters.\<close>

definition Cookie :: "char list \<Rightarrow> cstr \<Rightarrow> known \<Rightarrow> fault + (known \<times> cstr)" where
  "Cookie buf h cl =
     bind_res (strstr_at buf 0 (LF # ''Cookie: '')) (\<lambda>tmp1. case tmp1 of
       None \<Rightarrow> Inr (cl, [])
     | Some tmp1 \<Rightarrow>
       (case map_of cl h of
          Some v \<Rightarrow> Inr (cl, v)
        | None \<Rightarrow>
            bind_res (find_cookie (length buf + 1) buf (tmp1 + 8) h) (\<lambda>r. case r of
              NoCookie \<Rightarrow> Inr (cl @ [(h, [])], [])
            | FlagCookie \<Rightarrow> Inr (cl @ [(h, ''True'')], ''True'')
            | CookieAt tmp2 \<Rightarrow>
                bind_res (strstr_at buf tmp2 '';'') (\<lambda>tmp1.
                let p = tmp2 + length h + 1 in
                bind_res (case tmp1 of Some tmp1 \<Rightarrow> Inr (int tmp1 - int p)
                    | None \<Rightarrow> bind_res (strstr_at buf p [CR]) (\<lambda>e. case e of None \<Rightarrow> Inl BadPointer | Some e \<Rightarrow> Inr (int e - int p)))
                  (\<lambda>sz. if sz < 1 then Inr (cl @ [(h, [])], [])
                        else bind_res (copy_out buf p (nat sz)) (\<lambda>v. Inr (cl @ [(h, v)], v)))))))"

section \<open>Parameters\<close>

text \<open>
  A parameter that occurs several times has one node per occurrence; the first one holds in
  \<open>index\<close> whose turn it is and in \<open>idf\<close> how many there are.  Both fields of a fresh node are
  indeterminate.
\<close>

record param =
  p_id :: cstr
  p_data :: cstr
  p_index :: "u32 option"
  p_idf :: "u32 option"

datatype answer = Data cstr | Count u32

definition known_field :: "'a option \<Rightarrow> fault + 'a" where
  "known_field f = (case f of None \<Rightarrow> Inl Uninitialised | Some x \<Rightarrow> Inr x)"

definition set_index :: "u32 \<Rightarrow> nat \<Rightarrow> param list \<Rightarrow> param list" where
  "set_index w k ps = ps[k := (ps ! k)\<lparr>p_index := Some w\<rparr>]"

definition set_idf :: "u32 \<Rightarrow> nat \<Rightarrow> param list \<Rightarrow> param list" where
  "set_idf w k ps = ps[k := (ps ! k)\<lparr>p_idf := Some w\<rparr>]"

text \<open>
  The search among the known nodes, at node \<open>k\<close>: \<open>m\<close> is the first node with the name and the
  turn it held, when one was met.  \<open>le0\<close> is the test \<open><= 0\<close>, unsigned for queries and signed
  for posted data.  The result is an answer, or the node that \<open>iddb\<close> points to.
\<close>

fun known_param :: "(u32 \<Rightarrow> bool) \<Rightarrow> cstr \<Rightarrow> bool \<Rightarrow> nat \<Rightarrow> nat \<Rightarrow> (nat \<times> u32) option \<Rightarrow> param list \<Rightarrow>
    fault + (param list \<times> (answer, nat option) sum)" where
  "known_param le0 h rw 0 k m ps = Inr (ps, Inr (map_option fst m))"
| "known_param le0 h rw (Suc n) k m ps =
     (if p_id (ps ! k) \<noteq> h then known_param le0 h rw n (k + 1) m ps
      else case m of
        None \<Rightarrow>
          bind_res (known_field (p_idf (ps ! k))) (\<lambda>idf.
          if rw then Inr (ps, Inl (Count idf))
          else if idf = 1 then Inr (ps, Inl (Data (p_data (ps ! k))))
          else bind_res (known_field (p_index (ps ! k))) (\<lambda>j.
            if le0 (j - 1)
            then Inr (set_index (if sint j \<le> 1 then idf else j - 1) k ps, Inl (Data (p_data (ps ! k))))
            else known_param le0 h rw n (k + 1) (Some (k, j)) (set_index (j - 1) k ps)))
      | Some (f, j) \<Rightarrow>
          bind_res (known_field (p_index (ps ! f))) (\<lambda>x.
          if le0 (x - 1)
          then bind_res (known_field (p_idf (ps ! f))) (\<lambda>idf.
            Inr (set_index (if sint j \<le> 1 then idf else j - 1) f ps, Inl (Data (p_data (ps ! k)))))
          else known_param le0 h rw n (k + 1) m (set_index (x - 1) f ps)))"

text \<open>The next \<open>name=\<close> after one of two delimiters.\<close>

fun find_param :: "nat \<Rightarrow> char \<Rightarrow> char list \<Rightarrow> nat \<Rightarrow> cstr \<Rightarrow> fault + nat option" where
  "find_param 0 q buf tmp1 h = Inl OutOfFuel"
| "find_param (Suc fuel) q buf tmp1 h =
     bind_res (strstr_at buf tmp1 h) (\<lambda>tmp2. case tmp2 of
       None \<Rightarrow> Inr None
     | Some tmp2 \<Rightarrow>
         bind_res (rd buf (tmp2 - 1)) (\<lambda>c. bind_res (rd buf (tmp2 + length h)) (\<lambda>d.
         if (c \<noteq> q \<and> c \<noteq> CHR ''&'') \<or> d \<noteq> CHR ''='' then find_param fuel q buf (tmp2 + length h) h
         else Inr (Some tmp2))))"

text \<open>The end of the search: the count of the first node is set and its turn goes back by one.\<close>

definition close_search :: "bool \<Rightarrow> nat option \<Rightarrow> cstr option \<Rightarrow> param list \<Rightarrow> fault + (param list \<times> answer)" where
  "close_search rw iddb ret ps =
     bind_res (case iddb of
         None \<Rightarrow> Inr ps
       | Some f \<Rightarrow> bind_res (known_field (p_index (ps ! f))) (\<lambda>x.
           Inr (if rw then set_idf x f ps else set_index (x - 1) f (set_idf x f ps)))) (\<lambda>ps.
     if rw
     then (case ret of
         None \<Rightarrow> Inr (ps, Count 0)
       | Some _ \<Rightarrow> (case iddb of None \<Rightarrow> Inl NullDeref
           | Some f \<Rightarrow> bind_res (known_field (p_idf (ps ! f))) (\<lambda>n. Inr (ps, Count n))))
     else Inr (ps, Data (case ret of None \<Rightarrow> [] | Some v \<Rightarrow> v)))"

definition new_node :: "cstr \<Rightarrow> nat \<Rightarrow> param" where
  "new_node h idf = \<lparr>p_id = h, p_data = [], p_index = (if idf = 0 then Some 0 else None), p_idf = None\<rparr>"

text \<open>After a node got its data: the first node of the search counts it.\<close>

definition count_node :: "nat \<Rightarrow> cstr \<Rightarrow> param list \<Rightarrow> fault + param list" where
  "count_node f v ps =
     (let ps = ps[length ps - 1 := (last ps)\<lparr>p_data := v\<rparr>] in
      bind_res (known_field (p_index (ps ! f))) (\<lambda>x. Inr (set_index (x + 1) f ps)))"

text \<open>\<open>while (seek==1)\<close> of \<open>__ILWS_Query\<close>.\<close>

fun query_scan :: "nat \<Rightarrow> char list \<Rightarrow> cstr \<Rightarrow> bool \<Rightarrow> nat \<Rightarrow> nat option \<Rightarrow> nat \<Rightarrow> nat option \<Rightarrow> cstr option \<Rightarrow> param list \<Rightarrow>
    fault + (param list \<times> answer)" where
  "query_scan 0 buf h rw tmp4 tmp3 idf iddb ret ps = Inl OutOfFuel"
| "query_scan (Suc fuel) buf h rw tmp4 tmp3 idf iddb ret ps =
     bind_res (find_param (length buf + 1) CHR ''?'' buf tmp4 h) (\<lambda>tmp2. case tmp2 of
       None \<Rightarrow> close_search rw iddb ret ps
     | Some tmp2 \<Rightarrow>
         if (case tmp3 of None \<Rightarrow> True | Some t \<Rightarrow> t < tmp2) then close_search rw iddb ret ps
         else
         let iddb = (if idf = 0 then length ps else the iddb); ps = ps @ [new_node h idf]; p = tmp2 + length h + 1 in
         bind_res (strstr_at buf tmp2 ''&'') (\<lambda>tmp1. bind_res (strstr_at buf p '' HTTP'') (\<lambda>tmp3.
         bind_res (case tmp1 of
             None \<Rightarrow> (case tmp3 of None \<Rightarrow> Inl BadPointer | Some t \<Rightarrow> Inr (t - p))
           | Some a \<Rightarrow> (case tmp3 of None \<Rightarrow> Inl BadPointer
               | Some t \<Rightarrow> if a > t then Inr (t - p) else if a < p then Inl BadPointer else Inr (a - p))) (\<lambda>sz.
         if sz < 1 then Inr (ps, Data [])
         else bind_res (hex_translate buf p sz) (\<lambda>v. bind_res (count_node iddb v ps) (\<lambda>ps.
           query_scan fuel buf h rw (tmp2 + length h) tmp3 (idf + 1) (Some iddb) (Some v) ps))))))"

text \<open>
  \<open>__ILWS_Query\<close> for a name: with a leading \<open>#\<close>, \<open>rw\<close>, it asks for the number of values.  For
  a null pointer it returns the query string.
\<close>

definition Query :: "char list \<Rightarrow> bool \<Rightarrow> cstr \<Rightarrow> param list \<Rightarrow> fault + (param list \<times> answer)" where
  "Query buf rw h ps =
     bind_res (known_param (\<lambda>w. w = 0) h rw (length ps) 0 None ps) (\<lambda>(ps, r). case r of
       Inl a \<Rightarrow> Inr (ps, a)
     | Inr iddb \<Rightarrow>
         bind_res (strstr_at buf 0 ''?'') (\<lambda>tmp1. bind_res (strstr_at buf 0 '' HTTP'') (\<lambda>tmp3.
         case (tmp1, tmp3) of
           (Some a, Some t) \<Rightarrow>
             if a < t then query_scan (length buf + 1) buf h rw (a + 1) tmp3 0 iddb None ps
             else Inr (ps, if rw then Count 0 else Data [])
         | _ \<Rightarrow> Inr (ps, if rw then Count 0 else Data []))))"

text \<open>\<open>while (seek==1)\<close> of \<open>__ILWS_Post\<close>.\<close>

fun post_scan :: "nat \<Rightarrow> char list \<Rightarrow> cstr \<Rightarrow> bool \<Rightarrow> nat \<Rightarrow> nat \<Rightarrow> nat option \<Rightarrow> cstr option \<Rightarrow> param list \<Rightarrow>
    fault + (param list \<times> answer)" where
  "post_scan 0 buf h rw tmp3 idf iddb ret ps = Inl OutOfFuel"
| "post_scan (Suc fuel) buf h rw tmp3 idf iddb ret ps =
     bind_res (find_param (length buf + 1) LF buf tmp3 h) (\<lambda>tmp2. case tmp2 of
       None \<Rightarrow> close_search rw iddb ret ps
     | Some tmp2 \<Rightarrow>
         let iddb = (if idf = 0 then length ps else the iddb); ps = ps @ [new_node h idf]; p = tmp2 + length h + 1 in
         bind_res (strstr_at buf tmp2 ''&'') (\<lambda>tmp1.
         bind_res (case tmp1 of
             None \<Rightarrow> Inr (length (upto_nul (drop p buf)))
           | Some a \<Rightarrow> if a < p then Inl BadPointer else Inr (a - p)) (\<lambda>sz.
         if sz = 0 then Inr (ps, if rw then Count 0 else Data [])
         else bind_res (hex_translate buf p sz) (\<lambda>v. bind_res (count_node iddb v ps) (\<lambda>ps.
           post_scan fuel buf h rw (tmp2 + length h) (idf + 1) (Some iddb) (Some v) ps)))))"

text \<open>\<open>__ILWS_Post\<close> for a name, when the posted data are not a multipart form.\<close>

definition Post :: "char list \<Rightarrow> bool \<Rightarrow> cstr \<Rightarrow> param list \<Rightarrow> fault + (param list \<times> answer)" where
  "Post buf rw h ps =
     bind_res (known_param (\<lambda>w. sint w \<le> 0) h rw (length ps) 0 None ps) (\<lambda>(ps, r). case r of
       Inl a \<Rightarrow> Inr (ps, a)
     | Inr iddb \<Rightarrow>
         bind_res (strstr_at buf 0 [CR, LF, CR, LF]) (\<lambda>tmp1. case tmp1 of
           None \<Rightarrow> Inr (ps, if rw then Count 0 else Data [])
         | Some a \<Rightarrow> post_scan (length buf + 1) buf h rw (a + 4) 0 iddb None ps))"

section \<open>Multipart forms\<close>

record part =
  m_id :: cstr
  m_data :: "char list"
  m_size :: nat
  m_filename :: cstr

definition no_part :: part where
  "no_part = \<lparr>m_id = [], m_data = [], m_size = 0, m_filename = []\<rparr>"

text \<open>\<open>memcmp\<close> with 0, \<open>strncmp\<close> with a whole string.\<close>

definition bytes_at :: "char list \<Rightarrow> nat \<Rightarrow> char list \<Rightarrow> fault + bool" where
  "bytes_at buf p t = (if p + length t \<le> length buf then Inr (take (length t) (drop p buf) = t) else Inl OutOfBounds)"

definition string_at :: "char list \<Rightarrow> nat \<Rightarrow> cstr \<Rightarrow> bool" where
  "string_at buf p t \<longleftrightarrow> take (length t) (upto_nul (drop p buf)) = t"

text \<open>The part with the name \<open>h\<close>: the position of its name.  \<open>lim\<close> is \<open>rbufsize\<close>.\<close>

function find_part :: "nat \<Rightarrow> char list \<Rightarrow> cstr \<Rightarrow> cstr \<Rightarrow> nat \<Rightarrow> fault + nat option" where
  "find_part lim buf name h tmp1 =
     bind_res (bytes_at buf tmp1 name) (\<lambda>eq.
     bind_res (if eq
         then bind_res (rd buf (tmp1 + length name)) (\<lambda>q.
              let p = tmp1 + length name; p = (if q = CHR 0x22 then p + 1 else p)
              in if string_at buf p h
                 then bind_res (rd buf (p + length h)) (\<lambda>d. Inr (p, d \<in> {SPACE, CHR 0x22, CR, CHR '';''}))
                 else Inr (p, False))
         else Inr (tmp1 + 1, False)) (\<lambda>(p, found).
       if found then Inr (Some p)
       else if p + length name < lim \<and> tmp1 < p \<and> lim < length buf then find_part lim buf name h p else Inr None))"
  by pat_completeness auto
termination by (relation "measure (\<lambda>(l, b, n, h, t). length b - t)") auto

text \<open>The next boundary.\<close>

function find_boundary :: "nat \<Rightarrow> char list \<Rightarrow> cstr \<Rightarrow> nat \<Rightarrow> fault + nat option" where
  "find_boundary lim buf b tmp3 =
     bind_res (bytes_at buf tmp3 b) (\<lambda>eq.
     if eq then Inr (Some tmp3)
     else if tmp3 + 1 + length b < lim \<and> lim < length buf then find_boundary lim buf b (tmp3 + 1) else Inr None)"
  by pat_completeness auto
termination by (relation "measure (\<lambda>(l, u, b, t). length u - t)") auto

declare find_part.simps [simp del] find_boundary.simps [simp del]

definition part_filename :: "char list \<Rightarrow> cstr \<Rightarrow> nat \<Rightarrow> fault + cstr" where
  "part_filename buf name tmp1 =
     bind_res (strstr_at buf tmp1 ''filename='') (\<lambda>tmp2. bind_res (strstr_at buf tmp1 name) (\<lambda>bcheck.
     case tmp2 of
       None \<Rightarrow> Inr []
     | Some t \<Rightarrow>
         if (case bcheck of None \<Rightarrow> False | Some b \<Rightarrow> t > b) then Inr []
         else bind_res (rd buf (t + 9)) (\<lambda>q.
           let t = (if q = CHR 0x22 then t + 10 else t + 9) in
           bind_res (strstr_at buf t [CR, LF]) (\<lambda>tmp3. case tmp3 of
             None \<Rightarrow> Inl BadPointer
           | Some e \<Rightarrow>
               if e = t then Inl OutOfBounds
               else bind_res (copy_out buf t (e - t)) (\<lambda>f. Inr (if last f = CHR 0x22 then butlast f else f))))))"

text \<open>The data end four bytes before the boundary; there must be room for them.\<close>

definition part_data :: "nat \<Rightarrow> char list \<Rightarrow> cstr \<Rightarrow> nat \<Rightarrow> fault + char list option" where
  "part_data lim buf b tmp1 =
     bind_res (strstr_at buf tmp1 [CR, LF, CR, LF]) (\<lambda>tmp2. case tmp2 of
       None \<Rightarrow> Inr None
     | Some t \<Rightarrow>
         bind_res (find_boundary lim buf b (t + 4)) (\<lambda>tmp3. case tmp3 of
           None \<Rightarrow> Inr None
         | Some e \<Rightarrow> if e < t + 8 then Inl BadPointer else Inr (Some (take (e - 4 - (t + 4)) (drop (t + 4) buf)))))"

text \<open>
  \<open>__ILWS_MultiPart\<close>: a new name gets a node at once, which stays empty when the part is not
  found.  \<open>snprintf\<close> has room for the whole name.
\<close>

definition MultiPart :: "u64 \<Rightarrow> char list \<Rightarrow> cstr \<Rightarrow> part list \<Rightarrow> fault + (part list \<times> part)" where
  "MultiPart base buf h ml =
     bind_res (stristr base (upto_nul buf) ''Content-type: multipart/form-data'') (\<lambda>tmp1. case tmp1 of
       None \<Rightarrow> Inr (ml, no_part)
     | Some tmp1 \<Rightarrow>
       (case List.find (\<lambda>m. m_id m = h) ml of
          Some m \<Rightarrow> Inr (ml, m)
        | None \<Rightarrow>
          let empty = ml @ [no_part\<lparr>m_id := h\<rparr>]; lim = length buf - 1 in
          bind_res (strstr_at buf tmp1 ''boundary='') (\<lambda>tmp1. case tmp1 of
            None \<Rightarrow> Inr (empty, no_part)
          | Some t \<Rightarrow>
            bind_res (strstr_at buf (t + 9) [CR, LF]) (\<lambda>tmp2. case tmp2 of
              None \<Rightarrow> Inr (empty, no_part)
            | Some e \<Rightarrow>
              bind_res (copy_out buf (t + 9) (e - (t + 9))) (\<lambda>boundary.
              let name = boundary @ [CR, LF] @ ''Content-Disposition: form-data; name='' in
              bind_res (strstr_at buf (t + 9) [CR, LF, CR, LF]) (\<lambda>tmp1. case tmp1 of
                None \<Rightarrow> Inr (empty, no_part)
              | Some d \<Rightarrow>
                bind_res (find_part lim buf name h d) (\<lambda>r. case r of
                  None \<Rightarrow> Inr (empty, no_part)
                | Some p \<Rightarrow>
                  bind_res (part_filename buf name p) (\<lambda>fname.
                  bind_res (part_data lim buf boundary p) (\<lambda>dat. case dat of
                    None \<Rightarrow> Inr (ml @ [no_part\<lparr>m_id := h, m_filename := fname\<rparr>], no_part)
                  | Some v \<Rightarrow>
                    let m = \<lparr>m_id = h, m_data = v, m_size = length v, m_filename = fname\<rparr>
                    in Inr (ml @ [m], m))))))))))"

text \<open>\<open>__ILWS_Post\<close> starts with a test for a multipart form.\<close>

definition Post_data :: "u64 \<Rightarrow> char list \<Rightarrow> bool \<Rightarrow> cstr \<Rightarrow> param list \<Rightarrow> part list \<Rightarrow>
    fault + (param list \<times> part list \<times> answer)" where
  "Post_data base buf rw h ps ml =
     bind_res (strstr_at buf 0 ''Content-type: multipart/form-data'') (\<lambda>tmp1.
     if tmp1 \<noteq> None
     then bind_res (MultiPart base buf (if rw then CHR ''#'' # h else h) ml) (\<lambda>(ml, m). Inr (ps, ml, Data (upto_nul (m_data m))))
     else bind_res (Post buf rw h ps) (\<lambda>(ps, a). Inr (ps, ml, a)))"

section \<open>Configuration\<close>

text \<open>
  \<open>__ILWS_Conf\<close> on the text of the configuration (its reload from a changed file is not
  modelled).  The loop moves on by one character until the key starts a line.
\<close>

function find_key :: "u64 \<Rightarrow> cstr \<Rightarrow> cstr \<Rightarrow> nat \<Rightarrow> fault + nat option" where
  "find_key base conf k dataconf =
     (if length conf < dataconf then Inl OutOfBounds
      else bind_res (stristr (base + of_nat dataconf) (drop dataconf conf) k) (\<lambda>t.
        let tmp1 = map_option (\<lambda>i. dataconf + i) t; p = dataconf + 1 in
        bind_res (cget conf p) (\<lambda>c. bind_res (cget conf (p - 1)) (\<lambda>b.
        if c = NUL then Inr None
        else if c = CHR ''['' \<and> b = LF then Inr None
        else case tmp1 of
            None \<Rightarrow> find_key base conf k p
          | Some t \<Rightarrow>
              bind_res (if t = 0 then Inl OutOfBounds else cget conf (t - 1)) (\<lambda>a. bind_res (cget conf (t + length k)) (\<lambda>d.
              if a = LF \<and> d = CHR ''='' then Inr (Some t) else find_key base conf k p))))))"
  by pat_completeness auto
termination by (relation "measure (\<lambda>(b, c, k, d). Suc (length c) - d)") auto

declare find_key.simps [simp del]

definition Conf :: "u64 \<Rightarrow> cstr \<Rightarrow> cstr \<Rightarrow> cstr \<Rightarrow> fault + cstr" where
  "Conf base conf topic k =
     bind_res (stristr base conf topic) (\<lambda>d. case d of
       None \<Rightarrow> Inr []
     | Some d \<Rightarrow>
         bind_res (find_key base conf k (d + length topic)) (\<lambda>r. case r of
           None \<Rightarrow> Inr []
         | Some t \<Rightarrow>
             let p = t + length k + 1 in
             bind_res (stristr (base + of_nat p) (drop p conf) [LF]) (\<lambda>e.
               Inr (case e of None \<Rightarrow> drop p conf | Some n \<Rightarrow> take n (drop p conf)))))"

end
