(* ===== verification/LwsDecode.thy ===== *)
theory LwsDecode
  imports LwsRequest
begin

text \<open>
  What the questions about a request return: the path and the values of parameters are the
  decoded ones, and every question about a non-empty name is answered.
\<close>

section \<open>Searching\<close>

lemma c_strstr_Some: "c_strstr s t = Some i \<Longrightarrow> take (length t) (drop i s) = t \<and> i + length t \<le> length s"
proof (induction s arbitrary: i)
  case (Cons c s)
  show ?case
  proof (cases "take (length t) (c # s) = t")
    case True
    then have "length t \<le> length (c # s)" by (metis length_take min.cobounded1)
    then show ?thesis using True Cons.prems by simp
  next
    case False
    then obtain k where "c_strstr s t = Some k" "i = Suc k" using Cons.prems by auto
    then show ?thesis using Cons.IH by simp
  qed
qed (simp split: if_splits)

lemma c_strstr_first:
  "take (length t) (drop i s) = t \<Longrightarrow> i \<le> length s \<Longrightarrow> (\<And>j. j < i \<Longrightarrow> take (length t) (drop j s) \<noteq> t) \<Longrightarrow>
   c_strstr s t = Some i"
proof (induction s arbitrary: i)
  case (Cons c s)
  show ?case
  proof (cases i)
    case 0
    then show ?thesis using Cons.prems(1) by simp
  next
    case (Suc k)
    have "c_strstr s t = Some k"
    proof (rule Cons.IH)
      fix j assume "j < k"
      then show "take (length t) (drop j s) \<noteq> t" using Cons.prems(3) [of "Suc j"] Suc by simp
    qed (use Cons.prems Suc in simp_all)
    moreover have "take (length t) (c # s) \<noteq> t" using Cons.prems(3) [of 0] Suc by simp
    ultimately show ?thesis using Suc by simp
  qed
qed simp

lemma c_strstr_before: "c_strstr s t = Some i \<Longrightarrow> j < i \<Longrightarrow> take (length t) (drop j s) \<noteq> t"
proof (induction s arbitrary: i j)
  case (Cons c s)
  show ?case
  proof (cases "take (length t) (c # s) = t")
    case False
    then obtain k where "c_strstr s t = Some k" "i = Suc k" using Cons.prems(1) by (auto split: if_splits)
    then show ?thesis using Cons.IH Cons.prems(2) False by (cases j) auto
  qed (use Cons.prems in auto)
qed (auto split: if_splits)

lemma c_strstr_char: "c \<notin> set s \<Longrightarrow> c_strstr (s @ c # t) [c] = Some (length s)"
  by (induction s) auto

lemma c_strstr_char_None: "c \<notin> set s \<Longrightarrow> c_strstr s [c] = None"
  by (induction s) auto

lemma c_strstr_head: "c \<notin> set s \<Longrightarrow> c_strstr (s @ (c # t) @ u) (c # t) = Some (length s)"
  by (induction s) auto

lemma strstr_at_pos:
  assumes "strstr_at buf p t = Inr (Some q)"
  shows "p \<le> q \<and> q + length t \<le> p + length (upto_nul (drop p buf)) \<and> q + length t \<le> length buf \<and> p < length buf"
proof -
  obtain i where i: "c_strstr (upto_nul (drop p buf)) t = Some i" "q = p + i" "p < length buf"
    using assms by (auto simp: strstr_at_def split: if_splits)
  have "length (upto_nul (drop p buf)) \<le> length buf - p"
    unfolding upto_nul_def by (metis length_takeWhile_le length_drop)
  moreover have "i + length t \<le> length (upto_nul (drop p buf))" using c_strstr_Some [OF i(1)] by blast
  ultimately show ?thesis using i by linarith
qed

lemma upto_nul_NUL [simp]: "upto_nul (NUL # s) = []"
  by (simp add: upto_nul_def)

section \<open>Escapes\<close>

fun url_decode :: "cstr \<Rightarrow> cstr option" where
  "url_decode [] = Some []"
| "url_decode (c # s) =
     (if c = CHR ''+'' then map_option (Cons SPACE) (url_decode s)
      else if c = CHR ''%''
      then (case s of a # b # s' \<Rightarrow> map_option (Cons (char_of (strtol16 [a, b] mod 256))) (url_decode s') | _ \<Rightarrow> None)
      else map_option (Cons c) (url_decode s))"

lemma url_decode_length: "url_decode s = Some v \<Longrightarrow> length v \<le> length s"
proof (induction s arbitrary: v rule: url_decode.induct)
  case (2 c s)
  show ?case
  proof (cases "c = CHR ''%''")
    case True
    then obtain a b s' v' where s: "s = a # b # s'" "url_decode s' = Some v'" "length v = Suc (length v')"
      using 2(4) by (auto split: list.splits)
    then show ?thesis using 2(2) True by fastforce
  next
    case False
    then obtain v' where "url_decode s = Some v'" "length v = Suc (length v')" using 2(4) by (auto split: if_splits)
    then show ?thesis using 2(1,3) False by (cases "c = CHR ''+''") auto
  qed
qed simp

text \<open>The loop at character \<open>i\<close> of the result: \<open>s\<close> is still to be translated.\<close>

lemma hex_loop_decode:
  "url_decode s = Some v \<Longrightarrow> nul_free s \<Longrightarrow> sz = i + length s \<Longrightarrow> sz < 2 ^ 64 \<Longrightarrow> sz \<le> length dat \<Longrightarrow>
   drop (tmp2 + j) buf = s @ rest \<Longrightarrow>
   hex_loop buf tmp2 i j sz dat = Inr (i + length v, take i dat @ v @ drop (i + length v) dat)"
proof (induction s arbitrary: v sz i j dat rule: url_decode.induct)
  case 1
  then show ?case by (subst hex_loop.simps) simp
next
  case (2 c s)
  have i: "i < sz" "i < length dat" using 2(6,8) by simp_all
  have pos: "tmp2 + j < length buf" using 2(9) by (metis append_Cons drop_eq_Nil linorder_not_le list.distinct(1))
  have c: "rd buf (tmp2 + j) = Inr c" using 2(9) pos by (simp add: rd_def) (metis hd_drop_conv_nth list.sel(1) append_Cons)
  have next_drop: "drop (tmp2 + (j + 1)) buf = s @ rest"
  proof -
    have "drop (tmp2 + (j + 1)) buf = drop 1 (drop (tmp2 + j) buf)" by (simp add: add.commute add.left_commute)
    then show ?thesis using 2(9) by simp
  qed
  have upd: "take i dat @ x # ys = take (i + 1) (dat[i := x]) @ ys" for x ys
    using i(2) by (simp add: take_Suc_conv_app_nth)
  show ?case
  proof (cases "c = CHR ''%''")
    case True
    then obtain a b s' v' where s: "s = a # b # s'" "url_decode s' = Some v'" and v: "v = char_of (strtol16 [a, b] mod 256) # v'"
      using 2(4) by (auto split: list.splits)
    have "upto_nul (drop (tmp2 + j + 1) buf) = a # b # upto_nul (s' @ rest)"
      using next_drop s(1) 2(5) True by (simp add: upto_nul_def add.assoc)
    then have ch: "hex_char buf (tmp2 + j + 1) = char_of (strtol16 [a, b] mod 256)" by (simp add: hex_char_def)
    have "sz + 2 ^ 64 - 2 = (sz - 2) + 2 ^ 64" using 2(6) s(1) by simp
    then have "(sz + 2 ^ 64 - 2) mod 2 ^ 64 = (sz - 2) mod 2 ^ 64" by (simp only: mod_add_self2)
    also have "\<dots> = sz - 2" using 2(7) by simp
    finally have wrap: "(sz + 2 ^ 64 - 2) mod 2 ^ 64 = sz - 2" .
    have dr: "drop (tmp2 + (j + 2 + 1)) buf = s' @ rest"
    proof -
      have "tmp2 + (j + 2 + 1) = 2 + (tmp2 + (j + 1))" by simp
      then have "drop (tmp2 + (j + 2 + 1)) buf = drop 2 (drop (tmp2 + (j + 1)) buf)" by (simp only: drop_drop)
      then show ?thesis unfolding next_drop s(1) by simp
    qed
    have "hex_loop buf tmp2 i j sz dat = hex_loop buf tmp2 (i + 1) (j + 2 + 1) (sz - 2) (dat[i := hex_char buf (tmp2 + j + 1)])"
      using i c wrap True by (subst hex_loop.simps) (simp del: One_nat_def)
    also have "\<dots> = Inr (i + 1 + length v', take (i + 1) (dat[i := hex_char buf (tmp2 + j + 1)]) @ v' @
        drop (i + 1 + length v') (dat[i := hex_char buf (tmp2 + j + 1)]))"
      by (rule 2(2) [OF _ True s(1) _ s(2) _ _ _ _ dr]) (use 2(5-8) s(1) True in simp_all)
    finally show ?thesis using v ch upd by simp
  next
    case False
    define ch where "ch = (if c = CHR ''+'' then SPACE else c)"
    obtain v' where s: "url_decode s = Some v'" and v: "v = ch # v'"
      using 2(4) False by (auto simp: ch_def split: if_splits)
    have "hex_loop buf tmp2 i j sz dat = hex_loop buf tmp2 (i + 1) (j + 1) sz (dat[i := ch])"
      using i c False by (subst hex_loop.simps) (simp add: ch_def)
    also have "\<dots> = Inr (i + 1 + length v', take (i + 1) (dat[i := ch]) @ v' @ drop (i + 1 + length v') (dat[i := ch]))"
    proof (cases "c = CHR ''+''")
      case True
      then show ?thesis by (intro 2(1) [OF _ s _ _ _ _ next_drop]) (use 2(5-8) in simp_all)
    next
      case F: False
      then show ?thesis by (intro 2(3) [OF _ _ s _ _ _ _ next_drop]) (use 2(5-8) False in simp_all)
    qed
    finally show ?thesis using v upd by simp
  qed
qed

lemma hex_translate_decode:
  assumes "url_decode s = Some v" "nul_free s" "length s < 2 ^ 64" "drop p buf = s @ rest"
  shows "hex_translate buf p (length s) = Inr (upto_nul v)"
proof -
  have "hex_loop buf p 0 0 (length s) (replicate (length s + 1) NUL) =
      Inr (0 + length v, take 0 (replicate (length s + 1) NUL) @ v @ drop (0 + length v) (replicate (length s + 1) NUL))"
    by (rule hex_loop_decode [OF assms(1,2)]) (use assms in simp_all)
  moreover have "upto_nul (v @ NUL # r) = upto_nul v" for r
    unfolding upto_nul_def by (induction v) auto
  moreover have "length s + 1 - length v = Suc (length s - length v)"
    using url_decode_length [OF assms(1)] by simp
  then have "drop (length v) (replicate (length s + 1) NUL) = NUL # replicate (length s - length v) NUL"
    unfolding drop_replicate by (simp only: replicate.simps)
  ultimately show ?thesis
    by (simp add: hex_translate_def wr_def list_update_append del: drop_replicate replicate.simps)
qed

text \<open>
  A value that is nothing but a percent sign: \<open>size\<close> wraps around and the loop writes beyond
  the two bytes of the buffer, whatever follows in the request.
\<close>

theorem hex_translate_lone_percent:
  assumes "p < length buf" "buf ! p = CHR ''%''"
  shows "hex_translate buf p 1 = Inl OutOfBounds"
proof -
  define sz :: nat where "sz = 2 ^ 64 - 1"
  have stop: "i = 2 \<Longrightarrow> length d = 2 \<Longrightarrow> i < s \<Longrightarrow> hex_loop buf p i j s d = Inl OutOfBounds" for i j s d
    by (subst hex_loop.simps) (simp add: rd_def Let_def split: prod.splits if_splits)
  have two: "hex_loop buf p 1 j sz d = Inl OutOfBounds" if "length d = 2" for j d
  proof -
    have "2 < sz" "2 < (sz + 2 ^ 64 - 2) mod 2 ^ 64" by (simp_all add: sz_def)
    then show ?thesis using that stop [of "Suc 1"]
      by (subst hex_loop.simps) (simp add: rd_def Let_def numeral_2_eq_2)
  qed
  have "(1 + 2 ^ 64 - 2) mod 2 ^ 64 = sz" by (simp add: sz_def)
  then have "hex_loop buf p 0 0 1 [NUL, NUL] = Inl OutOfBounds"
    using two [of "[_, NUL]"] assms by (subst hex_loop.simps) (simp add: rd_def Let_def)
  then show ?thesis by (simp add: hex_translate_def)
qed

theorem hex_translate_lone_percent_witness:
  "hex_translate ''GET /?x=% HTTP/1.0'' 8 1 = Inl OutOfBounds"
  by (rule hex_translate_lone_percent) simp_all

section \<open>The path of a request\<close>

text \<open>The encoding of a form, with upper case escapes.\<close>

definition url_plain :: "char \<Rightarrow> bool" where
  "url_plain c \<longleftrightarrow> c_isdigit c \<or> c_isalpha c \<or> c \<in> set ''/-_.~''"

definition hex_digit :: "nat \<Rightarrow> char" where
  "hex_digit n = ''0123456789ABCDEF'' ! n"

fun url_encode :: "cstr \<Rightarrow> cstr" where
  "url_encode [] = []"
| "url_encode (c # s) =
     (if url_plain c then [c] else if c = SPACE then ''+''
      else [CHR ''%'', hex_digit (code c div 16), hex_digit (code c mod 16)]) @ url_encode s"

lemma hex_digit_facts:
  assumes "n < 16"
  shows "c_isxdigit (hex_digit n) \<and> hex_val (hex_digit n) = n \<and> \<not> c_isspace (hex_digit n) \<and> hex_digit n \<noteq> CHR ''-'' \<and>
    hex_digit n \<noteq> CHR ''+'' \<and> c_tolower (hex_digit n) \<noteq> CHR ''x'' \<and> hex_digit n \<noteq> NUL \<and> hex_digit n \<noteq> SPACE \<and>
    hex_digit n \<noteq> CHR ''?''"
proof -
  have "\<forall>n \<in> {..<16}. c_isxdigit (hex_digit n) \<and> hex_val (hex_digit n) = n \<and> \<not> c_isspace (hex_digit n) \<and>
    hex_digit n \<noteq> CHR ''-'' \<and> hex_digit n \<noteq> CHR ''+'' \<and> c_tolower (hex_digit n) \<noteq> CHR ''x'' \<and> hex_digit n \<noteq> NUL \<and>
    hex_digit n \<noteq> SPACE \<and> hex_digit n \<noteq> CHR ''?''"
    by (simp add: lessThan_nat_numeral hex_digit_def hex_val_def c_isxdigit_def c_isspace_def c_tolower_def c_isupper_def
        c_isdigit_def code_def char_of_def bit_0)
  then show ?thesis using assms by blast
qed

lemma strtol16_digits:
  assumes "a < 16" "b < 16"
  shows "strtol16 [hex_digit a, hex_digit b] = int (a * 16 + b)"
  using hex_digit_facts [OF assms(1)] hex_digit_facts [OF assms(2)]
  by (simp add: strtol16_def hex_number_def Let_def)

lemma url_plain_other:
  "\<not> url_plain CHR ''+''" "\<not> url_plain CHR ''%''" "\<not> url_plain NUL" "\<not> url_plain SPACE" "\<not> url_plain CHR ''?''"
  by (simp_all add: url_plain_def c_isdigit_def c_isalpha_def c_isupper_def c_islower_def code_def)

lemma code_digits: "code c div 16 < 16" "code c mod 16 < 16"
  using code_less [of c] by (simp_all add: div_less_iff_less_mult)

lemmas code_digit_facts = hex_digit_facts [OF code_digits(1)] hex_digit_facts [OF code_digits(2)]

lemma char_of_int_code: "char_of (int (code c) mod 256) = c"
proof -
  have "int (code c) mod 256 = int (code c)" using code_less [of c] by simp
  moreover have "char_of (int (code c)) = (char_of (code c) :: char)" by (simp add: char_of_def bit_simps)
  ultimately show ?thesis by simp
qed

lemma url_decode_encode: "url_decode (url_encode s) = Some s"
proof (induction s)
  case (Cons c s)
  consider "url_plain c" | "\<not> url_plain c" "c = SPACE" | "\<not> url_plain c" "c \<noteq> SPACE" by blast
  then show ?case
  proof cases
    case 1
    then show ?thesis using Cons url_plain_other by auto
  next
    case 3
    have "strtol16 [hex_digit (code c div 16), hex_digit (code c mod 16)] = int (code c)"
      using strtol16_digits [OF code_digits(1) code_digits(2)] by (simp only: div_mult_mod_eq)
    then show ?thesis using 3 Cons by (simp add: char_of_int_code)
  qed (use Cons in simp)
qed simp

lemma url_encode_chars: "nul_free (url_encode s)" "SPACE \<notin> set (url_encode s)" "CHR ''?'' \<notin> set (url_encode s)"
proof -
  have one: "NUL \<notin> set (url_encode s) \<and> SPACE \<notin> set (url_encode s) \<and> CHR ''?'' \<notin> set (url_encode s)"
  proof (induction s)
    case (Cons c s)
    have "x \<noteq> NUL \<and> x \<noteq> SPACE \<and> x \<noteq> CHR ''?''" if "x \<in> set (if url_plain c then [c] else if c = SPACE then ''+''
      else [CHR ''%'', hex_digit (code c div 16), hex_digit (code c mod 16)])" for x
      using that code_digit_facts [of c] url_plain_other by (auto split: if_splits)
    then have "y \<notin> set (if url_plain c then [c] else if c = SPACE then ''+''
      else [CHR ''%'', hex_digit (code c div 16), hex_digit (code c mod 16)])" if "y \<in> {NUL, SPACE, CHR ''?''}" for y
      using that by blast
    then show ?case using Cons.IH unfolding url_encode.simps set_append by blast
  qed simp
  show "nul_free (url_encode s)" "SPACE \<notin> set (url_encode s)" "CHR ''?'' \<notin> set (url_encode s)"
    using one by (simp_all add: nul_free_def)
qed

lemma c_strstr_char_skip: "c \<notin> set s \<Longrightarrow> c_strstr (s @ t) [c] = map_option (\<lambda>k. length s + k) (c_strstr t [c])"
  by (cases "c_strstr t [c]"; induction s) auto

text \<open>
  C35. For a request line with any method, an encoded path and possibly a query, the name of
  the request is the path itself.
\<close>

theorem getreqname_decodes:
  assumes "nul_free m" "CHR ''/'' \<notin> set m" "nul_free path" "length (url_encode path) < 2 ^ 64 - 1"
    and "query = [] \<or> (hd query = CHR ''?'' \<and> SPACE \<notin> set query \<and> nul_free query)"
  shows "getreqname (m @ ''/'' @ url_encode path @ query @ '' HTTP'' @ rest @ [NUL]) = Inr (''/'' @ path)"
proof -
  define enc where "enc = ''/'' @ url_encode path"
  define buf where "buf = m @ enc @ query @ '' HTTP'' @ rest @ [NUL]"
  have enc: "nul_free enc" "SPACE \<notin> set enc" "CHR ''?'' \<notin> set enc" "enc \<noteq> []"
    using url_encode_chars by (simp_all add: enc_def)
  have query: "nul_free query" "SPACE \<notin> set query" using assms(5) by auto
  define line where "line = upto_nul (rest @ [NUL])"
  have at: "upto_nul (drop (length m) buf) = (enc @ query) @ (SPACE # ''HTTP'') @ line"
    using upto_nul_append [of "enc @ query @ '' HTTP''" "rest @ [NUL]"] enc(1) query(1) by (simp add: buf_def line_def)
  have at0: "upto_nul buf = m @ upto_nul (drop (length m) buf)"
    using upto_nul_append [OF assms(1), of "drop (length m) buf"] by (simp add: buf_def)
  have lens: "length m < length buf" "0 < length buf" by (simp_all add: buf_def)
  have slash: "strstr_at buf 0 ''/'' = Inr (Some (length m))"
    using c_strstr_char [OF assms(2), of "url_encode path @ query @ '' HTTP'' @ line"] lens
    by (simp add: strstr_at_def at0 at) (simp add: enc_def)
  have http: "strstr_at buf (length m) '' HTTP'' = Inr (Some (length m + (length enc + length query)))"
    using c_strstr_head [of SPACE "enc @ query" "''HTTP''" line] enc(2) query(2) lens
    by (simp add: strstr_at_def at)
  obtain r where mark: "strstr_at buf (length m) ''?'' = Inr r"
    "case r of None \<Rightarrow> query = [] | Some t \<Rightarrow> length m + length enc \<le> t \<and> (query \<noteq> [] \<longrightarrow> t = length m + length enc)"
  proof (rule that)
    show "strstr_at buf (length m) ''?'' =
        Inr (map_option (\<lambda>k. length m + (length enc + k)) (c_strstr (query @ '' HTTP'' @ line) ''?''))"
      using c_strstr_char_skip [OF enc(3), of "query @ '' HTTP'' @ line"] lens
      by (simp add: strstr_at_def at option.map_comp comp_def)
    show "case map_option (\<lambda>k. length m + (length enc + k)) (c_strstr (query @ '' HTTP'' @ line) ''?'') of
        None \<Rightarrow> query = [] | Some t \<Rightarrow> length m + length enc \<le> t \<and> (query \<noteq> [] \<longrightarrow> t = length m + length enc)"
      using assms(5) by (cases query) (auto split: option.splits)
  qed
  have dec: "hex_translate buf (length m) (length enc) = Inr (upto_nul (''/'' @ path))"
  proof (rule hex_translate_decode)
    show "url_decode enc = Some (''/'' @ path)" by (simp add: enc_def url_decode_encode)
    show "drop (length m) buf = enc @ (query @ '' HTTP'' @ rest @ [NUL])" by (simp add: buf_def)
  qed (use enc(1) assms(4) in \<open>simp_all add: enc_def\<close>)
  have up: "upto_nul (CHR ''/'' # path) = CHR ''/'' # path" using assms(3) by (intro upto_nul_id) simp
  have stop: "(case r of None \<Rightarrow> length m + (length enc + length query)
      | Some t \<Rightarrow> if t > length m + (length enc + length query) then length m + (length enc + length query) else t) =
      length m + length enc"
    using mark(2) by (cases r; cases "query = []") auto
  have "getreqname buf = Inr (''/'' @ path)"
    using enc(4) dec by (simp add: getreqname_def slash http mark(1) stop up Let_def)
  then show ?thesis by (simp add: buf_def enc_def)
qed

theorem getreqname_decodes_witness:
  "getreqname (''GET '' @ ''/'' @ url_encode ''a b%'' @ ''?x=1'' @ '' HTTP'' @ ''/1.0'' @ [NUL]) = Inr (''/'' @ ''a b%'')"
  by (rule getreqname_decodes) (simp_all add: url_plain_def c_isdigit_def c_isalpha_def c_isupper_def c_islower_def code_def)

section \<open>Every question is answered\<close>

abbreviation stops :: "fault + 'a \<Rightarrow> bool" where
  "stops \<equiv> avoids OutOfFuel"

lemma stops_strstr_at [simp]: "stops (strstr_at buf p t)"
  by (simp add: strstr_at_def)

lemma stops_rd [simp]: "stops (rd a i)" and stops_wr [simp]: "stops (wr a i v)"
  by simp_all

lemma stops_known_field [simp]: "stops (known_field f)"
  by (simp add: known_field_def split: option.split)

lemma stops_hex_loop: "stops (hex_loop buf tmp2 i j sz dat)"
proof (induction "length dat - i" arbitrary: i j sz dat rule: less_induct)
  case less
  have step: "i < length dat \<Longrightarrow> stops (hex_loop buf tmp2 (Suc i) j' sz' (dat[i := x]))" for j' sz' x
    by (rule less) simp
  show ?case by (subst hex_loop.simps) (auto simp: rd_def Let_def intro!: step)
qed

lemma stops_hex_translate [simp]: "stops (hex_translate buf p sz)"
  by (auto simp: hex_translate_def intro!: avoids_bind stops_hex_loop split: prod.splits)

text \<open>Each turn moves on by at least the length of the name.\<close>

lemma stops_find_param: "h \<noteq> [] \<Longrightarrow> length buf < p + n \<Longrightarrow> 0 < n \<Longrightarrow> stops (find_param n q buf p h)"
proof (induction n arbitrary: p)
  case (Suc n)
  have step: "stops (find_param n q buf (t + length h) h)" if "strstr_at buf p h = Inr (Some t)" for t
  proof -
    have t: "p \<le> t" "t + length h \<le> length buf" using strstr_at_pos [OF that] by auto
    have "0 < length h" using Suc.prems(1) by simp
    then have more: "length buf < t + length h + n" using t Suc.prems(2) by linarith
    then have "0 < n" using t(2) by linarith
    then show ?thesis using Suc.IH Suc.prems(1) more by blast
  qed
  show ?case using step by (auto intro!: avoids_bind split: option.split)
qed simp

lemma find_param_pos:
  "find_param n q buf p h = Inr (Some t) \<Longrightarrow> p \<le> t \<and> t + length h < length buf"
proof (induction n arbitrary: p)
  case (Suc n)
  obtain u where u: "strstr_at buf p h = Inr (Some u)"
    using Suc.prems by (auto simp: bind_res_eq_Inr split: option.splits)
  have "p \<le> u" using strstr_at_pos [OF u] by simp
  show ?case
  proof (cases "find_param n q buf (u + length h) h = Inr (Some t)")
    case True
    then show ?thesis using Suc.IH [OF True] \<open>p \<le> u\<close> by simp
  next
    case False
    then have "t = u" "u + length h < length buf" using Suc.prems u
      by (auto simp: bind_res_eq_Inr rd_def split: if_splits)
    then show ?thesis using \<open>p \<le> u\<close> by simp
  qed
qed simp

lemma stops_close_search [simp]: "stops (close_search rw iddb ret ps)"
  by (auto simp: close_search_def intro!: avoids_bind split: option.split)

lemma stops_count_node [simp]: "stops (count_node f v ps)"
  by (auto simp: count_node_def Let_def intro!: avoids_bind)

lemma stops_query_scan:
  "h \<noteq> [] \<Longrightarrow> length buf < p + n \<Longrightarrow> 0 < n \<Longrightarrow> stops (query_scan n buf h rw p tmp3 idf iddb ret ps)"
proof (induction n arbitrary: p tmp3 idf iddb ret ps rw)
  case (Suc n)
  have find: "stops (find_param (Suc (length buf)) CHR ''?'' buf p h)" by (rule stops_find_param) (use Suc.prems(1) in simp_all)
  have step: "stops (query_scan n buf h rw (t + length h) tmp3 idf iddb ret ps)"
    if "find_param (Suc (length buf)) CHR ''?'' buf p h = Inr (Some t)" for t tmp3 idf iddb ret ps rw
  proof -
    have t: "p \<le> t" "t + length h < length buf" using find_param_pos [OF that] by auto
    have "0 < length h" using Suc.prems(1) by simp
    then have more: "length buf < t + length h + n" using t Suc.prems(2) by linarith
    then have "0 < n" using t(2) by linarith
    then show ?thesis using Suc.IH Suc.prems(1) more by blast
  qed
  show ?case unfolding query_scan.simps Suc_eq_plus1 [symmetric]
    by (rule avoids_bind [OF find]) (auto simp: Let_def simp del: find_param.simps intro!: avoids_bind step split: option.split)
qed simp

lemma stops_post_scan:
  "h \<noteq> [] \<Longrightarrow> length buf < p + n \<Longrightarrow> 0 < n \<Longrightarrow> stops (post_scan n buf h rw p idf iddb ret ps)"
proof (induction n arbitrary: p idf iddb ret ps rw)
  case (Suc n)
  have find: "stops (find_param (Suc (length buf)) LF buf p h)" by (rule stops_find_param) (use Suc.prems(1) in simp_all)
  have step: "stops (post_scan n buf h rw (t + length h) idf iddb ret ps)"
    if "find_param (Suc (length buf)) LF buf p h = Inr (Some t)" for t idf iddb ret ps rw
  proof -
    have t: "p \<le> t" "t + length h < length buf" using find_param_pos [OF that] by auto
    have "0 < length h" using Suc.prems(1) by simp
    then have more: "length buf < t + length h + n" using t Suc.prems(2) by linarith
    then have "0 < n" using t(2) by linarith
    then show ?thesis using Suc.IH Suc.prems(1) more by blast
  qed
  show ?case unfolding post_scan.simps Suc_eq_plus1 [symmetric]
    by (rule avoids_bind [OF find]) (auto simp: Let_def simp del: find_param.simps intro!: avoids_bind step split: option.split)
qed simp

lemma stops_known_param: "stops (known_param le0 h rw n k m ps)"
  by (induction n arbitrary: k m ps) (auto intro!: avoids_bind split: option.split)

text \<open>
  A question for a parameter of a non-empty name ends: the bound on the number of turns
  is never reached, for queries and for posted data, with any list of known parameters.
\<close>

theorem Query_Post_terminate:
  assumes "h \<noteq> []"
  shows "avoids OutOfFuel (Query buf rw h ps) \<and> avoids OutOfFuel (Post buf rw h ps)"
proof
  have q: "stops (query_scan (Suc (length buf)) buf h rw (Suc a) t 0 i None ps)" for a t i ps rw
    by (rule stops_query_scan) (use assms in simp_all)
  show "avoids OutOfFuel (Query buf rw h ps)"
    unfolding Query_def
    by (rule avoids_bind [OF stops_known_param])
      (auto intro!: avoids_bind q split: prod.split sum.split option.split simp del: query_scan.simps)
  have p: "stops (post_scan (Suc (length buf)) buf h rw (a + 4) 0 i None ps)" for a i ps rw
    by (rule stops_post_scan) (use assms in simp_all)
  show "avoids OutOfFuel (Post buf rw h ps)"
    unfolding Post_def
    by (rule avoids_bind [OF stops_known_param])
      (auto intro!: avoids_bind p split: prod.split sum.split option.split simp del: post_scan.simps)
qed

theorem Query_Post_terminate_witness:
  "avoids OutOfFuel (Query ''GET /?x=1 HTTP/1.0'' False ''x'' []) \<and> avoids OutOfFuel (Post ''GET /?x=1 HTTP/1.0'' False ''x'' [])"
  by (rule Query_Post_terminate) simp

text \<open>The empty name is found again and again at the same place: the question is not answered.\<close>

lemma find_param_empty_name:
  "p < length buf \<Longrightarrow> 0 < p \<Longrightarrow> buf ! p \<noteq> CHR ''='' \<Longrightarrow> find_param n q buf p [] = Inl OutOfFuel"
proof (induction n)
  case (Suc n)
  have "c_strstr s [] = Some 0" for s by (cases s) simp_all
  then have "strstr_at buf p [] = Inr (Some p)" using Suc.prems by (simp add: strstr_at_def)
  then show ?case using Suc by (simp add: rd_def)
qed simp

end
