(* ===== verification/LwsClient.thy ===== *)
theory LwsClient
  imports LwsDecode
begin

text \<open>
  \<open>tools/libwebserver/src/client.c\<close>, the parts that a handler uses: the template variables of
  a client, the cookies of its answer, and the name of the file that a directory alias serves.
\<close>

section \<open>Template variables\<close>

text \<open>
  The list of variables without its dummy first node; allocation succeeds.  \<open>add_var\<close> keeps
  the first value of a name.
\<close>

type_synonym vars = "(cstr \<times> cstr) list"

fun add_var :: "vars \<Rightarrow> cstr \<Rightarrow> cstr \<Rightarrow> vars \<times> int" where
  "add_var [] name val = ([(name, val)], 1)"
| "add_var ((n, v) # l) name val =
     (if n = name then ((n, v) # l, 0) else let (l, r) = add_var l name val in ((n, v) # l, r))"

fun get_var :: "vars \<Rightarrow> cstr \<Rightarrow> cstr" where
  "get_var [] name = []"
| "get_var ((n, v) # l) name = (if n = name then v else get_var l name)"

text \<open>
  The loop of \<open>del_var\<close> looks at the first node only and does not move on: with another
  variable in front it does not return.
\<close>

fun del_var :: "nat \<Rightarrow> vars \<Rightarrow> cstr \<Rightarrow> fault + (vars \<times> int)" where
  "del_var 0 l name = Inl OutOfFuel"
| "del_var (Suc fuel) l name =
     (case l of
        [] \<Rightarrow> Inr ([], 0)
      | (n, v) # l' \<Rightarrow> if n = name then Inr (l', 1) else del_var fuel l name)"

definition delete_var_list :: "vars \<Rightarrow> vars" where
  "delete_var_list l = drop (length l) l"

section \<open>Cookies\<close>

text \<open>
  \<open>realloc\<close> keeps the common part; the bytes it adds are arbitrary (\<open>junk\<close>).  \<open>snprintf\<close>
  writes at most \<open>n\<close> bytes with its NUL.
\<close>

definition grow :: "char \<Rightarrow> nat \<Rightarrow> char list \<Rightarrow> char list" where
  "grow junk n buf = take n buf @ replicate (n - length buf) junk"

definition print_at :: "char list \<Rightarrow> nat \<Rightarrow> nat \<Rightarrow> cstr \<Rightarrow> fault + char list" where
  "print_at buf off n s =
     (let t = take (n - 1) s @ [NUL] in
      if off + length t \<le> length buf then Inr (take off buf @ t @ drop (off + length t) buf) else Inl OutOfBounds)"

definition append_text :: "char \<Rightarrow> nat \<Rightarrow> cstr \<Rightarrow> char list \<times> nat \<Rightarrow> fault + (char list \<times> nat)" where
  "append_text junk n s bo =
     (case bo of (buf, off) \<Rightarrow> bind_res (print_at (grow junk (off + n) buf) off n s) (\<lambda>buf. Inr (buf, off + n - 1)))"

text \<open>The unit of a timeout: the last of its letters counts.\<close>

definition timeout_unit :: "cstr \<Rightarrow> int" where
  "timeout_unit s =
     foldl (\<lambda>u c. if c = CHR ''S'' then 1 else if c = CHR ''M'' then 60 else if c = CHR ''H'' then 60 * 60
       else if c = CHR ''d'' then 60 * 60 * 24 else if c = CHR ''m'' then 60 * 60 * 24 * 30
       else if c = CHR ''y'' then 60 * 60 * 24 * 365 else u) 0 s"

text \<open>The product is a \<open>long\<close> that is stored in an \<open>int\<close>.\<close>

definition to_int :: "int \<Rightarrow> int" where
  "to_int i = sint (word_of_int i :: u32)"

definition cookie_timeout :: "cstr option \<Rightarrow> int" where
  "cookie_timeout t =
     (case t of None \<Rightarrow> 0 | Some s \<Rightarrow> if s = ''DEL'' then - 1 else to_int (c_atoi s * timeout_unit s))"

text \<open>
  \<open>web_client_setcookie\<close>.  \<open>date\<close> is the date of a time in seconds from now, as
  \<open>strftime\<close> prints it; the last append writes the line end and its NUL.
\<close>

definition opt_attr :: "char \<Rightarrow> cstr \<Rightarrow> cstr option \<Rightarrow> char list \<times> nat \<Rightarrow> fault + (char list \<times> nat)" where
  "opt_attr junk label v bo =
     (case v of None \<Rightarrow> Inr bo
      | Some s \<Rightarrow> if s = [] then Inr bo else append_text junk (length label + length s + 1) (label @ s) bo)"

definition setcookie :: "char \<Rightarrow> (int \<Rightarrow> cstr) \<Rightarrow> cstr \<Rightarrow> cstr \<Rightarrow> cstr option \<Rightarrow> cstr option \<Rightarrow> cstr option \<Rightarrow> int \<Rightarrow>
    char list option \<Rightarrow> fault + char list" where
  "setcookie junk date name val timeoutf path domain secure cookies =
     (let buf = (case cookies of None \<Rightarrow> [] | Some b \<Rightarrow> b); offset = length (upto_nul buf); timeout = cookie_timeout timeoutf in
      bind_res
        (if timeout < 0
         then bind_res (append_text junk (59 + length name)
             (''Set-Cookie: '' @ name @ ''=deleted; expires='' @ date (- 31536001)) (buf, offset))
           (\<lambda>(buf, off). Inr (buf, off + 1))
         else bind_res (append_text junk (14 + length name + length val) (''Set-Cookie: '' @ name @ ''='' @ val) (buf, offset))
           (\<lambda>bo. bind_res (if timeout \<noteq> 0 then append_text junk 40 (''; expires='' @ date timeout) bo else Inr bo)
           (\<lambda>bo. bind_res (opt_attr junk ''; path='' path bo)
           (\<lambda>bo. bind_res (opt_attr junk ''; domain='' domain bo)
           (\<lambda>bo. if secure = 1 then append_text junk 9 ''; secure'' bo else Inr bo)))))
        (\<lambda>bo. bind_res (append_text junk 3 [CR, LF] bo) (\<lambda>(buf, off). Inr buf)))"

definition deletecookie :: "char \<Rightarrow> (int \<Rightarrow> cstr) \<Rightarrow> cstr \<Rightarrow> char list option \<Rightarrow> fault + char list" where
  "deletecookie junk date name cookies = setcookie junk date name [] (Some ''DEL'') None None 0 cookies"

section \<open>Directory aliases\<close>

text \<open>
  \<open>__ILWS_lws_list\<close>: the loops that skip \<open>./\<close> and \<open>//\<close> in the name of the request, and the
  step behind the first slash.  A match is never the whole string, so the string shrinks.
\<close>

function skip_all :: "cstr \<Rightarrow> cstr \<Rightarrow> cstr" where
  "skip_all pat readfile =
     (case c_strstr readfile pat of
        None \<Rightarrow> readfile
      | Some tmp \<Rightarrow> if readfile = [] then [] else skip_all pat (drop (tmp + 1) readfile))"
  by pat_completeness auto
termination by (relation "measure (\<lambda>(p, s). length s)") auto

declare skip_all.simps [simp del]

definition served_name :: "cstr \<Rightarrow> cstr" where
  "served_name request =
     (let readfile = skip_all ''//'' (skip_all ''./'' request) in
      case c_strstr readfile ''/'' of None \<Rightarrow> readfile | Some tmp \<Rightarrow> drop (tmp + 1) readfile)"

text \<open>The buffer has room for a slash between the two; an empty alias is read in front of its start.\<close>

definition served_path :: "cstr \<Rightarrow> cstr \<Rightarrow> fault + cstr" where
  "served_path inpath readfile =
     (if inpath = [] then Inl OutOfBounds
      else Inr (take (length inpath + length readfile + 1)
        (inpath @ (if last inpath = CHR ''/'' then [] else ''/'') @ readfile)))"

section \<open>What the cookie string is\<close>

lemma append_exact:
  assumes "take off buf = s" "length s = off" "length t + 1 = n"
  shows "append_text junk n t (buf, off) = Inr (s @ t @ [NUL], off + length t)"
proof -
  have "off \<le> length buf" using assms(1,2) by (metis length_take min.cobounded1)
  then have len: "length (grow junk (off + n) buf) = off + n" by (auto simp: grow_def)
  have "take off (grow junk (off + n) buf) = s" using assms(1) \<open>off \<le> length buf\<close> by (simp add: grow_def min_def)
  then have "print_at (grow junk (off + n) buf) off n t = Inr (s @ t @ [NUL])"
    using len assms(3) by (auto simp: print_at_def Let_def)
  then show ?thesis using assms(3) by (auto simp: append_text_def)
qed

lemma append_short:
  assumes "take off buf = s" "length s = off" "length t = n" "0 < n"
  shows "append_text junk n t (buf, off) = Inr (s @ butlast t @ [NUL], off + n - 1)"
proof -
  have "off \<le> length buf" using assms(1,2) by (metis length_take min.cobounded1)
  then have len: "length (grow junk (off + n) buf) = off + n" by (auto simp: grow_def)
  have "take off (grow junk (off + n) buf) = s" using assms(1) \<open>off \<le> length buf\<close> by (simp add: grow_def min_def)
  moreover have "take (n - 1) t = butlast t" using assms(3) by (simp add: butlast_conv_take)
  ultimately have "print_at (grow junk (off + n) buf) off n t = Inr (s @ butlast t @ [NUL])"
    using len assms(3,4) by (auto simp: print_at_def Let_def)
  then show ?thesis by (simp add: append_text_def)
qed

definition attr :: "cstr \<Rightarrow> cstr option \<Rightarrow> cstr" where
  "attr label v = (case v of None \<Rightarrow> [] | Some x \<Rightarrow> if x = [] then [] else label @ x)"

definition cookie_line :: "(int \<Rightarrow> cstr) \<Rightarrow> cstr \<Rightarrow> cstr \<Rightarrow> cstr option \<Rightarrow> cstr option \<Rightarrow> cstr option \<Rightarrow> int \<Rightarrow> cstr" where
  "cookie_line date name val timeoutf path domain secure =
     ''Set-Cookie: '' @ name @ ''='' @ val @
     (if cookie_timeout timeoutf = 0 then [] else ''; expires='' @ date (cookie_timeout timeoutf)) @
     attr ''; path='' path @ attr ''; domain='' domain @ (if secure = 1 then ''; secure'' else []) @ [CR, LF]"

text \<open>The buffer and the offset hold the text \<open>s\<close>.\<close>

definition at_end :: "cstr \<Rightarrow> char list \<times> nat \<Rightarrow> bool" where
  "at_end s bo \<longleftrightarrow> take (snd bo) (fst bo) = s \<and> length s = snd bo"

lemma append_yields: "at_end s bo \<Longrightarrow> length t + 1 = n \<Longrightarrow> yields (at_end (s @ t)) (append_text junk n t bo)"
  using append_exact [of "snd bo" "fst bo" s t n junk] by (cases bo) (auto simp: at_end_def)

lemma opt_attr_yields: "at_end s bo \<Longrightarrow> yields (at_end (s @ attr label v)) (opt_attr junk label v bo)"
  by (auto simp: opt_attr_def attr_def intro!: append_yields split: option.split)

lemma finish_line:
  "at_end s bo \<Longrightarrow> bind_res (append_text junk 3 [CR, LF] bo) (\<lambda>(buf, off). Inr buf) = Inr (s @ [CR, LF, NUL])"
  using append_exact [of "snd bo" "fst bo" s "[CR, LF]" 3 junk] by (cases bo) (auto simp: at_end_def)

text \<open>
  Setting a cookie appends one complete header line to the cookies of the answer, however
  much storage they have, when dates print in 29 characters.
\<close>

theorem setcookie_appends_line:
  assumes "0 \<le> cookie_timeout timeoutf" and date: "\<And>t. length (date t) = 29"
  shows "setcookie junk date name val timeoutf path domain secure cookies =
    Inr (upto_nul (case cookies of None \<Rightarrow> [] | Some b \<Rightarrow> b) @
      cookie_line date name val timeoutf path domain secure @ [NUL])"
proof -
  define buf where "buf = (case cookies of None \<Rightarrow> [] | Some b \<Rightarrow> b)"
  define s0 where "s0 = upto_nul buf"
  define t1 where "t1 = ''Set-Cookie: '' @ name @ ''='' @ val"
  define ex where "ex = (if cookie_timeout timeoutf = 0 then [] else ''; expires='' @ date (cookie_timeout timeoutf))"
  define sec where "sec = (if secure = 1 then ''; secure'' else [])"
  have line: "cookie_line date name val timeoutf path domain secure =
      t1 @ ex @ attr ''; path='' path @ attr ''; domain='' domain @ sec @ [CR, LF]"
    by (simp only: cookie_line_def t1_def ex_def sec_def append_assoc)
  have t1: "length t1 + 1 = 14 + length name + length val" by (simp add: t1_def)
  have start: "at_end s0 (buf, length s0)" by (simp add: at_end_def s0_def)
  have expires: "yields (at_end (s @ ex)) (if cookie_timeout timeoutf \<noteq> 0
      then append_text junk 40 (''; expires='' @ date (cookie_timeout timeoutf)) bo else Inr bo)" if "at_end s bo" for s bo
    using that append_yields [OF that, of "''; expires='' @ date (cookie_timeout timeoutf)" 40 junk] date
    by (simp add: ex_def)
  have secures: "yields (at_end (s @ sec)) (if secure = 1 then append_text junk 9 ''; secure'' bo else Inr bo)"
    if "at_end s bo" for s bo
    using that append_yields [OF that, of "''; secure''" 9 junk] by (simp add: sec_def)
  have all: "yields (at_end (((((s0 @ t1) @ ex) @ attr ''; path='' path) @ attr ''; domain='' domain) @ sec))
      (bind_res (append_text junk (14 + length name + length val) t1 (buf, length s0))
        (\<lambda>bo. bind_res (if cookie_timeout timeoutf \<noteq> 0
          then append_text junk 40 (''; expires='' @ date (cookie_timeout timeoutf)) bo else Inr bo)
        (\<lambda>bo. bind_res (opt_attr junk ''; path='' path bo)
        (\<lambda>bo. bind_res (opt_attr junk ''; domain='' domain bo)
        (\<lambda>bo. if secure = 1 then append_text junk 9 ''; secure'' bo else Inr bo)))))"
    by (rule yields_bind [OF append_yields [OF start t1]], rule yields_bind [OF expires], assumption,
        rule yields_bind [OF opt_attr_yields], assumption, rule yields_bind [OF opt_attr_yields], assumption,
        rule secures)
  have "setcookie junk date name val timeoutf path domain secure cookies =
      Inr ((((((s0 @ t1) @ ex) @ attr ''; path='' path) @ attr ''; domain='' domain) @ sec) @ [CR, LF, NUL])"
    unfolding setcookie_def Let_def buf_def [symmetric] s0_def [symmetric] t1_def [symmetric]
      if_not_P [OF leD [OF assms(1)]]
    by (rule yields_then [OF all finish_line])
  then show ?thesis unfolding line s0_def [symmetric] buf_def [symmetric] by (simp only: append_assoc append.simps)
qed

theorem setcookie_appends_line_witness:
  "setcookie NUL (\<lambda>t. replicate 29 CHR ''d'') ''n'' ''v'' (Some ''2H'') (Some ''/'') None 1 None =
    Inr (upto_nul (case None of None \<Rightarrow> [] | Some b \<Rightarrow> b) @
      cookie_line (\<lambda>t. replicate 29 CHR ''d'') ''n'' ''v'' (Some ''2H'') (Some ''/'') None 1 @ [NUL])"
  by (rule setcookie_appends_line)
    (simp_all only: length_replicate, simp_all add: cookie_timeout_def to_int_def c_atoi_def timeout_unit_def c_isspace_def c_isdigit_def code_def Let_def)

text \<open>
  Deleting a cookie loses the line end: the size of the buffer is one short of the text,
  and the line end is written behind the NUL.
\<close>

theorem deletecookie_unterminated:
  assumes date: "length (date (- 31536001)) = 29"
  shows "deletecookie junk date name cookies =
    Inr (upto_nul (case cookies of None \<Rightarrow> [] | Some b \<Rightarrow> b) @
      ''Set-Cookie: '' @ name @ ''=deleted; expires='' @ butlast (date (- 31536001)) @ [NUL, CR, LF, NUL])"
proof -
  define buf where "buf = (case cookies of None \<Rightarrow> [] | Some b \<Rightarrow> b)"
  define s0 where "s0 = upto_nul buf"
  define d where "d = date (- 31536001)"
  define t where "t = ''Set-Cookie: '' @ name @ ''=deleted; expires='' @ d"
  have d: "d \<noteq> []" "length d = 29" using date by (auto simp: d_def)
  have bt: "butlast t = ''Set-Cookie: '' @ name @ ''=deleted; expires='' @ butlast d"
    unfolding t_def using d(1) by (simp only: butlast_append append_is_Nil_conv if_False list.distinct simp_thms)
  have lt: "length t = 59 + length name" by (simp add: t_def d(2))
  define s1 where "s1 = s0 @ butlast t @ [NUL]"
  have a1: "append_text junk (59 + length name) t (buf, length s0) = Inr (s1, length s0 + (59 + length name) - 1)"
    unfolding s1_def by (rule append_short) (use lt in \<open>simp_all add: s0_def\<close>)
  have off: "length s0 + (59 + length name) - 1 + 1 = length s1" using lt by (simp add: s1_def)
  have a2: "bind_res (append_text junk 3 [CR, LF] (s1, length s1)) (\<lambda>(buf, off). Inr buf) = Inr (s1 @ [CR, LF, NUL])"
    by (rule finish_line) (simp add: at_end_def)
  have neg: "cookie_timeout (Some ''DEL'') < 0" by (simp add: cookie_timeout_def)
  have "setcookie junk date name [] (Some ''DEL'') None None 0 cookies = Inr (s1 @ [CR, LF, NUL])"
    unfolding setcookie_def Let_def buf_def [symmetric] s0_def [symmetric] d_def [symmetric] t_def [symmetric]
      if_P [OF neg] a1 bind_res_simps prod.case off
    by (rule a2)
  then show ?thesis
    unfolding deletecookie_def s1_def bt s0_def buf_def d_def by (simp only: append_assoc append.simps)
qed

theorem deletecookie_unterminated_witness:
  "deletecookie NUL (\<lambda>t. replicate 29 CHR ''d'') ''n'' None =
    Inr (upto_nul (case None of None \<Rightarrow> [] | Some b \<Rightarrow> b) @
      ''Set-Cookie: '' @ ''n'' @ ''=deleted; expires='' @ butlast (replicate 29 CHR ''d'') @ [NUL, CR, LF, NUL])"
  by (rule deletecookie_unterminated) simp

section \<open>A directory alias serves nothing outside its directory\<close>

definition occurs_in :: "cstr \<Rightarrow> cstr \<Rightarrow> bool" where
  "occurs_in pat s \<longleftrightarrow> (\<exists>a b. s = a @ pat @ b)"

lemma c_strstr_occurs: "c_strstr s pat = None \<Longrightarrow> \<not> occurs_in pat s"
proof
  assume none: "c_strstr s pat = None" and "occurs_in pat s"
  then obtain a b where s: "s = a @ pat @ b" by (auto simp: occurs_in_def)
  define i where "i = (LEAST i. take (length pat) (drop i s) = pat)"
  have at: "take (length pat) (drop (length a) s) = pat" by (simp add: s)
  then have "take (length pat) (drop i s) = pat" unfolding i_def by (rule LeastI)
  moreover have "i \<le> length a" unfolding i_def using at by (rule Least_le)
  then have "i \<le> length s" by (simp add: s)
  moreover have "\<And>j. j < i \<Longrightarrow> take (length pat) (drop j s) \<noteq> pat" unfolding i_def by (rule not_less_Least)
  ultimately have "c_strstr s pat = Some i" by (rule c_strstr_first)
  then show False using none by simp
qed

lemma occurs_drop: "occurs_in pat (drop n s) \<Longrightarrow> occurs_in pat s"
proof -
  assume "occurs_in pat (drop n s)"
  then obtain a b where "drop n s = a @ pat @ b" by (auto simp: occurs_in_def)
  then have "s = (take n s @ a) @ pat @ b" using append_take_drop_id [of n s] by simp
  then show ?thesis unfolding occurs_in_def by blast
qed

lemma skip_all_drop: "\<exists>n. skip_all pat s = drop n s"
proof (induction "length s" arbitrary: s rule: less_induct)
  case less
  show ?case
  proof (cases "c_strstr s pat")
    case None
    then have "skip_all pat s = drop 0 s" by (subst skip_all.simps) simp
    then show ?thesis by blast
  next
    case (Some t)
    show ?thesis
    proof (cases "s = []")
      case True
      then show ?thesis using Some by (subst skip_all.simps) simp
    next
      case False
      then obtain n where "skip_all pat (drop (t + 1) s) = drop n (drop (t + 1) s)"
        using less [of "drop (t + 1) s"] by auto
      then have "skip_all pat s = drop (n + (t + 1)) s" using Some False by (subst skip_all.simps) simp
      then show ?thesis by blast
    qed
  qed
qed

lemma skip_all_clean: "pat \<noteq> [] \<Longrightarrow> \<not> occurs_in pat (skip_all pat s)"
proof (induction "length s" arbitrary: s rule: less_induct)
  case less
  show ?case
  proof (cases "c_strstr s pat")
    case None
    then show ?thesis using c_strstr_occurs by (subst skip_all.simps) simp
  next
    case (Some t)
    then have "s \<noteq> []" using less.prems by auto
    then show ?thesis using less.hyps [of "drop (t + 1) s"] less.prems Some by (subst skip_all.simps) simp
  qed
qed

lemma served_name_clean:
  "\<not> occurs_in ''./'' (served_name r)" "\<not> occurs_in ''//'' (served_name r)" "served_name r \<noteq> CHR ''/'' # s"
proof -
  define q where "q = skip_all ''//'' (skip_all ''./'' r)"
  have q: "\<not> occurs_in ''./'' q" "\<not> occurs_in ''//'' q"
    using skip_all_clean [of "''./''" r] skip_all_clean [of "''//''" "skip_all ''./'' r"]
      skip_all_drop [of "''//''" "skip_all ''./'' r"] occurs_drop by (auto simp: q_def)
  have n: "served_name r = (case c_strstr q ''/'' of None \<Rightarrow> q | Some t \<Rightarrow> drop (t + 1) q)"
    by (simp only: served_name_def q_def Let_def)
  then have "\<exists>k. served_name r = drop k q" by (cases "c_strstr q ''/''") (auto intro: exI [of _ "0 :: nat"])
  then obtain k where k: "served_name r = drop k q" by blast
  show "\<not> occurs_in ''./'' (served_name r)" "\<not> occurs_in ''//'' (served_name r)"
    using q occurs_drop k by auto
  show "served_name r \<noteq> CHR ''/'' # s"
  proof (cases "c_strstr q ''/''")
    case None
    then show ?thesis using c_strstr_occurs [OF None] n by (auto simp: occurs_in_def)
  next
    case (Some t)
    then have slash: "take 1 (drop t q) = ''/''" using c_strstr_Some [OF Some] by simp
    show ?thesis
    proof
      assume "served_name r = CHR ''/'' # s"
      then have "drop 1 (drop t q) = CHR ''/'' # s" using n Some by (simp add: add.commute)
      then have "drop t q = ''/'' @ CHR ''/'' # s" using append_take_drop_id [of 1 "drop t q"] slash by simp
      then have "occurs_in ''//'' (drop t q)" unfolding occurs_in_def by (intro exI [of _ "[]"] exI [of _ s]) simp
      then show False using q(2) occurs_drop by blast
    qed
  qed
qed


lemma skip_all_run:
  "c_strstr s pat = Some t \<Longrightarrow> s \<noteq> [] \<Longrightarrow> skip_all pat s = skip_all pat (drop (t + 1) s)"
  "c_strstr s pat = None \<Longrightarrow> skip_all pat s = s"
  by (subst skip_all.simps, simp)+


section \<open>The variables are a map\<close>

lemma get_var_map: "get_var l n = (case map_of l n of None \<Rightarrow> [] | Some v \<Rightarrow> v)"
  by (induction l n rule: get_var.induct) auto

lemma add_var_map:
  "map_of (fst (add_var l k v)) = (map_of l)(k \<mapsto> (case map_of l k of None \<Rightarrow> v | Some w \<Rightarrow> w))"
proof (induction l k v rule: add_var.induct)
  case (2 n w l k v)
  show ?case
  proof (cases "n = k")
    case False
    then have "map_of (fst (add_var ((n, w) # l) k v)) = (map_of (fst (add_var l k v)))(n \<mapsto> w)"
      by (simp split: prod.split)
    then show ?thesis using 2 [OF False] False by (auto simp: fun_upd_twist)
  qed (auto simp: fun_eq_iff)
qed auto

text \<open>
  Deleting a variable returns exactly when the list is empty or the variable is its first
  node; otherwise the loop runs for ever, whatever the bound on its turns.
\<close>

theorem del_var_returns_iff:
  "(\<exists>r. del_var n l name = Inr r) \<longleftrightarrow> 0 < n \<and> (l = [] \<or> fst (hd l) = name)"
  by (induction n) (auto split: list.split)

end
