(* ===== verification/LwsConn.thy ===== *)
theory LwsConn
  imports LwsClient
begin

text \<open>
  Reading a request: \<open>__ILWS_read_client\<close> of \<open>client.c\<close> and the set-up of \<open>ClientInfo\<close>, with
  which it finds the length of the posted data.  A client is in state 1 while it is read, 2
  when its request is complete, 5 when it is given up.  The calls of \<open>read\<close> on the
  non-blocking socket are the events of the machine.
\<close>

section \<open>The request's data at a glance\<close>

record client_info =
  ci_request :: cstr
  ci_method :: cstr
  ci_user :: cstr
  ci_pass :: cstr
  ci_querystring :: cstr
  ci_postdata :: "char list"
  ci_headers :: known
  ci_cookiestring :: cstr

definition init_clientinfo :: "u64 \<Rightarrow> char list \<Rightarrow> fault + client_info" where
  "init_clientinfo base buf =
     bind_res (getreqname buf) (\<lambda>request. bind_res (getmethod buf) (\<lambda>meth.
     bind_res (getauthuser buf) (\<lambda>user. bind_res (getauthpass buf) (\<lambda>pass.
     bind_res (getquerystring buf) (\<lambda>qs. bind_res (getpostdata buf) (\<lambda>pd.
     bind_res (Header base buf ''Cookie'' []) (\<lambda>(hl, cs).
     Inr \<lparr>ci_request = request, ci_method = meth, ci_user = user, ci_pass = pass, ci_querystring = qs,
       ci_postdata = pd, ci_headers = hl, ci_cookiestring = cs\<rparr>)))))))"

section \<open>Reading\<close>

definition WEBTIMEOUT :: nat where "WEBTIMEOUT = 10000"
definition READMAX :: nat where "READMAX = 100000"

text \<open>
  The fields for reading.  \<open>rbuf\<close> is the bytes received, \<open>rbufsize\<close> their number; the block
  has one byte more, indeterminate until the request is complete.
\<close>

record conn =
  c_stat :: nat
  c_data :: "char list"
  c_tail :: char
  c_try :: nat
  c_contentlength :: u64
  c_headersize :: nat
  c_range :: int

definition new_conn :: "char \<Rightarrow> conn" where
  "new_conn tail = \<lparr>c_stat = 1, c_data = [], c_tail = tail, c_try = 0, c_contentlength = 0, c_headersize = 0, c_range = 0\<rparr>"

abbreviation c_buf :: "conn \<Rightarrow> char list" where
  "c_buf n \<equiv> c_data n @ [c_tail n]"

text \<open>
  What \<open>read\<close> and the allocator do: up to \<open>READMAX\<close> bytes, and the byte that \<open>realloc\<close> leaves
  behind them; no byte with \<open>errno\<close> \<open>EAGAIN\<close> (nothing now, or the end of the connection when
  an earlier call left that \<open>errno\<close>); no byte with another \<open>errno\<close>; or bytes but no storage.
\<close>

datatype read_event = Chunk "char list" char | Again | Failed | NoMemory "char list"

text \<open>
  \<open>strstr\<close> on the block: it stops at a match or a NUL, and beyond the block there is no saying.
\<close>

definition buf_strstr :: "char list \<Rightarrow> cstr \<Rightarrow> fault + nat option" where
  "buf_strstr b t =
     (if NUL \<in> set b then Inr (c_strstr (upto_nul b) t)
      else case c_strstr b t of None \<Rightarrow> Inl OutOfBounds | Some i \<Rightarrow> Inr (Some i))"

text \<open>The questions about the request are asked of a terminated buffer only.\<close>

definition terminated :: "char list \<Rightarrow> bool" where
  "terminated b \<longleftrightarrow> NUL \<in> set b"

definition c_atol :: "cstr \<Rightarrow> int" where
  "c_atol s = max (- (2 ^ 63)) (min (2 ^ 63 - 1) (c_atoi s))"

text \<open>The length of the posted data and the start of a requested range.\<close>

definition request_lengths :: "u64 \<Rightarrow> char list \<Rightarrow> int \<Rightarrow> fault + (u64 \<times> int)" where
  "request_lengths base buf rng =
     (if \<not> terminated buf then Inl OutOfBounds
      else bind_res (init_clientinfo base buf) (\<lambda>ci.
        bind_res (Header base buf ''Content-Length'' (ci_headers ci)) (\<lambda>(hl, cl).
        bind_res (Header base buf ''Range'' hl) (\<lambda>(hl, rg).
        Inr (word_of_int (c_atol cl),
          case c_strstr rg ''bytes='' of None \<Rightarrow> rng | Some k \<Rightarrow> c_atol (drop (k + 6) rg))))))"

text \<open>
  Without new bytes: the counter of tries goes up; with a header the rest of the data is
  compared with the announced length, and a match is as good as a timeout.
\<close>

definition look_for_end :: "u64 \<Rightarrow> conn \<Rightarrow> fault + conn" where
  "look_for_end base n =
     (if c_headersize n = 0
      then bind_res (buf_strstr (c_buf n) [CR, LF, CR, LF]) (\<lambda>r. case r of
          None \<Rightarrow> Inr n
        | Some k \<Rightarrow> Inr (n\<lparr>c_headersize := k\<rparr>))
      else
        let datasize = of_nat (length (c_data n)) - of_nat (c_headersize n) :: u64 in
        bind_res (if c_contentlength n = 0
            then bind_res (request_lengths base (c_buf n) (c_range n)) (\<lambda>(cl, rg).
              Inr (n\<lparr>c_contentlength := cl, c_range := rg\<rparr>))
            else Inr n) (\<lambda>n.
        Inr (if c_contentlength n = datasize - 4 then n\<lparr>c_try := WEBTIMEOUT\<rparr> else n)))"

fun read_client :: "u64 \<Rightarrow> conn \<Rightarrow> read_event \<Rightarrow> fault + conn" where
  "read_client base n Failed = Inr (n\<lparr>c_stat := 5\<rparr>)"
| "read_client base n (NoMemory d) = Inr (n\<lparr>c_stat := 5\<rparr>)"
| "read_client base n (Chunk d tail) = Inr (n\<lparr>c_data := c_data n @ d, c_tail := tail, c_try := 0\<rparr>)"
| "read_client base n Again =
     (if c_try n + 1 = 2 ^ 31 then Inl IntOverflow
      else let n = n\<lparr>c_try := c_try n + 1\<rparr> in
        if c_data n = [] then Inr n
        else bind_res (look_for_end base n) (\<lambda>n.
          Inr (if c_try n \<ge> WEBTIMEOUT then n\<lparr>c_tail := NUL, c_stat := 2\<rparr> else n)))"

text \<open>\<open>while (stat == 1)\<close> of the server: the events that are left when the client is read.\<close>

fun read_loop :: "u64 \<Rightarrow> conn \<Rightarrow> read_event list \<Rightarrow> fault + (conn \<times> read_event list)" where
  "read_loop base n [] = Inr (n, [])"
| "read_loop base n (e # es) =
     (if c_stat n = 1 then bind_res (read_client base n e) (\<lambda>n. read_loop base n es) else Inr (n, e # es))"

section \<open>What holds of every client that is read\<close>

text \<open>The steps of the machine as a relation, for the invariant.\<close>

inductive conn_step :: "u64 \<Rightarrow> conn \<Rightarrow> conn \<Rightarrow> bool" for base where
  conn_step: "c_stat n = 1 \<Longrightarrow> read_client base n e = Inr n' \<Longrightarrow> conn_step base n n'"

inductive conn_reach :: "u64 \<Rightarrow> conn \<Rightarrow> bool" for base where
  conn_start: "conn_reach base (new_conn tail)"
| conn_next: "conn_reach base n \<Longrightarrow> conn_step base n n' \<Longrightarrow> conn_reach base n'"

inductive_cases conn_stepE: "conn_step base n n'"

definition conn_inv :: "conn \<Rightarrow> bool" where
  "conn_inv n \<longleftrightarrow> c_stat n \<in> {1, 2, 5} \<and>
     (c_stat n = 2 \<longrightarrow> c_data n \<noteq> [] \<and> c_tail n = NUL) \<and>
     (c_stat n = 1 \<longrightarrow> c_data n \<noteq> [] \<longrightarrow> c_try n < WEBTIMEOUT) \<and>
     (c_headersize n \<noteq> 0 \<longrightarrow> c_headersize n + 4 \<le> length (c_data n) + 1)"

lemma buf_strstr_Some:
  "buf_strstr b t = Inr (Some i) \<Longrightarrow> take (length t) (drop i b) = t \<and> i + length t \<le> length b"
proof -
  assume b: "buf_strstr b t = Inr (Some i)"
  show ?thesis
  proof (cases "NUL \<in> set b")
    case False
    then have "c_strstr b t = Some i" using b by (simp add: buf_strstr_def split: option.splits)
    then show ?thesis by (rule c_strstr_Some)
  next
    case True
    then have c: "c_strstr (upto_nul b) t = Some i" using b by (simp add: buf_strstr_def)
    have "b = upto_nul b @ dropWhile (\<lambda>c. c \<noteq> NUL) b" by (simp add: upto_nul_def)
    then obtain r where r: "b = upto_nul b @ r" by blast
    have "take (length t) (drop i (upto_nul b @ r)) = t \<and> i + length t \<le> length (upto_nul b @ r)"
      using c_strstr_Some [OF c] by (auto simp: take_append_le)
    then show ?thesis using r by simp
  qed
qed

text \<open>\<open>look_for_end\<close> changes the lengths and the counter only.\<close>

lemma look_for_end_frame:
  assumes "look_for_end base n = Inr n'"
  shows "c_stat n' = c_stat n \<and> c_data n' = c_data n \<and> c_tail n' = c_tail n \<and>
    (c_try n' = c_try n \<or> c_try n' = WEBTIMEOUT) \<and>
    (c_headersize n' \<noteq> 0 \<longrightarrow> c_headersize n' = c_headersize n \<or> c_headersize n' + 4 \<le> length (c_data n) + 1)"
proof (cases "c_headersize n = 0")
  case True
  then show ?thesis using assms buf_strstr_Some [of "c_buf n" "[CR, LF, CR, LF]"]
    by (auto simp: look_for_end_def bind_res_eq_Inr split: option.splits)
next
  case False
  then show ?thesis using assms
    by (auto simp: look_for_end_def bind_res_eq_Inr Let_def split: if_splits prod.splits)
qed

lemma read_again:
  assumes "read_client base n Again = Inr n'" "c_data n \<noteq> []"
  obtains m where "look_for_end base (n\<lparr>c_try := c_try n + 1\<rparr>) = Inr m"
    "n' = (if c_try m \<ge> WEBTIMEOUT then m\<lparr>c_tail := NUL, c_stat := 2\<rparr> else m)"
proof -
  have "bind_res (look_for_end base (n\<lparr>c_try := c_try n + 1\<rparr>))
      (\<lambda>n. Inr (if c_try n \<ge> WEBTIMEOUT then n\<lparr>c_tail := NUL, c_stat := 2\<rparr> else n)) = Inr n'"
    using assms by (simp add: Let_def split: if_split_asm)
  then show thesis unfolding bind_res_eq_Inr using that by (metis sum.inject(2))
qed

lemma read_again_empty: "read_client base n Again = Inr n' \<Longrightarrow> c_data n = [] \<Longrightarrow> n' = n\<lparr>c_try := c_try n + 1\<rparr>"
  by (simp add: Let_def split: if_split_asm)

lemma read_client_inv: "conn_inv n \<Longrightarrow> c_stat n = 1 \<Longrightarrow> read_client base n e = Inr n' \<Longrightarrow> conn_inv n'"
proof (cases e)
  case Again
  assume inv: "conn_inv n" "c_stat n = 1" and run: "read_client base n e = Inr n'"
  show ?thesis
  proof (cases "c_data n = []")
    case True
    then have "n' = n\<lparr>c_try := c_try n + 1\<rparr>" using run Again read_again_empty by blast
    then show ?thesis using inv True by (auto simp: conn_inv_def)
  next
    case False
    obtain m where m: "look_for_end base (n\<lparr>c_try := c_try n + 1\<rparr>) = Inr m"
      "n' = (if c_try m \<ge> WEBTIMEOUT then m\<lparr>c_tail := NUL, c_stat := 2\<rparr> else m)"
      using run [unfolded Again] False by (rule read_again)
    then show ?thesis using look_for_end_frame [OF m(1)] inv False by (auto simp: conn_inv_def)
  qed
qed (auto simp: conn_inv_def WEBTIMEOUT_def)

text \<open>Every reachable client satisfies the invariant.\<close>

lemma conn_inv_new: "conn_inv (new_conn tail)"
  by (simp add: conn_inv_def new_conn_def)

lemma conn_reach_inv: "conn_reach base n \<Longrightarrow> conn_inv n"
proof (induction rule: conn_reach.induct)
  case (conn_next n n')
  then show ?case by (auto elim!: conn_stepE intro: read_client_inv)
qed (rule conn_inv_new)

fun event_bytes :: "read_event \<Rightarrow> char list" where
  "event_bytes (Chunk d tail) = d"
| "event_bytes _ = []"

lemma read_client_data: "read_client base n e = Inr n' \<Longrightarrow> c_data n' = c_data n @ event_bytes e"
proof (cases e)
  case Again
  assume run: "read_client base n e = Inr n'"
  show ?thesis
  proof (cases "c_data n = []")
    case True
    then show ?thesis using read_again_empty run Again by force
  next
    case False
    obtain m where m: "look_for_end base (n\<lparr>c_try := c_try n + 1\<rparr>) = Inr m"
      "n' = (if c_try m \<ge> WEBTIMEOUT then m\<lparr>c_tail := NUL, c_stat := 2\<rparr> else m)"
      using run [unfolded Again] False by (rule read_again)
    then show ?thesis using look_for_end_frame [OF m(1)] Again by simp
  qed
qed auto

lemma read_loop_reach:
  "conn_reach base n \<Longrightarrow> read_loop base n es = Inr (n', rest) \<Longrightarrow>
   conn_reach base n' \<and> (rest \<noteq> [] \<longrightarrow> c_stat n' \<noteq> 1) \<and>
   (\<exists>used. es = used @ rest \<and> c_data n' = c_data n @ concat (map event_bytes used))"
proof (induction es arbitrary: n)
  case (Cons e es)
  show ?case
  proof (cases "c_stat n = 1")
    case True
    then obtain m where m: "read_client base n e = Inr m" "read_loop base m es = Inr (n', rest)"
      using Cons.prems(2) by (auto simp: bind_res_eq_Inr)
    have "conn_reach base m" using Cons.prems(1) True m(1) by (blast intro: conn_next conn_step)
    then obtain used where "conn_reach base n'" "rest \<noteq> [] \<longrightarrow> c_stat n' \<noteq> 1" "es = used @ rest"
      "c_data n' = c_data m @ concat (map event_bytes used)"
      using Cons.IH m(2) by blast
    then show ?thesis using read_client_data [OF m(1)] by (auto intro!: exI [of _ "e # used"])
  next
    case False
    then show ?thesis using Cons.prems by auto
  qed
qed simp



section \<open>A request is complete after a time of silence\<close>

text \<open>The questions about the request are all answered.\<close>

definition answered :: "u64 \<Rightarrow> char list \<Rightarrow> bool" where
  "answered base b \<longleftrightarrow> terminated b \<and> (\<forall>rng. \<exists>r. request_lengths base b rng = Inr r)"

lemma look_for_end_answered:
  assumes "answered base (c_buf n)"
  shows "\<exists>n'. look_for_end base n = Inr n'"
proof (cases "c_headersize n = 0")
  case True
  have "NUL \<in> set (c_buf n)" using assms unfolding answered_def terminated_def by blast
  then obtain r where r: "buf_strstr (c_buf n) [CR, LF, CR, LF] = Inr r"
    unfolding buf_strstr_def if_P [OF \<open>NUL \<in> set (c_buf n)\<close>] by blast
  show ?thesis using True unfolding look_for_end_def r by (cases r) simp_all
next
  case False
  obtain cl rg where "request_lengths base (c_buf n) (c_range n) = Inr (cl, rg)"
    using assms unfolding answered_def by (metis surj_pair)
  then show ?thesis using False by (cases "c_contentlength n = 0") (auto simp: look_for_end_def Let_def)
qed

lemma silence_step:
  assumes "c_stat n = 1" "c_data n \<noteq> []" "c_try n < WEBTIMEOUT" "answered base (c_buf n)"
  shows "\<exists>m. read_client base n Again = Inr m \<and> c_data m = c_data n \<and>
    (c_stat m = 2 \<and> c_tail m = NUL \<or> c_stat m = 1 \<and> c_try m = c_try n + 1 \<and> c_try m < WEBTIMEOUT \<and> c_tail m = c_tail n)"
proof -
  define k where "k = n\<lparr>c_try := c_try n + 1\<rparr>"
  have "answered base (c_buf k)" using assms(4) by (simp add: k_def)
  then obtain m where m: "look_for_end base k = Inr m" using look_for_end_answered by blast
  have "c_try n + 1 \<noteq> 2 ^ 31" using assms(3) by (simp add: WEBTIMEOUT_def)
  then have "read_client base n Again = Inr (if c_try m \<ge> WEBTIMEOUT then m\<lparr>c_tail := NUL, c_stat := 2\<rparr> else m)"
    using assms(2) m by (simp add: k_def Let_def)
  then show ?thesis using look_for_end_frame [OF m] assms(1) by (auto simp: k_def)
qed

lemma silence:
  "c_stat n = 1 \<Longrightarrow> c_data n \<noteq> [] \<Longrightarrow> c_try n < WEBTIMEOUT \<Longrightarrow> answered base (c_buf n) \<Longrightarrow>
   \<exists>n' k. k \<le> WEBTIMEOUT - c_try n \<and>
     read_loop base n (replicate (WEBTIMEOUT - c_try n) Again) = Inr (n', replicate k Again) \<and>
     c_stat n' = 2 \<and> c_data n' = c_data n \<and> c_tail n' = NUL"
proof (induction "WEBTIMEOUT - c_try n" arbitrary: n rule: less_induct)
  case less
  obtain m where m: "read_client base n Again = Inr m" "c_data m = c_data n"
    "c_stat m = 2 \<and> c_tail m = NUL \<or> c_stat m = 1 \<and> c_try m = c_try n + 1 \<and> c_try m < WEBTIMEOUT \<and> c_tail m = c_tail n"
    using silence_step [OF less.prems] by blast
  define j where "j = WEBTIMEOUT - c_try n - 1"
  have j: "WEBTIMEOUT - c_try n = Suc j" using less.prems(3) by (simp add: j_def)
  have run: "read_loop base n (replicate (WEBTIMEOUT - c_try n) Again) = read_loop base m (replicate j Again)"
    using less.prems(1) m(1) unfolding j by simp
  show ?case
  proof (cases "c_stat m = 2")
    case True
    then have "read_loop base m (replicate j Again) = Inr (m, replicate j Again)" by (cases j) simp_all
    then show ?thesis using True m j run by (intro exI [of _ m] exI [of _ j]) auto
  next
    case False
    then have k: "c_stat m = 1" "WEBTIMEOUT - c_try m = j" "c_try m < WEBTIMEOUT" "c_tail m = c_tail n"
      using m(3) j_def by auto
    have "WEBTIMEOUT - c_try m < WEBTIMEOUT - c_try n" using k(2) j by simp
    moreover have "answered base (c_buf m)" using less.prems(4) m(2) k(4) by simp
    ultimately obtain n' i where "i \<le> j" "read_loop base m (replicate j Again) = Inr (n', replicate i Again)"
      "c_stat n' = 2" "c_data n' = c_data m" "c_tail n' = NUL"
      using less.hyps [of m] k less.prems(2) m(2) by auto
    then show ?thesis using run m(2) j by (intro exI [of _ n'] exI [of _ i]) auto
  qed
qed


lemma answeredI:
  assumes "terminated b" "init_clientinfo base b = Inr ci"
    "Header base b ''Content-Length'' (ci_headers ci) = Inr (hl, cl)" "Header base b ''Range'' hl = Inr (hl', rg)"
  shows "answered base b"
  using assms by (simp add: answered_def request_lengths_def)


lemma half_request:
  "init_clientinfo 0 [CHR ''G'', CHR ''E'', CHR ''T'', SPACE, CHR ''/'', NUL] =
     Inr \<lparr>ci_request = [], ci_method = ''GET'', ci_user = [], ci_pass = [],
     ci_querystring = [], ci_postdata = [], ci_headers = [(''Cookie'', [])], ci_cookiestring = []\<rparr>"
  "Header 0 [CHR ''G'', CHR ''E'', CHR ''T'', SPACE, CHR ''/'', NUL] ''Content-Length'' [(''Cookie'', [])] =
     Inr ([(''Cookie'', []), (''Content-Length'', [])], [])"
  "Header 0 [CHR ''G'', CHR ''E'', CHR ''T'', SPACE, CHR ''/'', NUL] ''Range'' [(''Cookie'', []), (''Content-Length'', [])] =
     Inr ([(''Cookie'', []), (''Content-Length'', []), (''Range'', [])], [])"
  by code_simp+

lemma half_request_answered: "answered 0 [CHR ''G'', CHR ''E'', CHR ''T'', SPACE, CHR ''/'', NUL]"
  by (rule answeredI [OF _ half_request(1), unfolded client_info.simps, OF _ half_request(2,3)])
    (simp add: terminated_def)


text \<open>
  While the header is incomplete and the block behind the data holds no NUL, the search for its
  end runs out of the block.
\<close>

lemma partial_header_overread:
  assumes "c_data n \<noteq> []" "c_headersize n = 0" "NUL \<notin> set (c_buf n)" "c_strstr (c_buf n) [CR, LF, CR, LF] = None"
    "c_try n + 1 \<noteq> 2 ^ 31"
  shows "read_client base n Again = Inl OutOfBounds"
  using assms by (simp add: look_for_end_def buf_strstr_def Let_def)

end
