(* ===== verification/LwsOutput.thy ===== *)
theory LwsOutput
  imports LwsConn "HOL-Library.Sublist"
begin

text \<open>
  Sending the answer: \<open>__ILWS_output_client\<close> of \<open>client.c\<close>.  One call reads a block of the
  first file of the list, expands a template variable in it, and offers it to the non-blocking
  socket; what was not taken is read again.  The size of the block is a parameter of the
  model, \<open>WRITEMAX\<close> in the code; what \<open>send\<close> answers are the events.
\<close>

section \<open>Files\<close>

text \<open>A stream open for reading: its bytes, the position and the end-of-file indicator.\<close>

record sfile =
  f_bytes :: "char list"
  f_pos :: nat
  f_eof :: bool

definition fread :: "nat \<Rightarrow> sfile \<Rightarrow> char list \<times> sfile" where
  "fread n f =
     (let d = take n (drop (f_pos f) (f_bytes f)) in (d, f\<lparr>f_pos := f_pos f + length d, f_eof := f_eof f \<or> length d < n\<rparr>))"

text \<open>\<open>fseek\<close> with \<open>SEEK_SET\<close>: a negative offset is refused and changes nothing.\<close>

definition fseek :: "int \<Rightarrow> sfile \<Rightarrow> sfile" where
  "fseek off f = (if off < 0 then f else f\<lparr>f_pos := nat off, f_eof := False\<rparr>)"

lemma fseek_int: "fseek (int n) f = f\<lparr>f_pos := n, f_eof := False\<rparr>"
  by (simp add: fseek_def)

section \<open>Template variables\<close>

text \<open>
  The test of a character of a variable's name, as it is written: the comparison with the
  digits is always true.
\<close>

definition var_char :: "char \<Rightarrow> bool" where
  "var_char c \<longleftrightarrow> \<not> ((schar c < schar (CHR ''a'') \<or> schar c > schar (CHR ''z'')) \<and>
     (schar c < schar (CHR ''A'') \<or> schar c > schar (CHR ''Z'')) \<and>
     (schar c < schar (CHR ''1'') \<or> schar c > schar (CHR ''0'')) \<and> c \<noteq> CHR ''_'')"

text \<open>The size of the name with its semicolon, 0 when there is no variable.\<close>

fun var_size :: "nat \<Rightarrow> char list \<Rightarrow> fault + nat" where
  "var_size namesize [] = (if namesize < 50 then Inl OutOfBounds else Inr namesize)"
| "var_size namesize (c # s) =
     (if namesize < 50
      then if c = CHR '';'' then Inr (namesize + 1) else if \<not> var_char c then Inr 0 else var_size (namesize + 1) s
      else Inr namesize)"

text \<open>
  The first variable behind the start of the block is replaced and the block cut behind its
  value; \<open>$;\<close> is the sign itself.  The result is the block, its size, the position of the
  variable and what it adds to \<open>varsize\<close>.
\<close>

fun expand_var :: "nat \<Rightarrow> nat \<Rightarrow> vars \<Rightarrow> char list \<Rightarrow> nat \<Rightarrow> nat \<Rightarrow> int \<Rightarrow> fault + (char list \<times> nat \<times> nat \<times> int)" where
  "expand_var 0 wm vars b tmp1 rsize dv = Inl OutOfFuel"
| "expand_var (Suc fuel) wm vars b tmp1 rsize dv =
     bind_res (strstr_at b tmp1 ''$'') (\<lambda>r. case r of
       None \<Rightarrow> Inr (b, rsize, 0, dv)
     | Some p \<Rightarrow>
         bind_res (var_size 0 (drop (p + 1) b)) (\<lambda>namesize.
         if namesize = 0 then expand_var fuel wm vars b (p + 1) rsize dv
         else
           let val = (if namesize = 1 then ''$'' else get_var vars (take (namesize - 1) (drop (p + 1) b)));
               beginsize = p; tmp2 = upto_nul (take beginsize b); varsize = length val
           in bind_res (print_at b 0 wm (tmp2 @ val)) (\<lambda>b. bind_res (wr b (length tmp2 + varsize) NUL) (\<lambda>b.
              let rsize = beginsize + varsize; dv = dv + (int varsize - int namesize) - 1 in
              if beginsize > 0 then Inr (b, rsize, beginsize, dv)
              else expand_var fuel wm vars b (p + namesize) rsize dv))))"

section \<open>Output\<close>

text \<open>
  A file of the list: whether it has a name, what its name opens, the stream if it is open
  already, and the counters.
\<close>

record out_file =
  s_named :: bool
  s_disk :: "char list option"
  s_stream :: "sfile option"
  s_wsize :: int
  s_rsize :: nat
  s_wrote :: int
  s_var :: int

record out_node =
  n_outs :: "out_file list"
  n_dynvar :: bool
  n_vars :: vars
  n_stat :: nat
  n_readsize :: int
  n_range :: int
  n_skipped :: bool
  n_whead :: int

text \<open>
  What \<open>send\<close> does with a block that is not empty: it takes some of its bytes, at least one;
  or it would block; or the connection is broken.
\<close>

datatype send_event = Sent nat | WouldBlock | Broken

definition open_stream :: "out_file \<Rightarrow> sfile option" where
  "open_stream s =
     (case s_stream s of
        Some f \<Rightarrow> Some f
      | None \<Rightarrow> map_option (\<lambda>d. \<lparr>f_bytes = d, f_pos = 0, f_eof = False\<rparr>) (s_disk s))"

text \<open>The read part: the file with its counters, the block and the position of a variable.\<close>

definition read_block :: "nat \<Rightarrow> out_node \<Rightarrow> out_file \<Rightarrow> sfile \<Rightarrow> fault + (out_file \<times> sfile \<times> char list \<times> nat)" where
  "read_block wm n s f =
     (let (d, f) = fread wm (if s_rsize s = 0 then fseek 0 f else f); writetemp = d @ replicate (wm + 1 - length d) NUL in
      bind_res (if n_dynvar n then expand_var (wm + 2) wm (n_vars n) writetemp 0 (length d) 0
                else Inr (writetemp, length d, 0, 0)) (\<lambda>(b, rsize, beginsize, dv).
      Inr (s\<lparr>s_stream := Some f, s_rsize := rsize, s_var := s_var s + dv\<rparr>, f, b, beginsize)))"

text \<open>A block before the requested range is not sent; the last of them is read again from there.\<close>

definition skip_block :: "out_node \<Rightarrow> out_file \<Rightarrow> sfile \<Rightarrow> out_file list \<Rightarrow> out_node" where
  "skip_block n s f ss =
     (let s = s\<lparr>s_wsize := int (s_rsize s), s_wrote := s_wrote s + int (s_rsize s)\<rparr> in
      if n_readsize n - n_whead n < n_range n then n\<lparr>n_outs := s # ss\<rparr>
      else let w = s_wrote s - ((n_readsize n - n_whead n) - n_range n) in
        n\<lparr>n_skipped := True, n_outs := s\<lparr>s_wrote := w, s_stream := Some (fseek w f)\<rparr> # ss\<rparr>)"

fun send_block :: "out_node \<Rightarrow> out_file \<Rightarrow> sfile \<Rightarrow> out_file list \<Rightarrow> char list \<Rightarrow> nat \<Rightarrow> send_event \<Rightarrow> out_node \<times> char list" where
  "send_block n s f ss b beginsize (Sent k) =
     (let w = min (s_rsize s) (Suc k); s' = s\<lparr>s_wsize := int w, s_wrote := s_wrote s + int w\<rparr> in
      (n\<lparr>n_outs := (if s_rsize s \<noteq> w \<or> beginsize > 0 then s'\<lparr>s_stream := Some (fseek (s_wrote s' - s_var s') f)\<rparr> else s') # ss\<rparr>,
       take w b))"
| "send_block n s f ss b beginsize WouldBlock =
     (n\<lparr>n_outs := s\<lparr>s_wsize := -1, s_stream := Some (fseek (s_wrote s - s_var s) f)\<rparr> # ss\<rparr>, [])"
| "send_block n s f ss b beginsize Broken = (n\<lparr>n_outs := ss\<rparr>, [])"

text \<open>One call: the client and the bytes that were sent.  Allocation succeeds.\<close>

definition output_client :: "nat \<Rightarrow> out_node \<Rightarrow> send_event \<Rightarrow> fault + (out_node \<times> char list)" where
  "output_client wm n e =
     (case n_outs n of
        [] \<Rightarrow> Inr (n\<lparr>n_stat := 5\<rparr>, [])
      | s # ss \<Rightarrow>
          if \<not> s_named s then Inr (n\<lparr>n_outs := ss\<rparr>, [])
          else (case open_stream s of
             None \<Rightarrow> Inr (n\<lparr>n_outs := ss\<rparr>, [])
           | Some f \<Rightarrow>
               bind_res (read_block wm n s f) (\<lambda>(s, f, b, beginsize).
               if s_rsize s < 1
               then Inr (n\<lparr>n_outs := if f_eof f \<and> int (f_pos f) = s_wrote s then ss else s # ss\<rparr>, [])
               else
                 let n = n\<lparr>n_readsize := n_readsize n + int (s_rsize s)\<rparr> in
                 if \<not> n_skipped n \<and> n_range n > 0 then Inr (skip_block n s f ss, [])
                 else if s_rsize s > length b then Inl OutOfBounds
                 else Inr (send_block n s f ss b beginsize e))))"

text \<open>\<open>while (stat == 4)\<close> of the server, one event for each call, and all that was sent.\<close>

fun output_loop :: "nat \<Rightarrow> out_node \<Rightarrow> send_event list \<Rightarrow> fault + (out_node \<times> char list)" where
  "output_loop wm n [] = Inr (n, [])"
| "output_loop wm n (e # es) =
     (if n_stat n = 4
      then bind_res (output_client wm n e) (\<lambda>(n, d). bind_res (output_loop wm n es) (\<lambda>(n, d'). Inr (n, d @ d')))
      else Inr (n, []))"

text \<open>A file as \<open>add_outstream\<close> leaves it and a client that is to be answered.\<close>

definition new_file :: "char list \<Rightarrow> out_file" where
  "new_file d = \<lparr>s_named = True, s_disk = Some d, s_stream = None, s_wsize = 1, s_rsize = 0, s_wrote = 0, s_var = 0\<rparr>"

definition new_answer :: "out_file list \<Rightarrow> bool \<Rightarrow> vars \<Rightarrow> int \<Rightarrow> int \<Rightarrow> out_node" where
  "new_answer outs dynvar vars rng whead =
     \<lparr>n_outs = outs, n_dynvar = dynvar, n_vars = vars, n_stat = 4, n_readsize = 0, n_range = rng, n_skipped = False, n_whead = whead\<rparr>"

section \<open>Without templates every byte is sent once\<close>

definition s_data :: "out_file \<Rightarrow> char list" where
  "s_data s = (if s_named s then case open_stream s of None \<Rightarrow> [] | Some f \<Rightarrow> f_bytes f else [])"

text \<open>The position of an open file that was read is the number of bytes sent.\<close>

definition file_inv :: "out_file \<Rightarrow> bool" where
  "file_inv s \<longleftrightarrow> s_var s = 0 \<and> 0 \<le> s_wrote s \<and> s_wrote s \<le> int (length (s_data s)) \<and> (s_rsize s = 0 \<longrightarrow> s_wrote s = 0) \<and>
     (s_rsize s \<noteq> 0 \<longrightarrow> (\<exists>f. s_stream s = Some f \<and> int (f_pos f) = s_wrote s))"

definition skipping :: "out_node \<Rightarrow> bool" where
  "skipping n \<longleftrightarrow> \<not> n_skipped n \<and> n_range n > 0"

definition node_inv :: "out_node \<Rightarrow> bool" where
  "node_inv n \<longleftrightarrow> \<not> n_dynvar n \<and> (\<forall>s \<in> set (n_outs n). file_inv s) \<and> n_stat n \<in> {4, 5} \<and> (n_stat n = 5 \<longrightarrow> n_outs n = []) \<and>
     (skipping n \<longrightarrow> n_readsize n < n_whead n + n_range n)"

definition unsent :: "out_file \<Rightarrow> char list" where
  "unsent s = drop (nat (s_wrote s)) (s_data s)"

text \<open>What is still to be sent, and a measure of the calls that it needs.\<close>

definition pending :: "out_node \<Rightarrow> char list" where
  "pending n =
     (let r = concat (map unsent (n_outs n)) in if skipping n then drop (nat (n_whead n + n_range n - n_readsize n)) r else r)"

definition work :: "out_node \<Rightarrow> nat" where
  "work n = (if n_stat n = 4 then 1 else 0) + sum_list (map (\<lambda>s. Suc (length (unsent s))) (n_outs n))"

lemma read_block_plain:
  assumes "\<not> n_dynvar n" "file_inv s" "open_stream s = Some f" "0 < wm" "d = take wm (drop (nat (s_wrote s)) (f_bytes f))"
  obtains f' where "read_block wm n s f =
      Inr (s\<lparr>s_stream := Some f', s_rsize := length d\<rparr>, f', d @ replicate (wm + 1 - length d) NUL, 0)"
    "f_bytes f' = f_bytes f" "int (f_pos f') = s_wrote s + int (length d)" "d = [] \<Longrightarrow> f_eof f'"
proof -
  define g where "g = (if s_rsize s = 0 then fseek 0 f else f)"
  have g: "f_bytes g = f_bytes f" "f_pos g = nat (s_wrote s)" "0 \<le> s_wrote s"
    using assms(2,3) by (auto simp: g_def fseek_def file_inv_def open_stream_def)
  define f' where "f' = g\<lparr>f_pos := f_pos g + length d, f_eof := f_eof g \<or> length d < wm\<rparr>"
  have "fread wm g = (d, f')" using g assms(5) by (simp add: fread_def f'_def Let_def)
  moreover have "s\<lparr>s_stream := Some f', s_rsize := length d, s_var := s_var s + 0\<rparr> = s\<lparr>s_stream := Some f', s_rsize := length d\<rparr>"
    by simp
  ultimately have "read_block wm n s f =
      Inr (s\<lparr>s_stream := Some f', s_rsize := length d\<rparr>, f', d @ replicate (wm + 1 - length d) NUL, 0)"
    unfolding read_block_def g_def [symmetric] using assms(1) by (simp add: Let_def)
  then show thesis using that g assms(4) by (simp add: f'_def)
qed

text \<open>What one call does, for a caller that neither expands variables nor loses the connection.\<close>

definition good_step :: "out_node \<Rightarrow> send_event \<Rightarrow> out_node \<times> char list \<Rightarrow> bool" where
  "good_step n e r \<longleftrightarrow> node_inv (fst r) \<and> pending n = snd r @ pending (fst r) \<and> work (fst r) \<le> work n \<and>
     (e \<noteq> WouldBlock \<longrightarrow> work (fst r) < work n)"

lemma drop_file:
  assumes "node_inv n" "n_stat n = 4" "n_outs n = s # ss" "unsent s = []"
  shows "good_step n e (n\<lparr>n_outs := ss\<rparr>, [])"
  using assms by (auto simp: good_step_def node_inv_def pending_def work_def skipping_def Let_def)

lemma send_file:
  assumes n: "node_inv n" "n_stat n = 4" "n_outs n = s # ss" "\<not> skipping n"
    and s: "s_data s' = s_data s" "file_inv s'" "s_wrote s' = s_wrote s + int (length d)" "d = take (length d) (unsent s)"
    and e: "e \<noteq> WouldBlock \<Longrightarrow> d \<noteq> []"
  shows "good_step n e (n\<lparr>n_readsize := x, n_outs := s' # ss\<rparr>, d)"
proof -
  have w: "0 \<le> s_wrote s" using n by (simp add: node_inv_def file_inv_def)
  have u': "unsent s' = drop (length d) (unsent s)"
    using w s(1,3) by (simp add: unsent_def nat_add_distrib add.commute)
  then have u: "unsent s = d @ unsent s'" using s(4) append_take_drop_id [of "length d" "unsent s"] by simp
  show ?thesis using n s(2) e
    by (cases d) (auto simp: good_step_def node_inv_def pending_def work_def skipping_def Let_def u)
qed

lemma file_invI:
  assumes "file_inv s" "s_stream s' = Some f" "int (f_pos f) = s_wrote s'" "s_var s' = 0" "s_data s' = s_data s"
    "0 \<le> s_wrote s'" "s_wrote s' \<le> int (length (s_data s))" "s_rsize s' \<noteq> 0"
  shows "file_inv s'"
  using assms by (simp add: file_inv_def)

lemma skip_file:
  assumes n: "node_inv n" "n_stat n = 4" "n_outs n = s # ss" "skipping n"
    and s: "s_data s1 = s_data s" "s_wrote s1 = s_wrote s" "s_var s1 = 0" "s_stream s1 = Some f" "s_named s1" "s_named s"
    and f: "f_bytes f = s_data s" "int (f_pos f) = s_wrote s + int (s_rsize s1)" "s_rsize s1 = length d" "d \<noteq> []"
      "d = take (length d) (unsent s)"
  shows "good_step n e (skip_block (n\<lparr>n_readsize := n_readsize n + int (s_rsize s1)\<rparr>) s1 f ss, [])"
proof -
  define k where "k = n_whead n + n_range n - n_readsize n"
  have inv: "file_inv s" "0 < k" using n by (simp_all add: node_inv_def k_def)
  have "length d \<le> length (unsent s)" using arg_cong [OF f(5), of length] by simp
  then have w: "0 \<le> s_wrote s" "s_wrote s + int (length d) \<le> int (length (s_data s))"
    using inv(1) by (simp_all add: file_inv_def unsent_def) linarith
  have u: "unsent s = d @ drop (length d) (unsent s)" by (metis append_take_drop_id f(5))
  let ?n = "n\<lparr>n_readsize := n_readsize n + int (s_rsize s1)\<rparr>"
  let ?t = "s1\<lparr>s_wsize := int (s_rsize s1), s_wrote := s_wrote s1 + int (s_rsize s1)\<rparr>"
  show ?thesis
  proof (cases "int (length d) < k")
    case True
    have t: "file_inv ?t"
      by (rule file_invI [OF inv(1)]) (use s f w in \<open>auto simp: s_data_def open_stream_def\<close>)
    have ut: "unsent ?t = drop (length d) (unsent s)"
      using w s f by (simp add: unsent_def s_data_def open_stream_def nat_add_distrib add.commute)
    have eq: "skip_block ?n s1 f ss = ?n\<lparr>n_outs := ?t # ss\<rparr>" using True f(3) by (simp add: skip_block_def k_def Let_def)
    have skip: "drop (nat k) (unsent s @ r) = drop (nat (k - int (length d))) (drop (length d) (unsent s) @ r)" for r
    proof -
      have "nat k = nat (k - int (length d)) + length d" using True by simp
      then show ?thesis by (subst u) (simp only: drop_drop [symmetric], simp)
    qed
    have len: "length (drop (length d) (unsent s)) < length (unsent s)"
      using f(4) \<open>length d \<le> length (unsent s)\<close> by (cases d) auto
    have "pending n = pending (?n\<lparr>n_outs := ?t # ss\<rparr>)"
      using n(3,4) skip f(3) by (simp add: pending_def skipping_def Let_def ut [unfolded f(3)] k_def algebra_simps)
    moreover have "node_inv (?n\<lparr>n_outs := ?t # ss\<rparr>)"
      using n t True f(3) by (simp add: node_inv_def skipping_def k_def)
    ultimately show ?thesis using n(2,3) len unfolding eq good_step_def by (simp add: work_def ut)
  next
    case False
    define u where "u = ?t\<lparr>s_wrote := s_wrote s + k, s_stream := Some (fseek (s_wrote s + k) f)\<rparr>"
    have eq: "skip_block ?n s1 f ss = ?n\<lparr>n_skipped := True, n_outs := u # ss\<rparr>"
      using False f(3) s(2) by (simp add: skip_block_def u_def k_def Let_def algebra_simps)
    have t: "file_inv u"
      by (rule file_invI [OF inv(1)]) (use s f w inv(2) False in \<open>auto simp: u_def s_data_def open_stream_def fseek_def\<close>)
    have ut: "unsent u = drop (nat k) (unsent s)"
      using w s f inv(2) by (simp add: u_def unsent_def s_data_def open_stream_def fseek_def nat_add_distrib add.commute)
    have k: "nat k \<le> length (unsent s)" "0 < nat k"
      using False \<open>length d \<le> length (unsent s)\<close> inv(2) by simp_all
    have "pending n = pending (?n\<lparr>n_skipped := True, n_outs := u # ss\<rparr>)"
      using n(3,4) k by (simp add: pending_def skipping_def Let_def ut k_def)
    moreover have "node_inv (?n\<lparr>n_skipped := True, n_outs := u # ss\<rparr>)"
      using n t by (simp add: node_inv_def skipping_def)
    moreover have "length (drop (nat k) (unsent s)) < length (unsent s)" using k by simp
    ultimately show ?thesis using n(2,3) unfolding eq good_step_def by (simp add: work_def ut)
  qed
qed


text \<open>A block of bytes that are due, offered to the socket.\<close>

lemma send_step:
  assumes n: "node_inv n" "n_stat n = 4" "n_outs n = s # ss" "\<not> skipping n" and e: "e \<noteq> Broken"
    and s1: "s1 = s\<lparr>s_stream := Some f, s_rsize := length d\<rparr>" "s_data s1 = s_data s"
    and f: "int (f_pos f) = s_wrote s + int (length d)" "d \<noteq> []" "d = take (length d) (unsent s)"
  shows "good_step n e (send_block (n\<lparr>n_readsize := x\<rparr>) s1 f ss (d @ pad) 0 e)"
proof -
  have inv: "file_inv s" using n by (simp add: node_inv_def)
  show ?thesis
  proof (cases e)
    case (Sent k)
    let ?w = "min (length d) (Suc k)"
    define g where "g = (if length d \<noteq> ?w then fseek (s_wrote s + int ?w) f else f)"
    define s' where "s' = s1\<lparr>s_wsize := int ?w, s_wrote := s_wrote s + int ?w, s_stream := Some g\<rparr>"
    have blk: "send_block (n\<lparr>n_readsize := x\<rparr>) s1 f ss (d @ pad) 0 e = (n\<lparr>n_readsize := x, n_outs := s' # ss\<rparr>, take ?w d)"
      using inv unfolding s'_def g_def s1(1) Sent by (simp add: Let_def file_inv_def)
    have w: "?w \<noteq> 0" "?w \<le> length d" "length d \<le> length (unsent s)" using f(2) arg_cong [OF f(3), of length] by auto
    have tk: "take ?w d = take ?w (unsent s)" using f(3) w(2) by (metis min.absorb1 take_take)
    have "f_bytes g = f_bytes f" by (simp add: g_def fseek_def)
    then have "s_data s' = s_data s1" by (simp add: s'_def s1(1) s_data_def open_stream_def)
    then have dat: "s_data s' = s_data s" using s1(2) by simp
    have len: "s_wrote s + int ?w \<le> int (length (s_data s))"
      using w inv unfolding unsent_def file_inv_def by (simp only: length_drop)
    have "file_inv s'"
      by (rule file_invI [OF inv, of _ g]) (use dat len inv f in \<open>auto simp: s'_def s1(1) g_def fseek_def file_inv_def\<close>)
    then show ?thesis unfolding blk
      by (intro send_file [OF n dat]) (use w tk in \<open>auto simp: s'_def s1(1)\<close>)
  next
    case WouldBlock
    let ?t = "s1\<lparr>s_wsize := -1, s_stream := Some (fseek (s_wrote s - s_var s) f)\<rparr>"
    have "s_data ?t = s_data s1" by (simp add: s1(1) s_data_def open_stream_def fseek_def)
    then have "s_data ?t = s_data s" using s1(2) by simp
    moreover have "file_inv ?t"
      by (rule file_invI [OF inv]) (use inv calculation f(2) in \<open>auto simp: s1(1) file_inv_def fseek_def\<close>)
    ultimately show ?thesis using WouldBlock send_file [OF n, of ?t "[]" e] by (simp add: s1(1))
  qed (use e in simp)
qed

lemma output_step:
  assumes n: "node_inv n" "n_stat n = 4" "0 < wm" and e: "e \<noteq> Broken"
  shows "yields (good_step n e) (output_client wm n e)"
proof (cases "n_outs n")
  case Nil
  then show ?thesis using n by (simp add: output_client_def good_step_def node_inv_def pending_def work_def skipping_def Let_def)
next
  case (Cons s ss)
  have inv: "file_inv s" using n Cons by (simp add: node_inv_def)
  have dropped: "unsent s = [] \<Longrightarrow> good_step n e (n\<lparr>n_outs := ss\<rparr>, [])" by (rule drop_file [OF n(1,2) Cons])
  show ?thesis
  proof (cases "s_named s \<and> open_stream s \<noteq> None")
    case False
    then have "unsent s = []" by (auto simp: unsent_def s_data_def)
    then show ?thesis using dropped False Cons by (auto simp: output_client_def)
  next
    case True
    then obtain f where f: "s_named s" "open_stream s = Some f" by blast
    define d where "d = take wm (drop (nat (s_wrote s)) (f_bytes f))"
    define pad where "pad = replicate (wm + 1 - length d) NUL"
    obtain f' where r: "read_block wm n s f = Inr (s\<lparr>s_stream := Some f', s_rsize := length d\<rparr>, f', d @ pad, 0)"
      "f_bytes f' = f_bytes f" "int (f_pos f') = s_wrote s + int (length d)" "d = [] \<Longrightarrow> f_eof f'"
      using read_block_plain [OF _ inv f(2) n(3) d_def] n(1) by (auto simp: node_inv_def pad_def)
    define s1 where "s1 = s\<lparr>s_stream := Some f', s_rsize := length d\<rparr>"
    have data: "s_data s = f_bytes f" "d = take wm (unsent s)" "s_data s1 = s_data s"
      using f r(2) by (simp_all add: s_data_def d_def unsent_def s1_def open_stream_def)
    have dd: "d = take (length d) (unsent s)" using data(2) by (simp add: min_def)
    note out = output_client_def Cons f r(1) s1_def [symmetric] Let_def
    show ?thesis
    proof (cases "d = []")
      case True
      then have "unsent s = []" using data(2) n(3) by simp
      then show ?thesis using dropped True r(3,4) by (simp add: out s1_def)
    next
      case False
      then have rs: "s_rsize s1 = length d" "0 < length d" by (simp_all add: s1_def)
      show ?thesis
      proof (cases "skipping n")
        case True
        have "good_step n e (skip_block (n\<lparr>n_readsize := n_readsize n + int (s_rsize s1)\<rparr>) s1 f' ss, [])"
          by (rule skip_file [OF n(1,2) Cons True data(3) _ _ _ _ f(1) _ _ _ False dd])
            (use f(1) r(2,3) data(1) inv in \<open>simp_all add: file_inv_def s1_def\<close>)
        then show ?thesis using True rs by (simp add: out skipping_def)
      next
        case False
        have "good_step n e (send_block (n\<lparr>n_readsize := n_readsize n + int (s_rsize s1)\<rparr>) s1 f' ss (d @ pad) 0 e)"
          by (rule send_step [OF n(1,2) Cons False e s1_def data(3) r(3) _ dd]) (use rs in simp)
        then show ?thesis using False rs by (auto simp: out skipping_def)
      qed
    qed
  qed
qed

text \<open>The loop keeps sending what is pending, and the events that are not refusals get it done.\<close>

lemma output_loop_pending:
  "node_inv n \<Longrightarrow> 0 < wm \<Longrightarrow> Broken \<notin> set es \<Longrightarrow>
   \<exists>n' d. output_loop wm n es = Inr (n', d) \<and> node_inv n' \<and> pending n = d @ pending n' \<and>
     (work n \<le> length (filter (\<lambda>e. e \<noteq> WouldBlock) es) \<longrightarrow> n_stat n' = 5)"
proof (induction es arbitrary: n)
  case Nil
  then show ?case by (auto simp: node_inv_def work_def)
next
  case (Cons e es)
  show ?case
  proof (cases "n_stat n = 4")
    case False
    then show ?thesis using Cons.prems by (auto simp: node_inv_def)
  next
    case True
    obtain m d where m: "output_client wm n e = Inr (m, d)" "good_step n e (m, d)"
      using output_step [OF Cons.prems(1) True Cons.prems(2), of e] Cons.prems(3) by (auto elim!: yieldsE)
    then obtain n' d' where n': "output_loop wm m es = Inr (n', d')" "node_inv n'" "pending m = d' @ pending n'"
      "work m \<le> length (filter (\<lambda>e. e \<noteq> WouldBlock) es) \<longrightarrow> n_stat n' = 5"
      using Cons.IH [of m] Cons.prems by (auto simp: good_step_def)
    then show ?thesis using True m by (auto simp: good_step_def)
  qed
qed


text \<open>
  C3. Every byte of the answer is sent once and in order.  Without template variables, with
  files that can be opened and a connection that is not broken, the bytes sent are at any time
  the first of the files' bytes one after the other, from the requested range behind the header
  on if there is one; and once as many calls of \<open>send\<close> took something as the files have bytes
  and streams, all are sent and the client is done.  However little the socket takes at a time,
  and however often it would block.
\<close>

theorem output_complete:
  assumes "0 < wm" "0 \<le> whead" "Broken \<notin> set es"
  shows "\<exists>n' d. output_loop wm (new_answer (map new_file ds) False vars rng whead) es = Inr (n', d) \<and>
    prefix d (drop (if rng > 0 then nat (whead + rng) else 0) (concat ds)) \<and>
    (length (concat ds) + length ds < length (filter (\<lambda>e. e \<noteq> WouldBlock) es) \<longrightarrow>
      n_stat n' = 5 \<and> d = drop (if rng > 0 then nat (whead + rng) else 0) (concat ds))"
proof -
  define n where "n = new_answer (map new_file ds) False vars rng whead"
  have u: "unsent (new_file d) = d" for d
    by (simp add: unsent_def s_data_def new_file_def open_stream_def)
  have "map unsent (map new_file ds) = ds" by (simp add: comp_def u)
  then have n: "node_inv n" "pending n = drop (if rng > 0 then nat (whead + rng) else 0) (concat ds)"
    "work n = Suc (length (concat ds) + length ds)"
    using assms(2) by (auto simp: n_def new_answer_def new_file_def node_inv_def file_inv_def pending_def work_def skipping_def
        Let_def u [unfolded new_file_def] length_concat comp_def sum_list_Suc)
  show ?thesis unfolding n_def [symmetric] using output_loop_pending [OF n(1) assms(1,3)] n(2,3)
    by (auto simp: node_inv_def pending_def Let_def prefix_def)
qed

theorem output_complete_witness:
  "\<exists>n' d. output_loop 4 (new_answer (map new_file [''head'', ''hello'']) False [] 2 4) (replicate 12 (Sent 0)) = Inr (n', d) \<and>
    prefix d ''llo'' \<and> n_stat n' = 5 \<and> d = ''llo''"
  using output_complete [of 4 4 "replicate 12 (Sent 0)" "[''head'', ''hello'']" "[]" 2] by (simp add: numeral_2_eq_2)


section \<open>A template whose variable changes the size never ends\<close>

text \<open>The test for the end compares the position in the template with the number of bytes sent.\<close>

lemma var_char_name: "var_char c \<Longrightarrow> c \<noteq> CHR '';'' \<and> c \<noteq> NUL \<and> c \<noteq> CHR ''$''"
  by (auto simp: var_char_def schar_def code_def)

lemma var_size_name:
  "(\<forall>c \<in> set name. var_char c) \<Longrightarrow> i + length name < 50 \<Longrightarrow>
   var_size i (name @ CHR '';'' # s) = Inr (i + length name + 1)"
  by (induction name arbitrary: i) (auto dest: var_char_name)

lemma strstr_sign: "CHR ''$'' \<notin> set p \<Longrightarrow> c_strstr (p @ CHR ''$'' # s) ''$'' = Some (length p)"
  by (induction p) auto

lemma expand_one:
  assumes p: "p \<noteq> []" "CHR ''$'' \<notin> set p" "nul_free p" and name: "name \<noteq> []" "\<forall>c \<in> set name. var_char c" "length name < 50"
    and v: "get_var vars name = v" "nul_free v" and wm: "length p + length v < wm" "length p + length name + 2 \<le> wm"
  defines "t \<equiv> p @ ''$'' @ name @ '';''"
  shows "\<exists>b'. expand_var (wm + 2) wm vars (t @ replicate (wm + 1 - length t) NUL) 0 (length t) 0 =
      Inr (b', length p + length v, length p, int (length v) - int (length name) - 2) \<and>
    take (length p + length v) b' = p @ v \<and> length p + length v \<le> length b'"
proof -
  define b where "b = t @ replicate (wm + 1 - length t) NUL"
  have lb: "length b = wm + 1" using wm(2) by (simp add: b_def t_def)
  have "nul_free name" using name(2) var_char_name by (auto simp: nul_free_def)
  then have "upto_nul b = t @ upto_nul (replicate (wm + 1 - length t) NUL)"
    unfolding b_def using p by (intro upto_nul_append) (auto simp: t_def nul_free_def)
  then have find: "strstr_at b 0 ''$'' = Inr (Some (length p))"
    using lb p(2) by (simp add: strstr_at_def t_def strstr_sign)
  have sz: "var_size 0 (drop (length p + 1) b) = Inr (length name + 1)"
    using var_size_name [of name 0] name by (simp add: b_def t_def)
  have vn: "take (length name) (drop (length p + 1) b) = name" by (simp add: b_def t_def)
  have pre: "upto_nul (take (length p) b) = p" using p(3) by (simp add: b_def t_def)
  obtain r where r: "print_at b 0 wm (p @ v) = Inr (p @ v @ NUL # r)" "length (p @ v @ NUL # r) = wm + 1"
    using wm(1) lb by (simp add: print_at_def Let_def)
  have w: "wr (p @ v @ NUL # r) (length p + length v) NUL = Inr (p @ v @ NUL # r)"
    by (simp add: wr_def list_update_append)
  have "expand_var (Suc (wm + 1)) wm vars b 0 (length t) 0 =
      Inr (p @ v @ NUL # r, length p + length v, length p, int (length v) - int (length name) - 2)"
    using p(1) name(1) v(1) by (simp add: find sz [simplified] pre Let_def vn [simplified] r(1) w)
  then show ?thesis using wm(1) unfolding b_def by (intro exI [of _ "p @ v @ NUL # r"]) simp
qed


text \<open>The client after some rounds through the template.\<close>

definition at_round :: "char list \<Rightarrow> vars \<Rightarrow> nat \<Rightarrow> nat \<Rightarrow> out_node \<Rightarrow> bool" where
  "at_round t vars sz k n \<longleftrightarrow> n_stat n = 4 \<and> n_dynvar n \<and> n_vars n = vars \<and> n_range n = 0 \<and>
     (\<exists>s f. n_outs n = [s] \<and> s_named s \<and> open_stream s = Some f \<and> f_bytes f = t \<and> s_rsize s = 0 \<and>
        s_wrote s = int (k * sz) \<and> s_var s = int (k * sz) - int (k * length t))"

lemma expand_nothing: "expand_var (Suc fuel) wm vars (replicate (wm + 1) NUL) 0 0 0 = Inr (replicate (wm + 1) NUL, 0, 0, 0)"
  by (simp add: strstr_at_def upto_nul_def)

lemma template_round:
  assumes n: "at_round t vars sz k n" and wm: "length t \<le> wm" "0 < wm" "sz \<le> wm" "0 < sz" "sz \<noteq> length t"
    and b': "expand_var (wm + 2) wm vars (t @ replicate (wm + 1 - length t) NUL) 0 (length t) 0 =
      Inr (b', sz, p, int sz - int (length t))" "take sz b' = out" "sz \<le> length b'" "0 < p"
  shows "\<exists>m m'. output_client wm n (Sent wm) = Inr (m, out) \<and> n_stat m = 4 \<and>
    output_client wm m (Sent wm) = Inr (m', []) \<and> at_round t vars sz (Suc k) m'"
proof -
  obtain s f where s: "n_outs n = [s]" "s_named s" "open_stream s = Some f" "f_bytes f = t" "s_rsize s = 0"
    "s_wrote s = int (k * sz)" "s_var s = int (k * sz) - int (k * length t)" and n': "n_stat n = 4" "n_dynvar n" "n_vars n = vars" "n_range n = 0"
    using n unfolding at_round_def by blast
  have fr: "fread wm (fseek 0 f) = (t, \<lparr>f_bytes = t, f_pos = length t, f_eof = length t < wm\<rparr>)"
    using s(4) wm(1) by (simp add: fread_def fseek_def Let_def)
  define s0 where "s0 = s\<lparr>s_stream := Some \<lparr>f_bytes = t, f_pos = length t, f_eof = length t < wm\<rparr>, s_rsize := sz,
    s_var := s_var s + (int sz - int (length t))\<rparr>"
  have rb: "read_block wm n s f = Inr (s0, \<lparr>f_bytes = t, f_pos = length t, f_eof = length t < wm\<rparr>, b', p)"
    using s(5) n'(2,3) b'(1) by (simp add: read_block_def fr Let_def s0_def del: expand_var.simps)
  define g where "g = \<lparr>f_bytes = t, f_pos = Suc k * length t, f_eof = False\<rparr>"
  define s1 where "s1 = s0\<lparr>s_wsize := int sz, s_wrote := s_wrote s + int sz, s_stream := Some g\<rparr>"
  define m where "m = n\<lparr>n_readsize := n_readsize n + int sz, n_outs := [s1]\<rparr>"
  have off: "s_wrote s + int sz - s_var s0 = int (Suc k * length t)"
    using s(6,7) by (simp add: s0_def algebra_simps)
  have "fseek (s_wrote s + int sz - s_var s0) \<lparr>f_bytes = t, f_pos = length t, f_eof = length t < wm\<rparr> = g"
    unfolding off fseek_int by (simp add: g_def)
  then have one: "output_client wm n (Sent wm) = Inr (m, out)"
    using s(1,2,3) n' wm b'(2,3,4) by (simp add: output_client_def rb Let_def m_def s1_def s0_def)
  have fr2: "fread wm g = ([], g\<lparr>f_eof := True\<rparr>)"
    using wm(2) by (simp add: fread_def g_def Let_def)
  define s2 where "s2 = s1\<lparr>s_stream := Some (g\<lparr>f_eof := True\<rparr>), s_rsize := 0\<rparr>"
  have rb2: "read_block wm m s1 g = Inr (s2, g\<lparr>f_eof := True\<rparr>, replicate (wm + 1) NUL, 0)"
    using n' expand_nothing [of "wm + 1" wm vars] wm(4)
    by (simp add: read_block_def fr2 Let_def s2_def m_def s1_def s0_def del: expand_var.simps)
  have "open_stream s1 = Some g" "s_named s1" using s(2) by (simp_all add: s1_def s0_def open_stream_def)
  moreover have "int (f_pos g) \<noteq> s_wrote s2"
  proof -
    have "s_wrote s2 = int (Suc k * sz)" using s(6) by (simp add: s2_def s1_def algebra_simps)
    moreover have "Suc k * length t \<noteq> Suc k * sz" using wm(5) by (simp del: mult_Suc)
    ultimately show ?thesis by (simp only: g_def sfile.simps of_nat_eq_iff not_False_eq_True)
  qed
  ultimately have two: "output_client wm m (Sent wm) = Inr (m\<lparr>n_outs := [s2]\<rparr>, [])"
    by (simp add: output_client_def m_def rb2 [unfolded m_def]) (simp add: s2_def)
  have "at_round t vars sz (Suc k) (m\<lparr>n_outs := [s2]\<rparr>)"
    using s n' by (simp add: at_round_def m_def s2_def s1_def s0_def open_stream_def g_def algebra_simps)
  then show ?thesis using one two n'(1) by (auto simp: m_def)
qed

text \<open>Every round sends the expanded template once more.\<close>

lemma template_rounds:
  assumes step: "\<And>j n. at_round t vars sz j n \<Longrightarrow> \<exists>m m'. output_client wm n (Sent wm) = Inr (m, out) \<and> n_stat m = 4 \<and>
    output_client wm m (Sent wm) = Inr (m', []) \<and> at_round t vars sz (Suc j) m'"
  shows "at_round t vars sz j n \<Longrightarrow> \<exists>n'. output_loop wm n (replicate (2 * k) (Sent wm)) = Inr (n', concat (replicate k out)) \<and> n_stat n' = 4"
proof (induction k arbitrary: j n)
  case 0
  then show ?case by (simp add: at_round_def)
next
  case (Suc k)
  obtain m m' where m: "output_client wm n (Sent wm) = Inr (m, out)" "n_stat m = 4"
    "output_client wm m (Sent wm) = Inr (m', [])" "at_round t vars sz (Suc j) m'"
    using step [OF Suc.prems] by blast
  obtain n' where "output_loop wm m' (replicate (2 * k) (Sent wm)) = Inr (n', concat (replicate k out))" "n_stat n' = 4"
    using Suc.IH [OF m(4)] by blast
  then show ?case using m Suc.prems by (simp add: at_round_def)
qed

text \<open>
  A template that ends with a variable, whose value has another length than the name with
  its signs, is never done: the server sends the expanded text again and again, to a client that
  takes everything at once, and does not leave the state 4 after any number of calls.
\<close>

theorem template_never_done:
  assumes "p \<noteq> []" "CHR ''$'' \<notin> set p" "nul_free p" "name \<noteq> []" "\<forall>c \<in> set name. var_char c" "length name < 50"
    "nul_free (get_var vars name)" "length p + length (get_var vars name) < wm" "length p + length name + 2 \<le> wm"
    "length (get_var vars name) \<noteq> length name + 2"
  shows "\<exists>n'. output_loop wm (new_answer [new_file (p @ ''$'' @ name @ '';'')] True vars 0 0) (replicate (2 * k) (Sent wm)) =
    Inr (n', concat (replicate k (p @ get_var vars name))) \<and> n_stat n' = 4"
proof -
  define t where "t = p @ ''$'' @ name @ '';''"
  define v where "v = get_var vars name"
  have len: "length t = length p + length name + 2" by (simp add: t_def)
  obtain b' where b': "expand_var (wm + 2) wm vars (t @ replicate (wm + 1 - length t) NUL) 0 (length t) 0 =
      Inr (b', length p + length v, length p, int (length p + length v) - int (length t))"
    "take (length p + length v) b' = p @ v" "length p + length v \<le> length b'"
    using expand_one [OF assms(1-6) refl assms(7-9), folded t_def v_def] len by (auto simp: algebra_simps)
  have "at_round t vars (length p + length v) 0 (new_answer [new_file t] True vars 0 0)"
    by (simp add: at_round_def new_answer_def new_file_def open_stream_def)
  then show ?thesis unfolding t_def [symmetric] v_def [symmetric]
    by (rule template_rounds [OF template_round, rotated -1]) (use assms len b' in \<open>auto simp: v_def\<close>)
qed


theorem template_never_done_witness:
  "\<exists>n'. output_loop 10 (new_answer [new_file ''a$b;''] True [(''b'', ''xyzw'')] 0 0) (replicate (2 * 1000) (Sent 10)) =
    Inr (n', concat (replicate 1000 ''axyzw'')) \<and> n_stat n' = 4"
  using template_never_done [of "''a''" "''b''" "[(''b'', ''xyzw'')]" 10 1000]
  by (simp add: var_char_def schar_def code_def)

end
