(* ===== verification/LwsProcess.thy ===== *)
theory LwsProcess
  imports LwsOutput LwsHandlers Fnmatch Radix
begin

unbundle bit_operations_syntax

text \<open>
  Answering a request: \<open>__ILWS_process_client\<close> of \<open>client.c\<close>, which chooses the handler, lets
  it write the files of the answer, finds the length of their header and writes the first lines
  of the answer.  The handler itself is a parameter of the model.
\<close>

section \<open>The request\<close>

text \<open>A greater pointer: the null pointer is below every other.\<close>

definition ptr_gt :: "nat option \<Rightarrow> nat option \<Rightarrow> bool" where
  "ptr_gt p q = (case p of None \<Rightarrow> False | Some a \<Rightarrow> (case q of None \<Rightarrow> True | Some b \<Rightarrow> a > b))"

text \<open>
  \<open>__ILWS_web_client_getreq\<close>: everything in front of the query, or nothing.  Without
  \<open>HTTP\<close> in the buffer, which starts at the address \<open>base\<close>, the size is a difference with a null
  pointer cut to an \<open>int\<close>.
\<close>

definition getreq :: "u64 \<Rightarrow> char list \<Rightarrow> fault + cstr option" where
  "getreq base buf =
     bind_res (strstr_at buf 0 ''?'') (\<lambda>tmp1. bind_res (strstr_at buf 0 '' HTTP'') (\<lambda>tmp2. bind_res (strstr_at buf 0 [CR, LF]) (\<lambda>tmp3.
     let tmp1 = (if tmp1 = None \<or> ptr_gt tmp1 tmp2 then tmp2 else tmp1) in
     if ptr_gt tmp2 tmp3 then Inr None
     else
       let sz = (case tmp1 of None \<Rightarrow> sint (ucast (- base) :: u32) | Some a \<Rightarrow> to_int (int a)) in
       if sz < 1 then Inr None else bind_res (copy_out buf 0 (nat sz)) (\<lambda>s. Inr (Some s)))))"

text \<open>\<open>__ILWS_web_client_getreqline\<close>, for the log.\<close>

definition getreqline :: "char list \<Rightarrow> fault + cstr option" where
  "getreqline buf =
     bind_res (strstr_at buf 0 [CR, LF]) (\<lambda>tmp1. case tmp1 of
       None \<Rightarrow> Inr None
     | Some sz \<Rightarrow> if sz < 1 then Inr None else bind_res (copy_out buf 0 sz) (\<lambda>s. Inr (Some s)))"

section \<open>The handler\<close>

definition MATCHMAX :: nat where "MATCHMAX = 200"
definition MAXURLSIZE :: nat where "MAXURLSIZE = 2000"

abbreviation "WS_LOCAL \<equiv> 1 :: int"
abbreviation "WS_DYNVAR \<equiv> 8 :: int"
abbreviation "WS_USELEN \<equiv> 16 :: int"

text \<open>The handlers of the list behind its head: string, type, function or path, and flags.\<close>

record served =
  sv_str :: cstr
  sv_type :: int
  sv_hdl :: hdl
  sv_flag :: int

definition has_flag :: "int \<Rightarrow> int \<Rightarrow> bool" where
  "has_flag fl b \<longleftrightarrow> fl AND b = b"

text \<open>The flags 5 of the call of \<open>fnmatch\<close>.\<close>

definition match_flags :: fnm_flags where
  "match_flags = \<lparr>FNM_NOESCAPE = True, FNM_PATHNAME = False, FNM_PERIOD = True\<rparr>"

definition serves :: "served \<Rightarrow> cstr \<Rightarrow> bool" where
  "serves g req \<longleftrightarrow> fnmatch match_flags (take (MATCHMAX - 1) (sv_str g)) [] req"

datatype choice = Invalid | TooLarge | Forbidden | NotFound | Chosen served

fun select_handler :: "bool \<Rightarrow> cstr option \<Rightarrow> served list \<Rightarrow> choice" where
  "select_handler here req [] = NotFound"
| "select_handler here None (g # gs) = Invalid"
| "select_handler here (Some r) (g # gs) =
     (if length r > MAXURLSIZE then TooLarge
      else if serves g r then if has_flag (sv_flag g) WS_LOCAL \<and> \<not> here then Forbidden else Chosen g
      else select_handler here (Some r) gs)"

section \<open>The length of the header\<close>

definition RTMPMAX :: nat where "RTMPMAX = 400"

text \<open>
  The blocks of a file are searched for the end of the header; a block starts four bytes before
  the end of the one in front, for which the code takes the size of that block.  \<open>tmp\<close> counts
  the bytes, \<open>thead\<close> collects them when a range was requested.
\<close>

fun header_loop :: "nat \<Rightarrow> int \<Rightarrow> int \<Rightarrow> int \<Rightarrow> nat \<Rightarrow> sfile \<Rightarrow> char list \<Rightarrow> fault + (int \<times> int \<times> sfile \<times> char list)" where
  "header_loop 0 rng whead tmp rtmps f thead = Inl OutOfFuel"
| "header_loop (Suc fuel) rng whead tmp rtmps f thead =
     (if whead \<noteq> 0 \<or> f_eof f then Inr (whead, tmp, f, thead)
      else
        let (tmp, f) = (if rtmps > 0 then (tmp - 4, fseek (int rtmps - 4) f) else (tmp, f));
            (rtmp, f) = fread RTMPMAX f
        in if rtmp = [] then header_loop fuel rng whead tmp 0 f thead
           else
             let (whead, rtmps) = (case c_strstr (upto_nul rtmp) [CR, LF, CR, LF] of
                   Some tmp1 \<Rightarrow> (tmp + int (tmp1 + 4), tmp1 + 4) | None \<Rightarrow> (whead, length rtmp));
                 thead = (if rng > 0 then take (nat tmp) thead @ take rtmps rtmp else thead)
             in header_loop fuel rng whead (tmp + int rtmps) rtmps f thead)"

text \<open>
  All files: they are opened, and the end of each is its size (two bytes behind the end, less
  two).
\<close>

fun stream_lengths :: "nat \<Rightarrow> int \<Rightarrow> out_file list \<Rightarrow> int \<Rightarrow> int \<Rightarrow> int \<Rightarrow> char list \<Rightarrow>
    fault + (out_file list \<times> int \<times> int \<times> char list)" where
  "stream_lengths fuel rng [] whead wlen tmp thead = Inr ([], whead, wlen, thead)"
| "stream_lengths fuel rng (s # ss) whead wlen tmp thead =
     (let next = (\<lambda>s whead wlen tmp thead.
        bind_res (stream_lengths fuel rng ss whead wlen tmp thead) (\<lambda>(ss, r). Inr (s # ss, r)))
      in if \<not> s_named s then next s whead wlen tmp thead
      else case map_option (fseek 0) (open_stream s) of
          None \<Rightarrow> next s whead wlen tmp thead
        | Some f \<Rightarrow>
            bind_res (header_loop fuel rng whead tmp 0 f thead) (\<lambda>(whead, tmp, f, thead).
            let f = fseek (int (length (f_bytes f)) + 2) f in
            next (s\<lparr>s_stream := Some f\<rparr>) whead (wlen + (int (f_pos f) - 2)) tmp thead))"

section \<open>The answer\<close>

text \<open>The client with its cookies, its own status line, the length of its files and what was written.\<close>

record web_node =
  w_out :: out_node
  w_cookies :: "cstr option"
  w_directive :: "cstr option"
  w_len :: int
  w_lines :: "cstr list"

text \<open>\<open>vsnprintf\<close> with the size 512.\<close>

definition writef :: "cstr \<Rightarrow> web_node \<Rightarrow> web_node" where
  "writef s w = w\<lparr>w_lines := w_lines w @ [take 511 s]\<rparr>"

definition int_text :: "int \<Rightarrow> cstr" where
  "int_text i = (let n = to_int i in if n < 0 then CHR ''-'' # nat_dec (nat (- n)) else nat_dec (nat n))"

text \<open>
  What the process finds outside: the address of the buffer, whether the client is
  127.0.0.1, whether there is a name for a temporary file, whether it can be opened in place of
  the standard output and added to the list; the version and the date.
\<close>

record surroundings =
  e_base :: u64
  e_local :: bool
  e_tmpname :: bool
  e_reopen :: bool
  e_stream :: bool
  e_server :: cstr
  e_date :: cstr

definition http_crlf :: cstr where "http_crlf = [CR, LF]"

definition server_lines :: "surroundings \<Rightarrow> web_node \<Rightarrow> web_node" where
  "server_lines e w =
     writef (''Date: '' @ e_date e @ http_crlf) (writef (''Server: '' @ e_server e @ http_crlf) w)"

definition set_stat :: "nat \<Rightarrow> web_node \<Rightarrow> web_node" where
  "set_stat st w = w\<lparr>w_out := (w_out w)\<lparr>n_stat := st\<rparr>\<rparr>"

text \<open>A refusal: its status line, the usual lines, extra lines, a page; the client is done.\<close>

definition refuse :: "surroundings \<Rightarrow> cstr \<Rightarrow> cstr list \<Rightarrow> cstr \<Rightarrow> cstr \<Rightarrow> cstr \<Rightarrow> web_node \<Rightarrow> web_node" where
  "refuse e status extra title head small w =
     set_stat 5
      (writef (''Content-type: text/html'' @ http_crlf @ http_crlf @ ''<HTML><title>'' @ title @
         ''</title><body bgcolor=FFFFFF><font size=6>'' @ head @ ''</font><BR><BR><small>'' @ small @
         ''</small><BR><HR><small><i>'' @ e_server e @ ''</i></small></body></html>'' @ [LF, CR])
       (fold writef extra (server_lines e (writef (''HTTP/1.1 '' @ status @ http_crlf) w))))"

definition apostrophe :: cstr where "apostrophe = [CHR 0x27]"

definition refuse_choice :: "surroundings \<Rightarrow> choice \<Rightarrow> web_node \<Rightarrow> web_node" where
  "refuse_choice e c w =
     (case c of
        Invalid \<Rightarrow> refuse e ''400 Invalid request'' [] ''Invalid request'' ''400 Invalid  request''
          (''Yout request doesn'' @ apostrophe @ ''t match the requesits to be processed'') w
      | TooLarge \<Rightarrow> refuse e ''414 URL to large'' [] ''URL to large'' ''414 Requested url to large''
          ''Wonder this... why is that so large?'' w
      | Forbidden \<Rightarrow> refuse e ''403 Forbidden'' [] ''Forbidden'' ''403 Forbidden'' ''only local host accepted'' w
      | NotFound \<Rightarrow> refuse e ''404 Not Found'' [] ''not found'' ''404 NOT FOUND''
          (''The requested content wasn'' @ apostrophe @ ''t found'') w
      | Chosen g \<Rightarrow> w)"


text \<open>A range that cannot be served.\<close>

definition refuse_range :: "surroundings \<Rightarrow> web_node \<Rightarrow> web_node option" where
  "refuse_range e w =
     (let rng = n_range (w_out w); body = w_len w - n_whead (w_out w) in
      if rng > body \<and> rng > 0
      then Some (refuse e ''416 Requested Range Not Satisfiable'' [''Content-range: bytes */'' @ int_text body @ http_crlf]
        ''Requested Range Not Satisfiable'' ''416 Requested Range Not Satisfiable''
        (''You'' @ apostrophe @ ''re trying to resume an content that is smaller than the requested range'') w)
      else if rng > 0 \<and> n_dynvar (w_out w)
      then Some (refuse e ''501 Not Implemented'' [] ''Not implemented'' ''501 Not implemented''
        (''Your trying to resume an content that is not possible to resume(WS_DYNVAR fault)'') w)
      else None)"

text \<open>The first lines of an answer; with a range the header of the file is one of them.\<close>

definition status_line :: "web_node \<Rightarrow> cstr" where
  "status_line w =
     (case w_directive w of
        Some d \<Rightarrow> d @ http_crlf
      | None \<Rightarrow> (if n_range (w_out w) > 0 then ''HTTP/1.1 206 Partial Content'' else ''HTTP/1.1 200 OK'') @ http_crlf)"

definition answer_lines :: "surroundings \<Rightarrow> char list \<Rightarrow> web_node \<Rightarrow> fault + web_node" where
  "answer_lines e thead w =
     (let rng = n_range (w_out w); body = w_len w - n_whead (w_out w);
          w = server_lines e (writef (status_line w) (set_stat 4 w));
          w = writef (''Accept-Ranges: bytes'' @ http_crlf) w;
          w = (if body - rng > 0 \<and> \<not> n_dynvar (w_out w)
               then writef (''Content-length: '' @ int_text (body - rng) @ http_crlf) w else w);
          w = (case w_cookies w of None \<Rightarrow> w | Some c \<Rightarrow> writef c w)
      in if rng > 0
         then if thead = [] then Inl NullDeref
              else Inr (writef (upto_nul thead) (writef (''Content-range: bytes '' @ int_text rng @ ''-'' @
                int_text (body - 1) @ ''/'' @ int_text body @ http_crlf) w))
         else Inr w)"

text \<open>
  The handler chosen: the temporary file, the handler, the lengths, the answer.  The request
  name of a directory alias loses its slash.
\<close>

definition temp_file :: out_file where
  "temp_file = \<lparr>s_named = True, s_disk = Some [], s_stream = Some \<lparr>f_bytes = [], f_pos = 0, f_eof = False\<rparr>,
     s_wsize = 1, s_rsize = 0, s_wrote = 0, s_var = 0\<rparr>"

definition run_handler :: "(served \<Rightarrow> client_info \<Rightarrow> web_node \<Rightarrow> web_node) \<Rightarrow> surroundings \<Rightarrow> char list \<Rightarrow> served \<Rightarrow>
    web_node \<Rightarrow> fault + web_node" where
  "run_handler run e buf g w =
     (if sv_type g = GH_FUNCTION then bind_res (init_clientinfo (e_base e) buf) (\<lambda>ci. Inr (run g ci w))
      else if sv_type g = GH_DIRECTORY
      then bind_res (init_clientinfo (e_base e) buf) (\<lambda>ci.
        if sv_str g = ''* /*'' then Inr (run g ci w)
        else if ci_request ci = [] then Inl OutOfBounds
        else Inr (run g (ci\<lparr>ci_request := tl (ci_request ci)\<rparr>) w))
      else Inr w)"

definition serve :: "nat \<Rightarrow> (served \<Rightarrow> client_info \<Rightarrow> web_node \<Rightarrow> web_node) \<Rightarrow> surroundings \<Rightarrow> char list \<Rightarrow> served \<Rightarrow>
    web_node \<Rightarrow> fault + web_node" where
  "serve fuel run e buf g w =
     (let w = w\<lparr>w_out := (w_out w)\<lparr>n_dynvar := has_flag (sv_flag g) WS_DYNVAR\<rparr>\<rparr> in
      if \<not> e_tmpname e then Inr (set_stat 5 w)
      else if \<not> e_reopen e then answer_lines e [] w
      else if \<not> e_stream e then Inr (set_stat 5 w)
      else
        bind_res (run_handler run e buf g (w\<lparr>w_out := (w_out w)\<lparr>n_outs := n_outs (w_out w) @ [temp_file]\<rparr>\<rparr>)) (\<lambda>w.
        bind_res
          (if has_flag (sv_flag g) WS_USELEN
           then bind_res (stream_lengths fuel (n_range (w_out w)) (n_outs (w_out w)) (n_whead (w_out w)) (w_len w) 0 [])
             (\<lambda>(outs, whead, wlen, thead).
               Inr (w\<lparr>w_len := wlen, w_out := (w_out w)\<lparr>n_outs := outs, n_whead := whead\<rparr>\<rparr>, thead))
           else Inr (w\<lparr>w_out := (w_out w)\<lparr>n_range := 0\<rparr>\<rparr>, []))
          (\<lambda>(w, thead). case refuse_range e w of Some w \<Rightarrow> Inr w | None \<Rightarrow> answer_lines e thead w)))"

definition process_client :: "nat \<Rightarrow> (served \<Rightarrow> client_info \<Rightarrow> web_node \<Rightarrow> web_node) \<Rightarrow> surroundings \<Rightarrow> char list \<Rightarrow>
    served list \<Rightarrow> web_node \<Rightarrow> fault + web_node" where
  "process_client fuel run e buf gs w =
     bind_res (getreq (e_base e) buf) (\<lambda>req. case select_handler (e_local e) req gs of
       Chosen g \<Rightarrow> serve fuel run e buf g w
     | c \<Rightarrow> bind_res (getreqline buf) (\<lambda>tmpl. Inr (refuse_choice e c w)))"

section \<open>The first handler that matches decides\<close>

text \<open>
  C26. A handler is chosen exactly when it is the first one whose pattern matches the request, the
  request is not too large, and the handler is not reserved for the local host or the client is
  the local host: a remote client never runs a local handler, nor one that is hidden behind it.
\<close>

theorem select_handler_first:
  "select_handler here (Some r) gs = Chosen g \<longleftrightarrow>
     length r \<le> MAXURLSIZE \<and> (has_flag (sv_flag g) WS_LOCAL \<longrightarrow> here) \<and>
     (\<exists>pre post. gs = pre @ g # post \<and> serves g r \<and> (\<forall>h \<in> set pre. \<not> serves h r))"
proof (induction gs)
  case (Cons h gs)
  have split: "(\<exists>pre post. h # gs = pre @ g # post \<and> serves g r \<and> (\<forall>h \<in> set pre. \<not> serves h r)) \<longleftrightarrow>
      h = g \<and> serves g r \<or> \<not> serves h r \<and> (\<exists>pre post. gs = pre @ g # post \<and> serves g r \<and> (\<forall>h \<in> set pre. \<not> serves h r))"
  proof -
    have "(\<exists>pre post. h # gs = pre @ g # post \<and> P pre) \<longleftrightarrow> h = g \<and> P [] \<or> (\<exists>pre post. gs = pre @ g # post \<and> P (h # pre))" for P
      by (auto simp: Cons_eq_append_conv)
    from this [of "\<lambda>pre. serves g r \<and> (\<forall>h \<in> set pre. \<not> serves h r)"] show ?thesis by auto
  qed
  show ?case unfolding split using Cons.IH by (cases "length r \<le> MAXURLSIZE") auto
qed simp


theorem select_handler_first_witness:
  "length ''GET /a'' \<le> MAXURLSIZE \<and>
   (\<exists>pre post. [\<lparr>sv_str = ''GET /b'', sv_type = 0, sv_hdl = HFunc None, sv_flag = 0\<rparr>,
      \<lparr>sv_str = ''* /*'', sv_type = 0, sv_hdl = HFunc None, sv_flag = 1\<rparr>] =
      pre @ \<lparr>sv_str = ''* /*'', sv_type = 0, sv_hdl = HFunc None, sv_flag = 1\<rparr> # post \<and>
      serves \<lparr>sv_str = ''* /*'', sv_type = 0, sv_hdl = HFunc None, sv_flag = 1\<rparr> ''GET /a'')"
proof -
  let ?g = "\<lparr>sv_str = ''* /*'', sv_type = 0, sv_hdl = HFunc None, sv_flag = 1\<rparr>"
  have "\<not> serves \<lparr>sv_str = ''GET /b'', sv_type = 0, sv_hdl = HFunc None, sv_flag = 0\<rparr> ''GET /a''" by code_simp
  moreover have "serves ?g ''GET /a''" by code_simp
  ultimately have "select_handler True (Some ''GET /a'') [\<lparr>sv_str = ''GET /b'', sv_type = 0, sv_hdl = HFunc None, sv_flag = 0\<rparr>, ?g] = Chosen ?g"
    by (simp add: MAXURLSIZE_def)
  then show ?thesis unfolding select_handler_first by blast
qed

section \<open>The end of the header\<close>

definition at_start :: "char list \<Rightarrow> sfile" where
  "at_start d = \<lparr>f_bytes = d, f_pos = 0, f_eof = False\<rparr>"

abbreviation "END_OF_HEADER \<equiv> [CR, LF, CR, LF]"

lemma upto_nul_take: "nul_free d \<Longrightarrow> upto_nul (take n (drop m d)) = take n (drop m d)"
  by (simp add: nul_free_drop nul_free_take)

lemma header_found:
  assumes "0 \<le> tmp" "\<not> f_eof f" "fread RTMPMAX (if rtmps > 0 then fseek (int rtmps - 4) f else f) = (a, f')" "nul_free a"
    "c_strstr a END_OF_HEADER = Some k" "off = (if rtmps > 0 then tmp - 4 else tmp)" "0 \<le> off"
  shows "header_loop (Suc (Suc fuel)) rng 0 tmp rtmps f thead =
     Inr (off + int (k + 4), off + int (k + 4), f', if rng > 0 then take (nat off) thead @ take (k + 4) a else thead)"
proof -
  have "off + (int k + 4) \<noteq> 0" using assms(7) by simp
  moreover have "a \<noteq> []" using assms(5) by auto
  ultimately show ?thesis using assms by (cases "rtmps > 0") (simp_all add: Let_def)
qed

lemma header_not_found:
  assumes "\<not> f_eof f" "fread RTMPMAX (if rtmps > 0 then fseek (int rtmps - 4) f else f) = (a, f')" "nul_free a"
    "c_strstr a END_OF_HEADER = None" "off = (if rtmps > 0 then tmp - 4 else tmp)"
  shows "header_loop (Suc fuel) rng 0 tmp rtmps f thead =
     header_loop fuel rng 0 (off + int (length a)) (length a) f' (if rng > 0 \<and> a \<noteq> [] then take (nat off) thead @ a else thead)"
  using assms by (cases "rtmps > 0") (simp_all add: Let_def)

lemma header_ends:
  "header_loop 0 rng whead tmp rtmps f thead = Inl OutOfFuel"
  "f_eof f \<Longrightarrow> header_loop (Suc fuel) rng whead tmp rtmps f thead = Inr (whead, tmp, f, thead)"
  by simp_all

declare header_loop.simps [simp del] header_ends [simp]

text \<open>The first block and the second, which is read again when it holds no end of the header.\<close>

lemma first_block:
  "fread RTMPMAX (at_start d) = (take 400 d, \<lparr>f_bytes = d, f_pos = min (length d) 400, f_eof = length d < 400\<rparr>)"
  by (auto simp: fread_def at_start_def Let_def RTMPMAX_def)

lemma second_block:
  "fread RTMPMAX (fseek (int 400 - 4) \<lparr>f_bytes = d, f_pos = p, f_eof = e\<rparr>) =
     (take 400 (drop 396 d), \<lparr>f_bytes = d, f_pos = 396 + min (length d - 396) 400, f_eof = length d < 796\<rparr>)"
  by (auto simp: fread_def fseek_def Let_def RTMPMAX_def)

lemma header_stuck:
  assumes "nul_free d" "796 \<le> length d" "c_strstr (take 400 (drop 396 d)) END_OF_HEADER = None"
  shows "header_loop fuel rng 0 tmp 400 \<lparr>f_bytes = d, f_pos = p, f_eof = False\<rparr> thead = Inl OutOfFuel"
proof (induction fuel arbitrary: tmp p thead)
  case (Suc fuel)
  have nf: "nul_free (take 400 (drop 396 d))" using assms(1) by (intro nul_free_take nul_free_drop)
  show ?case using header_not_found [OF _ _ nf assms(3) refl, of "\<lparr>f_bytes = d, f_pos = p, f_eof = False\<rparr>" 400]
      second_block [of d p False] assms(2) Suc.IH by simp
qed simp


text \<open>A search in two overlapping parts is a search in the whole.\<close>

lemma c_strstr_eq_Some:
  "c_strstr s t = Some i \<longleftrightarrow>
     i + length t \<le> length s \<and> take (length t) (drop i s) = t \<and> (\<forall>j < i. take (length t) (drop j s) \<noteq> t)"
proof
  assume s: "c_strstr s t = Some i"
  show "i + length t \<le> length s \<and> take (length t) (drop i s) = t \<and> (\<forall>j < i. take (length t) (drop j s) \<noteq> t)"
    using c_strstr_Some [OF s] c_strstr_before [OF s] by blast
next
  assume "i + length t \<le> length s \<and> take (length t) (drop i s) = t \<and> (\<forall>j < i. take (length t) (drop j s) \<noteq> t)"
  then have "i \<le> length s" "take (length t) (drop i s) = t" "\<forall>j < i. take (length t) (drop j s) \<noteq> t" by simp_all
  then show "c_strstr s t = Some i" using c_strstr_first by blast
qed

lemma c_strstr_eq_None: "c_strstr s t = None \<longleftrightarrow> (\<forall>i \<le> length s. take (length t) (drop i s) \<noteq> t)"
proof
  assume "c_strstr s t = None"
  then have "\<not> occurs_in t s" by (rule c_strstr_occurs)
  then show "\<forall>i \<le> length s. take (length t) (drop i s) \<noteq> t"
    unfolding occurs_in_def by (metis append_take_drop_id)
next
  assume none: "\<forall>i \<le> length s. take (length t) (drop i s) \<noteq> t"
  show "c_strstr s t = None"
  proof (cases "c_strstr s t")
    case (Some i)
    then show ?thesis using none c_strstr_Some [OF Some] by auto
  qed simp
qed

lemma c_strstr_take: "c_strstr (take n s) t = Some i \<Longrightarrow> c_strstr s t = Some i"
proof -
  assume "c_strstr (take n s) t = Some i"
  then have i: "i + length t \<le> length (take n s)" "take (length t) (drop i (take n s)) = t"
    "\<forall>j < i. take (length t) (drop j (take n s)) \<noteq> t" unfolding c_strstr_eq_Some by auto
  have "take (length t) (drop j s) = take (length t) (drop j (take n s))" if "j \<le> i" for j
  proof -
    have "length t \<le> n - j" using that i(1) by simp linarith
    then show ?thesis by (simp add: drop_take min.absorb1)
  qed
  then show ?thesis using i unfolding c_strstr_eq_Some by auto
qed

lemma c_strstr_overlap:
  assumes none: "c_strstr (take n s) t = None" and m: "m + length t \<le> n + 1" "m \<le> length s"
  shows "c_strstr s t = map_option (\<lambda>k. m + k) (c_strstr (drop m s) t)"
proof -
  have early: "take (length t) (drop j s) \<noteq> t" if j: "j < m" for j
  proof
    assume t: "take (length t) (drop j s) = t"
    then have "length t \<le> length s - j" by (metis length_drop length_take min.cobounded1)
    have "length t \<le> n - j" using j m by simp
    then have "take (length t) (drop j (take n s)) = t" "j \<le> length (take n s)"
      using t j m by (simp_all add: drop_take min.absorb1)
    then show False using none unfolding c_strstr_eq_None by blast
  qed
  show ?thesis
  proof (cases "c_strstr (drop m s) t")
    case None
    have "take (length t) (drop i s) \<noteq> t" if "i \<le> length s" for i
      using None early [of i] that unfolding c_strstr_eq_None by (cases "i < m") (auto dest: spec [of _ "i - m"])
    then have "c_strstr s t = None" unfolding c_strstr_eq_None by blast
    then show ?thesis using None by simp
  next
    case (Some k)
    then have k: "k + length t \<le> length (drop m s)" "take (length t) (drop k (drop m s)) = t"
      "\<forall>j < k. take (length t) (drop j (drop m s)) \<noteq> t" unfolding c_strstr_eq_Some by auto
    have "take (length t) (drop j s) \<noteq> t" if "j < m + k" for j
      using k(3) early [of j] that by (cases "j < m") (auto dest: spec [of _ "j - m"])
    then have "c_strstr s t = Some (m + k)" using k m(2) unfolding c_strstr_eq_Some by (simp add: add.commute)
    then show ?thesis using Some by simp
  qed
qed


definition header_pos :: "char list \<Rightarrow> nat option" where
  "header_pos d = c_strstr (take 796 d) END_OF_HEADER"

lemma header_pos_blocks:
  "c_strstr (take 400 d) END_OF_HEADER = Some k \<Longrightarrow> header_pos d = Some k"
  "c_strstr (take 400 d) END_OF_HEADER = None \<Longrightarrow> 400 \<le> length d \<Longrightarrow>
   header_pos d = map_option (\<lambda>k. 396 + k) (c_strstr (take 400 (drop 396 d)) END_OF_HEADER)"
  "c_strstr (take 400 d) END_OF_HEADER = None \<Longrightarrow> length d \<le> 400 \<Longrightarrow> header_pos d = None"
proof -
  have t: "take 400 (take 796 d) = take 400 d" "drop 396 (take 796 d) = take 400 (drop 396 d)"
    by (simp_all add: drop_take)
  show "c_strstr (take 400 d) END_OF_HEADER = Some k \<Longrightarrow> header_pos d = Some k"
    unfolding header_pos_def by (metis t(1) c_strstr_take)
  show "c_strstr (take 400 d) END_OF_HEADER = None \<Longrightarrow> 400 \<le> length d \<Longrightarrow>
      header_pos d = map_option (\<lambda>k. 396 + k) (c_strstr (take 400 (drop 396 d)) END_OF_HEADER)"
    unfolding header_pos_def t(2) [symmetric] by (rule c_strstr_overlap [of 400]) (simp_all add: t(1))
qed (simp add: header_pos_def)

text \<open>What the search finds.\<close>

lemma header_search_found:
  assumes nf: "nul_free d" and k: "header_pos d = Some k"
  shows "\<exists>f. f_bytes f = d \<and> header_loop (Suc (Suc (Suc fuel))) rng 0 0 0 (at_start d) [] =
    Inr (int (k + 4), int (k + 4), f, if rng > 0 then take (k + 4) d else [])"
proof (cases "c_strstr (take 400 d) END_OF_HEADER")
  case (Some j)
  then have j: "j = k" "k + 4 \<le> 400" using header_pos_blocks(1) k c_strstr_Some [OF Some] by auto
  show ?thesis
    using header_found [OF order_refl _ _ _ Some refl, of "at_start d" 0 _ "Suc fuel" rng "[]"] first_block [of d] nf j
    by (auto simp: at_start_def nul_free_take min.absorb1)
next
  case None
  then have "\<not> length d \<le> 400" using header_pos_blocks(3) [OF None] k by auto
  then have d: "400 \<le> length d" by simp
  then obtain j where j: "c_strstr (take 400 (drop 396 d)) END_OF_HEADER = Some j" "k = 396 + j"
    using header_pos_blocks(2) None k by auto
  have "k + 4 = 396 + (j + 4)" using j(2) by simp
  then have "take (k + 4) d = take 396 d @ take (j + 4) (drop 396 d)" by (simp only: take_add)
  moreover have "j + 4 \<le> 400" using c_strstr_Some [OF j(1)] by simp
  moreover have "header_loop (Suc (Suc (Suc fuel))) rng 0 0 0 (at_start d) [] =
      header_loop (Suc (Suc fuel)) rng 0 400 400 \<lparr>f_bytes = d, f_pos = 400, f_eof = False\<rparr> (if rng > 0 then take 400 d else [])"
    using header_not_found [OF _ _ _ None refl, of "at_start d" 0 _ "Suc (Suc fuel)" rng 0 "[]"] first_block [of d] d nf
    by (auto simp: at_start_def nul_free_take min.absorb2)
  ultimately show ?thesis
    using header_found [OF _ _ _ _ j(1) refl, of 400 "\<lparr>f_bytes = d, f_pos = 400, f_eof = False\<rparr>" 400 _ fuel rng]
      second_block [of d 400 False] nf j(2) by (auto simp: upto_nul_take nul_free_take nul_free_drop min.absorb1)
qed

text \<open>
  C37. The search for the end of an answer's header ends exactly when the file is shorter than 796
  bytes or holds an empty line in its first 796 bytes: the position to go on from is computed
  from the size of the last block only, so from the third block on the second is read again.
\<close>

theorem header_search_terminates_iff:
  assumes "nul_free d"
  shows "(\<exists>fuel r. header_loop fuel rng 0 0 0 (at_start d) [] = Inr r) \<longleftrightarrow> length d < 796 \<or> header_pos d \<noteq> None"
proof (cases "c_strstr (take 400 d) END_OF_HEADER")
  case (Some k)
  then show ?thesis using header_search_found [OF assms header_pos_blocks(1) [OF Some]] header_pos_blocks(1) [OF Some] by blast
next
  case None
  have nf: "nul_free (take 400 d)" "nul_free (take 400 (drop 396 d))" using assms by (auto intro: nul_free_take nul_free_drop)
  have one: "header_loop (Suc fuel) rng 0 0 0 (at_start d) [] = header_loop fuel rng 0 (int (length (take 400 d))) (length (take 400 d))
      \<lparr>f_bytes = d, f_pos = min (length d) 400, f_eof = length d < 400\<rparr> (if rng > 0 \<and> take 400 d \<noteq> [] then take 400 d else [])" for fuel
    using header_not_found [OF _ _ nf(1) None refl, of "at_start d" 0 _ fuel rng 0 "[]"] first_block [of d] by (simp add: at_start_def)
  have two: "header_loop (Suc fuel) rng 0 400 400 \<lparr>f_bytes = d, f_pos = p, f_eof = False\<rparr> th =
      header_loop fuel rng 0 (396 + int (length (take 400 (drop 396 d)))) (length (take 400 (drop 396 d)))
        \<lparr>f_bytes = d, f_pos = 396 + min (length d - 396) 400, f_eof = length d < 796\<rparr>
        (if rng > 0 \<and> take 400 (drop 396 d) \<noteq> [] then take 396 th @ take 400 (drop 396 d) else th)"
    if "c_strstr (take 400 (drop 396 d)) END_OF_HEADER = None" for fuel p th
    using header_not_found [OF _ _ nf(2) that refl, of "\<lparr>f_bytes = d, f_pos = p, f_eof = False\<rparr>" 400 _ fuel rng 400 th]
      second_block [of d p False] by simp
  show ?thesis
  proof (cases "length d < 400")
    case True
    then have "\<exists>r. header_loop (Suc (Suc 0)) rng 0 0 0 (at_start d) [] = Inr r"
      unfolding one using True by (simp add: min.absorb1)
    moreover have "length d < 796" using True by simp
    ultimately show ?thesis by blast
  next
    case d: False
    show ?thesis
    proof (cases "c_strstr (take 400 (drop 396 d)) END_OF_HEADER")
      case (Some j)
      then have k: "header_pos d = Some (396 + j)" using header_pos_blocks(2) [OF None] d by simp
      then show ?thesis using header_search_found [OF assms k] by blast
    next
      case c2: None
      then have k: "header_pos d = None" using header_pos_blocks(2) [OF None] d by simp
      show ?thesis
      proof (cases "length d < 796")
        case True
        then have "\<exists>r. header_loop (Suc (Suc (Suc 0))) rng 0 0 0 (at_start d) [] = Inr r"
          unfolding one using True d two [OF c2, of "Suc 0"] by (simp add: min.absorb2)
        then show ?thesis using True by blast
      next
        case False
        then have "header_loop fuel rng 0 0 0 (at_start d) [] = Inl OutOfFuel" for fuel
          using one header_stuck [OF assms _ c2] d by (cases fuel) (simp_all add: min.absorb2)
        then show ?thesis using False k by simp
      qed
    qed
  qed
qed


lemma c_strstr_absent: "c \<notin> set s \<Longrightarrow> c_strstr s (c # t) = None"
  by (induction s) auto

theorem header_search_terminates_iff_witness:
  "\<not> (\<exists>fuel r. header_loop fuel 0 0 0 0 (at_start (replicate 800 (CHR ''a''))) [] = Inr r)"
proof -
  have "header_pos (replicate 800 (CHR ''a'')) = None" unfolding header_pos_def by (rule c_strstr_absent) simp
  moreover have "nul_free (replicate 800 (CHR ''a''))" by (simp add: nul_free_def)
  ultimately show ?thesis using header_search_terminates_iff [of "replicate 800 (CHR ''a'')" 0] by simp
qed

section \<open>The announced length is the number of bytes that follow\<close>

text \<open>The temporary file when the handler has written to it, and when its length was found.\<close>

definition written :: "char list \<Rightarrow> nat \<Rightarrow> out_file" where
  "written d p = temp_file\<lparr>s_stream := Some \<lparr>f_bytes = d, f_pos = p, f_eof = False\<rparr>\<rparr>"

definition fresh_web :: "vars \<Rightarrow> int \<Rightarrow> web_node" where
  "fresh_web vars rng =
     \<lparr>w_out = new_answer [] False vars rng 0, w_cookies = None, w_directive = None, w_len = 0, w_lines = []\<rparr>"

lemma stream_lengths_written:
  assumes "nul_free d" "header_pos d = Some k"
  shows "stream_lengths (Suc (Suc (Suc fuel))) rng [written d p] 0 0 0 [] =
    Inr ([written d (length d + 2)], int (k + 4), int (length d), if rng > 0 then take (k + 4) d else [])"
proof -
  obtain f where f: "f_bytes f = d" "header_loop (Suc (Suc (Suc fuel))) rng 0 0 0 (at_start d) [] =
      Inr (int (k + 4), int (k + 4), f, if rng > 0 then take (k + 4) d else [])"
    using header_search_found [OF assms] by blast
  have "fseek (int (length d) + 2) f = \<lparr>f_bytes = d, f_pos = length d + 2, f_eof = False\<rparr>"
    using f(1) fseek_int [of "length d + 2" f] by (simp add: add.commute)
  moreover have "fseek 0 \<lparr>f_bytes = d, f_pos = p, f_eof = False\<rparr> = at_start d" by (simp add: fseek_def at_start_def)
  ultimately show ?thesis using f by (simp add: written_def temp_file_def open_stream_def Let_def)
qed

lemma int_text_nat: "n < 2 ^ 31 \<Longrightarrow> int_text (int n) = nat_dec n \<and> length (int_text (int n)) \<le> 10"
proof -
  assume n: "n < 2 ^ 31"
  then have "to_int (int n) = int n" unfolding to_int_def sint_sbintrunc' by (simp add: signed_take_bit_int_eq_self)
  moreover have "length (nat_dec n) \<le> 10" using n by (intro dec.print_length_le) simp_all
  ultimately show ?thesis by (simp add: int_text_def Let_def)
qed


text \<open>The list of one file whose length was found is sent like any other.\<close>

lemma written_sent:
  assumes "0 < wm" "Broken \<notin> set es" "Suc (length d) < length (filter (\<lambda>e. e \<noteq> WouldBlock) es)"
    "n_outs n = [written d p]" "\<not> n_dynvar n" "n_stat n = 4" "n_readsize n = 0" "\<not> n_skipped n" "n_whead n = int h"
    "0 \<le> n_range n"
  shows "\<exists>n'. output_loop wm n es = Inr (n', drop (if n_range n > 0 then nat (n_range n) + h else 0) d) \<and> n_stat n' = 5"
proof -
  have u: "unsent (written d p) = d" "file_inv (written d p)"
    by (simp_all add: unsent_def s_data_def file_inv_def written_def temp_file_def open_stream_def)
  have n: "node_inv n" "work n = Suc (Suc (length d))"
    "pending n = drop (if n_range n > 0 then nat (n_range n) + h else 0) d"
    using assms(4-) u by (auto simp: node_inv_def work_def pending_def skipping_def Let_def nat_add_distrib add.commute)
  obtain n' out where n': "output_loop wm n es = Inr (n', out)" "node_inv n'" "pending n = out @ pending n'" "n_stat n' = 5"
    using output_loop_pending [OF n(1) assms(1,2)] n(2) assms(3) by auto
  then have "pending n' = []" by (simp add: node_inv_def pending_def Let_def)
  then show ?thesis using n' n(3) by auto
qed

text \<open>The lines of an answer without and with a range.\<close>

lemma answer_lines_ok:
  assumes "w_len w = int (length d)" "n_whead (w_out w) = int h" "h \<le> length d" "0 \<le> n_range (w_out w)" "\<not> n_dynvar (w_out w)"
    "n_range (w_out w) > 0 \<Longrightarrow> th \<noteq> []" "length d < 2 ^ 31"
  shows "\<exists>w'. answer_lines e th w = Inr w' \<and> w_out w' = (w_out w)\<lparr>n_stat := 4\<rparr> \<and>
    (h + nat (n_range (w_out w)) < length d \<longrightarrow>
      ''Content-length: '' @ nat_dec (length (drop (h + nat (n_range (w_out w))) d)) @ http_crlf \<in> set (w_lines w'))"
proof -
  define left where "left = length (drop (h + nat (n_range (w_out w))) d)"
  have l: "h + nat (n_range (w_out w)) < length d \<Longrightarrow> w_len w - n_whead (w_out w) - n_range (w_out w) = int left"
    using assms(1,2,3,4) by (simp add: left_def) 
  have "left < 2 ^ 31" using assms(7) by (simp add: left_def)
  note t = int_text_nat [OF this]
  have "take 511 (''Content-length: '' @ int_text (int left) @ http_crlf) = ''Content-length: '' @ nat_dec left @ http_crlf"
  proof -
    have "length (nat_dec left) \<le> 10" using t by metis
    then have "length (''Content-length: '' @ int_text (int left) @ http_crlf) \<le> 511" using t by (simp add: http_crlf_def)
    then show ?thesis using t by (simp only: take_all)
  qed
  then show ?thesis unfolding left_def [symmetric] using assms l
    by (auto simp: answer_lines_def Let_def writef_def server_lines_def set_stat_def split: option.splits)
qed


text \<open>
  C5. When a function handler with the flag \<open>WS_USELEN\<close> writes one page whose header ends in its
  first 796 bytes, the answer announces exactly the bytes that follow: without a range the client
  gets the whole page, with one it gets the page's body from the range on, in either case in
  order and to the end, and \<open>Content-length\<close> is the number of the body's bytes among them.
\<close>

theorem announced_length_is_sent:
  assumes "getreq (e_base e) buf = Inr (Some r)" "select_handler (e_local e) (Some r) gs = Chosen g"
    "init_clientinfo (e_base e) buf = Inr ci" "sv_type g = GH_FUNCTION" "has_flag (sv_flag g) WS_USELEN"
    "\<not> has_flag (sv_flag g) WS_DYNVAR" "e_tmpname e" "e_reopen e" "e_stream e"
    "\<And>w. w_out (run g ci w) = (w_out w)\<lparr>n_outs := [written d (length d)]\<rparr> \<and> w_len (run g ci w) = w_len w"
    "nul_free d" "header_pos d = Some k" "0 \<le> rng" "rng \<le> int (length d - (k + 4))" "length d < 2 ^ 31"
    "0 < wm" "Broken \<notin> set es" "Suc (length d) < length (filter (\<lambda>e. e \<noteq> WouldBlock) es)"
  shows "\<exists>w n'. process_client (Suc (Suc (Suc fuel))) run e buf gs (fresh_web vars rng) = Inr w \<and>
    output_loop wm (w_out w) es = Inr (n', if rng > 0 then drop (k + 4 + nat rng) d else d) \<and> n_stat n' = 5 \<and>
    (k + 4 + nat rng < length d \<longrightarrow>
      ''Content-length: '' @ nat_dec (length (drop (k + 4 + nat rng) d)) @ http_crlf \<in> set (w_lines w))"
proof -
  define w1 where "w1 = run g ci (fresh_web vars rng\<lparr>w_out := (new_answer [] False vars rng 0)\<lparr>n_outs := [temp_file]\<rparr>\<rparr>)"
  have w1: "w_out w1 = (new_answer [] False vars rng 0)\<lparr>n_outs := [written d (length d)]\<rparr>" "w_len w1 = 0"
    using assms(10) by (simp_all add: w1_def fresh_web_def)
  define w2 where "w2 = w1\<lparr>w_len := int (length d), w_out := (w_out w1)\<lparr>n_outs := [written d (length d + 2)], n_whead := int (k + 4)\<rparr>\<rparr>"
  define th where "th = (if rng > 0 then take (k + 4) d else [])"
  have k: "k + 4 \<le> length d" using c_strstr_Some [OF assms(12) [unfolded header_pos_def]] by simp
  then have th: "rng > 0 \<Longrightarrow> th \<noteq> []" by (auto simp: th_def)
  have rr: "refuse_range e w2 = None" using assms(14) k by (simp add: refuse_range_def w2_def w1(1) new_answer_def Let_def)
  have one: "(fresh_web vars rng)\<lparr>w_out := (w_out (fresh_web vars rng))\<lparr>n_dynvar := False\<rparr>\<rparr> = fresh_web vars rng"
    "(fresh_web vars rng)\<lparr>w_out := (w_out (fresh_web vars rng))\<lparr>n_outs := n_outs (w_out (fresh_web vars rng)) @ [temp_file]\<rparr>\<rparr> =
      fresh_web vars rng\<lparr>w_out := (new_answer [] False vars rng 0)\<lparr>n_outs := [temp_file]\<rparr>\<rparr>"
    by (simp_all add: fresh_web_def new_answer_def)
  have sl: "stream_lengths (Suc (Suc (Suc fuel))) (n_range (w_out w1)) (n_outs (w_out w1)) (n_whead (w_out w1)) (w_len w1) 0 [] =
      Inr ([written d (length d + 2)], int (k + 4), int (length d), th)"
    using stream_lengths_written [OF assms(11,12), of fuel rng "length d"] unfolding th_def w1 by (simp add: new_answer_def)
  have "run_handler run e buf g (fresh_web vars rng\<lparr>w_out := (new_answer [] False vars rng 0)\<lparr>n_outs := [temp_file]\<rparr>\<rparr>) = Inr w1"
    using assms(3,4) by (simp add: run_handler_def w1_def)
  then have "serve (Suc (Suc (Suc fuel))) run e buf g (fresh_web vars rng) = answer_lines e th w2"
    using assms(5-9) rr by (simp add: serve_def Let_def one sl w2_def del: stream_lengths.simps)
  then have pc: "process_client (Suc (Suc (Suc fuel))) run e buf gs (fresh_web vars rng) = answer_lines e th w2"
    using assms(1,2) by (simp add: process_client_def)
  obtain w where w: "answer_lines e th w2 = Inr w" "w_out w = (w_out w2)\<lparr>n_stat := 4\<rparr>"
    "k + 4 + nat (n_range (w_out w2)) < length d \<longrightarrow>
      ''Content-length: '' @ nat_dec (length (drop (k + 4 + nat (n_range (w_out w2))) d)) @ http_crlf \<in> set (w_lines w)"
    using answer_lines_ok [of w2 d "k + 4" th e] th k assms(13,15) by (auto simp: w2_def w1 new_answer_def)
  have rng: "n_range (w_out w2) = rng" by (simp add: w2_def w1 new_answer_def)
  have "\<exists>n'. output_loop wm (w_out w) es = Inr (n', drop (if n_range (w_out w) > 0 then nat (n_range (w_out w)) + (k + 4) else 0) d) \<and>
      n_stat n' = 5"
    by (rule written_sent [OF assms(16-18)]) (use assms(13) in \<open>simp_all add: w(2) w2_def w1 new_answer_def\<close>)
  then show ?thesis using pc w rng by (auto simp: add.commute)
qed


text \<open>A small server: one page for every request.\<close>

definition small_page :: "char list" where
  "small_page = CHR ''A'' # END_OF_HEADER @ ''hi''"

definition small_handler :: served where
  "small_handler = \<lparr>sv_str = ''* /'', sv_type = 0, sv_hdl = HFunc None, sv_flag = 16\<rparr>"

definition small_request :: "char list" where
  "small_request = ''GET / HTTP'' @ [CR, LF, NUL]"

definition small_world :: surroundings where
  "small_world = \<lparr>e_base = 0, e_local = False, e_tmpname = True, e_reopen = True, e_stream = True, e_server = ''lws'', e_date = ''today''\<rparr>"

definition small_run :: "served \<Rightarrow> client_info \<Rightarrow> web_node \<Rightarrow> web_node" where
  "small_run g ci w = w\<lparr>w_out := (w_out w)\<lparr>n_outs := [written small_page (length small_page)]\<rparr>\<rparr>"

definition small_info :: client_info where
  "small_info = \<lparr>ci_request = ''/'', ci_method = ''GET'', ci_user = [], ci_pass = [],
     ci_querystring = [], ci_postdata = [], ci_headers = [(''Cookie'', [])], ci_cookiestring = []\<rparr>"

lemma small_facts:
  "getreq 0 small_request = Inr (Some ''GET /'')"
  "select_handler False (Some ''GET /'') [small_handler] = Chosen small_handler"
  "init_clientinfo 0 small_request = Inr small_info"
  "header_pos small_page = Some 1"
  "has_flag (sv_flag small_handler) WS_USELEN"
  "\<not> has_flag (sv_flag small_handler) WS_DYNVAR"
  by code_simp+

theorem announced_length_is_sent_witness:
  "\<exists>w n'. process_client 3 small_run small_world small_request [small_handler] (fresh_web [] 1) = Inr w \<and>
    output_loop 4 (w_out w) (replicate 20 (Sent 0)) = Inr (n', ''i'') \<and> n_stat n' = 5 \<and>
    ''Content-length: '' @ ''1'' @ http_crlf \<in> set (w_lines w)"
proof -
  have d: "length small_page = 7" "nul_free small_page" "drop 6 small_page = ''i''"
    by (simp_all add: small_page_def nul_free_def)
  have dec1: "nat_dec 1 = ''1''" by code_simp
  show ?thesis
    using announced_length_is_sent [of small_world small_request "''GET /''" "[small_handler]" small_handler small_info small_run
        small_page 1 1 4 "replicate 20 (Sent 0)" 0 "[]"] small_facts d dec1
    by (simp add: small_world_def small_handler_def small_run_def numeral_3_eq_3)
qed

end
