(* ===== verification/LwsServer.thy ===== *)
theory LwsServer
  imports LwsProcess
begin

unbundle bit_operations_syntax

text \<open>
  The server of \<open>tools/libwebserver/src/server.c\<close>: its configuration, its handlers, and the main
  loop that accepts clients and serves each of them to the end.
\<close>

section \<open>Clients and servers\<close>

record client =
  cl_socket :: int
  cl_conn :: conn

record web_server =
  ws_socket :: int
  ws_highsocket :: int
  ws_flags :: int
  ws_port :: u32
  ws_running :: bool
  ws_conffile :: "cstr option"
  ws_dataconf :: cstr
  ws_logfile :: "cstr option"
  ws_mimefile :: "cstr option"
  ws_handlers :: "served list"
  ws_clients :: "client list"

section \<open>Configuration\<close>

text \<open>\<open>web_server_getconf\<close> searches like \<open>Conf\<close>, but has no value for a missing key.\<close>

definition getconf :: "u64 \<Rightarrow> cstr \<Rightarrow> cstr \<Rightarrow> cstr \<Rightarrow> fault + cstr option" where
  "getconf base conf topic k =
     bind_res (stristr base conf topic) (\<lambda>d. case d of
       None \<Rightarrow> Inr None
     | Some d \<Rightarrow>
         bind_res (find_key base conf k (d + length topic)) (\<lambda>r. case r of
           None \<Rightarrow> Inr None
         | Some t \<Rightarrow>
             let p = t + length k + 1 in
             bind_res (stristr (base + of_nat p) (drop p conf) [LF]) (\<lambda>e.
               Inr (Some (case e of None \<Rightarrow> drop p conf | Some n \<Rightarrow> take n (drop p conf))))))"

text \<open>
  \<open>web_server_setup\<close>: what the configuration file holds, if it can be opened, and the
  address of its copy.  Allocation succeeds and the library is built without SSL.
\<close>

definition set_local :: "cstr option \<Rightarrow> int \<Rightarrow> int" where
  "set_local v fl =
     (case v of None \<Rightarrow> fl
      | Some s \<Rightarrow> if at0 s = CHR ''1'' then fl OR WS_LOCAL else if at0 s = CHR ''0'' then fl AND NOT WS_LOCAL else fl)"

definition web_server_setup :: "u64 \<Rightarrow> cstr \<Rightarrow> char list option \<Rightarrow> web_server \<Rightarrow> fault + (bool \<times> web_server)" where
  "web_server_setup base conffile content s =
     (let s = s\<lparr>ws_conffile := Some conffile\<rparr> in
      case content of
        None \<Rightarrow> Inr (False, s\<lparr>ws_dataconf := []\<rparr>)
      | Some text \<Rightarrow>
          let conf = upto_nul text in
          bind_res (getconf base conf ''LIBWEBSERVER'' ''LOG'') (\<lambda>log.
          bind_res (getconf base conf ''LIBWEBSERVER'' ''PORT'') (\<lambda>port.
          bind_res (getconf base conf ''LIBWEBSERVER'' ''LOCAL'') (\<lambda>loc.
          Inr (True, s\<lparr>ws_dataconf := conf, ws_logfile := log,
            ws_port := (case port of None \<Rightarrow> 0 | Some v \<Rightarrow> word_of_int (to_int (c_atoi v))),
            ws_flags := set_local loc (ws_flags s)\<rparr>)))))"

section \<open>Handlers\<close>

abbreviation "WS_USEEXTCONF \<equiv> 4 :: int"

text \<open>The server's flags are put into a handler's by exclusive or.\<close>

definition handler_flag :: "int \<Rightarrow> int \<Rightarrow> int" where
  "handler_flag sflags fl =
     (let fl = fl XOR (sflags AND WS_LOCAL); fl = fl XOR (sflags AND WS_DYNVAR) in fl XOR (sflags AND WS_USELEN))"

definition web_server_addhandler :: "web_server \<Rightarrow> cstr \<Rightarrow> nat option \<Rightarrow> int \<Rightarrow> web_server" where
  "web_server_addhandler s mstr func fl =
     s\<lparr>ws_handlers := ws_handlers s @
       [\<lparr>sv_str = mstr, sv_type = GH_FUNCTION, sv_hdl = HFunc func, sv_flag = handler_flag (ws_flags s) fl\<rparr>]\<rparr>"

definition alias_pattern :: "cstr \<Rightarrow> cstr" where
  "alias_pattern str = (if str = [] then ''* /*'' else take (length str + 6) (''* /'' @ str @ ''/*''))"

definition web_server_aliasdir :: "web_server \<Rightarrow> cstr \<Rightarrow> nat \<Rightarrow> int \<Rightarrow> web_server" where
  "web_server_aliasdir s str path fl =
     s\<lparr>ws_handlers := ws_handlers s @
       [\<lparr>sv_str = alias_pattern str, sv_type = GH_DIRECTORY, sv_hdl = HPath path, sv_flag = handler_flag (ws_flags s) fl\<rparr>]\<rparr>"

text \<open>\<open>web_server_init\<close>; \<open>sock\<close> is the listening socket or - 1, \<open>logo\<close> the built-in handler.\<close>

definition web_server_init :: "u64 \<Rightarrow> nat option \<Rightarrow> int \<Rightarrow> char list option \<Rightarrow> int \<Rightarrow> cstr option \<Rightarrow> int \<Rightarrow>
    fault + web_server option" where
  "web_server_init base logo sock content port logfile fl =
     (let s = \<lparr>ws_socket = 0, ws_highsocket = 0, ws_flags = fl, ws_port = word_of_int port, ws_running = False, ws_conffile = None,
        ws_dataconf = [], ws_logfile = None, ws_mimefile = None, ws_handlers = [], ws_clients = []\<rparr>;
          ext = has_flag fl WS_USEEXTCONF
      in bind_res
          (if ext then (case logfile of None \<Rightarrow> Inl NullDeref | Some f \<Rightarrow> web_server_setup base f content s) else Inr (True, s))
          (\<lambda>(ok, s).
            if \<not> ok \<or> sock = - 1 then Inr None
            else
              let s = s\<lparr>ws_socket := sock\<rparr>;
                  s = (if logfile \<noteq> None \<and> \<not> ext then s\<lparr>ws_logfile := logfile\<rparr> else s)
              in Inr (Some (web_server_addhandler s ''* /libwebserver.gif'' logo 0))))"

section \<open>The main loop\<close>

text \<open>\<open>build_select_list\<close>: the sockets to wait for, and the highest of all so far.\<close>

definition build_select_list :: "web_server \<Rightarrow> web_server \<times> int list" where
  "build_select_list s =
     (s\<lparr>ws_highsocket := foldl (\<lambda>h c. if cl_socket c > h then cl_socket c else h) (ws_highsocket s) (ws_clients s)\<rparr>,
      ws_socket s # map cl_socket (ws_clients s))"

definition add_client :: "client \<Rightarrow> web_server \<Rightarrow> web_server" where
  "add_client c s = s\<lparr>ws_clients := ws_clients s @ [c]\<rparr>"

definition handle_new_connection :: "int \<Rightarrow> char \<Rightarrow> web_server \<Rightarrow> web_server" where
  "handle_new_connection sock tail s = add_client \<lparr>cl_socket = sock, cl_conn = new_conn tail\<rparr> s"

text \<open>
  What the world does during the service of a client: the answers of \<open>read\<close> and \<open>send\<close>, the
  surroundings, and the handlers' code.
\<close>

record visit =
  v_base :: u64
  v_reads :: "read_event list"
  v_sends :: "send_event list"
  v_world :: surroundings
  v_fuel :: nat

datatype service = Dropped | Refused "cstr list" | Answered "cstr list" "char list"

text \<open>
  The service of a ready client: read until the state changes, process, send until the state
  changes.  When the events do not suffice the server is still busy with this client.
\<close>

definition serve_client :: "nat \<Rightarrow> (served \<Rightarrow> client_info \<Rightarrow> web_node \<Rightarrow> web_node) \<Rightarrow> served list \<Rightarrow> visit \<Rightarrow> client \<Rightarrow>
    fault + service" where
  "serve_client wm run gs v c =
     bind_res (read_loop (v_base v) (cl_conn c) (v_reads v)) (\<lambda>(n, es).
     if c_stat n = 1 then Inl OutOfFuel
     else if c_stat n = 5 then Inr Dropped
     else
       bind_res (process_client (v_fuel v) run (v_world v) (c_buf n) gs (fresh_web [] (c_range n))) (\<lambda>w.
       if n_stat (w_out w) = 5 then Inr (Refused (w_lines w))
       else
         bind_res (output_loop wm (w_out w) (v_sends v)) (\<lambda>(m, d).
         if n_stat m = 4 then Inl OutOfFuel else Inr (Answered (w_lines w) d))))"

text \<open>The walk over the list: a ready client is served and deleted, the others stay.\<close>

fun visit_clients :: "nat \<Rightarrow> (served \<Rightarrow> client_info \<Rightarrow> web_node \<Rightarrow> web_node) \<Rightarrow> served list \<Rightarrow> (int \<Rightarrow> visit) \<Rightarrow> int set \<Rightarrow>
    client list \<Rightarrow> fault + (client list \<times> (int \<times> service) list)" where
  "visit_clients wm run gs v socks [] = Inr ([], [])"
| "visit_clients wm run gs v socks (c # cs) =
     (if cl_socket c \<in> socks
      then bind_res (serve_client wm run gs (v (cl_socket c)) c) (\<lambda>r.
        bind_res (visit_clients wm run gs v socks cs) (\<lambda>(ks, rs). Inr (ks, (cl_socket c, r) # rs)))
      else bind_res (visit_clients wm run gs v socks cs) (\<lambda>(ks, rs). Inr (c # ks, rs)))"

definition read_socks :: "nat \<Rightarrow> (served \<Rightarrow> client_info \<Rightarrow> web_node \<Rightarrow> web_node) \<Rightarrow> (int \<Rightarrow> visit) \<Rightarrow> int set \<Rightarrow> int \<Rightarrow> char \<Rightarrow>
    web_server \<Rightarrow> fault + (web_server \<times> (int \<times> service) list)" where
  "read_socks wm run v socks newsock tail s =
     (let s = (if ws_socket s \<in> socks then handle_new_connection newsock tail s else s) in
      bind_res (visit_clients wm run (ws_handlers s) v socks (ws_clients s)) (\<lambda>(ks, rs). Inr (s\<lparr>ws_clients := ks\<rparr>, rs)))"


section \<open>A round of the main loop\<close>

lemma visit_clients_kept:
  "visit_clients wm run gs v socks cs = Inr (ks, rs) \<Longrightarrow>
   ks = filter (\<lambda>c. cl_socket c \<notin> socks) cs \<and> map fst rs = map cl_socket (filter (\<lambda>c. cl_socket c \<in> socks) cs)"
proof (induction cs arbitrary: ks rs)
  case (Cons c cs)
  then show ?case by (fastforce simp: bind_res_eq_Inr split: if_splits)
qed simp

lemma visit_clients_all:
  "(\<And>c. c \<in> set cs \<Longrightarrow> cl_socket c \<in> socks \<Longrightarrow> serve_client wm run gs (v (cl_socket c)) c = Inr (r c)) \<Longrightarrow>
   visit_clients wm run gs v socks cs =
     Inr (filter (\<lambda>c. cl_socket c \<notin> socks) cs, map (\<lambda>c. (cl_socket c, r c)) (filter (\<lambda>c. cl_socket c \<in> socks) cs))"
  by (induction cs) auto



section \<open>The server's state between two rounds\<close>

text \<open>
  A round: the sockets of the select list that are ready, an accepted connection with a new
  socket, and the services.  Nothing happens when no socket is ready.
\<close>

inductive server_step :: "nat \<Rightarrow> (served \<Rightarrow> client_info \<Rightarrow> web_node \<Rightarrow> web_node) \<Rightarrow> web_server \<Rightarrow> web_server \<Rightarrow> bool"
  for wm run where
  server_idle: "ws_running s \<Longrightarrow> build_select_list s = (s', socks) \<Longrightarrow> server_step wm run s s'"
| server_round: "ws_running s \<Longrightarrow> build_select_list s = (s', socks) \<Longrightarrow> ready \<subseteq> set socks \<Longrightarrow> newsock \<notin> set socks \<Longrightarrow>
    read_socks wm run v ready newsock tail s' = Inr (s'', rs) \<Longrightarrow> server_step wm run s s''"
| server_stop: "server_step wm run s (s\<lparr>ws_running := False\<rparr>)"

inductive server_reach :: "nat \<Rightarrow> (served \<Rightarrow> client_info \<Rightarrow> web_node \<Rightarrow> web_node) \<Rightarrow> web_server \<Rightarrow> web_server \<Rightarrow> bool"
  for wm run s where
  server_run: "server_reach wm run s (s\<lparr>ws_highsocket := ws_socket s, ws_running := True\<rparr>)"
| server_next: "server_reach wm run s t \<Longrightarrow> server_step wm run t u \<Longrightarrow> server_reach wm run s u"

inductive_cases server_stepE: "server_step wm run t u"

definition server_inv :: "web_server \<Rightarrow> web_server \<Rightarrow> bool" where
  "server_inv s t \<longleftrightarrow> ws_handlers t = ws_handlers s \<and> ws_socket t = ws_socket s \<and>
     (\<forall>c \<in> set (ws_clients t). \<exists>tail. cl_conn c = new_conn tail) \<and>
     distinct (ws_socket t # map cl_socket (ws_clients t))"

lemma select_list_frame:
  "build_select_list s = (s', socks) \<Longrightarrow> server_inv t s \<Longrightarrow>
   server_inv t s' \<and> socks = ws_socket s # map cl_socket (ws_clients s) \<and> ws_clients s' = ws_clients s \<and> ws_socket s' = ws_socket s"
  by (auto simp: build_select_list_def server_inv_def)

lemma select_list_high:
  "build_select_list s = (s', socks) \<Longrightarrow> c \<in> set (ws_clients s) \<Longrightarrow> cl_socket c \<le> ws_highsocket s'"
proof -
  have mono: "h \<le> foldl (\<lambda>h c. if cl_socket c > h then cl_socket c else h) h cs" for h :: int and cs
    by (induction cs arbitrary: h) (auto intro: order_trans less_imp_le)
  have "c \<in> set cs \<Longrightarrow> cl_socket c \<le> foldl (\<lambda>h c. if cl_socket c > h then cl_socket c else h) h cs" for h :: int and cs
    by (induction cs arbitrary: h) (auto intro: order_trans [OF _ mono])
  then show "build_select_list s = (s', socks) \<Longrightarrow> c \<in> set (ws_clients s) \<Longrightarrow> cl_socket c \<le> ws_highsocket s'"
    by (auto simp: build_select_list_def)
qed

lemma read_socks_inv:
  assumes "server_inv t s" "newsock \<notin> set (ws_socket s # map cl_socket (ws_clients s))"
    "read_socks wm run v ready newsock tail s = Inr (s', rs)"
  shows "server_inv t s'"
proof -
  let ?s = "if ws_socket s \<in> ready then handle_new_connection newsock tail s else s"
  have inv: "server_inv t ?s" using assms(1,2) by (auto simp: server_inv_def handle_new_connection_def add_client_def)
  obtain ks where ks: "visit_clients wm run (ws_handlers ?s) v ready (ws_clients ?s) = Inr (ks, rs)" "s' = ?s\<lparr>ws_clients := ks\<rparr>"
    using assms(3) by (auto simp: read_socks_def bind_res_eq_Inr Let_def)
  have "ks = filter (\<lambda>c. cl_socket c \<notin> ready) (ws_clients ?s)" using visit_clients_kept [OF ks(1)] by blast
  then show ?thesis using inv unfolding ks(2) server_inv_def by (auto simp: distinct_map_filter)
qed




section \<open>Flags\<close>

text \<open>A flag of the server turns the handler's flag over.\<close>

lemma handler_flag_bits:
  "bit (handler_flag sflags fl) n = (if n \<in> {0, 3, 4} then bit sflags n \<noteq> bit fl n else bit fl n)"
proof -
  have "bit (1 :: int) n = (n = 0)" "bit (8 :: int) n = (n = 3)" "bit (16 :: int) n = (n = 4)"
    using bit_push_bit_iff [of 0 "1 :: int" n] bit_push_bit_iff [of 3 "1 :: int" n] bit_push_bit_iff [of 4 "1 :: int" n]
    by (auto simp: push_bit_eq_mult bit_1_iff)
  then show ?thesis by (auto simp: handler_flag_def Let_def bit_xor_iff bit_and_iff)
qed

lemma has_flag_bit: "has_flag fl 1 = bit fl 0"
proof -
  have "has_flag fl 1 = odd fl" by (simp add: has_flag_def and_one_eq mod_2_eq_odd)
  then show ?thesis by (simp add: bit_0)
qed

text \<open>
  A handler that is registered as local on a server that is local as a whole is not local:
  the flags are combined by exclusive or, and a client from anywhere runs it.
\<close>

theorem local_twice_is_public:
  assumes "has_flag (ws_flags s) WS_LOCAL" "has_flag fl WS_LOCAL" "ws_handlers s = []" "length r \<le> MAXURLSIZE"
    "fnmatch match_flags (take (MATCHMAX - 1) mstr) [] r"
  shows "\<exists>g. select_handler False (Some r) (ws_handlers (web_server_addhandler s mstr func fl)) = Chosen g \<and> sv_hdl g = HFunc func"
  using assms by (simp add: web_server_addhandler_def serves_def has_flag_bit handler_flag_bits)

theorem local_twice_is_public_witness:
  "\<exists>g. select_handler False (Some ''GET /admin'') (ws_handlers (web_server_addhandler
      \<lparr>ws_socket = 3, ws_highsocket = 3, ws_flags = 1, ws_port = 80, ws_running = False, ws_conffile = None, ws_dataconf = [],
       ws_logfile = None, ws_mimefile = None, ws_handlers = [], ws_clients = []\<rparr> ''* /admin'' (Some 7) 1)) = Chosen g \<and>
     sv_hdl g = HFunc (Some 7)"
proof -
  have "fnmatch match_flags (take (MATCHMAX - 1) ''* /admin'') [] ''GET /admin''" by code_simp
  then show ?thesis by (intro local_twice_is_public) (simp_all add: has_flag_def MAXURLSIZE_def)
qed

text \<open>
  A connection that sends nothing is read until the counter of tries overflows: the test of the
  timeout is only made when there is data.
\<close>

lemma nothing_sent_never_ends:
  "c_stat n = 1 \<Longrightarrow> c_data n = [] \<Longrightarrow> c_try n + k < 2 ^ 31 \<Longrightarrow>
   read_loop base n (replicate k Again) = Inr (n\<lparr>c_try := c_try n + k\<rparr>, [])"
  by (induction k arbitrary: n) (simp_all add: Let_def)

lemma nothing_sent_overflows:
  "c_stat n = 1 \<Longrightarrow> c_data n = [] \<Longrightarrow> c_try n + 1 = 2 ^ 31 \<Longrightarrow> read_client base n Again = Inl IntOverflow"
  by simp

text \<open>
  Without \<open>HTTP\<close> and a query in the request the copy runs out of the buffer whenever the
  address makes the size positive and greater than the buffer.
\<close>

lemma getreq_without_http:
  assumes "strstr_at buf 0 ''?'' = Inr None" "strstr_at buf 0 '' HTTP'' = Inr None" "strstr_at buf 0 [CR, LF] = Inr p"
    "sint (ucast (- base) :: u32) > int (length buf)"
  shows "getreq base buf = Inl OutOfBounds"
  using assms by (simp add: getreq_def ptr_gt_def copy_out_def Let_def nat_le_iff)

end
