(* ===== verification/ApacheUrl.thy ===== *)
theory ApacheUrl
  imports LwsDecode
begin

unbundle bit_operations_syntax

text \<open>
  The parameters of a request in \<open>webconnect/apache2/apache_request.c\<close>: escapes in URLs with
  the Unicode form, words of a query, the table of parameters.
  The functions of the Apache library are parameters of the model.
\<close>

section \<open>Escapes\<close>

definition req_plustospace :: "cstr \<Rightarrow> cstr" where
  "req_plustospace str = map (\<lambda>c. if c = CHR ''+'' then SPACE else c) str"

text \<open>\<open>x2c\<close>: the arithmetic is on \<open>char\<close>, so modulo 256.\<close>

definition x2c_digit :: "char \<Rightarrow> int" where
  "x2c_digit c =
     (if schar c \<ge> schar (CHR ''A'') then int (code c AND 0xdf) - schar (CHR ''A'') + 10 else schar c - schar (CHR ''0''))"

definition x2c :: "char \<Rightarrow> char \<Rightarrow> char" where
  "x2c a b = char_of (nat ((x2c_digit a * 16 + x2c_digit b) mod 256))"

text \<open>Up to four hexadecimal digits, letters made small; 0 when there is another character.\<close>

fun utf8_convert :: "nat \<Rightarrow> char list \<Rightarrow> nat \<Rightarrow> nat \<Rightarrow> fault + (char list \<times> nat)" where
  "utf8_convert 0 str i x = Inr (str, x)"
| "utf8_convert (Suc k) str i x =
     bind_res (rd str i) (\<lambda>c.
     if \<not> c_isxdigit c then Inr (str, 0)
     else if c_isdigit c then utf8_convert k str (i + 1) (x * 16 + (code c - 48))
     else bind_res (wr str i (c_tolower c)) (\<lambda>str. utf8_convert k str (i + 1) (x * 16 + (code (c_tolower c) - 97 + 10))))"

definition utf8_bytes :: "nat \<Rightarrow> nat list" where
  "utf8_bytes c =
     (if c < 0x80 then [c]
      else if c < 0x800 then [0xc0 OR drop_bit 6 c, 0x80 OR (c AND 0x3f)]
      else if c < 0x10000 then [0xe0 OR drop_bit 12 c, 0x80 OR (drop_bit 6 c AND 0x3f), 0x80 OR (c AND 0x3f)]
      else if c < 0x200000
      then [0xf0 OR drop_bit 18 c, 0x80 OR (drop_bit 12 c AND 0x3f), 0x80 OR (drop_bit 6 c AND 0x3f), 0x80 OR (c AND 0x3f)]
      else if c < 0x4000000
      then [0xf8 OR drop_bit 24 c, 0x80 OR (drop_bit 18 c AND 0x3f), 0x80 OR (drop_bit 12 c AND 0x3f),
        0x80 OR (drop_bit 6 c AND 0x3f), 0x80 OR (c AND 0x3f)]
      else if c < 0x8000000
      then [0xfe OR drop_bit 30 c, 0x80 OR (drop_bit 24 c AND 0x3f), 0x80 OR (drop_bit 18 c AND 0x3f),
        0x80 OR (drop_bit 12 c AND 0x3f), 0x80 OR (drop_bit 6 c AND 0x3f), 0x80 OR (c AND 0x3f)]
      else [])"

text \<open>Characters written from a position on.\<close>

fun wr_list :: "char list \<Rightarrow> nat \<Rightarrow> char list \<Rightarrow> fault + char list" where
  "wr_list b x [] = Inr b"
| "wr_list b x (c # cs) = bind_res (wr b x c) (\<lambda>b. wr_list b (x + 1) cs)"

text \<open>
  The loop of \<open>ap_unescape_url_u\<close> on the bytes of the string and its NUL; \<open>x\<close> is where the next
  character is put, \<open>y\<close> where it is taken from.
\<close>

fun unescape_loop :: "nat \<Rightarrow> char list \<Rightarrow> nat \<Rightarrow> nat \<Rightarrow> bool \<Rightarrow> bool \<Rightarrow> fault + (char list \<times> nat \<times> bool \<times> bool)" where
  "unescape_loop 0 url x y badesc badpath = Inl OutOfFuel"
| "unescape_loop (Suc fuel) url x y badesc badpath =
     bind_res (rd url y) (\<lambda>c.
     if c = NUL then Inr (url, x, badesc, badpath)
     else if c \<noteq> CHR ''%'' then bind_res (wr url x c) (\<lambda>url. unescape_loop fuel url (x + 1) (y + 1) badesc badpath)
     else bind_res (rd url (y + 1)) (\<lambda>c1.
       if c1 = CHR ''u'' \<or> c1 = CHR ''U''
       then bind_res (utf8_convert 4 url (y + 2) 0) (\<lambda>(url, c).
         let bs = map char_of (utf8_bytes c) in
         bind_res (wr_list url x bs) (\<lambda>url. unescape_loop fuel url (x + max 1 (length bs)) (y + 6) badesc badpath))
       else bind_res (if c_isxdigit c1 then bind_res (rd url (y + 2)) (\<lambda>c2. Inr (if c_isxdigit c2 then Some c2 else None)) else Inr None)
         (\<lambda>r. case r of
            None \<Rightarrow> bind_res (wr url x (CHR ''%'')) (\<lambda>url. unescape_loop fuel url (x + 1) (y + 1) True badpath)
          | Some c2 \<Rightarrow>
              let d = x2c c1 c2 in
              bind_res (wr url x d) (\<lambda>url.
                unescape_loop fuel url (x + 1) (y + 3) badesc (badpath \<or> d = CHR ''/'' \<or> d = NUL)))))"

abbreviation "HTTP_OK \<equiv> 200 :: int"
abbreviation "HTTP_BAD_REQUEST \<equiv> 400 :: int"
abbreviation "HTTP_NOT_FOUND \<equiv> 404 :: int"

definition ap_unescape_url_u :: "char list \<Rightarrow> fault + (char list \<times> int)" where
  "ap_unescape_url_u url =
     bind_res (unescape_loop (length url + 1) url 0 0 False False) (\<lambda>(url, x, badesc, badpath).
     bind_res (wr url x NUL) (\<lambda>url.
     Inr (url, if badesc then HTTP_BAD_REQUEST else if badpath then HTTP_NOT_FOUND else HTTP_OK)))"

text \<open>The string that is left in place.\<close>

definition unescaped :: "cstr \<Rightarrow> fault + cstr" where
  "unescaped s = bind_res (ap_unescape_url_u (s @ [NUL])) (\<lambda>(b, r). Inr (upto_nul b))"

section \<open>Words and parameters\<close>

definition is_sep :: "char \<Rightarrow> bool" where
  "is_sep c \<longleftrightarrow> c = CHR '';'' \<or> c = CHR ''&''"

definition my_urlword :: "cstr \<Rightarrow> cstr \<times> cstr" where
  "my_urlword line =
     (let w = takeWhile (\<lambda>c. \<not> is_sep c) line; pos = dropWhile (\<lambda>c. \<not> is_sep c) line in (w, dropWhile is_sep pos))"

text \<open>
  A table of the Apache library is the list of its entries in the order in which they were added.
  \<open>ap_getword\<close> is a parameter.
\<close>

type_synonym ap_table = "(cstr \<times> cstr) list"
type_synonym getword = "char \<Rightarrow> cstr \<Rightarrow> cstr \<times> cstr"

lemma my_urlword_shorter: "line \<noteq> [] \<Longrightarrow> length (snd (my_urlword line)) < length line"
proof -
  assume "line \<noteq> []"
  have le: "length (dropWhile P xs) \<le> length xs" for P and xs :: cstr by (induction xs) auto
  have "is_sep (hd xs) \<Longrightarrow> xs \<noteq> [] \<Longrightarrow> length (dropWhile is_sep xs) < length xs" for xs
    using le [of is_sep "tl xs"] by (cases xs) auto
  moreover have "\<not> is_sep (hd line) \<Longrightarrow> length (dropWhile (\<lambda>c. \<not> is_sep c) line) < length line"
    using le [of "\<lambda>c. \<not> is_sep c" "tl line"] \<open>line \<noteq> []\<close> by (cases line) auto
  moreover have "is_sep (hd line) \<Longrightarrow> dropWhile (\<lambda>c. \<not> is_sep c) line = line" using \<open>line \<noteq> []\<close> by (cases line) auto
  ultimately show ?thesis
    using le [of is_sep "dropWhile (\<lambda>c. \<not> is_sep c) line"] \<open>line \<noteq> []\<close> by (fastforce simp: my_urlword_def Let_def)
qed

function split_to_parms :: "getword \<Rightarrow> cstr \<Rightarrow> ap_table \<Rightarrow> fault + ap_table" where
  "split_to_parms getw data parms =
     (if data = [] then Inr parms
      else let (val, data') = my_urlword data; (k, val) = getw (CHR ''='') val in
        bind_res (unescaped (req_plustospace k)) (\<lambda>k. bind_res (unescaped (req_plustospace val)) (\<lambda>val.
        split_to_parms getw data' (parms @ [(k, val)]))))"
  by pat_completeness auto
termination
  by (relation "measure (\<lambda>(g, d, p). length d)") (simp_all, metis my_urlword_shorter snd_conv)

declare split_to_parms.simps [simp del]


section \<open>What an escaped string stands for\<close>

text \<open>A string of plain characters, escapes of a byte and escapes of a code point.\<close>

datatype token = Lit char | Pct char char | Uni "char list"

fun token_text :: "token \<Rightarrow> cstr" where
  "token_text (Lit c) = [c]"
| "token_text (Pct a b) = [CHR ''%'', a, b]"
| "token_text (Uni ds) = ''%u'' @ ds"

definition hex_value :: "char list \<Rightarrow> nat" where
  "hex_value ds = foldl (\<lambda>a c. a * 16 + hex_val c) 0 ds"

fun token_value :: "token \<Rightarrow> cstr" where
  "token_value (Lit c) = [c]"
| "token_value (Pct a b) = [char_of (hex_value [a, b])]"
| "token_value (Uni ds) = map char_of (utf8_bytes (hex_value ds))"

fun token_ok :: "token \<Rightarrow> bool" where
  "token_ok (Lit c) \<longleftrightarrow> c \<noteq> CHR ''%'' \<and> c \<noteq> NUL"
| "token_ok (Pct a b) \<longleftrightarrow> c_isxdigit a \<and> c_isxdigit b \<and> hex_value [a, b] \<noteq> 0"
| "token_ok (Uni ds) \<longleftrightarrow> length ds = 4 \<and> list_all c_isxdigit ds \<and> hex_value ds \<noteq> 0"

definition slash_token :: "token \<Rightarrow> bool" where
  "slash_token t \<longleftrightarrow> (case t of Pct a b \<Rightarrow> token_value t = ''/'' | _ \<Rightarrow> False)"

lemma wr_mid: "mid \<noteq> [] \<Longrightarrow> wr (out @ mid @ rest) (length out) c = Inr (out @ c # tl mid @ rest)"
  by (cases mid) (simp_all add: wr_def)

lemma wr_list_mid:
  "length bs \<le> length mid \<Longrightarrow> wr_list (out @ mid @ rest) (length out) bs = Inr (out @ bs @ drop (length bs) mid @ rest)"
proof (induction bs arbitrary: out mid)
  case (Cons c bs)
  then obtain m mid' where mid: "mid = m # mid'" by (cases mid) auto
  show ?case using Cons.IH [of mid' "out @ [c]"] Cons.prems wr_mid [of mid out rest c] by (simp add: mid)
qed simp

lemma and_df:
  "65 \<le> n \<Longrightarrow> n \<le> 70 \<Longrightarrow> n AND 0xdf = (n :: nat)"
  "97 \<le> n \<Longrightarrow> n \<le> 102 \<Longrightarrow> n AND 0xdf = n - (32 :: nat)"
proof -
  have "n = 65 \<or> n = 66 \<or> n = 67 \<or> n = 68 \<or> n = 69 \<or> n = 70" if "65 \<le> n" "n \<le> 70" using that by linarith
  then show "65 \<le> n \<Longrightarrow> n \<le> 70 \<Longrightarrow> n AND 0xdf = n" by auto
  have "n = 97 \<or> n = 98 \<or> n = 99 \<or> n = 100 \<or> n = 101 \<or> n = 102" if "97 \<le> n" "n \<le> 102" using that by linarith
  then show "97 \<le> n \<Longrightarrow> n \<le> 102 \<Longrightarrow> n AND 0xdf = n - 32" by auto
qed

lemma code_ne: "code c \<noteq> code d \<Longrightarrow> c \<noteq> d"
  by auto

lemma xdigit_facts:
  assumes "c_isxdigit c"
  shows "x2c_digit c = int (hex_val c)" "hex_val c < 16" "c \<noteq> CHR ''u''" "c \<noteq> CHR ''U''" "c \<noteq> NUL"
    "\<not> c_isdigit c \<Longrightarrow> code (c_tolower c) - 97 + 10 = hex_val c"
proof -
  have A: "schar (CHR ''A'') = 65" "schar (CHR ''0'') = 48" by (simp_all add: schar_def code_def)
  have c: "48 \<le> code c \<and> code c \<le> 57 \<or> 65 \<le> code c \<and> code c \<le> 70 \<or> 97 \<le> code c \<and> code c \<le> 102"
    using assms by (auto simp: c_isxdigit_def c_isdigit_def)
  have low: "65 \<le> code c \<Longrightarrow> code c \<le> 70 \<Longrightarrow> code (c_tolower c) = code c + 32"
    "97 \<le> code c \<Longrightarrow> code c \<le> 102 \<Longrightarrow> code (c_tolower c) = code c"
    by (auto simp: c_tolower_def c_isupper_def)
  have s: "schar c = int (code c)" using c by (auto simp: schar_def)
  show "x2c_digit c = int (hex_val c)"
    using c low and_df [of "code c"] by (auto simp: x2c_digit_def A s hex_val_def c_isdigit_def)
  show "hex_val c < 16" using c low by (auto simp: hex_val_def c_isdigit_def)
  show "c \<noteq> CHR ''u''" "c \<noteq> CHR ''U''" "c \<noteq> NUL" using c by (auto simp: code_def)
  show "\<not> c_isdigit c \<Longrightarrow> code (c_tolower c) - 97 + 10 = hex_val c"
    using c low by (auto simp: hex_val_def c_isdigit_def)
qed


lemma x2c_value: "c_isxdigit a \<Longrightarrow> c_isxdigit b \<Longrightarrow> x2c a b = char_of (hex_value [a, b])"
proof -
  assume ab: "c_isxdigit a" "c_isxdigit b"
  have "hex_val a < 16" "hex_val b < 16" using xdigit_facts(2) ab by auto
  then have "(int (hex_val a) * 16 + int (hex_val b)) mod 256 = int (hex_value [a, b])"
    by (simp add: hex_value_def)
  then show ?thesis by (simp add: x2c_def xdigit_facts(1) ab)
qed

lemma hex_value_less: "list_all c_isxdigit ds \<Longrightarrow> foldl (\<lambda>a c. a * 16 + hex_val c) x ds < (x + 1) * 16 ^ length ds"
proof (induction ds arbitrary: x)
  case (Cons d ds)
  have "foldl (\<lambda>a c. a * 16 + hex_val c) (x * 16 + hex_val d) ds < (x * 16 + hex_val d + 1) * 16 ^ length ds"
    using Cons by simp
  also have "\<dots> \<le> ((x + 1) * 16) * 16 ^ length ds"
    using xdigit_facts(2) [of d] Cons.prems by (intro mult_le_mono1) simp
  finally show ?case by (simp add: algebra_simps)
qed simp

text \<open>Digits are read in place, which may change their case.\<close>

lemma utf8_convert_digits:
  "list_all c_isxdigit ds \<Longrightarrow> \<exists>ds'. length ds' = length ds \<and>
     utf8_convert (length ds) (pre @ ds @ rest) (length pre) x =
       Inr (pre @ ds' @ rest, foldl (\<lambda>a c. a * 16 + hex_val c) x ds)"
proof (induction ds arbitrary: pre x)
  case (Cons d ds)
  define d' where "d' = (if c_isdigit d then d else c_tolower d)"
  obtain ds' where ds': "length ds' = length ds"
    "utf8_convert (length ds) ((pre @ [d']) @ ds @ rest) (length (pre @ [d'])) (x * 16 + hex_val d) =
      Inr ((pre @ [d']) @ ds' @ rest, foldl (\<lambda>a c. a * 16 + hex_val c) (x * 16 + hex_val d) ds)"
    using Cons.IH [of "pre @ [d']"] Cons.prems by auto
  have "utf8_convert (length (d # ds)) (pre @ (d # ds) @ rest) (length pre) x =
      utf8_convert (length ds) ((pre @ [d']) @ ds @ rest) (length (pre @ [d'])) (x * 16 + hex_val d)"
    using Cons.prems xdigit_facts(6) [of d] by (simp add: rd_def wr_def d'_def hex_val_def)
  then show ?case using ds' by (intro exI [of _ "d' # ds'"]) simp
qed simp

lemma utf8_bytes_short:
  "c < 0x10000 \<Longrightarrow> length (utf8_bytes c) \<le> 3 \<and> utf8_bytes c \<noteq> []"
  by (simp add: utf8_bytes_def)

lemma and_3f: "c AND 0x3f = (c mod 64 :: nat)"
proof -
  have "mask 6 = (0x3f :: nat)" by (simp add: mask_eq_exp_minus_1)
  then have "take_bit 6 c = c AND 0x3f" using take_bit_eq_mask [of 6 c] by simp
  then show ?thesis by (simp add: take_bit_eq_mod)
qed

lemma or_byte: "a < 256 \<Longrightarrow> b < 256 \<Longrightarrow> 0 < a \<Longrightarrow> 0 < a OR b \<and> a OR b < (256 :: nat)"
proof -
  assume ab: "a < 256" "b < 256" "0 < a"
  then have "take_bit 8 (a OR b) = a OR b" by (simp add: take_bit_or take_bit_nat_eq_self)
  then have "a OR b < 2 ^ 8" using take_bit_nat_less_exp [of 8 "a OR b"] by simp
  moreover have "a OR b \<noteq> 0" using ab(3) by (simp add: or_eq_0_iff)
  ultimately show ?thesis by simp
qed

lemma utf8_bytes_range:
  assumes "c < 0x10000" "c \<noteq> 0" "b \<in> set (utf8_bytes c)"
  shows "0 < b \<and> b < 256"
proof -
  have c: "c div 64 < 1024" "c div 4096 < 16" "c < 0x800 \<Longrightarrow> c div 64 < 32" using assms(1) by auto
  have d: "drop_bit 6 c = c div 64" "drop_bit 12 c = c div 4096" by (simp_all add: drop_bit_eq_div)
  have m: "c mod 64 < 256" "(c div 64) mod 64 < 256" by (auto intro: less_trans [OF mod_less_divisor])
  show ?thesis
    using assms c m or_byte [where a = "0xc0" and b = "c div 64"] or_byte [where a = "0x80" and b = "c mod 64"] or_byte [where a = "0xe0" and b = "c div 4096"]
      or_byte [where a = "0x80" and b = "(c div 64) mod 64"]
    by (auto simp: utf8_bytes_def d and_3f split: if_splits)
qed

lemma token_short: "token_ok t \<Longrightarrow> length (token_value t) \<le> length (token_text t) \<and> token_value t \<noteq> []"
proof (cases t)
  case (Uni ds)
  assume ok: "token_ok t"
  then have "hex_value ds < 0x10000" using hex_value_less [of ds 0] Uni by (simp add: hex_value_def)
  then show ?thesis using utf8_bytes_short [of "hex_value ds"] Uni ok by simp
qed auto

text \<open>One token: its text in the middle of the buffer becomes its value in front of it.\<close>

lemma unescape_token:
  assumes "token_ok t"
  shows "\<exists>junk'. length out + length junk + length (token_text t) = length out + length (token_value t) + length junk' \<and>
    unescape_loop (Suc fuel) (out @ junk @ token_text t @ rest) (length out) (length out + length junk) be bp =
    unescape_loop fuel (out @ token_value t @ junk' @ rest) (length out + length (token_value t))
      (length out + length junk + length (token_text t)) be (bp \<or> slash_token t)"
proof (cases t)
  case (Lit c)
  have "wr (out @ junk @ c # rest) (length out) c = Inr (out @ c # tl (junk @ [c]) @ rest)"
    using wr_mid [of "junk @ [c]" out rest c] by simp
  moreover have "rd (out @ junk @ c # rest) (length out + length junk) = Inr c"
    by (simp add: rd_def nth_append)
  ultimately show ?thesis using assms Lit
    by (intro exI [of _ "tl (junk @ [c])"]) (simp add: slash_token_def)
next
  case (Pct a b)
  define mid where "mid = junk @ [CHR ''%'', a, b]"
  have r: "rd (out @ junk @ CHR ''%'' # a # b # rest) (length out + length junk) = Inr (CHR ''%'')"
    "rd (out @ junk @ CHR ''%'' # a # b # rest) (length out + length junk + 1) = Inr a"
    "rd (out @ junk @ CHR ''%'' # a # b # rest) (length out + length junk + 2) = Inr b"
    by (simp_all add: rd_def nth_append)
  have "wr (out @ junk @ CHR ''%'' # a # b # rest) (length out) (x2c a b) = Inr (out @ x2c a b # tl mid @ rest)"
    using wr_mid [of mid out rest "x2c a b"] by (simp add: mid_def)
  moreover have "hex_value [a, b] < 256" using hex_value_less [of "[a, b]" 0] assms Pct by (simp add: hex_value_def)
  then have "x2c a b \<noteq> NUL" using assms Pct x2c_value char_of_ne_NUL [of "hex_value [a, b]"] by simp
  moreover have "a \<noteq> CHR ''u''" "a \<noteq> CHR ''U''" using xdigit_facts(3,4) assms Pct by auto
  ultimately show ?thesis using assms Pct r x2c_value [of a b]
    by (intro exI [of _ "tl mid"]) (simp add: slash_token_def mid_def Let_def numeral_3_eq_3)
next
  case (Uni ds)
  define v where "v = hex_value ds"
  define bs where "bs = map char_of (utf8_bytes v)"
  have ok: "length ds = 4" "list_all c_isxdigit ds" using assms Uni by auto
  have v: "v < 0x10000" using hex_value_less [OF ok(2), of 0] ok(1) by (simp add: hex_value_def v_def)
  then have bs: "length bs \<le> 3" "bs \<noteq> []" using utf8_bytes_short by (auto simp: bs_def)
  obtain ds' where ds': "length ds' = 4"
    "utf8_convert 4 (out @ junk @ ''%u'' @ ds @ rest) (length out + length junk + 2) 0 = Inr (out @ junk @ ''%u'' @ ds' @ rest, v)"
    using utf8_convert_digits [OF ok(2), of "out @ junk @ ''%u''" rest 0] ok(1) by (auto simp: v_def hex_value_def)
  define mid where "mid = junk @ ''%u'' @ ds'"
  have w: "wr_list (out @ mid @ rest) (length out) bs = Inr (out @ bs @ drop (length bs) mid @ rest)"
    using bs(1) ds'(1) by (intro wr_list_mid) (simp add: mid_def)
  have r: "rd (out @ junk @ ''%u'' @ ds @ rest) (length out + length junk) = Inr (CHR ''%'')"
    "rd (out @ junk @ ''%u'' @ ds @ rest) (length out + length junk + 1) = Inr (CHR ''u'')"
    by (simp_all add: rd_def nth_append)
  have mx: "max (Suc 0) (length (utf8_bytes v)) = length bs" using bs(2) by (cases "utf8_bytes v") (auto simp: bs_def)
  have "unescape_loop (Suc fuel) (out @ junk @ ''%u'' @ ds @ rest) (length out) (length out + length junk) be bp =
      unescape_loop fuel (out @ bs @ drop (length bs) mid @ rest) (length out + length bs) (length out + length junk + 6) be bp"
    using r ds'(2) w by (simp add: bs_def [symmetric] mx mid_def Let_def)
  then show ?thesis using Uni ok(1) bs(1) ds'(1)
    by (intro exI [of _ "drop (length bs) mid"]) (simp add: bs_def [symmetric] v_def [symmetric] slash_token_def mid_def)
qed


lemma unescape_tokens_loop:
  "list_all token_ok ts \<Longrightarrow> length ts < fuel \<Longrightarrow>
   \<exists>junk'. unescape_loop fuel (out @ junk @ concat (map token_text ts) @ [NUL]) (length out) (length out + length junk) be bp =
     Inr (out @ concat (map token_value ts) @ junk' @ [NUL], length out + length (concat (map token_value ts)), be, bp \<or> list_ex slash_token ts)"
proof (induction ts arbitrary: fuel out junk bp)
  case Nil
  then obtain f where "fuel = Suc f" by (cases fuel) auto
  then show ?case by (auto simp: rd_def nth_append)
next
  case (Cons t ts)
  then obtain f where f: "fuel = Suc f" "length ts < f" by (cases fuel) auto
  obtain junk' where j: "length out + length junk + length (token_text t) = length out + length (token_value t) + length junk'"
    "unescape_loop (Suc f) (out @ junk @ token_text t @ (concat (map token_text ts) @ [NUL])) (length out) (length out + length junk) be bp =
     unescape_loop f (out @ token_value t @ junk' @ (concat (map token_text ts) @ [NUL])) (length out + length (token_value t))
      (length out + length junk + length (token_text t)) be (bp \<or> slash_token t)"
    using unescape_token [of t out junk f "concat (map token_text ts) @ [NUL]" be bp] Cons.prems by auto
  show ?case
    using Cons.IH [of f "out @ token_value t" junk' "bp \<or> slash_token t"] Cons.prems(1) f(2) j
    by (auto simp: f(1) add.assoc)
qed

lemma unescape_tokens_core:
  assumes "list_all token_ok ts"
  shows "unescaped (concat (map token_text ts)) = Inr (concat (map token_value ts)) \<and>
    (\<exists>b. ap_unescape_url_u (concat (map token_text ts) @ [NUL]) =
      Inr (b, if list_ex slash_token ts then HTTP_NOT_FOUND else HTTP_OK))"
proof -
  define body where "body = concat (map token_text ts)"
  define vals where "vals = concat (map token_value ts)"
  have "length ts \<le> length body"
  proof -
    have "1 \<le> length (token_text t)" for t by (cases t) auto
    then show ?thesis unfolding body_def by (induction ts) (auto intro: order_trans add_mono)
  qed
  then obtain junk where r: "unescape_loop (length (body @ [NUL]) + 1) (body @ [NUL]) 0 0 False False =
      Inr (vals @ junk @ [NUL], length vals, False, list_ex slash_token ts)"
    using unescape_tokens_loop [OF assms, of "length body + 2" "[]" "[]" False False] by (auto simp: body_def vals_def)
  have w: "wr (vals @ junk @ [NUL]) (length vals) NUL = Inr (vals @ NUL # tl (junk @ [NUL]))"
    using wr_mid [of "junk @ [NUL]" vals "[]" NUL] by simp
  have "nul_free (token_value t)" if "token_ok t" for t
  proof (cases t)
    case (Pct a b)
    then have "hex_value [a, b] < 256" using hex_value_less [of "[a, b]" 0] that by (simp add: hex_value_def)
    then show ?thesis using Pct that char_of_ne_NUL [of "hex_value [a, b]"] by (simp add: nul_free_def)
  next
    case (Uni ds)
    then have "hex_value ds < 0x10000" using hex_value_less [of ds 0] that by (simp add: hex_value_def)
    then have "char_of b \<noteq> NUL" if "b \<in> set (utf8_bytes (hex_value ds))" for b
      using utf8_bytes_range [of "hex_value ds" b] \<open>token_ok t\<close> Uni that char_of_ne_NUL [of b] by simp
    then show ?thesis unfolding Uni nul_free_def token_value.simps set_map by (metis imageE)
  qed (use that in \<open>auto simp: nul_free_def\<close>)
  then have "nul_free vals" using assms unfolding vals_def by (induction ts) (auto simp: nul_free_def)
  then have "upto_nul (vals @ NUL # tl (junk @ [NUL])) = vals" by (simp add: upto_nul_append)
  then show ?thesis unfolding body_def [symmetric] vals_def [symmetric]
    using r w by (simp add: unescaped_def ap_unescape_url_u_def del: unescape_loop.simps)
qed


text \<open>
  Unescaping in place yields, for every string of plain characters, escapes of bytes and
  escapes of code points, the string that it stands for - code points in UTF-8 - without an
  access outside the string, and reports an escaped slash.
\<close>

theorem unescape_tokens:
  assumes "list_all token_ok ts"
  shows "unescaped (concat (map token_text ts)) = Inr (concat (map token_value ts)) \<and>
    (\<exists>b. ap_unescape_url_u (concat (map token_text ts) @ [NUL]) =
      Inr (b, if list_ex slash_token ts then HTTP_NOT_FOUND else HTTP_OK))"
  by (rule unescape_tokens_core [OF assms])

lemma token_example:
  "hex_value ''2F'' = 0x2F" "hex_value ''20aC'' = 0x20AC" "utf8_bytes 0x20AC = [0xE2, 0x82, 0xAC]"
  "list_all c_isxdigit ''2F20aC''"
  by (simp_all add: hex_value_def hex_val_def c_isxdigit_def c_isdigit_def c_tolower_def c_isupper_def code_def utf8_bytes_def)

theorem unescape_tokens_witness:
  "unescaped ''a%2F%u20aC'' = Inr (''a/'' @ map char_of [0xE2, 0x82, 0xAC :: nat]) \<and>
    (\<exists>b. ap_unescape_url_u (''a%2F%u20aC'' @ [NUL]) = Inr (b, HTTP_NOT_FOUND))"
proof -
  have "char_of (0x2F :: nat) = CHR ''/''" by (simp add: char_of_def bit_0)
  then show ?thesis
    using unescape_tokens [of "[Lit (CHR ''a''), Pct (CHR ''2'') (CHR ''F''), Uni ''20aC'']"] token_example
    by (simp add: slash_token_def)
qed

lemma unescape_plain:
  "CHR ''%'' \<notin> set p \<Longrightarrow> nul_free p \<Longrightarrow>
   unescape_loop (length p + fuel) (pre @ p @ rest) (length pre) (length pre) be bp =
   unescape_loop fuel (pre @ p @ rest) (length pre + length p) (length pre + length p) be bp"
proof (induction p arbitrary: pre)
  case (Cons c p)
  then have c: "c \<noteq> CHR ''%''" "c \<noteq> NUL" and p: "CHR ''%'' \<notin> set p" "nul_free p" by (auto simp: nul_free_def)
  have "unescape_loop (Suc (length p + fuel)) (pre @ (c # p) @ rest) (length pre) (length pre) be bp =
      unescape_loop (length p + fuel) (pre @ (c # p) @ rest) (Suc (length pre)) (Suc (length pre)) be bp"
    using c by (simp add: rd_def wr_def)
  then show ?case using Cons.IH [OF p, of "pre @ [c]"] by (simp del: unescape_loop.simps)
qed simp

lemma utf8_convert_short:
  "nul_free t \<Longrightarrow> length t < k \<Longrightarrow> \<exists>t'. length t' = length t \<and>
     utf8_convert k (pre @ t @ NUL # rest) (length pre) x = Inr (pre @ t' @ NUL # rest, 0)"
proof (induction t arbitrary: pre k x)
  case Nil
  then obtain j where "k = Suc j" by (cases k) auto
  then show ?case by (simp add: rd_def c_isxdigit_def)
next
  case (Cons c t)
  then obtain j where k: "k = Suc j" "length t < j" by (cases k) auto
  have nf: "nul_free t" using Cons.prems(1) by (simp add: nul_free_def)
  define c' where "c' = (if c_isdigit c then c else c_tolower c)"
  show ?case
  proof (cases "c_isxdigit c")
    case True
    obtain t' where "length t' = length t" "utf8_convert j ((pre @ [c']) @ t @ NUL # rest) (length (pre @ [c']))
        (x * 16 + (if c_isdigit c then code c - 48 else code (c_tolower c) - 97 + 10)) = Inr ((pre @ [c']) @ t' @ NUL # rest, 0)"
      using Cons.IH [OF nf k(2)] by blast
    then show ?thesis using True k(1)
      by (intro exI [of _ "c' # t'"]) (auto simp: rd_def wr_def c'_def)
  next
    case False
    then show ?thesis using k(1) by (intro exI [of _ "c # t"]) (simp add: rd_def nth_append)
  qed
qed

text \<open>
  A Unicode escape with fewer than four characters behind it, at the end of a string: the
  loop steps over the NUL and goes on outside the string.
\<close>

theorem unescape_unicode_overread:
  assumes "CHR ''%'' \<notin> set p" "nul_free p" "nul_free t" "length t < 4"
  shows "unescaped (p @ ''%u'' @ t) = Inl OutOfBounds"
proof -
  obtain t' where t': "length t' = length t"
    "utf8_convert 4 (p @ ''%u'' @ t @ [NUL]) (length p + 2) 0 = Inr (p @ ''%u'' @ t' @ [NUL], 0)"
    using utf8_convert_short [OF assms(3,4), of "p @ ''%u''" "[]" 0] by auto
  have z: "map char_of (utf8_bytes 0) = [NUL]" by (simp add: utf8_bytes_def char_of_def)
  have w: "wr (p @ ''%u'' @ t' @ [NUL]) (length p) NUL = Inr (p @ NUL # CHR ''u'' # t' @ [NUL])"
    using wr_mid [of "''%u'' @ t'" p "[NUL]" NUL] by simp
  have r: "rd (p @ ''%u'' @ t @ [NUL]) (length p) = Inr (CHR ''%'')" "rd (p @ ''%u'' @ t @ [NUL]) (length p + 1) = Inr (CHR ''u'')"
    "rd (p @ NUL # CHR ''u'' # t' @ [NUL]) (length p + 6) = Inl OutOfBounds"
    using assms(4) t'(1) by (simp_all add: rd_def nth_append)
  have "unescape_loop (Suc (Suc fuel)) (p @ ''%u'' @ t @ [NUL]) (length p) (length p) False False = Inl OutOfBounds" for fuel
    using r t'(2) w by (simp add: Let_def z)
  then have "unescape_loop (length p + Suc (Suc (length t + 2))) (p @ ''%u'' @ t @ [NUL]) 0 0 False False = Inl OutOfBounds"
    using unescape_plain [OF assms(1,2), of "Suc (Suc (length t + 2))" "[]" "''%u'' @ t @ [NUL]" False False] by (simp del: unescape_loop.simps)
  then show ?thesis by (simp add: unescaped_def ap_unescape_url_u_def del: unescape_loop.simps)
qed

theorem unescape_unicode_overread_witness:
  "unescaped ''name%u20'' = Inl OutOfBounds"
  using unescape_unicode_overread [of "''name''" "''20''"] by (simp add: nul_free_def)


section \<open>The parameters of a form\<close>

definition char_token :: "char \<Rightarrow> token" where
  "char_token c = (if url_plain c \<or> c = SPACE then Lit c else Pct (hex_digit (code c div 16)) (hex_digit (code c mod 16)))"

lemma url_plain_marks: "\<not> url_plain (CHR ''&'')" "\<not> url_plain (CHR '';'')" "\<not> url_plain (CHR ''='')"
  by (simp_all add: url_plain_def c_isdigit_def c_isalpha_def c_isupper_def c_islower_def code_def)

lemma hex_digit_marks:
  assumes "n < 16"
  shows "hex_digit n \<noteq> CHR ''&'' \<and> hex_digit n \<noteq> CHR '';'' \<and> hex_digit n \<noteq> CHR ''=''"
proof -
  have "c_isxdigit (hex_digit n)" using hex_digit_facts [OF assms] by blast
  then show ?thesis by (auto simp: c_isxdigit_def c_isdigit_def code_def)
qed

lemma url_encode_marks: "x \<in> set (url_encode s) \<Longrightarrow> \<not> is_sep x \<and> x \<noteq> CHR ''=''"
proof (induction s)
  case (Cons c s)
  then consider "x \<in> set (url_encode s)" | "url_plain x" | "x = CHR ''+''" | "x = CHR ''%''"
    | "x = hex_digit (code c div 16)" | "x = hex_digit (code c mod 16)"
    by (auto split: if_splits)
  then show ?case
    using Cons.IH url_plain_marks hex_digit_marks [OF code_digits(1) [of c]] hex_digit_marks [OF code_digits(2) [of c]]
    by cases (auto simp: is_sep_def)
qed simp

lemma char_token_ok: "c \<noteq> NUL \<Longrightarrow> token_ok (char_token c) \<and> token_value (char_token c) = [c]"
proof -
  assume c: "c \<noteq> NUL"
  have v: "hex_value [hex_digit (code c div 16), hex_digit (code c mod 16)] = code c"
    using code_digit_facts [of c] by (simp add: hex_value_def)
  have "code c \<noteq> 0" using c code_inj [of c NUL] by simp
  then show ?thesis using v c url_plain_other code_digit_facts [of c] by (auto simp: char_token_def)
qed

lemma encode_tokens: "req_plustospace (url_encode s) = concat (map (token_text \<circ> char_token) s)"
proof (induction s)
  case (Cons c s)
  have "req_plustospace (if url_plain c then [c] else if c = SPACE then ''+''
      else [CHR ''%'', hex_digit (code c div 16), hex_digit (code c mod 16)]) = token_text (char_token c)"
    using url_plain_other code_digit_facts [of c] by (auto simp: req_plustospace_def char_token_def)
  then show ?case using Cons by (simp add: req_plustospace_def)
qed (simp add: req_plustospace_def)

lemma unescaped_tokens_eq:
  "list_all token_ok ts \<Longrightarrow> unescaped (concat (map token_text ts)) = Inr (concat (map token_value ts))"
  using unescape_tokens_core by blast

lemma char_tokens: "nul_free s \<Longrightarrow> list_all token_ok (map char_token s) \<and> concat (map token_value (map char_token s)) = s"
proof (induction s)
  case (Cons c s)
  then have "c \<noteq> NUL" "nul_free s" by (auto simp: nul_free_def)
  then show ?case using Cons.IH char_token_ok [of c] by simp
qed simp

lemma unescaped_encode: "nul_free s \<Longrightarrow> unescaped (req_plustospace (url_encode s)) = Inr s"
  using unescaped_tokens_eq [of "map char_token s"] char_tokens [of s] by (simp add: encode_tokens)

fun query_text :: "(cstr \<times> cstr) list \<Rightarrow> cstr" where
  "query_text [] = []"
| "query_text [(k, v)] = url_encode k @ ''='' @ url_encode v"
| "query_text ((k, v) # kvs) = url_encode k @ ''='' @ url_encode v @ ''&'' @ query_text kvs"

definition cuts_at_sign :: "getword \<Rightarrow> bool" where
  "cuts_at_sign getw \<longleftrightarrow> (\<forall>w rest. CHR ''='' \<notin> set w \<longrightarrow> CHR ''='' \<notin> set rest \<longrightarrow> getw (CHR ''='') (w @ ''='' @ rest) = (w, rest))"

lemma urlword_pair:
  assumes "rest = [] \<or> (\<exists>c r. rest = CHR ''&'' # c # r \<and> \<not> is_sep c)"
  shows "my_urlword ((url_encode k @ ''='' @ url_encode v) @ rest) = (url_encode k @ ''='' @ url_encode v, drop 1 rest)"
proof -
  define q where "q = url_encode k @ ''='' @ url_encode v"
  have all: "\<not> is_sep x" if "x \<in> set q" for x
    using that url_encode_marks [of x k] url_encode_marks [of x v] by (auto simp: q_def is_sep_def)
  have r: "takeWhile (\<lambda>c. \<not> is_sep c) rest = []" "dropWhile (\<lambda>c. \<not> is_sep c) rest = rest" "dropWhile is_sep rest = drop 1 rest"
    using assms by (elim disjE exE conjE; simp add: is_sep_def)+
  have "takeWhile (\<lambda>c. \<not> is_sep c) (q @ rest) = q" "dropWhile (\<lambda>c. \<not> is_sep c) (q @ rest) = rest"
    using takeWhile_append2 [of q "\<lambda>c. \<not> is_sep c" rest] dropWhile_append2 [of q "\<lambda>c. \<not> is_sep c" rest] all r by simp_all
  then show ?thesis unfolding q_def [symmetric] by (simp add: my_urlword_def r(3))
qed

lemma split_pair:
  assumes "cuts_at_sign getw" "nul_free k" "nul_free v" "rest = [] \<or> (\<exists>c r. rest = CHR ''&'' # c # r \<and> \<not> is_sep c)"
  shows "split_to_parms getw ((url_encode k @ ''='' @ url_encode v) @ rest) parms = split_to_parms getw (drop 1 rest) (parms @ [(k, v)])"
proof -
  have "getw (CHR ''='') (url_encode k @ ''='' @ url_encode v) = (url_encode k, url_encode v)"
    using assms(1) url_encode_marks by (auto simp: cuts_at_sign_def)
  then show ?thesis
    by (subst split_to_parms.simps) (simp add: urlword_pair [OF assms(4), simplified] unescaped_encode assms(2,3) Let_def)
qed

lemma split_query_lemma:
  assumes "cuts_at_sign getw" "\<forall>(k, v) \<in> set kvs. nul_free k \<and> nul_free v"
  shows "split_to_parms getw (query_text kvs) parms = Inr (parms @ kvs)"
  using assms(2)
proof (induction kvs arbitrary: parms rule: query_text.induct)
  case 1
  then show ?case by (subst split_to_parms.simps) simp
next
  case (2 k v)
  have "split_to_parms getw [] (parms @ [(k, v)]) = Inr (parms @ [(k, v)])" by (subst split_to_parms.simps) simp
  then show ?case using split_pair [OF assms(1), of k v "[]" parms] 2 by simp
next
  case (3 k v kv kvs)
  obtain k' v' where kv: "kv = (k', v')" by force
  define r where "r = query_text (kv # kvs)"
  have "r = url_encode k' @ CHR ''='' # url_encode v' \<or> (\<exists>z. r = url_encode k' @ CHR ''='' # z)" by (cases kvs) (auto simp: r_def kv)
  then obtain c z where "r = c # z" "\<not> is_sep c" using url_encode_marks [of _ k'] by (cases "url_encode k'") (auto simp: is_sep_def)
  then have "CHR ''&'' # r = [] \<or> (\<exists>c z. CHR ''&'' # r = CHR ''&'' # c # z \<and> \<not> is_sep c)" by simp
  from split_pair [OF assms(1) _ _ this, of k v parms] show ?case
    using "3.IH" [of "parms @ [(k, v)]"] "3.prems" unfolding r_def by simp
qed

lemma query_text_nul_free: "nul_free (query_text kvs)"
  by (induction kvs rule: query_text.induct) (simp_all add: url_encode_chars)

text \<open>
  The query of a form gives back its parameters: whatever the names and values, with any
  characters but NUL, the table holds the pairs in their order, behind what it held.
\<close>

theorem split_query_text:
  assumes "cuts_at_sign getw" "\<forall>(k, v) \<in> set kvs. nul_free k \<and> nul_free v"
  shows "split_to_parms getw (query_text kvs) parms = Inr (parms @ kvs)"
  by (rule split_query_lemma [OF assms])

theorem split_query_text_witness:
  "split_to_parms (\<lambda>c s. (takeWhile (\<lambda>x. x \<noteq> c) s, drop 1 (dropWhile (\<lambda>x. x \<noteq> c) s))) (query_text [(''a b'', ''1&2''), ([], ''='')]) [] =
    Inr [(''a b'', ''1&2''), ([], ''='')]"
proof -
  have "cuts_at_sign (\<lambda>c s. (takeWhile (\<lambda>x. x \<noteq> c) s, drop 1 (dropWhile (\<lambda>x. x \<noteq> c) s)))"
    by (auto simp: cuts_at_sign_def takeWhile_append dropWhile_append)
  then show ?thesis using split_query_text [of _ "[(''a b'', ''1&2''), ([], ''='')]" "[]"] by (simp add: nul_free_def)
qed

end
