(* ===== verification/ApacheMultipart.thy ===== *)
theory ApacheMultipart
  imports ApacheUrl "HOL-Library.Sublist"
begin

text \<open>
  The buffer through which a multipart form is read,
  \<open>webconnect/apache2/apache_multipart_buffer.c\<close>: lines, boundaries, headers and bodies.
  \<open>ap_get_client_block\<close> is a parameter; the unit of the buffer's size, \<open>FILLUNIT\<close>, is one
  too, so that small buffers can be looked at.
\<close>

section \<open>The code\<close>

definition FILLUNIT :: nat where "FILLUNIT = 1024 * 5"

text \<open>
  A client is the number of bytes that remain and the state of the connection; a read of at
  most \<open>n\<close> bytes gives the bytes, none at the end or for an error.
\<close>

type_synonym 's client_state = "int \<times> 's"
type_synonym 's get_block = "'s client_state \<Rightarrow> nat \<Rightarrow> 's client_state \<times> char list"

record 's mbuffer =
  m_client :: "'s client_state"
  m_buffer :: "char list"
  m_begin :: "nat option"
  m_bufsize :: nat
  m_bytes :: nat
  m_boundary :: cstr
  m_next :: cstr

text \<open>The first place where the needle is, or with \<open>partial\<close> where the haystack ends within it.\<close>

definition match_here :: "char list \<Rightarrow> cstr \<Rightarrow> bool \<Rightarrow> bool" where
  "match_here d needle partial \<longleftrightarrow>
     (let n = min (length needle) (length d) in take n needle = take n d \<and> (partial \<or> length needle \<le> length d))"

fun my_memstr :: "char list \<Rightarrow> cstr \<Rightarrow> bool \<Rightarrow> nat option" where
  "my_memstr [] needle partial = None"
| "my_memstr (c # cs) needle partial =
     (if c = at0 needle \<and> match_here (c # cs) needle partial then Some 0
      else map_option Suc (my_memstr cs needle partial))"

definition fill_buffer :: "'s get_block \<Rightarrow> 's mbuffer \<Rightarrow> fault + ('s mbuffer \<times> nat)" where
  "fill_buffer get self =
     bind_res
       (if m_bytes self > 0 \<and> m_begin self \<noteq> Some 0
        then (case m_begin self of
            None \<Rightarrow> Inl NullDeref
          | Some b \<Rightarrow> memcpy_at (m_buffer self) 0 (take (m_bytes self) (drop b (m_buffer self))))
        else Inr (m_buffer self)) (\<lambda>buf.
     let self = self\<lparr>m_buffer := buf, m_begin := Some 0\<rparr>;
         bytes_to_read = int (m_bufsize self) - int (m_bytes self);
         bytes_to_read = (if bytes_to_read \<ge> fst (m_client self) then fst (m_client self) - int (length (m_boundary self)) else bytes_to_read)
     in if bytes_to_read > 0
        then let (c, d) = get (m_client self) (nat bytes_to_read) in
          bind_res (memcpy_at (m_buffer self) (m_bytes self) d) (\<lambda>buf.
          Inr (self\<lparr>m_client := c, m_buffer := buf, m_bytes := m_bytes self + length d\<rparr>, length d))
        else Inr (self, 0))"

text \<open>The bytes in the buffer; there are none when the pointer is null.\<close>

definition mb_data :: "'s mbuffer \<Rightarrow> char list" where
  "mb_data self = (case m_begin self of None \<Rightarrow> [] | Some b \<Rightarrow> take (m_bytes self) (drop b (m_buffer self)))"

text \<open>The place of a line feed, as \<open>memchr\<close> finds it.\<close>

definition find_lf :: "char list \<Rightarrow> nat option" where
  "find_lf d = (if LF \<in> set d then Some (length (takeWhile (\<lambda>c. c \<noteq> LF) d)) else None)"

definition next_line :: "'s mbuffer \<Rightarrow> fault + ('s mbuffer \<times> cstr option)" where
  "next_line self =
     (case (m_begin self, find_lf (mb_data self)) of
        (Some b, Some i) \<Rightarrow>
          let p = b + i; e = (if i > 0 \<and> m_buffer self ! (p - 1) = CR then p - 1 else p) in
          bind_res (wr (m_buffer self) e NUL) (\<lambda>buf.
          Inr (self\<lparr>m_buffer := buf, m_begin := Some (p + 1), m_bytes := m_bytes self - (i + 1)\<rparr>, Some (upto_nul (drop b buf))))
      | (begin, _) \<Rightarrow>
          if m_bytes self < m_bufsize self then Inr (self, None)
          else (case begin of
              None \<Rightarrow> Inl NullDeref
            | Some b \<Rightarrow>
                bind_res (wr (m_buffer self) (b + m_bufsize self) NUL) (\<lambda>buf.
                Inr (self\<lparr>m_buffer := buf, m_begin := None, m_bytes := 0\<rparr>, Some (upto_nul (drop b buf))))))"

definition get_line :: "'s get_block \<Rightarrow> 's mbuffer \<Rightarrow> fault + ('s mbuffer \<times> cstr option)" where
  "get_line get self =
     bind_res (next_line self) (\<lambda>(self, ptr). case ptr of
       Some l \<Rightarrow> Inr (self, Some l)
     | None \<Rightarrow> bind_res (fill_buffer get self) (\<lambda>(self, n). next_line self))"

fun find_boundary :: "nat \<Rightarrow> 's get_block \<Rightarrow> 's mbuffer \<Rightarrow> cstr \<Rightarrow> fault + ('s mbuffer \<times> bool)" where
  "find_boundary 0 get self boundary = Inl OutOfFuel"
| "find_boundary (Suc fuel) get self boundary =
     bind_res (get_line get self) (\<lambda>(self, line). case line of
       None \<Rightarrow> Inr (self, False)
     | Some l \<Rightarrow> if l = boundary then Inr (self, True) else find_boundary fuel get self boundary)"

definition multipart_buffer_new :: "nat \<Rightarrow> cstr \<Rightarrow> 's client_state \<Rightarrow> 's mbuffer" where
  "multipart_buffer_new fu boundary r =
     (let minsize = max (length boundary + 6) fu in
      \<lparr>m_client = r, m_buffer = replicate (minsize + 1) NUL, m_begin = Some 0, m_bufsize = minsize, m_bytes = 0,
        m_boundary = ''--'' @ boundary, m_next = [LF] @ ''--'' @ boundary\<rparr>)"

text \<open>A header line: the key, and the value behind the colon and the spaces.\<close>

definition header_entry :: "cstr \<Rightarrow> cstr \<times> cstr" where
  "header_entry line =
     (if CHR '':'' \<in> set line
      then (takeWhile (\<lambda>c. c \<noteq> CHR '':'') line, dropWhile c_isspace (tl (dropWhile (\<lambda>c. c \<noteq> CHR '':'') line)))
      else (line, []))"

fun header_lines :: "nat \<Rightarrow> 's get_block \<Rightarrow> 's mbuffer \<Rightarrow> ap_table \<Rightarrow> fault + ('s mbuffer \<times> ap_table)" where
  "header_lines 0 get self tab = Inl OutOfFuel"
| "header_lines (Suc fuel) get self tab =
     bind_res (get_line get self) (\<lambda>(self, line). case line of
       None \<Rightarrow> Inr (self, tab)
     | Some l \<Rightarrow> if l = [] then Inr (self, tab) else header_lines fuel get self (tab @ [header_entry l]))"

definition multipart_buffer_headers :: "nat \<Rightarrow> 's get_block \<Rightarrow> 's mbuffer \<Rightarrow> fault + ('s mbuffer \<times> ap_table option)" where
  "multipart_buffer_headers fuel get self =
     bind_res (find_boundary fuel get self (m_boundary self)) (\<lambda>(self, found).
     if \<not> found then Inr (self, None)
     else bind_res (header_lines fuel get self []) (\<lambda>(self, tab). Inr (self, Some tab)))"

text \<open>Read until a boundary: the bytes, at most \<open>bytes\<close> less one.\<close>

definition multipart_buffer_read :: "'s get_block \<Rightarrow> 's mbuffer \<Rightarrow> nat \<Rightarrow> fault + ('s mbuffer \<times> char list)" where
  "multipart_buffer_read get self bytes =
     bind_res (if bytes > m_bytes self then bind_res (fill_buffer get self) (\<lambda>(self, n). Inr self) else Inr self) (\<lambda>self.
     let d = mb_data self;
         bound = my_memstr d (m_next self) True;
         mx = (case bound of Some k \<Rightarrow> k | None \<Rightarrow> m_bytes self);
         len = (if mx < bytes - 1 then mx else bytes - 1)
     in if len > 0
        then let len = (if bound \<noteq> None \<and> d ! (len - 1) = CR then len - 1 else len) in
          Inr (self\<lparr>m_bytes := m_bytes self - len, m_begin := map_option (\<lambda>b. b + len) (m_begin self)\<rparr>, take len d)
        else Inr (self, []))"

fun read_body_loop :: "nat \<Rightarrow> nat \<Rightarrow> 's get_block \<Rightarrow> 's mbuffer \<Rightarrow> cstr \<Rightarrow> fault + ('s mbuffer \<times> cstr)" where
  "read_body_loop 0 fu get self out = Inl OutOfFuel"
| "read_body_loop (Suc fuel) fu get self out =
     bind_res (multipart_buffer_read get self fu) (\<lambda>(self, d).
     if d = [] then Inr (self, out) else read_body_loop fuel fu get self (out @ upto_nul d))"

definition multipart_buffer_read_body :: "nat \<Rightarrow> nat \<Rightarrow> 's get_block \<Rightarrow> 's mbuffer \<Rightarrow> fault + ('s mbuffer \<times> cstr)" where
  "multipart_buffer_read_body fuel fu get self = read_body_loop fuel fu get self []"

definition multipart_buffer_eof :: "'s get_block \<Rightarrow> 's mbuffer \<Rightarrow> fault + ('s mbuffer \<times> bool)" where
  "multipart_buffer_eof get self =
     (if m_bytes self = 0 then bind_res (fill_buffer get self) (\<lambda>(self, n). Inr (self, n < 1)) else Inr (self, False))"

section \<open>The search\<close>

lemma match_here_partial:
  "match_here d needle True \<longleftrightarrow> (\<exists>e. needle = d @ e) \<or> (\<exists>e. d = needle @ e)"
proof (cases "length needle \<le> length d")
  case True
  then have "match_here d needle True \<longleftrightarrow> take (length needle) d = needle" by (auto simp: match_here_def Let_def min_def)
  also have "\<dots> \<longleftrightarrow> (\<exists>e. d = needle @ e)" by (metis append_eq_conv_conj append_take_drop_id)
  finally show ?thesis using True by auto
next
  case False
  then have "match_here d needle True \<longleftrightarrow> take (length d) needle = d" by (auto simp: match_here_def Let_def min_def)
  also have "\<dots> \<longleftrightarrow> (\<exists>e. needle = d @ e)" by (metis append_eq_conv_conj append_take_drop_id)
  finally show ?thesis using False by auto
qed

lemma match_here_head: "match_here (c # cs) needle partial \<Longrightarrow> needle \<noteq> [] \<Longrightarrow> c = at0 needle"
  by (cases needle) (auto simp: match_here_def Let_def)

lemma memstr_lemma:
  "needle \<noteq> [] \<Longrightarrow> (my_memstr d needle partial = Some k \<longleftrightarrow>
     k < length d \<and> match_here (drop k d) needle partial \<and> (\<forall>j < k. \<not> match_here (drop j d) needle partial))"
proof (induction d arbitrary: k)
  case (Cons c d)
  show ?case
  proof (cases "match_here (c # d) needle partial")
    case True
    then show ?thesis using match_here_head [OF True Cons.prems] by (cases k) auto
  next
    case False
    then show ?thesis using Cons.IH [OF Cons.prems] by (cases k) (auto simp: less_Suc_eq_0_disj)
  qed
qed simp

text \<open>
  The search in the buffer returns a position exactly when it is the first one from which
  the rest of the buffer starts with the needle or, when partial matches are allowed, is a
  beginning of it.
\<close>

theorem my_memstr_correct:
  assumes "needle \<noteq> []"
  shows "my_memstr d needle True = Some k \<longleftrightarrow>
      k < length d \<and> (prefix needle (drop k d) \<or> prefix (drop k d) needle) \<and>
      (\<forall>j < k. \<not> prefix needle (drop j d) \<and> \<not> prefix (drop j d) needle)"
  unfolding memstr_lemma [OF assms] match_here_partial prefix_def by blast

theorem my_memstr_correct_witness:
  "my_memstr ''xab--'' ''--b'' True = Some 3"
  by (subst my_memstr_correct) (auto simp: less_Suc_eq numeral_3_eq_3)

section \<open>Filling the buffer\<close>

text \<open>A client that delivers whatever is asked for.\<close>

definition delivers :: "char list get_block \<Rightarrow> bool" where
  "delivers get \<longleftrightarrow> (\<forall>r ds n. get (r, ds) n = ((r - int (length (take n ds)), drop n ds), take n ds))"

definition mb_inv :: "char list mbuffer \<Rightarrow> bool" where
  "mb_inv m \<longleftrightarrow> (\<exists>b. m_begin m = Some b \<and> b + m_bytes m \<le> m_bufsize m) \<and> length (m_buffer m) = m_bufsize m + 1 \<and>
     fst (m_client m) = int (length (snd (m_client m)))"

text \<open>All that is still to come, in the buffer and behind it.\<close>

definition mb_view :: "char list mbuffer \<Rightarrow> char list" where
  "mb_view m = mb_data m @ snd (m_client m)"

definition same_form :: "char list mbuffer \<Rightarrow> char list mbuffer \<Rightarrow> bool" where
  "same_form m m' \<longleftrightarrow> m_bufsize m' = m_bufsize m \<and> m_boundary m' = m_boundary m \<and> m_next m' = m_next m"

lemma mb_data_length: "mb_inv m \<Longrightarrow> length (mb_data m) = m_bytes m"
  by (auto simp: mb_inv_def mb_data_def)

lemma fill_buffer_view:
  assumes "delivers get" "mb_inv m"
  shows "yields (\<lambda>(m', n). mb_inv m' \<and> same_form m m' \<and> mb_view m' = mb_view m \<and> m_bytes m' = m_bytes m + n \<and>
    (m_boundary m \<noteq> [] \<and> snd (m_client m) \<noteq> [] \<longrightarrow> snd (m_client m') \<noteq> []) \<and>
    (m_bytes m' = m_bufsize m' \<or> length (snd (m_client m')) \<le> length (m_boundary m'))) (fill_buffer get m)"
proof -
  obtain b where b: "m_begin m = Some b" "b + m_bytes m \<le> m_bufsize m" "length (m_buffer m) = m_bufsize m + 1"
    using assms(2) by (auto simp: mb_inv_def)
  obtain r ds where c: "m_client m = (r, ds)" "r = int (length ds)" using assms(2) by (cases "m_client m") (auto simp: mb_inv_def)
  define buf where "buf = (if m_bytes m > 0 \<and> b \<noteq> 0 then mb_data m @ drop (m_bytes m) (m_buffer m) else m_buffer m)"
  have buf: "take (m_bytes m) buf = mb_data m" "length buf = m_bufsize m + 1"
    using b mb_data_length [OF assms(2)] by (auto simp: buf_def mb_data_def)
  have shift: "(if m_bytes m > 0 \<and> m_begin m \<noteq> Some 0
        then (case m_begin m of None \<Rightarrow> Inl NullDeref
          | Some b \<Rightarrow> memcpy_at (m_buffer m) 0 (take (m_bytes m) (drop b (m_buffer m)))) else Inr (m_buffer m)) = Inr buf"
    using b by (auto simp: buf_def memcpy_at_def mb_data_def)
  define t where "t = (if int (m_bufsize m) - int (m_bytes m) \<ge> r then r - int (length (m_boundary m)) else int (m_bufsize m) - int (m_bytes m))"
  let ?m = "m\<lparr>m_buffer := buf, m_begin := Some 0\<rparr>"
  have fb: "fill_buffer get m = (if t > 0
      then let (c, d) = get (m_client m) (nat t) in
        bind_res (memcpy_at buf (m_bytes m) d) (\<lambda>buf.
        Inr (?m\<lparr>m_client := c, m_buffer := buf, m_bytes := m_bytes m + length d\<rparr>, length d))
      else Inr (?m, 0))"
    unfolding fill_buffer_def shift t_def by (simp add: c(1) Let_def)
  show ?thesis
  proof (cases "t > 0")
    case False
    then have "fill_buffer get m = Inr (?m, 0)" unfolding fb by simp
    then show ?thesis using False b c buf
      by (auto simp: mb_inv_def same_form_def mb_view_def mb_data_def t_def split: if_splits)
  next
    case True
    define d where "d = take (nat t) ds"
    have fit: "m_bytes m + length d \<le> m_bufsize m" using True b(2) c(2) by (auto simp: d_def t_def min_def)
    have cp: "memcpy_at buf (m_bytes m) d = Inr (mb_data m @ d @ drop (m_bytes m + length d) buf)"
      using fit buf by (simp add: memcpy_at_def)
    have held: "nat t < length ds" if "0 < length (m_boundary m)" "0 < length ds"
    proof -
      have "t < int (length ds)" using c(2) that unfolding t_def by (simp only: of_nat_0_less_iff not_le split: if_split) linarith
      then show ?thesis using True by simp
    qed
    then have held: "m_boundary m \<noteq> [] \<and> ds \<noteq> [] \<longrightarrow> nat t < length ds" by simp
    have "get (m_client m) (nat t) = ((r - int (length d), drop (nat t) ds), d)"
      using assms(1) c(1) by (simp add: delivers_def d_def)
    then have "fill_buffer get m = Inr (?m\<lparr>m_client := (r - int (length d), drop (nat t) ds),
        m_buffer := mb_data m @ d @ drop (m_bytes m + length d) buf, m_bytes := m_bytes m + length d\<rparr>, length d)"
      unfolding fb using True cp by (simp add: Let_def)
    moreover have "m_bytes m + length d = m_bufsize m \<or> length (drop (nat t) ds) \<le> length (m_boundary m)"
      using True c(2) b(2) by (auto simp: d_def t_def)
    ultimately show ?thesis using held b c buf fit mb_data_length [OF assms(2)]
      by (auto simp: mb_inv_def same_form_def mb_view_def mb_data_def d_def of_nat_diff min_def)
  qed
qed


section \<open>Reading a body\<close>

text \<open>
  \<open>dat\<close> is in the buffer and \<open>rest\<close> is not: where a boundary is found when the text goes on
  with \<open>body\<close>, a line end and the boundary.
\<close>

lemma no_early_match:
  assumes v: "dat @ rest = body @ CR # LF # bd @ tail" and bd: "LF \<notin> set bd" "\<not> sublist (LF # bd) (body @ [CR])"
    and j: "j < length dat" "j \<le> length body" "prefix (LF # bd) (drop j dat)"
  shows False
proof -
  obtain z where z: "drop j dat = LF # bd @ z" using j(3) by (auto simp: prefix_def)
  have w: "drop j (body @ CR # LF # bd @ tail) = LF # bd @ z @ rest"
    unfolding v [symmetric] using z j(1) by simp
  show False
  proof (cases "j + Suc (length bd) \<le> Suc (length body)")
    case True
    have "take (Suc (length bd)) (drop j (body @ CR # LF # bd @ tail)) = LF # bd" unfolding w by simp
    moreover have "take (Suc (length bd)) (drop j (body @ CR # LF # bd @ tail)) = take (Suc (length bd)) (drop j (body @ [CR]))"
      using True by (simp add: take_Cons')
    ultimately have "body @ [CR] = take j (body @ [CR]) @ (LF # bd) @ drop (Suc (length bd)) (drop j (body @ [CR]))"
      by (metis append_take_drop_id)
    then show False using bd(2) unfolding sublist_def by blast
  next
    case False
    define i where "i = length body + 1 - j"
    have "drop j (body @ CR # LF # bd @ tail) ! i = LF" using j(2) by (simp add: i_def nth_append Suc_diff_le)
    then have "(LF # bd @ z @ rest) ! i = LF" unfolding w .
    then have "bd ! (i - 1) = LF" "i - 1 < length bd" using False j(2) by (auto simp: i_def nth_Cons' nth_append split: if_splits)
    then show False using bd(1) by (metis nth_mem)
  qed
qed

lemma boundary_in_buffer:
  assumes v: "dat @ rest = body @ CR # LF # bd @ tail" and bd: "LF \<notin> set bd" "\<not> sublist (LF # bd) (body @ [CR])"
    and len: "length body + 1 < length dat"
  shows "my_memstr dat (LF # bd) True = Some (length body + 1) \<and> dat ! length body = CR"
proof -
  have at: "dat ! i = (body @ CR # LF # bd @ tail) ! i" if "i < length dat" for i
    unfolding v [symmetric] using that by (simp add: nth_append)
  have "drop (length body + 1) dat @ rest = LF # bd @ tail"
    using arg_cong [OF v, of "drop (length body + 1)"] len by simp
  then have here: "prefix (LF # bd) (drop (length body + 1) dat) \<or> prefix (drop (length body + 1) dat) (LF # bd)"
    by (metis append.assoc append_Cons prefixI prefix_same_cases)
  have "\<not> prefix (drop j dat) (LF # bd)" if "j < length body + 1" for j
  proof
    assume "prefix (drop j dat) (LF # bd)"
    then obtain z where z: "LF # bd = drop j dat @ z" by (auto simp: prefix_def)
    define i where "i = length body + 1 - j"
    have i: "0 < i" "i < length (drop j dat)" using that len by (auto simp: i_def)
    have "(LF # bd) ! i = drop j dat ! i" unfolding z using i(2) by (simp add: nth_append)
    also have "\<dots> = LF" using that len at [of "length body + 1"] by (simp add: i_def nth_append)
    finally have "bd ! (i - 1) = LF" using i(1) by (simp add: nth_Cons')
    moreover have "i - 1 < length bd" using i arg_cong [OF z, of length] by simp
    ultimately show False using bd(1) by (metis nth_mem)
  qed
  moreover have "\<not> prefix (LF # bd) (drop j dat)" if "j < length body + 1" for j
    using no_early_match [OF v bd, of j] that len by (auto simp: less_Suc_eq_le)
  moreover have "dat ! length body = CR" using at [of "length body"] len by (simp add: nth_append)
  ultimately show ?thesis using here len memstr_lemma [of "LF # bd" dat True "length body + 1"]
    by (auto simp: match_here_partial prefix_def)
qed

lemma boundary_behind_buffer:
  assumes v: "dat @ rest = body @ CR # LF # bd @ tail" and bd: "LF \<notin> set bd" "\<not> sublist (LF # bd) (body @ [CR])"
    and len: "length dat \<le> length body + 1" and k: "my_memstr dat (LF # bd) True = Some k"
  shows "length dat \<le> k + length bd + 1 \<and> k < length dat"
proof -
  have m: "k < length dat" "prefix (LF # bd) (drop k dat) \<or> prefix (drop k dat) (LF # bd)"
    using k memstr_lemma [of "LF # bd" dat True k] by (auto simp: match_here_partial prefix_def)
  then have "prefix (drop k dat) (LF # bd)" using no_early_match [OF v bd m(1)] len by auto
  then show ?thesis using m(1) prefix_length_le by fastforce
qed


text \<open>One read: a beginning of the body, not empty before its end, and the rest is still to come.\<close>

lemma read_step:
  assumes get: "delivers get" and m: "mb_inv m" "m_bufsize m = fu" "m_boundary m = bd" "m_next m = LF # bd"
    and bd: "LF \<notin> set bd" "\<not> sublist (LF # bd) (body @ [CR])" "length bd + 4 \<le> fu"
    and v: "mb_view m = body @ CR # LF # bd @ tail"
  shows "yields (\<lambda>(m', d). \<exists>body'. body = d @ body' \<and> (body \<noteq> [] \<longrightarrow> d \<noteq> []) \<and> mb_inv m' \<and> same_form m m' \<and>
    mb_view m' = body' @ CR # LF # bd @ tail) (multipart_buffer_read get m fu)"
proof -
  have "yields (\<lambda>m'. mb_inv m' \<and> same_form m m' \<and> mb_view m' = mb_view m \<and> (m_bytes m' = fu \<or> length (snd (m_client m')) \<le> length bd))
      (if fu > m_bytes m then bind_res (fill_buffer get m) (\<lambda>(m, n). Inr m) else Inr m)"
  proof (cases "fu > m_bytes m")
    case True
    have "yields (\<lambda>m'. mb_inv m' \<and> same_form m m' \<and> mb_view m' = mb_view m \<and> (m_bytes m' = fu \<or> length (snd (m_client m')) \<le> length bd))
        (bind_res (fill_buffer get m) (\<lambda>(m, n). Inr m))"
      by (rule yields_bind [OF fill_buffer_view [OF get m(1)]]) (use m in \<open>auto simp: same_form_def\<close>)
    then show ?thesis using True by simp
  next
    case False
    then show ?thesis using m by (auto simp: same_form_def mb_inv_def)
  qed
  then obtain n where f: "(if fu > m_bytes m then bind_res (fill_buffer get m) (\<lambda>(m, n). Inr m) else Inr m) = Inr n"
    and n: "mb_inv n" "same_form m n" "mb_view n = mb_view m" "m_bytes n = fu \<or> length (snd (m_client n)) \<le> length bd"
    by (auto elim!: yieldsE)
  define dat where "dat = mb_data n"
  obtain b where b: "m_begin n = Some b" "b + m_bytes n \<le> fu" "length (m_buffer n) = fu + 1"
    using n(1,2) m(2) by (auto simp: mb_inv_def same_form_def)
  have dl: "length dat = m_bytes n" using mb_data_length [OF n(1)] by (simp add: dat_def)
  have vd: "dat @ snd (m_client n) = body @ CR # LF # bd @ tail" using n(3) v by (simp add: mb_view_def dat_def)
  have nx: "m_next n = LF # bd" using n(2) m(4) by (simp add: same_form_def)
  text \<open>Taking \<open>k\<close> bytes.\<close>
  have taken: "mb_inv (n\<lparr>m_bytes := m_bytes n - k, m_begin := map_option (\<lambda>b. b + k) (m_begin n)\<rparr>) \<and>
      same_form m (n\<lparr>m_bytes := m_bytes n - k, m_begin := map_option (\<lambda>b. b + k) (m_begin n)\<rparr>) \<and>
      mb_view (n\<lparr>m_bytes := m_bytes n - k, m_begin := map_option (\<lambda>b. b + k) (m_begin n)\<rparr>) = drop k body @ CR # LF # bd @ tail"
    if k: "k \<le> length dat" "k \<le> length body" for k
  proof -
    have "drop k dat @ snd (m_client n) = drop k body @ CR # LF # bd @ tail" using arg_cong [OF vd, of "drop k"] k by simp
    moreover have "take (m_bytes n - k) (drop (b + k) (m_buffer n)) = drop k dat"
      using b by (simp add: dat_def mb_data_def drop_take add.commute)
    ultimately show ?thesis using n(1,2) b k dl by (auto simp: mb_inv_def mb_view_def mb_data_def same_form_def)
  qed
  have tk: "take k dat = take k body" if "k \<le> length dat" "k \<le> length body" for k
    using arg_cong [OF vd, of "take k"] that by simp
  have result: "yields (\<lambda>(m', d). \<exists>body'. body = d @ body' \<and> (body \<noteq> [] \<longrightarrow> d \<noteq> []) \<and> mb_inv m' \<and> same_form m m' \<and>
      mb_view m' = body' @ CR # LF # bd @ tail) (multipart_buffer_read get m fu)"
    if r: "multipart_buffer_read get m fu =
        Inr (n\<lparr>m_bytes := m_bytes n - k, m_begin := map_option (\<lambda>b. b + k) (m_begin n)\<rparr>, take k dat)"
      and k: "k \<le> length dat" "k \<le> length body" "body \<noteq> [] \<Longrightarrow> 0 < k" for k
    using taken [OF k(1,2)] tk [OF k(1,2)] k by (auto simp: r intro!: exI [of _ "drop k body"])
  have read: "multipart_buffer_read get m fu =
      (let bound = my_memstr dat (LF # bd) True; mx = (case bound of Some k \<Rightarrow> k | None \<Rightarrow> m_bytes n);
        len = (if mx < fu - 1 then mx else fu - 1) in
        if len > 0
        then let len = (if bound \<noteq> None \<and> dat ! (len - 1) = CR then len - 1 else len) in
          Inr (n\<lparr>m_bytes := m_bytes n - len, m_begin := map_option (\<lambda>b. b + len) (m_begin n)\<rparr>, take len dat)
        else Inr (n, []))"
    unfolding multipart_buffer_read_def f bind_res_simps nx dat_def by (simp only: Let_def)
  show ?thesis
  proof (cases "length body + 1 < length dat")
    case True
    have e: "my_memstr dat (LF # bd) True = Some (length body + 1)" "dat ! length body = CR"
      using boundary_in_buffer [OF vd bd(1,2) True] by auto
    define len where "len = (if length body + 1 < fu - 1 then length body + 1 else fu - 1)"
    have len: "len = length body + 1" using True dl b(2) by (auto simp: len_def)
    have "multipart_buffer_read get m fu =
        Inr (n\<lparr>m_bytes := m_bytes n - length body, m_begin := map_option (\<lambda>b. b + length body) (m_begin n)\<rparr>, take (length body) dat)"
      unfolding read Let_def e(1) option.case len_def [symmetric] unfolding len using e(2) by simp
    then show ?thesis using True by (intro result) auto
  next
    case False
    have "length (snd (m_client n)) > length bd" using arg_cong [OF vd, of length] False by simp
    then have full: "length dat = fu" "m_bytes n = fu" using n(4) dl by auto
    define mx where "mx = (case my_memstr dat (LF # bd) True of Some k \<Rightarrow> k | None \<Rightarrow> m_bytes n)"
    have mx: "3 \<le> mx" using boundary_behind_buffer [OF vd bd(1,2)] False full bd(3) by (fastforce simp: mx_def split: option.splits)
    define len where "len = (if mx < fu - 1 then mx else fu - 1)"
    define k where "k = (if my_memstr dat (LF # bd) True \<noteq> None \<and> dat ! (len - 1) = CR then len - 1 else len)"
    have len: "3 \<le> len" "len \<le> fu - 1" using mx bd(3) by (auto simp: len_def)
    then have k: "0 < k" "k \<le> fu - 1" by (auto simp: k_def)
    have "multipart_buffer_read get m fu =
        Inr (n\<lparr>m_bytes := m_bytes n - k, m_begin := map_option (\<lambda>b. b + k) (m_begin n)\<rparr>, take k dat)"
      using len(1) unfolding read Let_def mx_def [symmetric] len_def [symmetric] k_def [symmetric] by simp
    then show ?thesis using False full k by (intro result) auto
  qed
qed

lemma read_stepE:
  assumes "delivers get" "mb_inv m" "m_bufsize m = fu" "m_boundary m = bd" "m_next m = LF # bd"
    "LF \<notin> set bd" "\<not> sublist (LF # bd) (body @ [CR])" "length bd + 4 \<le> fu"
    "mb_view m = body @ CR # LF # bd @ tail"
  obtains m' d body' where "multipart_buffer_read get m fu = Inr (m', d)"
    "body = d @ body' \<and> (body \<noteq> [] \<longrightarrow> d \<noteq> []) \<and> mb_inv m' \<and> same_form m m' \<and> mb_view m' = body' @ CR # LF # bd @ tail"
  using read_step [OF assms] unfolding yields_def by blast

lemma read_body_loop_exact:
  assumes "delivers get" "LF \<notin> set bd" "length bd + 4 \<le> fu"
  shows "mb_inv m \<Longrightarrow> m_bufsize m = fu \<Longrightarrow> m_boundary m = bd \<Longrightarrow> m_next m = LF # bd \<Longrightarrow> \<not> sublist (LF # bd) (body @ [CR]) \<Longrightarrow>
    mb_view m = body @ CR # LF # bd @ tail \<Longrightarrow> nul_free body \<Longrightarrow> length body + 1 < fuel \<Longrightarrow>
    \<exists>m'. read_body_loop fuel fu get m out = Inr (m', out @ body) \<and> mb_view m' = CR # LF # bd @ tail \<and> mb_inv m' \<and> same_form m m'"
proof (induction fuel arbitrary: m body out)
  case 0
  show ?case using 0(8) by simp
next
  case (Suc fuel)
  let ?Q = "\<lambda>m' d body'. body = d @ body' \<and> (body \<noteq> [] \<longrightarrow> d \<noteq> []) \<and> mb_inv m' \<and> same_form m m' \<and>
    mb_view m' = body' @ CR # LF # bd @ tail"
  obtain m' d body' where r: "multipart_buffer_read get m fu = Inr (m', d)" and b: "?Q m' d body'"
    by (rule read_stepE [OF assms(1) Suc.prems(1-4) assms(2) Suc.prems(5) assms(3) Suc.prems(6)]) blast
  have run: "read_body_loop (Suc fuel) fu get m out = (if d = [] then Inr (m', out) else read_body_loop fuel fu get m' (out @ upto_nul d))"
    by (simp only: read_body_loop.simps r bind_res_simps prod.case)
  have bb: "body = d @ body'" "same_form m m'" "mb_inv m'" "mb_view m' = body' @ CR # LF # bd @ tail" "body \<noteq> [] \<Longrightarrow> d \<noteq> []"
    using b by blast+
  show ?case
  proof (cases "d = []")
    case True
    then have "body = []" using bb(5) by blast
    then show ?thesis using bb True unfolding run by simp
  next
    case False
    have nf: "nul_free d" "nul_free body'" using Suc.prems(7) unfolding bb(1) by (auto simp: nul_free_def)
    have sub: "\<not> sublist (LF # bd) (body' @ [CR])"
    proof
      assume "sublist (LF # bd) (body' @ [CR])"
      then have "sublist (LF # bd) (d @ body' @ [CR])" by (rule sublist_order.order.trans) (rule sublist_append_leftI)
      then show False using Suc.prems(5) bb(1) by simp
    qed
    have form: "m_bufsize m' = fu" "m_boundary m' = bd" "m_next m' = LF # bd"
      using bb(2) Suc.prems(2,3,4) by (simp_all add: same_form_def)
    have "0 < length d" using False by blast
    then have shorter: "length body' + 1 < fuel" using Suc.prems(8) unfolding bb(1) length_append by linarith
    obtain m'' where m'': "read_body_loop fuel fu get m' (out @ d) = Inr (m'', (out @ d) @ body')" "mb_view m'' = CR # LF # bd @ tail"
      "mb_inv m''" "same_form m' m''"
      using Suc.IH [OF bb(3) form sub bb(4) nf(2) shorter, of "out @ d"] by blast
    have "upto_nul d = d" using nf(1) by simp
    then have "read_body_loop (Suc fuel) fu get m out = Inr (m'', out @ body)"
      using False m''(1) unfolding run bb(1) by simp
    moreover have "same_form m m''" using bb(2) m''(4) by (simp add: same_form_def)
    ultimately show ?thesis using m''(2,3) by blast
  qed
qed

lemma read_body_state:
  assumes "delivers get" "mb_inv m" "m_bufsize m = fu" "m_boundary m = bd" "m_next m = LF # bd"
    "LF \<notin> set bd" "\<not> sublist (LF # bd) (body @ [CR])" "length bd + 4 \<le> fu"
    "mb_view m = body @ CR # LF # bd @ tail" "nul_free body" "length body + 1 < fuel"
  shows "\<exists>m'. multipart_buffer_read_body fuel fu get m = Inr (m', body) \<and> mb_view m' = CR # LF # bd @ tail \<and>
    mb_inv m' \<and> same_form m m'"
  using read_body_loop_exact [OF assms(1,6,8,2-5,7,9,10,11), of "[]"] by (simp add: multipart_buffer_read_body_def)

text \<open>
  The body of a part of a form is read whole and exactly: whatever bytes but NUL it has -
  line feeds and beginnings of the boundary among them - and wherever the blocks of the buffer
  end in it, the result is the body, and the line end and the boundary behind it are still to be
  read.
\<close>

theorem read_body_exact:
  assumes "delivers get" "mb_inv m" "m_bufsize m = fu" "m_boundary m = bd" "m_next m = LF # bd"
    "LF \<notin> set bd" "\<not> sublist (LF # bd) (body @ [CR])" "length bd + 4 \<le> fu"
    "mb_view m = body @ CR # LF # bd @ tail" "nul_free body" "length body + 1 < fuel"
  shows "\<exists>m'. multipart_buffer_read_body fuel fu get m = Inr (m', body) \<and> mb_view m' = CR # LF # bd @ tail"
  using read_body_state [OF assms] by blast

definition demo_get :: "char list get_block" where
  "demo_get c n = ((fst c - int (length (take n (snd c))), drop n (snd c)), take n (snd c))"

definition demo_mbuffer :: "char list mbuffer" where
  "demo_mbuffer =
     (let ds = ''a line'' @ [LF] @ ''--y'' @ [CR] @ ''--xyz'' @ [CR, LF] @ ''--xyz--'' in
      \<lparr>m_client = (int (length ds), ds), m_buffer = replicate 13 NUL, m_begin = Some 0, m_bufsize = 12, m_bytes = 0,
        m_boundary = ''--xyz'', m_next = [LF] @ ''--xyz''\<rparr>)"

theorem read_body_exact_witness:
  "\<exists>m'. multipart_buffer_read_body 30 12 demo_get demo_mbuffer = Inr (m', ''a line'' @ [LF] @ ''--y'' @ [CR] @ ''--xyz'') \<and>
     mb_view m' = CR # LF # ''--xyz'' @ ''--''"
proof (rule read_body_exact)
  show "delivers demo_get" by (simp add: delivers_def demo_get_def)
  show "mb_inv demo_mbuffer" by (simp add: mb_inv_def demo_mbuffer_def)
  show "\<not> sublist (LF # ''--xyz'') ((''a line'' @ [LF] @ ''--y'' @ [CR] @ ''--xyz'') @ [CR])"
    by (simp add: sublist_Cons_right)
qed (simp_all add: demo_mbuffer_def mb_view_def mb_data_def nul_free_def)

end
