(* ===== verification/ApacheRequest.thy ===== *)
theory ApacheRequest
  imports ApacheMultipart LwsUtils
begin

text \<open>
  The request object of \<open>webconnect/apache2/apache_request.c\<close>: the body of a posted form, the
  parameters of the query and of the form, the parts of a multipart form and its uploads, expiry
  times.  The functions of the Apache library are the fields of a record.
\<close>

section \<open>The library and the request\<close>

abbreviation "HTTP_REQUEST_ENTITY_TOO_LARGE \<equiv> 413 :: int"
abbreviation "HTTP_INTERNAL_SERVER_ERROR \<equiv> 500 :: int"
abbreviation "HTTP_FORBIDDEN \<equiv> 403 :: int"
abbreviation "OK \<equiv> 0 :: int"
abbreviation "DECLINED \<equiv> - 1 :: int"

text \<open>
  \<open>ax_write\<close> is the upload hook or the write to the temporary file, whichever the request has,
  on its state \<open>'f\<close>: the new state, the status and the number of bytes written; \<open>ax_huge\<close>
  is \<open>HUGE_STRING_LEN\<close>.
\<close>

record ('s, 'f) apache =
  ax_huge :: nat
  ax_setup :: int
  ax_should :: bool
  ax_block :: "'s get_block"
  ax_getword :: getword
  ax_conf :: "cstr \<Rightarrow> cstr \<times> cstr"
  ax_ind :: "cstr \<Rightarrow> char \<Rightarrow> int"
  ax_find :: "ap_table \<Rightarrow> cstr \<Rightarrow> cstr option"
  ax_all :: "ap_table \<Rightarrow> cstr \<Rightarrow> cstr list"
  ax_tmpfile :: "cstr option"
  ax_write :: "'f \<Rightarrow> char list \<Rightarrow> 'f \<times> int \<times> nat"

record upload =
  up_filename :: "cstr option"
  up_name :: "cstr option"
  up_tempname :: "cstr option"
  up_info :: "ap_table option"
  up_size :: int

record ('s, 'f) areq =
  q_parms :: ap_table
  q_upload :: "upload list"
  q_status :: int
  q_parsed :: bool
  q_post_max :: int
  q_disable_uploads :: bool
  q_upload_hook :: bool
  q_nargs :: nat
  q_client :: "'s client_state"
  q_sink :: 'f
  q_args :: "cstr option"
  q_post :: bool
  q_headers_in :: ap_table

definition ApacheRequest_new :: "'s client_state \<Rightarrow> 'f \<Rightarrow> cstr option \<Rightarrow> bool \<Rightarrow> ap_table \<Rightarrow> ('s, 'f) areq" where
  "ApacheRequest_new r f args post headers =
     \<lparr>q_parms = [], q_upload = [], q_status = OK, q_parsed = False, q_post_max = - 1, q_disable_uploads = False,
       q_upload_hook = False, q_nargs = 0, q_client = r, q_sink = f, q_args = args, q_post = post, q_headers_in = headers\<rparr>"

section \<open>The body of a form\<close>

text \<open>The loop that copies the blocks into the buffer; what does not fit is cut off.\<close>

fun util_read_loop :: "nat \<Rightarrow> nat \<Rightarrow> 's get_block \<Rightarrow> int \<Rightarrow> 's client_state \<Rightarrow> char list \<Rightarrow> nat \<Rightarrow> fault + ('s client_state \<times> char list)" where
  "util_read_loop 0 huge get len r rbuf rpos = Inl OutOfFuel"
| "util_read_loop (Suc fuel) huge get len r rbuf rpos =
     (let (r, buff) = get r huge; len_read = length buff in
      if len_read = 0 then Inr (r, rbuf)
      else let rsize = (if int (rpos + len_read) > len then len - int rpos else int len_read) in
        if rsize < 0 then Inl OutOfBounds
        else bind_res (memcpy_at rbuf rpos (take (nat rsize) buff)) (\<lambda>rbuf.
          util_read_loop fuel huge get len r rbuf (rpos + nat rsize)))"

definition util_read :: "nat \<Rightarrow> ('s, 'f) apache \<Rightarrow> ('s, 'f) areq \<Rightarrow> fault + (('s, 'f) areq \<times> int \<times> char list option)" where
  "util_read fuel ax req =
     (if ax_setup ax \<noteq> OK then Inr (req, ax_setup ax, None)
      else if ax_should ax
      then let len = fst (q_client req) in
        if len > q_post_max req \<and> q_post_max req > 0 then Inr (req, HTTP_REQUEST_ENTITY_TOO_LARGE, None)
        else bind_res (util_read_loop fuel (ax_huge ax) (ax_block ax) len (q_client req) (replicate (nat (len + 1)) NUL) 0) (\<lambda>(r, rbuf).
          Inr (req\<lparr>q_client := r\<rparr>, OK, Some rbuf))
      else Inr (req, OK, None))"

definition DEFAULT_ENCTYPE :: cstr where "DEFAULT_ENCTYPE = ''application/x-www-form-urlencoded''"
definition MULTIPART_ENCTYPE :: cstr where "MULTIPART_ENCTYPE = ''multipart/form-data''"

definition ApacheRequest_parse_urlencoded ::
    "nat \<Rightarrow> ('s, 'f) apache \<Rightarrow> ('s, 'f) areq \<Rightarrow> fault + (('s, 'f) areq \<times> int)" where
  "ApacheRequest_parse_urlencoded fuel ax req =
     (if q_post req
      then case ax_find ax (q_headers_in req) ''Content-Type'' of
          None \<Rightarrow> Inl NullDeref
        | Some type \<Rightarrow>
            if \<not> ncase_eq 33 type DEFAULT_ENCTYPE then Inr (req, DECLINED)
            else bind_res (util_read fuel ax req) (\<lambda>(req, rc, d).
              if rc \<noteq> OK then Inr (req, rc)
              else case d of
                  None \<Rightarrow> Inr (req, OK)
                | Some b \<Rightarrow> bind_res (split_to_parms (ax_getword ax) (upto_nul b) (q_parms req)) (\<lambda>parms.
                    Inr (req\<lparr>q_parms := parms\<rparr>, OK)))
      else Inr (req, OK))"

section \<open>Multipart forms\<close>

definition ApacheUpload_new :: upload where
  "ApacheUpload_new = \<lparr>up_filename = None, up_name = None, up_tempname = None, up_info = None, up_size = 0\<rparr>"

text \<open>\<open>strcmp\<close> on the name of an upload that has none reads through a null pointer.\<close>

fun ApacheUpload_find :: "upload list \<Rightarrow> cstr \<Rightarrow> fault + upload option" where
  "ApacheUpload_find [] name = Inr None"
| "ApacheUpload_find (u # us) name =
     (case up_name u of None \<Rightarrow> Inl NullDeref | Some n \<Rightarrow> if n = name then Inr (Some u) else ApacheUpload_find us name)"

definition strcaseEQ :: "cstr \<Rightarrow> cstr \<Rightarrow> bool" where
  "strcaseEQ s t \<longleftrightarrow> map c_tolower s = map c_tolower t"

text \<open>The pairs of a \<open>Content-Disposition\<close>: the name of the parameter and of the file.\<close>

fun disposition :: "nat \<Rightarrow> ('s, 'f) apache \<Rightarrow> cstr \<Rightarrow> cstr option \<Rightarrow> cstr option \<Rightarrow> fault + (cstr option \<times> cstr option)" where
  "disposition 0 ax cd param filename = Inl OutOfFuel"
| "disposition (Suc fuel) ax cd param filename =
     (if cd = [] then Inr (param, filename)
      else let (pair, cd) = ax_getword ax (CHR '';'') cd; cd = dropWhile c_isspace cd in
        if ax_ind ax pair (CHR ''='') \<noteq> 0
        then let (k, pair) = ax_getword ax (CHR ''='') pair in
          if strcaseEQ k ''name'' then disposition fuel ax cd (Some (fst (ax_conf ax pair))) filename
          else if strcaseEQ k ''filename'' then disposition fuel ax cd param (Some (fst (ax_conf ax pair)))
          else disposition fuel ax cd param filename
        else disposition fuel ax cd param filename)"

definition ApacheRequest_tmpfile :: "('s, 'f) apache \<Rightarrow> upload \<Rightarrow> upload option" where
  "ApacheRequest_tmpfile ax up = map_option (\<lambda>n. up\<lparr>up_tempname := Some n\<rparr>) (ax_tmpfile ax)"

text \<open>The bytes that are left are read and dropped.\<close>

fun drain :: "nat \<Rightarrow> nat \<Rightarrow> 's get_block \<Rightarrow> 's client_state \<Rightarrow> fault + 's client_state" where
  "drain 0 fu get r = Inl OutOfFuel"
| "drain (Suc fuel) fu get r = (let (r, buff) = get r fu in if buff = [] then Inr r else drain fuel fu get r)"

text \<open>The loop that writes an upload; the flag says that a write failed.\<close>

fun upload_loop :: "nat \<Rightarrow> nat \<Rightarrow> ('s, 'f) apache \<Rightarrow> 's mbuffer \<Rightarrow> 'f \<Rightarrow> int \<Rightarrow> fault + ('s mbuffer \<times> 'f \<times> int \<times> bool)" where
  "upload_loop 0 fu ax mbuff f sz = Inl OutOfFuel"
| "upload_loop (Suc fuel) fu ax mbuff f sz =
     bind_res (multipart_buffer_read (ax_block ax) mbuff fu) (\<lambda>(mbuff, d).
     if d = [] then Inr (mbuff, f, sz, False)
     else let (f, st, n) = ax_write ax f d in
       if st \<noteq> 0 then Inr (mbuff, f, sz, True) else upload_loop fuel fu ax mbuff f (sz + int n))"

text \<open>
  A part that is a file.  \<open>ups\<close> are the uploads of this call; the last component is the status
  with which the function returns, if it does.
\<close>

definition part_upload ::
    "nat \<Rightarrow> nat \<Rightarrow> ('s, 'f) apache \<Rightarrow> 's mbuffer \<Rightarrow> ('s, 'f) areq \<Rightarrow> upload list \<Rightarrow> ap_table \<Rightarrow> cstr \<Rightarrow> cstr \<Rightarrow>
      fault + ('s mbuffer \<times> ('s, 'f) areq \<times> upload list \<times> int option)" where
  "part_upload fuel fu ax mbuff req ups header param filename =
     (if q_disable_uploads req then Inr (mbuff, req, ups, Some HTTP_FORBIDDEN)
      else let ups' = ups @ [ApacheUpload_new];
               req = req\<lparr>q_parms := q_parms req @ [(param, filename)], q_upload := ups'\<rparr> in
        case (if q_upload_hook req then Some ApacheUpload_new else ApacheRequest_tmpfile ax ApacheUpload_new) of
          None \<Rightarrow> Inr (mbuff, req, ups', Some HTTP_INTERNAL_SERVER_ERROR)
        | Some up \<Rightarrow>
            let up = up\<lparr>up_info := Some header, up_filename := Some filename, up_name := Some param\<rparr> in
            bind_res (fill_buffer (ax_block ax) mbuff) (\<lambda>(mbuff, n).
            let bd = m_boundary mbuff in
            if take (length bd) (drop (the (m_begin mbuff)) (m_buffer mbuff)) = bd
            then Inr (mbuff\<lparr>m_client := (fst (m_client mbuff) - 2, snd (m_client mbuff))\<rparr>,
              req\<lparr>q_upload := ups @ [up]\<rparr>, ups @ [up], None)
            else bind_res (upload_loop fuel fu ax mbuff (q_sink req) 0) (\<lambda>(mbuff, f, sz, failed).
              let ups' = ups @ [up\<lparr>up_size := sz\<rparr>] in
              Inr (mbuff, req\<lparr>q_sink := f, q_upload := ups'\<rparr>, ups', if failed then Some HTTP_INTERNAL_SERVER_ERROR else None))))"

fun parse_parts ::
    "nat \<Rightarrow> nat \<Rightarrow> ('s, 'f) apache \<Rightarrow> 's mbuffer \<Rightarrow> ('s, 'f) areq \<Rightarrow> upload list \<Rightarrow> fault + (('s, 'f) areq \<times> int)" where
  "parse_parts 0 fu ax mbuff req ups = Inl OutOfFuel"
| "parse_parts (Suc fuel) fu ax mbuff req ups =
     bind_res (multipart_buffer_eof (ax_block ax) mbuff) (\<lambda>(mbuff, e).
     if e then Inr (req\<lparr>q_client := m_client mbuff\<rparr>, OK)
     else bind_res (multipart_buffer_headers fuel (ax_block ax) mbuff) (\<lambda>(mbuff, header).
       case header of
         None \<Rightarrow> bind_res (drain fuel fu (ax_block ax) (m_client mbuff)) (\<lambda>r. Inr (req\<lparr>q_client := r\<rparr>, OK))
       | Some header \<Rightarrow>
           (case ax_find ax header ''Content-Disposition'' of
              None \<Rightarrow> parse_parts fuel fu ax mbuff req ups
            | Some cd \<Rightarrow>
                bind_res (disposition fuel ax cd None None) (\<lambda>(param, filename).
                case (filename, param) of
                  (None, _) \<Rightarrow>
                    bind_res (multipart_buffer_read_body fuel fu (ax_block ax) mbuff) (\<lambda>(mbuff, val).
                    case param of
                      None \<Rightarrow> Inl NullDeref
                    | Some p \<Rightarrow> parse_parts fuel fu ax mbuff (req\<lparr>q_parms := q_parms req @ [(p, val)]\<rparr>) ups)
                | (Some fn, None) \<Rightarrow> parse_parts fuel fu ax mbuff req ups
                | (Some fn, Some p) \<Rightarrow>
                    bind_res (part_upload fuel fu ax mbuff req ups header p fn) (\<lambda>(mbuff, req, ups, st).
                    case st of
                      Some rc \<Rightarrow> Inr (req\<lparr>q_client := m_client mbuff\<rparr>, rc)
                    | None \<Rightarrow> parse_parts fuel fu ax mbuff req ups)))))"

definition ApacheRequest_parse_multipart ::
    "nat \<Rightarrow> nat \<Rightarrow> ('s, 'f) apache \<Rightarrow> ('s, 'f) areq \<Rightarrow> fault + (('s, 'f) areq \<times> int)" where
  "ApacheRequest_parse_multipart fuel fu ax req =
     (case ax_find ax (q_headers_in req) ''Content-Type'' of
        None \<Rightarrow> Inr (req, HTTP_INTERNAL_SERVER_ERROR)
      | Some ct \<Rightarrow>
          if ax_setup ax \<noteq> OK then Inr (req, ax_setup ax)
          else if \<not> ax_should ax then Inr (req, OK)
          else if fst (q_client req) > q_post_max req \<and> q_post_max req > 0 then Inr (req, HTTP_REQUEST_ENTITY_TOO_LARGE)
          else let ct = snd (ax_getword ax (CHR ''='') ct); boundary = fst (ax_conf ax ct) in
            parse_parts fuel fu ax (multipart_buffer_new fu boundary (q_client req)) req [])"

section \<open>The request\<close>

definition ApacheRequest___parse :: "nat \<Rightarrow> nat \<Rightarrow> ('s, 'f) apache \<Rightarrow> ('s, 'f) areq \<Rightarrow> fault + (('s, 'f) areq \<times> int)" where
  "ApacheRequest___parse fuel fu ax req =
     bind_res
       (case q_args req of
          None \<Rightarrow> Inr req
        | Some a \<Rightarrow> bind_res (split_to_parms (ax_getword ax) a (q_parms req)) (\<lambda>parms.
            Inr (req\<lparr>q_parms := parms, q_nargs := length parms\<rparr>))) (\<lambda>req.
     bind_res
       (if q_post req
        then case ax_find ax (q_headers_in req) ''Content-type'' of
            None \<Rightarrow> Inr (req, HTTP_INTERNAL_SERVER_ERROR)
          | Some ct \<Rightarrow>
              if ncase_eq 33 ct DEFAULT_ENCTYPE then ApacheRequest_parse_urlencoded fuel ax req
              else if ncase_eq 19 ct MULTIPART_ENCTYPE then ApacheRequest_parse_multipart fuel fu ax req
              else Inr (req, HTTP_INTERNAL_SERVER_ERROR)
        else ApacheRequest_parse_urlencoded fuel ax req) (\<lambda>(req, rc).
     Inr (req\<lparr>q_parsed := True\<rparr>, rc)))"

definition ApacheRequest_parse :: "nat \<Rightarrow> nat \<Rightarrow> ('s, 'f) apache \<Rightarrow> ('s, 'f) areq \<Rightarrow> fault + ('s, 'f) areq" where
  "ApacheRequest_parse fuel fu ax req =
     (if q_parsed req then Inr req
      else bind_res (ApacheRequest___parse fuel fu ax req) (\<lambda>(req, rc). Inr (req\<lparr>q_status := rc\<rparr>)))"

definition ApacheRequest_param ::
    "nat \<Rightarrow> nat \<Rightarrow> ('s, 'f) apache \<Rightarrow> ('s, 'f) areq \<Rightarrow> cstr \<Rightarrow> fault + (('s, 'f) areq \<times> cstr option)" where
  "ApacheRequest_param fuel fu ax req k =
     bind_res (ApacheRequest_parse fuel fu ax req) (\<lambda>req. Inr (req, ax_find ax (q_parms req) k))"

definition ApacheRequest_params ::
    "nat \<Rightarrow> nat \<Rightarrow> ('s, 'f) apache \<Rightarrow> ('s, 'f) areq \<Rightarrow> cstr \<Rightarrow> fault + (('s, 'f) areq \<times> cstr list)" where
  "ApacheRequest_params fuel fu ax req k =
     bind_res (ApacheRequest_parse fuel fu ax req) (\<lambda>req. Inr (req, ax_all ax (q_parms req) k))"

text \<open>The values with commas between them; null when there is none.\<close>

fun join_values :: "cstr option \<Rightarrow> cstr list \<Rightarrow> cstr option" where
  "join_values retval [] = retval"
| "join_values retval (v # vs) =
     join_values (Some ((case retval of None \<Rightarrow> [] | Some s \<Rightarrow> s) @ v @ (if vs = [] then [] else '', ''))) vs"

definition ApacheRequest_params_as_string ::
    "nat \<Rightarrow> nat \<Rightarrow> ('s, 'f) apache \<Rightarrow> ('s, 'f) areq \<Rightarrow> cstr \<Rightarrow> fault + (('s, 'f) areq \<times> cstr option)" where
  "ApacheRequest_params_as_string fuel fu ax req k =
     bind_res (ApacheRequest_params fuel fu ax req k) (\<lambda>(req, vs). Inr (req, join_values None vs))"

text \<open>The parameters of the query are the first ones of the table, those of the form the others.\<close>

definition ApacheRequest_query_params :: "('s, 'f) areq \<Rightarrow> ap_table" where
  "ApacheRequest_query_params req = take (q_nargs req) (q_parms req)"

definition ApacheRequest_post_params :: "('s, 'f) areq \<Rightarrow> ap_table" where
  "ApacheRequest_post_params req = drop (q_nargs req) (q_parms req)"

definition ApacheRequest_upload :: "nat \<Rightarrow> nat \<Rightarrow> ('s, 'f) apache \<Rightarrow> ('s, 'f) areq \<Rightarrow> fault + (('s, 'f) areq \<times> upload list)" where
  "ApacheRequest_upload fuel fu ax req =
     (if q_parsed req then Inr (req, q_upload req)
      else bind_res (ApacheRequest_parse fuel fu ax req) (\<lambda>req.
        Inr (req, if q_status req = OK then q_upload req else [])))"

text \<open>\<open>find_info\<close> is \<open>ap_find_path_info\<close>: where the path information starts in the URI.\<close>

definition ApacheRequest_script_name :: "(cstr \<Rightarrow> cstr \<Rightarrow> nat) \<Rightarrow> cstr \<Rightarrow> cstr option \<Rightarrow> cstr" where
  "ApacheRequest_script_name find_info uri path_info =
     (case path_info of
        Some p \<Rightarrow> if p \<noteq> [] then take (find_info uri p) uri else uri
      | None \<Rightarrow> uri)"

section \<open>Expiry times\<close>

definition expire_mult :: "char \<Rightarrow> int" where
  "expire_mult s =
     (if s = CHR ''s'' then 1 else if s = CHR ''m'' then 60 else if s = CHR ''h'' then 60 * 60
      else if s = CHR ''d'' then 60 * 60 * 24 else if s = CHR ''M'' then 60 * 60 * 24 * 30
      else if s = CHR ''y'' then 60 * 60 * 24 * 365 else 1)"

text \<open>The digits are copied into a buffer of 256 bytes.\<close>

fun copy_digits :: "cstr \<Rightarrow> char list \<Rightarrow> nat \<Rightarrow> fault + (cstr \<times> char list \<times> nat)" where
  "copy_digits [] buf ix = Inr ([], buf, ix)"
| "copy_digits (c # cs) buf ix =
     (if c_isdigit c \<or> c = CHR ''1'' then bind_res (wr buf ix c) (\<lambda>buf. copy_digits cs buf (ix + 1))
      else Inr (c # cs, buf, ix))"

definition fits_int :: "int \<Rightarrow> bool" where
  "fits_int i \<longleftrightarrow> - (2 ^ 31) \<le> i \<and> i < 2 ^ 31"

text \<open>
  \<open>now\<close> is the time; the offset and the product are of type \<open>int\<close>.  The result 0 stands for a
  string that is not relative.
\<close>

definition expire_calc :: "int \<Rightarrow> cstr \<Rightarrow> fault + int" where
  "expire_calc now time_str =
     (let is_neg = (at0 time_str = CHR ''-''); signed = (is_neg \<or> at0 time_str = CHR ''+'');
          s = (if signed then tl time_str else time_str) in
      if \<not> signed \<and> \<not> strcaseEQ time_str ''now'' then Inr 0
      else bind_res (copy_digits s (replicate 256 NUL) 0) (\<lambda>(s, buf, ix).
        bind_res (wr buf ix NUL) (\<lambda>buf.
        let off = c_atoi (upto_nul buf); prod = expire_mult (at0 s) * (if is_neg then 0 - off else off) in
        if fits_int off \<and> fits_int prod then Inr (now + prod) else Inl IntOverflow)))"

section \<open>Reading the body\<close>

text \<open>A client that sends the given blocks, one for each read, and then nothing.\<close>

definition sends_blocks :: "char list list get_block \<Rightarrow> bool" where
  "sends_blocks get \<longleftrightarrow>
     (\<forall>r b bs n. get (r, b # bs) n = ((r - int (length (take n b)), bs), take n b)) \<and> (\<forall>r n. get (r, []) n = ((r, []), []))"

lemma util_read_loop_blocks:
  assumes "sends_blocks get"
  shows "list_all (\<lambda>b. b \<noteq> [] \<and> length b \<le> huge) bs \<Longrightarrow> length bs < fuel \<Longrightarrow> length old \<le> n \<Longrightarrow>
    \<exists>r'. util_read_loop fuel huge get (int n) (r, bs) (old @ replicate (n + 1 - length old) NUL) (length old) =
      Inr ((r', []), take n (old @ concat bs) @ replicate (n + 1 - length (take n (old @ concat bs))) NUL)"
proof (induction bs arbitrary: fuel r old)
  case Nil
  then obtain f where "fuel = Suc f" by (cases fuel) auto
  then show ?case using assms Nil by (simp add: sends_blocks_def)
next
  case (Cons b bs)
  then obtain f where f: "fuel = Suc f" "length bs < f" by (cases fuel) auto
  have b: "b \<noteq> []" "take huge b = b" using Cons.prems(1) by auto
  define k where "k = min (length b) (n - length old)"
  have k: "nat (if int (length old + length b) > int n then int n - int (length old) else int (length b)) = k"
    "\<not> (if int (length old + length b) > int n then int n - int (length old) else int (length b)) < 0"
    using Cons.prems(3) by (auto simp: k_def)
  have "length (take k b) = k" by (simp add: k_def)
  then have cp: "memcpy_at (old @ replicate (n + 1 - length old) NUL) (length old) (take k b) =
      Inr ((old @ take k b) @ replicate (n + 1 - length (old @ take k b)) NUL)"
    using Cons.prems(3) by (simp add: memcpy_at_def k_def)
  have "util_read_loop (Suc f) huge get (int n) (r, b # bs) (old @ replicate (n + 1 - length old) NUL) (length old) =
      util_read_loop f huge get (int n) (r - int (length b), bs) ((old @ take k b) @ replicate (n + 1 - length (old @ take k b)) NUL)
        (length (old @ take k b))"
    using assms b k cp \<open>length (take k b) = k\<close> by (simp add: sends_blocks_def Let_def)
  moreover have "take n (old @ b @ concat bs) = take n ((old @ take k b) @ concat bs)"
    using Cons.prems(3) by (auto simp: k_def min_def)
  moreover have "length (old @ take k b) \<le> n" using Cons.prems(3) by (simp add: k_def)
  ultimately show ?case
    using Cons.IH [of f "old @ take k b" "r - int (length b)"] Cons.prems(1) f by simp
qed

lemma util_read_blocks:
  assumes "sends_blocks (ax_block ax)" "ax_setup ax = OK" "ax_should ax" "q_client req = (int n, bs)"
    "q_post_max req \<le> 0 \<or> int n \<le> q_post_max req" "list_all (\<lambda>b. b \<noteq> [] \<and> length b \<le> ax_huge ax) bs" "length bs < fuel"
  shows "\<exists>r. util_read fuel ax req = Inr (req\<lparr>q_client := r\<rparr>, OK,
    Some (take n (concat bs) @ replicate (n + 1 - length (take n (concat bs))) NUL))"
proof -
  obtain r where "util_read_loop fuel (ax_huge ax) (ax_block ax) (int n) (int n, bs) (replicate (n + 1) NUL) 0 =
      Inr ((r, []), take n (concat bs) @ replicate (n + 1 - length (take n (concat bs))) NUL)"
    using util_read_loop_blocks [OF assms(1,6,7), of "[]" n "int n"] by auto
  moreover have "nat (int n + 1) = n + 1" by simp
  moreover have "\<not> (int n > q_post_max req \<and> q_post_max req > 0)" using assms(5) by auto
  ultimately show ?thesis using assms(2-4) by (intro exI [of _ "(r, [])"]) (simp add: util_read_def Let_def del: replicate.simps split_paired_Ex)
qed


text \<open>A library whose words are cut at a character, for the examples.\<close>

definition demo_cut :: getword where
  "demo_cut c s = (takeWhile (\<lambda>x. x \<noteq> c) s, drop 1 (dropWhile (\<lambda>x. x \<noteq> c) s))"

lemma demo_cut_facts:
  assumes "c \<notin> set w"
  shows "demo_cut c (w @ c # rest) = (w, rest)" "demo_cut c w = (w, [])"
proof -
  have "\<forall>x \<in> set w. x \<noteq> c" using assms by auto
  then have "takeWhile (\<lambda>x. x \<noteq> c) w = w" "dropWhile (\<lambda>x. x \<noteq> c) w = []" "takeWhile (\<lambda>x. x \<noteq> c) (w @ c # rest) = w"
    "dropWhile (\<lambda>x. x \<noteq> c) (w @ c # rest) = c # rest"
    by (auto simp: takeWhile_append dropWhile_append)
  then show "demo_cut c (w @ c # rest) = (w, rest)" "demo_cut c w = (w, [])"
    unfolding demo_cut_def by (simp_all only: drop0 drop_Suc_Cons One_nat_def drop_Nil)
qed

definition demo_word :: "cstr \<Rightarrow> cstr \<times> cstr" where
  "demo_word s =
     (if s \<noteq> [] \<and> hd s = CHR 0x22
      then (takeWhile (\<lambda>c. c \<noteq> CHR 0x22) (tl s), drop 1 (dropWhile (\<lambda>c. c \<noteq> CHR 0x22) (tl s)))
      else (takeWhile (\<lambda>c. \<not> c_isspace c) s, dropWhile c_isspace (dropWhile (\<lambda>c. \<not> c_isspace c) s)))"

definition demo_apache :: "'s get_block \<Rightarrow> ('s, 'f) apache" where
  "demo_apache get =
     \<lparr>ax_huge = 8192, ax_setup = OK, ax_should = True, ax_block = get, ax_getword = demo_cut, ax_conf = demo_word,
       ax_ind = (\<lambda>s c. if c \<in> set s then int (length (takeWhile (\<lambda>x. x \<noteq> c) s)) else - 1),
       ax_find = map_of, ax_all = (\<lambda>t k. map snd (filter (\<lambda>e. fst e = k) t)), ax_tmpfile = None,
       ax_write = (\<lambda>f d. (f, 0, length d))\<rparr>"

definition block_get :: "char list list get_block" where
  "block_get c n = (case snd c of [] \<Rightarrow> (c, []) | b # bs \<Rightarrow> ((fst c - int (length (take n b)), bs), take n b))"

lemma demo_blocks: "sends_blocks (ax_block (demo_apache block_get))"
  by (simp add: sends_blocks_def demo_apache_def block_get_def)


section \<open>The parameters of a request\<close>

text \<open>
  C16. The parameters of a query and of a posted form are told apart and read back: whatever the
  blocks in which the body comes, the query's parameters and the form's are the two parts of the
  table.
\<close>

theorem parse_form:
  assumes "sends_blocks (ax_block ax)" "ax_setup ax = OK" "ax_should ax" "cuts_at_sign (ax_getword ax)"
    "ax_find ax headers ''Content-type'' = Some DEFAULT_ENCTYPE" "ax_find ax headers ''Content-Type'' = Some DEFAULT_ENCTYPE"
    "list_all (\<lambda>b. b \<noteq> [] \<and> length b \<le> ax_huge ax) bs" "concat bs = query_text form" "length bs < fuel"
    "\<forall>(k, v) \<in> set (qs @ form). nul_free k \<and> nul_free v"
  shows "\<exists>req. ApacheRequest_parse fuel fu ax
      (ApacheRequest_new (int (length (concat bs)), bs) f (Some (query_text qs)) True headers) = Inr req \<and>
    ApacheRequest_query_params req = qs \<and> ApacheRequest_post_params req = form \<and> q_status req = OK"
proof -
  define req where "req = (ApacheRequest_new (int (length (concat bs)), bs) f (Some (query_text qs)) True headers)\<lparr>q_parms := qs, q_nargs := length qs\<rparr>"
  have s: "split_to_parms (ax_getword ax) (query_text qs) [] = Inr qs" "split_to_parms (ax_getword ax) (query_text form) qs = Inr (qs @ form)"
    using split_query_lemma [OF assms(4), of qs "[]"] split_query_lemma [OF assms(4), of form qs] assms(10) by auto
  obtain r where r: "util_read fuel ax req = Inr (req\<lparr>q_client := r\<rparr>, OK, Some (concat bs @ [NUL]))"
    using util_read_blocks [OF assms(1-3), of req "length (concat bs)" bs fuel] assms(7,9) by (auto simp: req_def ApacheRequest_new_def)
  have nf: "nul_free (query_text form)" using query_text_nul_free assms(10) by auto
  have e: "ncase_eq 33 DEFAULT_ENCTYPE DEFAULT_ENCTYPE" by (simp add: DEFAULT_ENCTYPE_def numeral_eq_Suc)
  have q: "q_post req" "q_headers_in req = headers" "q_parms req = qs" "q_nargs req = length qs" by (simp_all add: req_def ApacheRequest_new_def)
  have "ApacheRequest_parse_urlencoded fuel ax req = Inr (req\<lparr>q_client := r, q_parms := qs @ form\<rparr>, OK)"
    using r s(2) nf e q assms(6,8) by (simp add: ApacheRequest_parse_urlencoded_def upto_nul_append)
  then have "ApacheRequest_parse fuel fu ax (ApacheRequest_new (int (length (concat bs)), bs) f (Some (query_text qs)) True headers) =
      Inr (req\<lparr>q_client := r, q_parms := qs @ form, q_parsed := True, q_status := OK\<rparr>)"
    using s(1) e assms(5) q unfolding ApacheRequest_parse_def ApacheRequest___parse_def
    by (simp add: req_def ApacheRequest_new_def)
  then show ?thesis using q by (simp add: ApacheRequest_query_params_def ApacheRequest_post_params_def)
qed

definition demo_headers :: ap_table where
  "demo_headers = [(''Content-type'', DEFAULT_ENCTYPE), (''Content-Type'', DEFAULT_ENCTYPE)]"

theorem parse_form_witness:
  "\<exists>req. ApacheRequest_parse 9 5120 (demo_apache block_get)
      (ApacheRequest_new (int (length (concat [''k=a'', ''+b''])), [''k=a'', ''+b'']) () (Some (query_text [(''q'', ''1'')])) True demo_headers) =
      Inr req \<and>
    ApacheRequest_query_params req = [(''q'', ''1'')] \<and> ApacheRequest_post_params req = [(''k'', ''a b'')] \<and> q_status req = OK"
proof (rule parse_form)
  show "sends_blocks (ax_block (demo_apache block_get))" by (rule demo_blocks)
  show "cuts_at_sign (ax_getword (demo_apache block_get))"
    by (auto simp: demo_apache_def demo_cut_def cuts_at_sign_def takeWhile_append dropWhile_append)
  show "concat [''k=a'', ''+b''] = query_text [(''k'', ''a b'')]"
    by (simp add: url_plain_def c_isalpha_def c_islower_def c_isupper_def c_isdigit_def code_def)
qed (simp_all add: demo_apache_def demo_headers_def nul_free_def)

section \<open>The table only grows\<close>

definition grows :: "('s, 'f) areq \<Rightarrow> ('s, 'f) areq \<Rightarrow> bool" where
  "grows req r \<longleftrightarrow> (\<exists>t. q_parms r = q_parms req @ t) \<and> q_nargs r = q_nargs req"

lemma grows_refl: "q_parms r = q_parms req \<Longrightarrow> q_nargs r = q_nargs req \<Longrightarrow> grows req r"
  by (simp add: grows_def)

lemma grows_trans: "grows a b \<Longrightarrow> grows b c \<Longrightarrow> grows a c"
  by (auto simp: grows_def)

lemma returns_bindI: "(\<And>x. m = Inr x \<Longrightarrow> returns Q (f x)) \<Longrightarrow> returns Q (bind_res m f)"
  by (cases m) auto

lemma split_to_parms_appends: "returns (\<lambda>ps. \<exists>t. ps = parms @ t) (split_to_parms getw d parms)"
proof (induction getw d parms rule: split_to_parms.induct)
  case (1 getw d parms)
  show ?case
  proof (cases "d = []")
    case False
    obtain w d' where w: "my_urlword d = (w, d')" by force
    obtain k v where k: "getw (CHR ''='') w = (k, v)" by force
    have "returns (\<lambda>ps. \<exists>t. ps = parms @ t) (split_to_parms getw d' (parms @ [(k', v')]))"
      if "unescaped (req_plustospace k) = Inr k'" "unescaped (req_plustospace v) = Inr v'" for k' v'
      using "1.IH" [OF False w [symmetric] refl k [symmetric] refl, of k' v', OF that] by (rule returns_mono) auto
    then show ?thesis using False
      by (subst split_to_parms.simps) (auto simp: w k intro!: returns_bindI)
  qed (subst split_to_parms.simps, simp)
qed

lemma part_upload_grows: "returns (\<lambda>(mb, r, ups, st). grows req r) (part_upload fuel fu ax mbuff req ups header param filename)"
  unfolding part_upload_def Let_def
  by (auto simp: grows_def returns_def bind_res_def split: sum.splits option.splits)

lemma parse_parts_grows: "returns (\<lambda>(r, rc). grows req r) (parse_parts fuel fu ax mbuff req ups)"
proof (induction fuel arbitrary: mbuff req ups)
  case (Suc fuel)
  have add: "returns (\<lambda>(r, rc). grows req r) (parse_parts fuel fu ax mb (req\<lparr>q_parms := q_parms req @ [e]\<rparr>) us)" for mb e us
    using Suc.IH by (rule returns_mono) (auto simp: grows_def)
  have up: "returns (\<lambda>(r, rc). grows req r) (bind_res (part_upload fuel fu ax mb req us header p fn) (\<lambda>(mbuff, req, ups, st).
      case st of Some rc \<Rightarrow> Inr (req\<lparr>q_client := m_client mbuff\<rparr>, rc) | None \<Rightarrow> parse_parts fuel fu ax mbuff req ups))" for mb us header p fn
  proof (rule returns_bind2 [OF part_upload_grows], clarify)
    fix mb' r' us' st
    assume g: "grows req r'"
    have "returns (\<lambda>(r, rc). grows req r) (parse_parts fuel fu ax mb' r' us')"
      using Suc.IH by (rule returns_mono) (use g in \<open>auto intro: grows_trans\<close>)
    then show "returns (\<lambda>(r, rc). grows req r)
        (case st of Some rc \<Rightarrow> Inr (r'\<lparr>q_client := m_client mb'\<rparr>, rc) | None \<Rightarrow> parse_parts fuel fu ax mb' r' us')"
      using g by (auto simp: grows_def split: option.splits)
  qed
  show ?case
    unfolding parse_parts.simps
    by (auto intro!: returns_bindI add up Suc.IH grows_refl split: option.splits)
qed simp

lemma util_read_grows: "returns (\<lambda>(r, x). grows req r) (util_read fuel ax req)"
  unfolding util_read_def Let_def by (auto intro!: returns_bindI grows_refl)

lemma parse_urlencoded_grows: "returns (\<lambda>(r, rc). grows req r) (ApacheRequest_parse_urlencoded fuel ax req)"
proof -
  have "returns (\<lambda>(r, rc). grows req r) (bind_res (util_read fuel ax req) (\<lambda>(req, rc, d).
      if rc \<noteq> OK then Inr (req, rc)
      else case d of None \<Rightarrow> Inr (req, OK)
        | Some b \<Rightarrow> bind_res (split_to_parms (ax_getword ax) (upto_nul b) (q_parms req)) (\<lambda>parms. Inr (req\<lparr>q_parms := parms\<rparr>, OK))))"
  proof (rule returns_bind2 [OF util_read_grows], clarify)
    fix r rc d
    assume g: "grows req r"
    have "returns (\<lambda>(x, rc). grows req x) (bind_res (split_to_parms (ax_getword ax) (upto_nul b) (q_parms r)) (\<lambda>parms. Inr (r\<lparr>q_parms := parms\<rparr>, OK)))" for b
      by (rule returns_bind2 [OF split_to_parms_appends]) (use g in \<open>auto simp: grows_def\<close>)
    then show "returns (\<lambda>(r, rc). grows req r)
        (if rc \<noteq> OK then Inr (r, rc)
         else case d of None \<Rightarrow> Inr (r, OK)
           | Some b \<Rightarrow> bind_res (split_to_parms (ax_getword ax) (upto_nul b) (q_parms r)) (\<lambda>parms. Inr (r\<lparr>q_parms := parms\<rparr>, OK)))"
      using g by (auto split: option.splits)
  qed
  then show ?thesis unfolding ApacheRequest_parse_urlencoded_def by (auto intro: grows_refl split: option.splits)
qed

lemma parse_multipart_grows: "returns (\<lambda>(r, rc). grows req r) (ApacheRequest_parse_multipart fuel fu ax req)"
  unfolding ApacheRequest_parse_multipart_def Let_def by (auto intro: grows_refl intro!: parse_parts_grows split: option.splits)

lemma query_params_kept:
  assumes "ApacheRequest_parse fuel fu ax req0 = Inr req" "\<not> q_parsed req0" "q_args req0 = Some a" "q_parms req0 = []"
  shows "split_to_parms (ax_getword ax) a [] = Inr (ApacheRequest_query_params req) \<and> q_parsed req"
proof -
  have q: "q_parsed req0 = False" "q_args req0 = Some a" "q_parms req0 = []" using assms by simp_all
  obtain ps where ps: "split_to_parms (ax_getword ax) a [] = Inr ps"
    using assms by (cases "split_to_parms (ax_getword ax) a []")
      (simp_all add: ApacheRequest_parse_def ApacheRequest___parse_def)
  define req1 where "req1 = req0\<lparr>q_parms := ps, q_nargs := length ps\<rparr>"
  define body where "body =
    (if q_post req1
     then case ax_find ax (q_headers_in req1) ''Content-type'' of
         None \<Rightarrow> Inr (req1, HTTP_INTERNAL_SERVER_ERROR)
       | Some ct \<Rightarrow>
           if ncase_eq 33 ct DEFAULT_ENCTYPE then ApacheRequest_parse_urlencoded fuel ax req1
           else if ncase_eq 19 ct MULTIPART_ENCTYPE then ApacheRequest_parse_multipart fuel fu ax req1
           else Inr (req1, HTTP_INTERNAL_SERVER_ERROR)
     else ApacheRequest_parse_urlencoded fuel ax req1)"
  have g: "returns (\<lambda>(r, rc). grows req1 r) body"
    unfolding body_def by (auto intro: grows_refl intro!: parse_urlencoded_grows parse_multipart_grows split: option.splits)
  have "ApacheRequest_parse fuel fu ax req0 = bind_res body (\<lambda>(r, rc). Inr (r\<lparr>q_parsed := True, q_status := rc\<rparr>))"
    unfolding ApacheRequest_parse_def ApacheRequest___parse_def body_def q
    by (simp add: ps req1_def [symmetric] bind_res_assoc split_def)
  then have "bind_res body (\<lambda>(r, rc). Inr (r\<lparr>q_parsed := True, q_status := rc\<rparr>)) = Inr req" using assms(1) by simp
  then obtain x rc where x: "body = Inr (x, rc)" "req = x\<lparr>q_parsed := True, q_status := rc\<rparr>"
    by (auto simp: bind_res_eq_Inr)
  then have "grows req1 x" using g by simp
  then have "ApacheRequest_query_params req = ps" using x(2) by (auto simp: grows_def req1_def ApacheRequest_query_params_def)
  then show ?thesis using ps x(2) by simp
qed

section \<open>Uploads that are switched off\<close>

definition no_upload :: "('s, 'f) areq \<Rightarrow> bool" where
  "no_upload r \<longleftrightarrow> q_disable_uploads r \<and> q_upload r = []"

lemma no_upload_client [simp]: "no_upload (r\<lparr>q_client := c\<rparr>) = no_upload r" "no_upload (r\<lparr>q_parms := p\<rparr>) = no_upload r"
  "no_upload (r\<lparr>q_nargs := n\<rparr>) = no_upload r" "no_upload (r\<lparr>q_parsed := b\<rparr>) = no_upload r" "no_upload (r\<lparr>q_status := s\<rparr>) = no_upload r"
  by (simp_all add: no_upload_def)

lemma parse_parts_no_upload: "no_upload req \<Longrightarrow> returns (\<lambda>(r, rc). no_upload r) (parse_parts fuel fu ax mbuff req ups)"
proof (induction fuel arbitrary: mbuff req ups)
  case (Suc fuel)
  have "part_upload fuel fu ax mb req us header p fn = Inr (mb, req, us, Some HTTP_FORBIDDEN)" for mb us header p fn
    using Suc.prems by (simp add: part_upload_def no_upload_def)
  then show ?case unfolding parse_parts.simps
    by (auto intro!: returns_bindI Suc.IH simp: Suc.prems split: option.splits)
qed simp

lemma parse_no_upload: "no_upload req \<Longrightarrow> returns no_upload (ApacheRequest_parse fuel fu ax req)"
proof -
  assume n: "no_upload req"
  have read: "no_upload q \<Longrightarrow> returns (\<lambda>(r, x). no_upload r) (util_read fuel ax q)" for q
    unfolding util_read_def Let_def by (auto intro!: returns_bindI)
  have url: "no_upload q \<Longrightarrow> returns (\<lambda>(r, rc). no_upload r) (ApacheRequest_parse_urlencoded fuel ax q)" for q
    unfolding ApacheRequest_parse_urlencoded_def using read [of q]
    by (auto intro!: returns_bindI dest: returnsD split: option.splits)
  have multi: "no_upload q \<Longrightarrow> returns (\<lambda>(r, rc). no_upload r) (ApacheRequest_parse_multipart fuel fu ax q)" for q
    unfolding ApacheRequest_parse_multipart_def Let_def by (auto intro!: parse_parts_no_upload split: option.splits)
  define body where "body q =
    (if q_post q
     then case ax_find ax (q_headers_in q) ''Content-type'' of
         None \<Rightarrow> Inr (q, HTTP_INTERNAL_SERVER_ERROR)
       | Some ct \<Rightarrow>
           if ncase_eq 33 ct DEFAULT_ENCTYPE then ApacheRequest_parse_urlencoded fuel ax q
           else if ncase_eq 19 ct MULTIPART_ENCTYPE then ApacheRequest_parse_multipart fuel fu ax q
           else Inr (q, HTTP_INTERNAL_SERVER_ERROR)
     else ApacheRequest_parse_urlencoded fuel ax q)" for q
  have body: "no_upload q \<Longrightarrow> returns (\<lambda>(r, rc). no_upload r) (body q)" for q
    unfolding body_def by (auto intro!: url multi split: option.splits)
  have args: "returns no_upload (case q_args req of None \<Rightarrow> Inr req
      | Some a \<Rightarrow> bind_res (split_to_parms (ax_getword ax) a (q_parms req)) (\<lambda>parms. Inr (req\<lparr>q_parms := parms, q_nargs := length parms\<rparr>)))"
    using n by (auto intro!: returns_bindI split: option.splits)
  have parsed: "returns (\<lambda>(r, rc). no_upload r) (ApacheRequest___parse fuel fu ax req)"
    unfolding ApacheRequest___parse_def body_def [symmetric]
    by (rule returns_bind2 [OF args], rule returns_bind2 [OF body]) auto
  show ?thesis unfolding ApacheRequest_parse_def using n by (auto intro!: returns_bind2 [OF parsed])
qed

text \<open>
  The parameters of the query cannot be changed by the body: for every library, client and
  content type, when the parse returns, the query's parameters are the words of the query, and the
  table is those and the form's.
\<close>

theorem query_params_fixed:
  assumes "ApacheRequest_parse fuel fu ax (ApacheRequest_new r f (Some a) post headers) = Inr req"
  shows "split_to_parms (ax_getword ax) a [] = Inr (ApacheRequest_query_params req) \<and> q_parsed req"
  using query_params_kept [OF assms] by (simp add: ApacheRequest_new_def)

definition demo_parsed :: "(char list list, unit) areq" where
  "demo_parsed = (ApacheRequest_new (0, []) () (Some (query_text [(''q'', ''1'')])) False [])
     \<lparr>q_parms := [(''q'', ''1'')], q_nargs := 1, q_parsed := True, q_status := OK\<rparr>"

lemma demo_cuts: "cuts_at_sign demo_cut"
  by (auto simp: demo_cut_def cuts_at_sign_def takeWhile_append dropWhile_append)

theorem query_params_fixed_witness:
  "split_to_parms demo_cut (query_text [(''q'', ''1'')]) [] = Inr (ApacheRequest_query_params demo_parsed) \<and> q_parsed demo_parsed"
proof -
  have "split_to_parms demo_cut (query_text [(''q'', ''1'')]) [] = Inr [(''q'', ''1'')]"
    using split_query_lemma [OF demo_cuts, of "[(''q'', ''1'')]" "[]"] by (simp add: nul_free_def)
  then have "ApacheRequest_parse 9 5120 (demo_apache block_get)
      (ApacheRequest_new (0, []) () (Some (query_text [(''q'', ''1'')])) False []) = Inr demo_parsed"
    by (simp add: ApacheRequest_parse_def ApacheRequest___parse_def ApacheRequest_parse_urlencoded_def ApacheRequest_new_def
      demo_apache_def demo_parsed_def)
  from query_params_fixed [OF this] show ?thesis by (simp add: demo_apache_def)
qed

section \<open>Relative expiry times\<close>

lemma copy_digits_run:
  "list_all c_isdigit ds \<Longrightarrow> (s = [] \<or> \<not> c_isdigit (hd s)) \<Longrightarrow> length pre + length ds \<le> 256 \<Longrightarrow>
   copy_digits (ds @ s) (pre @ replicate (256 - length pre) NUL) (length pre) =
     Inr (s, pre @ ds @ replicate (256 - length pre - length ds) NUL, length pre + length ds)"
proof (induction ds arbitrary: pre)
  case Nil
  have "c_isdigit (CHR ''1'')" by (simp add: c_isdigit_def code_def)
  then show ?case using Nil by (cases s) auto
next
  case (Cons d ds)
  obtain k where k: "256 - length pre = Suc k" "256 - length (pre @ [d]) = k" using Cons.prems(3) by (cases "256 - length pre") auto
  have "wr (pre @ replicate (256 - length pre) NUL) (length pre) d = Inr ((pre @ [d]) @ replicate (256 - length (pre @ [d])) NUL)"
    unfolding k by (simp add: wr_def)
  then show ?case using Cons.IH [of "pre @ [d]"] Cons.prems by simp
qed

lemma copy_digits_overrun:
  "list_all c_isdigit ds \<Longrightarrow> length buf < ix + length ds \<Longrightarrow> ix \<le> length buf \<Longrightarrow> copy_digits (ds @ s) buf ix = Inl OutOfBounds"
proof (induction ds arbitrary: buf ix)
  case (Cons d ds)
  then show ?case by (cases "ix < length buf") (auto simp: wr_def)
qed simp

text \<open>The number that digits stand for.\<close>

definition digits_value :: "cstr \<Rightarrow> int" where
  "digits_value ds = foldl (\<lambda>a c. a * 10 + int (code c - 48)) 0 ds"

lemma atoi_digits: "list_all c_isdigit ds \<Longrightarrow> c_atoi ds = digits_value ds"
proof (cases ds)
  case (Cons d ds')
  assume a: "list_all c_isdigit ds"
  then have "\<not> c_isspace d" "d \<noteq> CHR ''-''" "d \<noteq> CHR ''+''" using Cons by (auto simp: c_isdigit_def c_isspace_def code_def)
  moreover have "takeWhile c_isdigit ds = ds" using a by (simp add: takeWhile_eq_all_conv list_all_iff)
  ultimately show ?thesis by (simp add: c_atoi_def digits_value_def Cons)
qed (simp add: c_atoi_def digits_value_def)

lemma digits_nul_free: "list_all c_isdigit ds \<Longrightarrow> nul_free ds"
  by (induction ds) auto

lemma sign_char_facts:
  assumes "sg = CHR ''-'' \<or> sg = CHR ''+''"
  shows "expire_calc now (sg # t) = bind_res (copy_digits t (replicate 256 NUL) 0) (\<lambda>(s, buf, ix).
    bind_res (wr buf ix NUL) (\<lambda>buf.
    let off = c_atoi (upto_nul buf); prod = expire_mult (at0 s) * (if sg = CHR ''-'' then 0 - off else off) in
    if fits_int off \<and> fits_int prod then Inr (now + prod) else Inl IntOverflow))"
  using assms by (auto simp: expire_calc_def Let_def simp del: replicate.simps)

text \<open>A relative time: a sign, up to 255 digits and the letter of a unit.\<close>

theorem expire_calc_relative:
  assumes "sg = CHR ''-'' \<or> sg = CHR ''+''" "list_all c_isdigit ds" "s = [] \<or> \<not> c_isdigit (hd s)" "length ds < 256"
  shows "expire_calc now (sg # ds @ s) =
    (let prod = expire_mult (at0 s) * (if sg = CHR ''-'' then - digits_value ds else digits_value ds) in
     if fits_int (digits_value ds) \<and> fits_int prod then Inr (now + prod) else Inl IntOverflow)"
proof -
  obtain k where k: "256 - length ds = Suc k" using assms(4) by (cases "256 - length ds") auto
  have "copy_digits (ds @ s) (replicate 256 NUL) 0 = Inr (s, ds @ replicate (Suc k) NUL, length ds)"
    using copy_digits_run [OF assms(2,3), of "[]"] assms(4) k by (simp del: replicate.simps)
  moreover have "wr (ds @ replicate (Suc k) NUL) (length ds) NUL = Inr (ds @ NUL # replicate k NUL)" by (simp add: wr_def)
  moreover have "upto_nul (ds @ NUL # replicate k NUL) = ds" using digits_nul_free [OF assms(2)] by (simp add: upto_nul_append)
  ultimately show ?thesis unfolding sign_char_facts [OF assms(1)] by (simp add: atoi_digits [OF assms(2)] Let_def)
qed

text \<open>
  A relative expiry time with 256 digits or more is written past the end of the buffer on the
  stack, whatever follows the digits.
\<close>

theorem expire_calc_overrun:
  assumes "sg = CHR ''-'' \<or> sg = CHR ''+''" "list_all c_isdigit ds" "256 \<le> length ds"
  shows "expire_calc now (sg # ds @ s) = Inl OutOfBounds"
proof -
  obtain d1 d2 where d: "ds = d1 @ d2" "length d1 = 256" using assms(3) by (metis append_take_drop_id length_take min.absorb2)
  show ?thesis
  proof (cases "d2 = [] \<and> (s = [] \<or> \<not> c_isdigit (hd s))")
    case True
    have "copy_digits (ds @ s) (replicate 256 NUL) 0 = Inr (s, ds, 256)"
      using copy_digits_run [OF assms(2), of s "[]"] True d by (simp del: replicate.simps)
    moreover have "wr ds 256 NUL = Inl OutOfBounds" using d True by (simp add: wr_def)
    ultimately show ?thesis unfolding sign_char_facts [OF assms(1)] by simp
  next
    case False
    then obtain x y where x: "d2 @ s = x # y" "c_isdigit x"
      using assms(2) d by (cases d2; cases s) auto
    have "copy_digits ((d1 @ [x]) @ y) (replicate 256 NUL) 0 = Inl OutOfBounds"
      using assms(2) d x(2) by (intro copy_digits_overrun) auto
    moreover have "(d1 @ [x]) @ y = ds @ s" using d x(1) by simp
    ultimately show ?thesis unfolding sign_char_facts [OF assms(1)] by simp
  qed
qed

theorem expire_calc_overrun_witness:
  "expire_calc 0 (CHR ''+'' # replicate 256 (CHR ''9'') @ ''d'') = Inl OutOfBounds"
  by (rule expire_calc_overrun) (simp_all add: c_isdigit_def code_def list_all_iff)

section \<open>The text of an expiry time\<close>

record tm =
  tm_sec :: int
  tm_min :: int
  tm_hour :: int
  tm_mday :: int
  tm_mon :: nat
  tm_year :: int
  tm_wday :: nat

definition my_ap_month_snames :: "cstr list" where
  "my_ap_month_snames = [''Jan'', ''Feb'', ''Mar'', ''Apr'', ''May'', ''Jun'', ''Jul'', ''Aug'', ''Sep'', ''Oct'', ''Nov'', ''Dec'']"

definition my_ap_day_snames :: "cstr list" where
  "my_ap_day_snames = [''Sun'', ''Mon'', ''Tue'', ''Wed'', ''Thu'', ''Fri'', ''Sat'']"

definition EXPIRES_HTTP :: int where "EXPIRES_HTTP = 1"
definition EXPIRES_COOKIE :: int where "EXPIRES_COOKIE = 2"

text \<open>
  \<open>now\<close> is the time, \<open>gm\<close> is \<open>gmtime\<close>; \<open>two\<close> prints an \<open>int\<close> for the directive \<open>%.2d\<close> of the
  library's formatter.
\<close>

definition ApacheUtil_expires :: "int \<Rightarrow> (int \<Rightarrow> tm) \<Rightarrow> (int \<Rightarrow> cstr) \<Rightarrow> cstr option \<Rightarrow> int \<Rightarrow> fault + cstr option" where
  "ApacheUtil_expires now gm two time_str type =
     (let sep = (if type = EXPIRES_HTTP then [SPACE] else ''-'') in
      case time_str of
        None \<Rightarrow> Inr None
      | Some s \<Rightarrow> bind_res (expire_calc now s) (\<lambda>when.
          if when = 0 then Inr (Some s)
          else let t = gm when in
            bind_res (rd my_ap_day_snames (tm_wday t)) (\<lambda>wday. bind_res (rd my_ap_month_snames (tm_mon t)) (\<lambda>mon.
            Inr (Some (wday @ '', '' @ two (tm_mday t) @ sep @ mon @ sep @ two (tm_year t + 1900) @ '' '' @
              two (tm_hour t) @ '':'' @ two (tm_min t) @ '':'' @ two (tm_sec t) @ '' GMT''))))))"

end
