(* ===== verification/ApacheForm.thy ===== *)
theory ApacheForm
  imports ApacheRequest
begin

text \<open>
  A multipart form as a browser sends it, and what \<open>ApacheRequest_parse_multipart\<close> makes of it:
  the lines, headers and bodies of \<open>ApacheMultipart\<close> and the loop over the parts of
  \<open>ApacheRequest\<close> put together.
\<close>

section \<open>Lines\<close>

lemma find_lf_line: "LF \<notin> set l \<Longrightarrow> find_lf (l @ LF # d) = Some (length l)"
  by (simp add: find_lf_def takeWhile_append)

lemma next_line_found:
  assumes m: "mb_inv m" and d: "mb_data m = line @ CR # LF # d" and line: "LF \<notin> set line" "nul_free line"
  shows "\<exists>m'. next_line m = Inr (m', Some line) \<and> mb_inv m' \<and> same_form m m' \<and> mb_data m' = d \<and> m_client m' = m_client m"
proof -
  obtain b where b: "m_begin m = Some b" "b + m_bytes m \<le> m_bufsize m" "length (m_buffer m) = m_bufsize m + 1"
    using m by (auto simp: mb_inv_def)
  define B n where "B = m_buffer m" and "n = m_bytes m"
  define k where "k = length line"
  have td: "take n (drop b B) = line @ CR # LF # d" using d b by (simp add: mb_data_def B_def n_def)
  have n: "n = k + 2 + length d" using mb_data_length [OF m] d by (simp add: n_def k_def)
  define post where "post = drop (b + n) B"
  define pre where "pre = take b B"
  have lp: "length pre = b" using b by (simp add: pre_def B_def)
  have B: "B = pre @ line @ CR # LF # d @ post"
  proof -
    have "drop b B = take n (drop b B) @ drop n (drop b B)" by (rule append_take_drop_id [symmetric])
    then have "drop b B = line @ CR # LF # d @ post" unfolding td post_def by (simp add: add.commute)
    then show ?thesis using append_take_drop_id [of b B] by (simp add: pre_def)
  qed
  have lf: "find_lf (mb_data m) = Some (k + 1)"
    using find_lf_line [of "line @ [CR]" d] line(1) d by (simp add: k_def)
  have cr: "B ! (b + k) = CR" unfolding B k_def lp [symmetric] by (simp add: nth_append)
  define buf where "buf = pre @ line @ NUL # LF # d @ post"
  have w: "wr B (b + k) NUL = Inr buf"
    unfolding B k_def lp [symmetric] buf_def by (simp add: wr_def list_update_append)
  have r: "next_line m = Inr (m\<lparr>m_buffer := buf, m_begin := Some (b + k + 2), m_bytes := length d\<rparr>, Some line)"
    unfolding next_line_def b(1) lf using cr w line(2) n lp
    by (simp add: Let_def B_def [symmetric] n_def [symmetric] buf_def upto_nul_append)
  have "drop (b + k + 2) buf = d @ post" unfolding buf_def k_def lp [symmetric] by simp
  moreover have "length buf = length B" unfolding B buf_def by simp
  ultimately show ?thesis unfolding r using m b n
    by (simp add: mb_inv_def same_form_def mb_data_def B_def n_def)
qed

lemma next_line_none:
  assumes "mb_inv m" "LF \<notin> set (mb_data m)" "m_bytes m < m_bufsize m"
  shows "next_line m = Inr (m, None)"
  using assms by (auto simp: next_line_def find_lf_def split: option.splits)

lemma view_prefix:
  assumes "dat @ rem = line @ CR # LF # rest" "length line + 2 \<le> length dat"
  shows "\<exists>d. dat = line @ CR # LF # d \<and> d @ rem = rest"
proof -
  have "take (length (line @ [CR, LF])) (dat @ rem) = line @ [CR, LF]" using assms(1) by simp
  then have "take (length (line @ [CR, LF])) dat = line @ [CR, LF]" using assms(2) by simp
  then obtain d where d: "dat = (line @ [CR, LF]) @ d" by (metis append_take_drop_id)
  then show ?thesis using assms(1) by simp
qed

lemma short_data:
  assumes "dat @ rem = line @ CR # LF # rest" "\<not> length line + 2 \<le> length dat" "LF \<notin> set line"
  shows "LF \<notin> set dat"
proof -
  have "dat = take (length dat) (line @ CR # LF # rest)" using assms(1) by (metis append_eq_conv_conj)
  also have "\<dots> = take (length dat) (line @ [CR])" using assms(2) by (cases "length dat - length line") (auto simp: not_le)
  finally have "set dat \<subseteq> set (line @ [CR])" using set_take_subset [of "length dat" "line @ [CR]"] by metis
  then show ?thesis using assms(3) by auto
qed

text \<open>One line of the form, of which enough is to come.\<close>

lemma get_line_view:
  assumes get: "delivers get" and m: "mb_inv m" "m_boundary m = bd"
    and v: "mb_view m = line @ CR # LF # rest" "LF \<notin> set line" "nul_free line" "length line + 2 \<le> m_bufsize m" "length bd \<le> length rest"
  shows "\<exists>m'. get_line get m = Inr (m', Some line) \<and> mb_inv m' \<and> same_form m m' \<and> mb_view m' = rest"
proof (cases "length line + 2 \<le> length (mb_data m)")
  case True
  obtain d where d: "mb_data m = line @ CR # LF # d" "d @ snd (m_client m) = rest"
    using view_prefix [OF v(1) [unfolded mb_view_def]] True by auto
  obtain m' where "next_line m = Inr (m', Some line)" "mb_inv m'" "same_form m m'" "mb_data m' = d" "m_client m' = m_client m"
    using next_line_found [OF m(1) d(1) v(2,3)] by blast
  then show ?thesis using d(2) by (simp add: get_line_def mb_view_def)
next
  case False
  have "LF \<notin> set (mb_data m)"
    using short_data [OF v(1) [unfolded mb_view_def]] False v(2) by blast
  then have "next_line m = Inr (m, None)"
    using next_line_none [OF m(1)] False v(4) mb_data_length [OF m(1)] by simp
  moreover obtain n i where n: "fill_buffer get m = Inr (n, i)" "mb_inv n" "same_form m n" "mb_view n = mb_view m"
    "m_bytes n = m_bufsize n \<or> length (snd (m_client n)) \<le> length (m_boundary n)"
    using fill_buffer_view [OF get m(1)] by (auto elim!: yieldsE)
  have "length line + 2 \<le> length (mb_data n)"
    using n(5) arg_cong [OF n(4) [unfolded v(1)], of length] mb_data_length [OF n(2)] n(3) v(4,5) m(2)
    by (auto simp: same_form_def mb_view_def)
  then obtain d where d: "mb_data n = line @ CR # LF # d" "d @ snd (m_client n) = rest"
    using view_prefix [OF n(4) [unfolded v(1), unfolded mb_view_def]] by auto
  obtain m' where "next_line n = Inr (m', Some line)" "mb_inv m'" "same_form n m'" "mb_data m' = d" "m_client m' = m_client n"
    using next_line_found [OF n(2) d(1) v(2,3)] by blast
  ultimately show ?thesis using d(2) n(1,3) by (simp add: get_line_def mb_view_def same_form_def)
qed

text \<open>The last line, part of which the buffer may not take.\<close>

lemma get_line_last:
  assumes get: "delivers get" and m: "mb_inv m"
    and v: "mb_view m = line @ [CR, LF]" "LF \<notin> set line" "nul_free line" "length line + 2 \<le> m_bufsize m"
  shows "\<exists>m' r. get_line get m = Inr (m', r) \<and> mb_inv m' \<and> same_form m m' \<and>
    (r = Some line \<and> mb_view m' = [] \<or> r = None \<and> mb_view m' = mb_view m)"
proof -
  have found: "\<exists>m'. next_line n = Inr (m', Some line) \<and> mb_inv m' \<and> same_form n m' \<and> mb_view m' = []"
    if n: "mb_inv n" "mb_view n = mb_view m" "length line + 2 \<le> length (mb_data n)" for n
  proof -
    have "mb_data n @ snd (m_client n) = line @ CR # LF # []" using n(2) v(1) by (simp add: mb_view_def)
    then obtain d where d: "mb_data n = line @ CR # LF # d" "d @ snd (m_client n) = []"
      using view_prefix [of "mb_data n" "snd (m_client n)" line "[]"] n(3) by blast
    then show ?thesis using next_line_found [OF n(1) d(1) v(2,3)] by (auto simp: mb_view_def)
  qed
  have missing: "next_line n = Inr (n, None)"
    if n: "mb_inv n" "mb_view n = mb_view m" "m_bufsize n = m_bufsize m" "\<not> length line + 2 \<le> length (mb_data n)" for n
  proof -
    have "mb_data n @ snd (m_client n) = line @ CR # LF # []" using n(2) v(1) by (simp add: mb_view_def)
    then have "LF \<notin> set (mb_data n)" using short_data n(4) v(2) by blast
    then show ?thesis using next_line_none [OF n(1)] n(3,4) v(4) mb_data_length [OF n(1)] by simp
  qed
  show ?thesis
  proof (cases "length line + 2 \<le> length (mb_data m)")
    case True
    then show ?thesis using found [OF m refl] by (auto simp: get_line_def)
  next
    case False
    obtain n i where n: "fill_buffer get m = Inr (n, i)" "mb_inv n" "same_form m n" "mb_view n = mb_view m"
      using fill_buffer_view [OF get m(1)] by (auto elim!: yieldsE)
    have bs: "m_bufsize n = m_bufsize m" using n(3) by (simp add: same_form_def)
    have "get_line get m = next_line n" using missing [OF m refl refl False] n(1) by (simp add: get_line_def)
    then show ?thesis
      using found [OF n(2,4)] missing [OF n(2,4) bs] n(2,3,4) by (cases "length line + 2 \<le> length (mb_data n)") (auto simp: same_form_def)
  qed
qed

lemma get_line_empty:
  assumes get: "delivers get" and m: "mb_inv m" "mb_view m = []" "0 < m_bufsize m"
  shows "\<exists>m'. get_line get m = Inr (m', None) \<and> mb_inv m' \<and> same_form m m' \<and> mb_view m' = []"
proof -
  have none: "next_line n = Inr (n, None)" if n: "mb_inv n" "mb_view n = []" "0 < m_bufsize n" for n
    using next_line_none [OF n(1)] n mb_data_length [OF n(1)] by (auto simp: mb_view_def)
  obtain n i where n: "fill_buffer get m = Inr (n, i)" "mb_inv n" "same_form m n" "mb_view n = mb_view m"
    using fill_buffer_view [OF get m(1)] by (auto elim!: yieldsE)
  then show ?thesis using none [OF m] none [of n] m by (simp add: get_line_def same_form_def)
qed

lemma eof_view:
  assumes get: "delivers get" and m: "mb_inv m" "length (m_boundary m) < length (mb_view m)" "0 < m_bufsize m"
  shows "\<exists>m'. multipart_buffer_eof get m = Inr (m', False) \<and> mb_inv m' \<and> same_form m m' \<and> mb_view m' = mb_view m"
proof (cases "m_bytes m = 0")
  case True
  obtain n i where n: "fill_buffer get m = Inr (n, i)" "mb_inv n" "same_form m n" "mb_view n = mb_view m" "m_bytes n = i"
    "m_bytes n = m_bufsize n \<or> length (snd (m_client n)) \<le> length (m_boundary n)"
    using fill_buffer_view [OF get m(1)] True by (auto elim!: yieldsE)
  have "length (mb_view n) = i + length (snd (m_client n))" using mb_data_length [OF n(2)] n(5) by (simp add: mb_view_def)
  then have "0 < i" using n(3-6) m(2,3) by (auto simp: same_form_def)
  then show ?thesis using True n by (simp add: multipart_buffer_eof_def)
qed (use m in \<open>simp add: multipart_buffer_eof_def same_form_def\<close>)

section \<open>The text of a form\<close>

definition field_head :: "cstr \<Rightarrow> cstr" where
  "field_head n = ''Content-Disposition: form-data; name='' @ [CHR 0x22] @ n @ [CHR 0x22]"

definition field_text :: "cstr \<Rightarrow> cstr \<times> cstr \<Rightarrow> cstr" where
  "field_text bd f = bd @ [CR, LF] @ field_head (fst f) @ [CR, LF, CR, LF] @ snd f @ [CR, LF]"

definition form_text :: "cstr \<Rightarrow> (cstr \<times> cstr) list \<Rightarrow> cstr" where
  "form_text bd fs = concat (map (field_text bd) fs) @ bd @ ''--'' @ [CR, LF]"

definition field_ok :: "cstr \<Rightarrow> nat \<Rightarrow> cstr \<times> cstr \<Rightarrow> bool" where
  "field_ok bd fu f \<longleftrightarrow> nul_free (fst f) \<and> LF \<notin> set (fst f) \<and> CHR 0x22 \<notin> set (fst f) \<and> CHR 0x5C \<notin> set (fst f) \<and>
     CHR '';'' \<notin> set (fst f) \<and> length (field_head (fst f)) + 2 \<le> fu \<and> nul_free (snd f) \<and> \<not> sublist (LF # bd) (snd f @ [CR])"

lemma form_text_simps:
  "form_text bd [] = bd @ ''--'' @ [CR, LF]"
  "form_text bd (f # fs) = bd @ CR # LF # field_head (fst f) @ CR # LF # CR # LF # snd f @ CR # LF # form_text bd fs"
  by (simp_all add: form_text_def field_text_def)

lemma form_text_long: "length bd + 4 \<le> length (form_text bd fs)"
  by (simp add: form_text_def)

lemma field_head_facts:
  "nul_free n \<Longrightarrow> nul_free (field_head n)" "LF \<notin> set n \<Longrightarrow> LF \<notin> set (field_head n)" "field_head n \<noteq> []"
  "header_entry (field_head n) = (''Content-Disposition'', ''form-data; name='' @ [CHR 0x22] @ n @ [CHR 0x22])"
  by (simp_all add: field_head_def header_entry_def c_isspace_def code_def)

text \<open>The header of a field, at the start of the form or behind the line end of a body.\<close>

lemma headers_field:
  assumes get: "delivers get" and m: "mb_inv m" "m_boundary m = bd" "m_bufsize m = fu"
    and bd: "bd \<noteq> []" "nul_free bd" "LF \<notin> set bd" "length bd + 4 \<le> fu" and f: "field_ok bd fu f"
    and v: "mb_view m = nl @ form_text bd (f # fs)" "nl = [] \<or> nl = [CR, LF]"
  shows "\<exists>m'. multipart_buffer_headers (Suc (Suc fuel)) get m = Inr (m', Some [header_entry (field_head (fst f))]) \<and>
    mb_inv m' \<and> same_form m m' \<and> mb_view m' = snd f @ CR # LF # form_text bd fs"
proof -
  define r1 where "r1 = field_head (fst f) @ CR # LF # CR # LF # snd f @ CR # LF # form_text bd fs"
  have long: "length bd \<le> length r1" using form_text_long [of bd fs] by (simp add: r1_def)
  have bdl: "\<exists>n'. get_line get n = Inr (n', Some bd) \<and> mb_inv n' \<and> same_form n n' \<and> mb_view n' = r1"
    if n: "mb_inv n" "same_form m n" "mb_view n = form_text bd (f # fs)" for n
    using get_line_view [OF get n(1), of bd bd r1] n m bd long by (simp add: form_text_simps r1_def same_form_def)
  have "\<exists>n'. find_boundary (Suc (Suc fuel)) get m bd = Inr (n', True) \<and> mb_inv n' \<and> same_form m n' \<and> mb_view n' = r1"
  proof (cases "nl = []")
    case True
    then show ?thesis using bdl [OF m(1)] v by (auto simp: same_form_def)
  next
    case False
    then have "mb_view m = [] @ CR # LF # form_text bd (f # fs)" using v by simp
    then obtain n where n: "get_line get m = Inr (n, Some [])" "mb_inv n" "same_form m n" "mb_view n = form_text bd (f # fs)"
      using get_line_view [OF get m(1,2), of "[]"] form_text_long [of bd "f # fs"] bd(4) m(3) by auto
    obtain n' where "get_line get n = Inr (n', Some bd)" "mb_inv n'" "same_form n n'" "mb_view n' = r1" using bdl [OF n(2-4)] by blast
    then show ?thesis using n bd(1) by (auto simp: same_form_def)
  qed
  then obtain a where a: "find_boundary (Suc (Suc fuel)) get m bd = Inr (a, True)" "mb_inv a" "same_form m a" "mb_view a = r1" by blast
  obtain b where b: "get_line get a = Inr (b, Some (field_head (fst f)))" "mb_inv b" "same_form a b"
    "mb_view b = CR # LF # snd f @ CR # LF # form_text bd fs"
    using get_line_view [OF get a(2), of bd "field_head (fst f)" "CR # LF # snd f @ CR # LF # form_text bd fs"] a(3,4) m f
      field_head_facts [of "fst f"] form_text_long [of bd fs] by (auto simp: r1_def field_ok_def same_form_def)
  obtain c where c: "get_line get b = Inr (c, Some [])" "mb_inv c" "same_form b c" "mb_view c = snd f @ CR # LF # form_text bd fs"
    using get_line_view [OF get b(2), of bd "[]" "snd f @ CR # LF # form_text bd fs"] a(3) b(3,4) m bd(4)
      form_text_long [of bd fs] by (auto simp: same_form_def)
  have "header_lines (Suc (Suc fuel)) get a [] = Inr (c, [header_entry (field_head (fst f))])"
    using b(1) c(1) field_head_facts(3) by simp
  then have "multipart_buffer_headers (Suc (Suc fuel)) get m = Inr (c, Some [header_entry (field_head (fst f))])"
    using a(1) unfolding multipart_buffer_headers_def m(2) by simp
  moreover have "same_form m c" using a(3) b(3) c(3) by (simp add: same_form_def)
  ultimately show ?thesis using c by blast
qed

text \<open>Behind the last field there is no header any more.\<close>

lemma headers_last:
  assumes get: "delivers get" and m: "mb_inv m" "m_boundary m = bd" "m_bufsize m = fu"
    and bd: "bd \<noteq> []" "nul_free bd" "LF \<notin> set bd" "length bd + 4 \<le> fu"
    and v: "mb_view m = nl @ form_text bd []" "nl = [] \<or> nl = [CR, LF]"
  shows "\<exists>m'. multipart_buffer_headers (Suc (Suc (Suc fuel))) get m = Inr (m', None) \<and> mb_inv m' \<and> length (snd (m_client m')) \<le> fu"
proof -
  have fin: "\<exists>n'. find_boundary (Suc (Suc k)) get n bd = Inr (n', False) \<and> mb_inv n' \<and> length (snd (m_client n')) \<le> fu"
    if n: "mb_inv n" "same_form m n" "mb_view n = form_text bd []" for n k
  proof -
    have v': "mb_view n = (bd @ ''--'') @ [CR, LF]" using n(3) by (simp add: form_text_simps)
    obtain n1 r where r: "get_line get n = Inr (n1, r)" "mb_inv n1" "same_form n n1"
      "r = Some (bd @ ''--'') \<and> mb_view n1 = [] \<or> r = None \<and> mb_view n1 = mb_view n"
      using get_line_last [OF get n(1) v'] bd n(2) m(3) by (auto simp: same_form_def)
    have short: "length (snd (m_client n1)) \<le> fu" using r(4) v' bd(4) by (auto simp: mb_view_def dest!: arg_cong [where f = length])
    from r(4) show ?thesis
    proof (elim disjE conjE)
      assume "r = None"
      then show ?thesis using r(1,2) short by simp
    next
      assume s: "r = Some (bd @ ''--'')" "mb_view n1 = []"
      obtain n2 where n2: "get_line get n1 = Inr (n2, None)" "mb_inv n2" "mb_view n2 = []"
        using get_line_empty [OF get r(2) s(2)] r(3) n(2) m(3) bd(4) by (auto simp: same_form_def)
      have "find_boundary (Suc (Suc k)) get n bd = Inr (n2, False)" using r(1) s(1) n2(1) by simp
      moreover have "snd (m_client n2) = []" using n2(3) by (simp add: mb_view_def)
      ultimately show ?thesis using n2(2) by simp
    qed
  qed
  have "\<exists>n'. find_boundary (Suc (Suc (Suc fuel))) get m bd = Inr (n', False) \<and> mb_inv n' \<and> length (snd (m_client n')) \<le> fu"
  proof (cases "nl = []")
    case True
    then show ?thesis using fin [OF m(1), of "Suc fuel"] v by (auto simp: same_form_def simp del: find_boundary.simps)
  next
    case False
    then have "mb_view m = [] @ CR # LF # form_text bd []" using v by simp
    then obtain n where n: "get_line get m = Inr (n, Some [])" "mb_inv n" "same_form m n" "mb_view n = form_text bd []"
      using get_line_view [OF get m(1,2), of "[]"] form_text_long [of bd "[]"] bd(4) m(3) by auto
    have "find_boundary (Suc (Suc (Suc fuel))) get m bd = find_boundary (Suc (Suc fuel)) get n bd"
      using n(1) bd(1) by (subst find_boundary.simps) (simp del: find_boundary.simps)
    then show ?thesis using fin [OF n(2-4)] by simp
  qed
  then show ?thesis unfolding multipart_buffer_headers_def m(2) by (elim exE conjE) (simp del: find_boundary.simps)
qed

section \<open>The fields of a form\<close>

text \<open>
  What the library's functions do, by their documentation: a word up to a character, a quoted
  word, the place of a character or -1, the first entry of a table with a key.
\<close>

definition token_char :: "char \<Rightarrow> bool" where
  "token_char c \<longleftrightarrow> \<not> c_isspace c \<and> c \<noteq> NUL \<and> c \<noteq> CHR 0x22 \<and> c \<noteq> CHR 0x27 \<and> c \<noteq> CHR 0x5C"

definition apache_words :: "('s, 'f) apache \<Rightarrow> bool" where
  "apache_words ax \<longleftrightarrow>
     (\<forall>c w rest. c \<notin> set w \<longrightarrow> rest = [] \<or> hd rest \<noteq> c \<longrightarrow> ax_getword ax c (w @ c # rest) = (w, rest)) \<and>
     (\<forall>c w. c \<notin> set w \<longrightarrow> ax_getword ax c w = (w, [])) \<and>
     (\<forall>w. CHR 0x22 \<notin> set w \<longrightarrow> CHR 0x5C \<notin> set w \<longrightarrow> ax_conf ax (CHR 0x22 # w @ [CHR 0x22]) = (w, [])) \<and>
     (\<forall>w. w \<noteq> [] \<longrightarrow> list_all token_char w \<longrightarrow> ax_conf ax w = (w, [])) \<and>
     (\<forall>s c. ax_ind ax s c = (if c \<in> set s then int (length (takeWhile (\<lambda>x. x \<noteq> c) s)) else - 1)) \<and>
     (\<forall>k v t. ax_find ax ((k, v) # t) k = Some v)"

lemma apache_wordsD:
  assumes "apache_words ax"
  shows "c \<notin> set w \<Longrightarrow> rest = [] \<or> hd rest \<noteq> c \<Longrightarrow> ax_getword ax c (w @ c # rest) = (w, rest)"
    and "c \<notin> set w \<Longrightarrow> ax_getword ax c w = (w, [])"
    and "CHR 0x22 \<notin> set w \<Longrightarrow> CHR 0x5C \<notin> set w \<Longrightarrow> ax_conf ax (CHR 0x22 # w @ [CHR 0x22]) = (w, [])"
    and "w \<noteq> [] \<Longrightarrow> list_all token_char w \<Longrightarrow> ax_conf ax w = (w, [])"
    and "ax_ind ax s c = (if c \<in> set s then int (length (takeWhile (\<lambda>x. x \<noteq> c) s)) else - 1)"
    and "ax_find ax ((k, v) # t) k = Some v"
  using assms unfolding apache_words_def by blast+

lemma disposition_field:
  assumes ax: "apache_words ax" and n: "CHR 0x22 \<notin> set n" "CHR 0x5C \<notin> set n" "CHR '';'' \<notin> set n"
  shows "disposition (Suc (Suc (Suc fuel))) ax (''form-data; name='' @ [CHR 0x22] @ n @ [CHR 0x22]) None None = Inr (Some n, None)"
proof -
  define q where "q = CHR 0x22 # n @ [CHR 0x22]"
  have w1: "ax_getword ax (CHR '';'') (''form-data; name='' @ q) = (''form-data'', '' name='' @ q)"
    using apache_wordsD(1) [OF ax, of "CHR '';''" "''form-data''" "'' name='' @ q"] by simp
  have w2: "ax_getword ax (CHR '';'') (''name='' @ q) = (''name='' @ q, [])"
    using n(3) by (intro apache_wordsD(2) [OF ax]) (auto simp: q_def)
  have w3: "ax_getword ax (CHR ''='') ''form-data'' = (''form-data'', [])"
    by (intro apache_wordsD(2) [OF ax]) simp
  have w4: "ax_getword ax (CHR ''='') (''name='' @ q) = (''name'', q)"
    using apache_wordsD(1) [OF ax, of "CHR ''=''" "''name''" q] by (simp add: q_def)
  have c: "ax_conf ax q = (n, [])" using apache_wordsD(3) [OF ax n(1,2)] by (simp add: q_def)
  have i: "ax_ind ax ''form-data'' (CHR ''='') \<noteq> 0" "ax_ind ax (''name='' @ q) (CHR ''='') \<noteq> 0"
    by (simp_all add: apache_wordsD(5) [OF ax])
  have e: "strcaseEQ ''name'' ''name''" "\<not> strcaseEQ ''form-data'' ''name''" "\<not> strcaseEQ ''form-data'' ''filename''"
    by (simp_all add: strcaseEQ_def c_tolower_def c_isupper_def code_def)
  have d: "dropWhile c_isspace ('' name='' @ q) = ''name='' @ q" by (simp add: c_isspace_def code_def)
  have s1: "disposition (Suc (Suc (Suc fuel))) ax (''form-data; name='' @ q) None None = disposition (Suc (Suc fuel)) ax (''name='' @ q) None None"
    by (subst disposition.simps) (simp only: w1 prod.case d w3 e i Let_def if_True if_False append_is_Nil_conv list.distinct not_False_eq_True simp_thms)
  have s2: "disposition (Suc (Suc fuel)) ax (''name='' @ q) None None = disposition (Suc fuel) ax [] (Some n) None"
    by (subst disposition.simps)
      (simp only: w2 prod.case dropWhile.simps w4 e i Let_def if_True if_False append_is_Nil_conv list.distinct not_False_eq_True simp_thms c fst_conv)
  show ?thesis using s1 s2 by (simp add: q_def)
qed

lemma parse_fields_loop:
  assumes get: "delivers (ax_block ax)" and ax: "apache_words ax"
    and bd: "bd \<noteq> []" "nul_free bd" "LF \<notin> set bd" "length bd + 4 \<le> fu"
  shows "mb_inv m \<Longrightarrow> m_bufsize m = fu \<Longrightarrow> m_boundary m = bd \<Longrightarrow> m_next m = LF # bd \<Longrightarrow> mb_view m = nl @ form_text bd fs \<Longrightarrow>
    nl = [] \<or> nl = [CR, LF] \<Longrightarrow> list_all (\<lambda>f. field_ok bd fu f \<and> length (snd f) + 4 \<le> fuel) fs \<Longrightarrow>
    \<exists>r. parse_parts (fuel + length fs + 4) fu ax m req ups = Inr (req\<lparr>q_parms := q_parms req @ fs, q_client := r\<rparr>, OK)"
proof (induction fs arbitrary: m nl req)
  case Nil
  have "0 < fu" using bd(4) by simp
  then obtain e where e: "multipart_buffer_eof (ax_block ax) m = Inr (e, False)" "mb_inv e" "same_form m e" "mb_view e = mb_view m"
    using eof_view [OF get Nil(1)] Nil form_text_long [of bd "[]"] by auto
  have eb: "m_boundary e = bd" "m_bufsize e = fu" "mb_view e = nl @ form_text bd []" using e(3,4) Nil by (simp_all add: same_form_def)
  obtain h where h: "multipart_buffer_headers (Suc (Suc (Suc fuel))) (ax_block ax) e = Inr (h, None)" "mb_inv h" "length (snd (m_client h)) \<le> fu"
    using headers_last [OF get e(2) eb(1,2) bd eb(3) Nil(6)] by blast
  obtain r ds where c: "m_client h = (r, ds)" by force
  have "\<exists>r'. drain (Suc (Suc (Suc fuel))) fu (ax_block ax) (r, ds) = Inr r'"
    using get h(3) c by (cases "ds = []") (auto simp: delivers_def)
  then obtain r' where dr: "drain (Suc (Suc (Suc fuel))) fu (ax_block ax) (m_client h) = Inr r'" using c by auto
  have "parse_parts (Suc (Suc (Suc (Suc fuel)))) fu ax m req ups = Inr (req\<lparr>q_client := r'\<rparr>, OK)"
    using e(1) h(1) dr by (subst parse_parts.simps) (simp del: drain.simps)
  then show ?case by (intro exI [of _ r']) (simp add: numeral_eq_Suc del: parse_parts.simps)
next
  case (Cons f fs)
  define k where "k = fuel + length fs + 4"
  have "0 < fu" using bd(4) by simp
  then obtain e where e: "multipart_buffer_eof (ax_block ax) m = Inr (e, False)" "mb_inv e" "same_form m e" "mb_view e = mb_view m"
    using eof_view [OF get Cons.prems(1)] Cons.prems form_text_long [of bd "f # fs"] by auto
  have eb: "m_boundary e = bd" "m_bufsize e = fu" "m_next e = LF # bd" "mb_view e = nl @ form_text bd (f # fs)"
    using e(3,4) Cons.prems by (simp_all add: same_form_def)
  have f: "field_ok bd fu f" "length (snd f) + 1 < k" using Cons.prems(7) by (auto simp: k_def)
  obtain j where j: "k = Suc (Suc (Suc j))" by (cases k rule: nat.exhaust) (auto simp: k_def numeral_eq_Suc)
  obtain h where h: "multipart_buffer_headers k (ax_block ax) e = Inr (h, Some [header_entry (field_head (fst f))])"
    "mb_inv h" "same_form e h" "mb_view h = snd f @ CR # LF # form_text bd fs"
    using headers_field [OF get e(2) eb(1,2) bd f(1) eb(4) Cons.prems(6), of "Suc j"] j by auto
  have "ax_find ax [header_entry (field_head (fst f))] ''Content-Disposition'' = Some (''form-data; name='' @ [CHR 0x22] @ fst f @ [CHR 0x22])"
    using ax unfolding field_head_facts(4) apache_words_def by (elim conjE) blast
  moreover have "disposition k ax (''form-data; name='' @ [CHR 0x22] @ fst f @ [CHR 0x22]) None None = Inr (Some (fst f), None)"
    unfolding j using disposition_field [OF ax, of "fst f" j] f(1) by (simp only: field_ok_def simp_thms)
  moreover obtain b where b: "multipart_buffer_read_body k fu (ax_block ax) h = Inr (b, snd f)"
    "mb_view b = CR # LF # form_text bd fs" "mb_inv b" "same_form h b"
  proof -
    obtain t where t: "form_text bd fs = bd @ t" by (cases fs) (auto simp: form_text_simps)
    then show ?thesis
      using read_body_state [OF get h(2), of fu bd "snd f" t k] that h(3,4) eb bd f by (auto simp: same_form_def field_ok_def)
  qed
  ultimately have "parse_parts (Suc k) fu ax m req ups =
      parse_parts k fu ax b (req\<lparr>q_parms := q_parms req @ [(fst f, snd f)]\<rparr>) ups"
    using e(1) h(1) by (subst parse_parts.simps) (simp del: parse_parts.simps disposition.simps)
  moreover have "mb_view b = [CR, LF] @ form_text bd fs" using b(2) by simp
  then obtain r where "parse_parts k fu ax b (req\<lparr>q_parms := q_parms req @ [(fst f, snd f)]\<rparr>) ups =
      Inr (req\<lparr>q_parms := (q_parms req @ [(fst f, snd f)]) @ fs, q_client := r\<rparr>, OK)"
    using Cons.IH [of b "[CR, LF]" "req\<lparr>q_parms := q_parms req @ [(fst f, snd f)]\<rparr>"] b(3,4) h(3) eb Cons.prems(7)
    by (auto simp: k_def same_form_def simp del: parse_parts.simps)
  ultimately show ?case by (intro exI [of _ r]) (simp add: k_def del: parse_parts.simps)
qed

lemma parse_fields:
  assumes get: "delivers (ax_block ax)" and ax: "apache_words ax" "ax_setup ax = OK" "ax_should ax"
    and ct: "ax_find ax (q_headers_in req) ''Content-Type'' = Some (''multipart/form-data; boundary='' @ bnd)"
    and bnd: "list_all token_char bnd" "bnd \<noteq> []" "hd bnd \<noteq> CHR ''=''" "length bnd + 6 \<le> fu"
    and req: "q_client req = (int (length ds), ds)" "ds = form_text (''--'' @ bnd) fs" "q_post_max req \<le> 0"
    and fs: "list_all (\<lambda>f. field_ok (''--'' @ bnd) fu f \<and> length (snd f) + length fs + 8 \<le> fuel) fs" "length fs + 4 \<le> fuel"
  shows "\<exists>r. ApacheRequest_parse_multipart fuel fu ax req = Inr (req\<lparr>q_parms := q_parms req @ fs, q_client := r\<rparr>, OK)"
proof -
  define m where "m = multipart_buffer_new fu bnd (q_client req)"
  define bd where "bd = ''--'' @ bnd"
  define k where "k = fuel - length fs - 4"
  have k: "fuel = k + length fs + 4" using fs(2) by (simp add: k_def)
  have w: "ax_getword ax (CHR ''='') (''multipart/form-data; boundary='' @ bnd) = (''multipart/form-data; boundary'', bnd)"
    using apache_wordsD(1) [OF ax(1), of "CHR ''=''" "''multipart/form-data; boundary''" bnd] bnd by simp
  have c: "ax_conf ax bnd = (bnd, [])" by (rule apache_wordsD(4) [OF ax(1) bnd(2,1)])
  have small: "\<not> (q_post_max req < fst (q_client req) \<and> 0 < q_post_max req)" using req(3) by linarith
  have run: "ApacheRequest_parse_multipart fuel fu ax req = parse_parts fuel fu ax m req []"
    unfolding ApacheRequest_parse_multipart_def ct option.case w snd_conv Let_def c fst_conv m_def
    by (simp only: ax(2,3) small if_False not_True_eq_False simp_thms)
  have "\<not> token_char NUL" "\<not> token_char LF" by (simp_all add: token_char_def c_isspace_def code_def)
  then have "NUL \<notin> set bnd" "LF \<notin> set bnd" using bnd(1) unfolding list_all_iff by blast+
  then have bd: "bd \<noteq> []" "nul_free bd" "LF \<notin> set bd" "length bd + 4 \<le> fu"
    using bnd(4) by (simp_all add: bd_def nul_free_def)
  have m: "mb_inv m" "m_bufsize m = fu" "m_boundary m = bd" "m_next m = LF # bd" "mb_view m = [] @ form_text bd fs"
    using bnd(4) req(1,2) by (auto simp: m_def multipart_buffer_new_def Let_def mb_inv_def mb_view_def mb_data_def bd_def max_def)
  have "list_all (\<lambda>f. field_ok bd fu f \<and> length (snd f) + 4 \<le> k) fs"
    using fs(1) by (auto simp: bd_def k_def list_all_iff)
  from parse_fields_loop [OF get ax(1) bd m _ this, of req "[]"] show ?thesis
    unfolding run by (simp only: k [symmetric] append_Nil simp_thms)
qed

lemma ncase_33: "ncase_eq 33 s t = ncase_eq (Suc 32) s t"
  by simp

lemma ncase_eq_append: "n \<le> length s \<Longrightarrow> ncase_eq n (s @ t) s"
proof (induction n arbitrary: s)
  case (Suc n)
  then show ?case by (cases s) auto
qed simp

lemma enctype_multipart:
  "\<not> ncase_eq 33 (''multipart/form-data; boundary='' @ bnd) DEFAULT_ENCTYPE"
  "ncase_eq 19 (''multipart/form-data; boundary='' @ bnd) MULTIPART_ENCTYPE"
proof -
  have "c_tolower (CHR ''m'') \<noteq> c_tolower (CHR ''a'')" by (simp add: c_tolower_def c_isupper_def code_def)
  then show "\<not> ncase_eq 33 (''multipart/form-data; boundary='' @ bnd) DEFAULT_ENCTYPE"
    unfolding DEFAULT_ENCTYPE_def by (simp only: ncase_33 append_Cons append_Nil at0_simps ncase_eq.simps simp_thms if_True)
  show "ncase_eq 19 (''multipart/form-data; boundary='' @ bnd) MULTIPART_ENCTYPE"
    using ncase_eq_append [of 19 "''multipart/form-data''" "''; boundary='' @ bnd"] by (simp add: MULTIPART_ENCTYPE_def del: ncase_eq.simps)
qed


lemma demo_words: "apache_words (demo_apache get :: ('s, unit) apache)"
proof -
  have "demo_cut c (w @ c # rest) = (w, rest)" "demo_cut c w = (w, [])" if "c \<notin> set w" for c w rest
    using demo_cut_facts [OF that] by simp_all
  moreover have "demo_word (CHR 0x22 # w @ [CHR 0x22]) = (w, [])" if "CHR 0x22 \<notin> set w" for w
    using that by (auto simp: demo_word_def takeWhile_append dropWhile_append)
  moreover have "demo_word w = (w, [])" if "w \<noteq> []" "list_all token_char w" for w
  proof -
    have "\<forall>x \<in> set w. \<not> c_isspace x" "hd w \<noteq> CHR 0x22" using that by (auto simp: list_all_iff token_char_def)
    then show ?thesis by (simp add: demo_word_def takeWhile_eq_all_conv [THEN iffD2] dropWhile_eq_Nil_conv [THEN iffD2])
  qed
  ultimately show ?thesis by (simp add: apache_words_def demo_apache_def)
qed

definition demo_multipart :: ap_table where
  "demo_multipart = [(''Content-type'', ''multipart/form-data; boundary=xyz''), (''Content-Type'', ''multipart/form-data; boundary=xyz'')]"

definition demo_fields :: ap_table where
  "demo_fields = [(''a'', ''two'' @ [CR, LF] @ ''lines''), (''b=c'', ''--xyz'')]"


end
