(* ===== verification/ApacheCookie.thy ===== *)
theory ApacheCookie
  imports ApacheRequest
begin

text \<open>
  Cookies of \<open>webconnect/apache2/apache_cookie.c\<close>: attributes, the text of a \<open>Set-Cookie\<close> header,
  the cookies of a request.  The library's functions are the fields of a record.
\<close>

section \<open>The code\<close>

text \<open>
  \<open>cl_os_escape\<close> gives the block that the library allocates, with the escaped string, its NUL and
  what is allocated behind it.
\<close>

record cookie_lib =
  cl_getword :: getword
  cl_nulls :: getword
  cl_unescape :: "cstr \<Rightarrow> cstr"
  cl_os_escape :: "cstr \<Rightarrow> char list"
  cl_dirstr :: "cstr \<Rightarrow> cstr"
  cl_find :: "ap_table \<Rightarrow> cstr \<Rightarrow> cstr option"
  cl_now :: int
  cl_gmtime :: "int \<Rightarrow> tm"
  cl_two :: "int \<Rightarrow> cstr"

record ap_cookie =
  ck_name :: "cstr option"
  ck_values :: "cstr list"
  ck_domain :: "cstr option"
  ck_expires :: "cstr option"
  ck_path :: "cstr option"
  ck_secure :: bool

definition ApacheCookie_expires :: "cookie_lib \<Rightarrow> ap_cookie \<Rightarrow> cstr option \<Rightarrow> fault + (ap_cookie \<times> cstr option)" where
  "ApacheCookie_expires L c time_str =
     bind_res (ApacheUtil_expires (cl_now L) (cl_gmtime L) (cl_two L) time_str EXPIRES_COOKIE) (\<lambda>expires.
     let c = (case expires of None \<Rightarrow> c | Some e \<Rightarrow> c\<lparr>ck_expires := Some e\<rparr>) in Inr (c, ck_expires c))"

text \<open>The value is stored when there is one; the result is the value before.\<close>

definition cookie_get_set :: "cstr option \<Rightarrow> cstr option \<Rightarrow> cstr option" where
  "cookie_get_set thing val = (case val of None \<Rightarrow> thing | Some v \<Rightarrow> Some v)"

definition ApacheCookieAdd :: "ap_cookie \<Rightarrow> cstr option \<Rightarrow> ap_cookie" where
  "ApacheCookieAdd c val = (case val of None \<Rightarrow> c | Some v \<Rightarrow> c\<lparr>ck_values := ck_values c @ [v]\<rparr>)"

definition ApacheCookie_attr :: "cookie_lib \<Rightarrow> ap_cookie \<Rightarrow> cstr \<Rightarrow> cstr option \<Rightarrow> fault + (ap_cookie \<times> cstr option)" where
  "ApacheCookie_attr L c k val =
     (let k0 = (if at0 k = CHR ''-'' then at0 (tl k) else at0 k) in
      if k0 = CHR ''n'' then Inr (c\<lparr>ck_name := cookie_get_set (ck_name c) val\<rparr>, ck_name c)
      else if k0 = CHR ''v'' then Inr (ApacheCookieAdd c val, None)
      else if k0 = CHR ''e'' then ApacheCookie_expires L c val
      else if k0 = CHR ''d'' then Inr (c\<lparr>ck_domain := cookie_get_set (ck_domain c) val\<rparr>, ck_domain c)
      else if k0 = CHR ''p'' then Inr (c\<lparr>ck_path := cookie_get_set (ck_path c) val\<rparr>, ck_path c)
      else if k0 = CHR ''s''
      then let c = (case val of None \<Rightarrow> c | Some v \<Rightarrow> c\<lparr>ck_secure := \<not> strcaseEQ v ''off'' \<and> \<not> strcaseEQ v ''0''\<rparr>) in
        Inr (c, Some (if ck_secure c then ''on'' else []))
      else Inr (c, None))"

fun set_attrs :: "cookie_lib \<Rightarrow> ap_cookie \<Rightarrow> (cstr \<times> cstr option) list \<Rightarrow> fault + ap_cookie" where
  "set_attrs L c [] = Inr c"
| "set_attrs L c ((k, v) # args) = bind_res (ApacheCookie_attr L c k v) (\<lambda>(c, r). set_attrs L c args)"

text \<open>\<open>script\<close> is the name of the script, whose directory is the path.\<close>

definition ApacheCookie_new :: "cookie_lib \<Rightarrow> cstr \<Rightarrow> (cstr \<times> cstr option) list \<Rightarrow> fault + ap_cookie" where
  "ApacheCookie_new L script args =
     set_attrs L \<lparr>ck_name = None, ck_values = [], ck_domain = None, ck_expires = None, ck_path = Some (cl_dirstr L script),
       ck_secure = False\<rparr> args"

text \<open>The values of a pair.\<close>

fun parse_values :: "nat \<Rightarrow> cookie_lib \<Rightarrow> cstr \<Rightarrow> ap_cookie \<Rightarrow> fault + ap_cookie" where
  "parse_values 0 L pair c = Inl OutOfFuel"
| "parse_values (Suc fuel) L pair c =
     (if pair = [] then Inr c
      else let (val, pair) = cl_nulls L (CHR ''&'') pair in parse_values fuel L pair (ApacheCookieAdd c (Some (cl_unescape L val))))"

fun parse_pairs :: "nat \<Rightarrow> cookie_lib \<Rightarrow> cstr \<Rightarrow> cstr \<Rightarrow> ap_cookie list \<Rightarrow> fault + ap_cookie list" where
  "parse_pairs 0 L script d jar = Inl OutOfFuel"
| "parse_pairs (Suc fuel) L script d jar =
     (if d = [] then Inr jar
      else let (pair, d) = cl_getword L (CHR '';'') d; d = dropWhile c_isspace d; (k, pair) = cl_getword L (CHR ''='') pair in
        bind_res (ApacheCookie_new L script [(''-name'', Some (cl_unescape L k))]) (\<lambda>c.
        let c = c\<lparr>ck_values := []\<rparr>; c = (if pair = [] then ApacheCookieAdd c (Some []) else c) in
        bind_res (parse_values fuel L pair c) (\<lambda>c. parse_pairs fuel L script d (jar @ [c]))))"

definition ApacheCookie_parse :: "nat \<Rightarrow> cookie_lib \<Rightarrow> cstr \<Rightarrow> ap_table \<Rightarrow> cstr option \<Rightarrow> fault + ap_cookie list" where
  "ApacheCookie_parse fuel L script headers_in d =
     (case (case d of None \<Rightarrow> cl_find L headers_in ''Cookie'' | Some s \<Rightarrow> Some s) of
        None \<Rightarrow> Inr []
      | Some s \<Rightarrow> parse_pairs fuel L script s [])"

text \<open>The bytes behind \<open>seek\<close> move by two, the last one first.\<close>

fun shift2 :: "nat \<Rightarrow> nat \<Rightarrow> char list \<Rightarrow> fault + char list" where
  "shift2 0 seek buf = Inr buf"
| "shift2 (Suc n) seek buf =
     bind_res (rd buf (seek + Suc n)) (\<lambda>c. bind_res (wr buf (seek + Suc n + 2) c) (\<lambda>buf. shift2 n seek buf))"

definition replacement :: "char \<Rightarrow> cstr option" where
  "replacement c = (if c = CHR ''&'' then Some ''%26'' else if c = CHR ''='' then Some ''%3d'' else None)"

fun escape_loop :: "nat \<Rightarrow> nat \<Rightarrow> char list \<Rightarrow> fault + char list" where
  "escape_loop 0 en buf = Inr buf"
| "escape_loop (Suc seek) en buf =
     bind_res (rd buf seek) (\<lambda>c. case replacement c of
       None \<Rightarrow> escape_loop seek en buf
     | Some r \<Rightarrow> bind_res (shift2 (en - seek) seek buf) (\<lambda>buf. bind_res (wr_list buf seek r) (\<lambda>buf. escape_loop seek (en + 2) buf)))"

definition escape_url :: "cookie_lib \<Rightarrow> cstr \<Rightarrow> fault + cstr" where
  "escape_url L val =
     (let result = cl_os_escape L val; n = length (upto_nul result) in
      bind_res (escape_loop n n result) (\<lambda>buf. Inr (upto_nul buf)))"

definition push_named :: "cstr \<Rightarrow> cstr option \<Rightarrow> cstr list" where
  "push_named name val = (case val of None \<Rightarrow> [] | Some v \<Rightarrow> if length v > 0 then [name @ ''='' @ v] else [])"

fun cookie_values :: "cookie_lib \<Rightarrow> cstr list \<Rightarrow> fault + cstr" where
  "cookie_values L [] = Inr []"
| "cookie_values L (v # vs) =
     bind_res (escape_url L v) (\<lambda>e. bind_res (cookie_values L vs) (\<lambda>t. Inr (e @ (if vs \<noteq> [] then ''&'' else []) @ t)))"

definition ApacheCookie_as_string :: "cookie_lib \<Rightarrow> ap_cookie \<Rightarrow> fault + cstr" where
  "ApacheCookie_as_string L c =
     (case ck_name c of
        None \<Rightarrow> Inr []
      | Some n \<Rightarrow>
          bind_res (escape_url L n) (\<lambda>n. bind_res (cookie_values L (ck_values c)) (\<lambda>vs.
          Inr (n @ ''='' @ vs @ concat (map (\<lambda>a. ''; '' @ a)
            (push_named ''domain'' (ck_domain c) @ push_named ''path'' (ck_path c) @ push_named ''expires'' (ck_expires c) @
              (if ck_secure c then [''secure''] else [])))))))"

definition ApacheCookie_bake :: "cookie_lib \<Rightarrow> ap_cookie \<Rightarrow> ap_table \<Rightarrow> fault + ap_table" where
  "ApacheCookie_bake L c err_headers_out =
     bind_res (ApacheCookie_as_string L c) (\<lambda>s. Inr (err_headers_out @ [(''Set-Cookie'', s)]))"

section \<open>Escaping in place\<close>

definition esc_char :: "char \<Rightarrow> cstr" where
  "esc_char c = (case replacement c of None \<Rightarrow> [c] | Some r \<Rightarrow> r)"

lemma replacement_length: "replacement c = Some r \<Longrightarrow> length r = 3"
  by (auto simp: replacement_def split: if_splits)

lemma shift2_run:
  "\<exists>y z. shift2 (length mid) (length pre) (pre @ x # mid @ a # b # junk) = Inr (pre @ x # y # z # mid @ junk)"
proof (induction mid arbitrary: a b junk rule: rev_induct)
  case (snoc m mid)
  have "rd (pre @ x # (mid @ [m]) @ a # b # junk) (length pre + Suc (length mid)) = Inr m"
    by (simp add: rd_def nth_append)
  moreover have "wr (pre @ x # (mid @ [m]) @ a # b # junk) (length pre + Suc (length mid) + 2) m = Inr (pre @ x # mid @ m # a # m # junk)"
    by (simp add: wr_def list_update_append numeral_2_eq_2)
  ultimately show ?case using snoc.IH [of m a "m # junk"] by simp
qed auto

definition specials :: "cstr \<Rightarrow> nat" where
  "specials s = length (filter (\<lambda>c. replacement c \<noteq> None) s)"

lemma escape_loop_run:
  "nul_free s \<Longrightarrow> 2 * specials s \<le> length junk \<Longrightarrow>
   \<exists>junk'. escape_loop (length s) (length s + length dn) (s @ dn @ NUL # junk) = Inr (concat (map esc_char s) @ dn @ NUL # junk')"
proof (induction s arbitrary: dn junk rule: rev_induct)
  case (snoc c s)
  have nf: "nul_free s" using snoc.prems(1) by simp
  have r: "rd (s @ c # dn @ NUL # junk) (length s) = Inr c" by (simp add: rd_def nth_append)
  show ?case
  proof (cases "replacement c")
    case None
    then have "2 * specials s \<le> length junk" using snoc.prems(2) by (simp add: specials_def)
    then show ?thesis using snoc.IH [OF nf, of junk "c # dn"] r None by (simp add: esc_char_def)
  next
    case (Some t)
    then obtain a b junk2 where j: "junk = a # b # junk2" "2 * specials s \<le> length junk2"
      using snoc.prems(2) by (cases junk; cases "tl junk") (auto simp: specials_def)
    obtain y z where sh: "shift2 (Suc (length dn)) (length s) (s @ c # (dn @ [NUL]) @ a # b # junk2) = Inr (s @ c # y # z # (dn @ [NUL]) @ junk2)"
      using shift2_run [of "dn @ [NUL]" s c a b junk2] by auto
    have "length t = 3" using replacement_length [OF Some] .
    then have w: "wr_list (s @ c # y # z # (dn @ [NUL]) @ junk2) (length s) t = Inr (s @ t @ dn @ NUL # junk2)"
      using wr_list_mid [of t "[c, y, z]" s "(dn @ [NUL]) @ junk2"] by simp
    have "escape_loop (Suc (length s)) (Suc (length s) + length dn) (s @ c # dn @ NUL # junk) =
        escape_loop (length s) (length s + length (t @ dn)) (s @ (t @ dn) @ NUL # junk2)"
      using r sh w Some \<open>length t = 3\<close> by (simp add: j(1) Suc_diff_le del: shift2.simps) (simp add: add.commute numeral_3_eq_3)
    then show ?thesis using snoc.IH [OF nf j(2), of "t @ dn"] Some by (simp add: esc_char_def)
  qed
qed auto

text \<open>
  The ampersands and equal signs of an escaped string are escaped in place, from the end, when
  two bytes for each are allocated behind it.
\<close>

lemma escape_url_text:
  assumes "cl_os_escape L val = s @ NUL # junk" "nul_free s" "2 * specials s \<le> length junk"
  shows "escape_url L val = Inr (concat (map esc_char s))"
proof -
  obtain junk' where "escape_loop (length s) (length s) (s @ NUL # junk) = Inr (concat (map esc_char s) @ NUL # junk')"
    using escape_loop_run [OF assms(2,3), of "[]"] by auto
  moreover have "nul_free (concat (map esc_char s))"
    using assms(2) by (induction s) (auto simp: esc_char_def replacement_def nul_free_def split: if_splits)
  ultimately show ?thesis using assms(1,2) by (simp add: escape_url_def Let_def upto_nul_append)
qed

section \<open>Cookies that come back\<close>

text \<open>
  What the library's functions do, by their documentation; the last clause says that the block of
  an escaped string has room for the escapes that are added, on which the code relies.
\<close>

definition safe_token :: "token \<Rightarrow> bool" where
  "safe_token t \<longleftrightarrow> token_ok t \<and> (case t of Lit c \<Rightarrow> c \<noteq> CHR '';'' \<and> \<not> c_isspace c | Pct a b \<Rightarrow> True | Uni ds \<Rightarrow> False)"

definition cookie_words :: "cookie_lib \<Rightarrow> bool" where
  "cookie_words L \<longleftrightarrow>
     (\<forall>c w rest. c \<notin> set w \<longrightarrow> rest = [] \<or> hd rest \<noteq> c \<longrightarrow> cl_getword L c (w @ c # rest) = (w, rest)) \<and>
     (\<forall>c w. c \<notin> set w \<longrightarrow> cl_getword L c w = (w, [])) \<and>
     (\<forall>c w rest. c \<notin> set w \<longrightarrow> cl_nulls L c (w @ c # rest) = (w, rest)) \<and>
     (\<forall>c w. c \<notin> set w \<longrightarrow> cl_nulls L c w = (w, [])) \<and>
     (\<forall>ts. list_all safe_token ts \<longrightarrow> cl_unescape L (concat (map token_text ts)) = concat (map token_value ts)) \<and>
     (\<forall>s. nul_free s \<longrightarrow> (\<exists>ts junk. cl_os_escape L s = concat (map token_text ts) @ NUL # junk \<and> list_all safe_token ts \<and>
        concat (map token_value ts) = s \<and> 2 * specials (concat (map token_text ts)) \<le> length junk))"

lemma cookie_wordsD:
  assumes "cookie_words L"
  shows "c \<notin> set w \<Longrightarrow> rest = [] \<or> hd rest \<noteq> c \<Longrightarrow> cl_getword L c (w @ c # rest) = (w, rest)"
    and "c \<notin> set w \<Longrightarrow> cl_getword L c w = (w, [])"
    and "c \<notin> set w \<Longrightarrow> cl_nulls L c (w @ c # rest) = (w, rest)"
    and "c \<notin> set w \<Longrightarrow> cl_nulls L c w = (w, [])"
    and "list_all safe_token ts \<Longrightarrow> cl_unescape L (concat (map token_text ts)) = concat (map token_value ts)"
    and "nul_free s \<Longrightarrow> \<exists>ts junk. cl_os_escape L s = concat (map token_text ts) @ NUL # junk \<and> list_all safe_token ts \<and>
        concat (map token_value ts) = s \<and> 2 * specials (concat (map token_text ts)) \<le> length junk"
  using assms unfolding cookie_words_def by blast+

text \<open>The tokens of a string whose ampersands and equal signs are escaped too.\<close>

definition esc_token :: "token \<Rightarrow> token" where
  "esc_token t = (case t of
       Lit c \<Rightarrow> if c = CHR ''&'' then Pct (CHR ''2'') (CHR ''6'') else if c = CHR ''='' then Pct (CHR ''3'') (CHR ''d'') else Lit c
     | _ \<Rightarrow> t)"

definition mark :: "char \<Rightarrow> bool" where
  "mark c \<longleftrightarrow> c = CHR ''&'' \<or> c = CHR ''='' \<or> c = CHR '';'' \<or> c_isspace c \<or> c = NUL"

lemma xdigit_no_mark: "c_isxdigit c \<Longrightarrow> \<not> mark c"
  by (auto simp: c_isxdigit_def c_isdigit_def mark_def c_isspace_def code_def)

lemma special_values:
  "token_ok (Pct (CHR ''2'') (CHR ''6''))" "token_value (Pct (CHR ''2'') (CHR ''6'')) = ''&''"
  "token_ok (Pct (CHR ''3'') (CHR ''d''))" "token_value (Pct (CHR ''3'') (CHR ''d'')) = ''=''"
  by (simp_all add: hex_value_def hex_val_def c_isxdigit_def c_isdigit_def c_tolower_def c_isupper_def code_def char_of_def bit_0)

lemma percent_no_mark: "\<not> mark (CHR ''%'')"
  by (simp add: mark_def c_isspace_def code_def)

lemma esc_token_facts:
  assumes "safe_token t"
  shows "safe_token (esc_token t)" "token_value (esc_token t) = token_value t"
    "token_text (esc_token t) = concat (map esc_char (token_text t))" "\<forall>c \<in> set (token_text (esc_token t)). \<not> mark c"
    "token_text (esc_token t) \<noteq> []"
proof -
  have x: "c_isxdigit (CHR ''2'')" "c_isxdigit (CHR ''6'')" "c_isxdigit (CHR ''3'')" "c_isxdigit (CHR ''d'')"
    by (simp_all add: c_isxdigit_def c_isdigit_def code_def)
  show "safe_token (esc_token t)" "token_value (esc_token t) = token_value t"
    using assms special_values by (cases t; auto simp: safe_token_def esc_token_def simp del: token_ok.simps(2) token_value.simps(2))+
  have "esc_char a = [a]" if "c_isxdigit a" for a
    using xdigit_no_mark [OF that] by (auto simp: esc_char_def replacement_def mark_def)
  moreover have "esc_char (CHR ''%'') = ''%''" by (simp add: esc_char_def replacement_def)
  ultimately show "token_text (esc_token t) = concat (map esc_char (token_text t))"
    using assms by (cases t) (auto simp: safe_token_def esc_token_def esc_char_def replacement_def)
  show "\<forall>c \<in> set (token_text (esc_token t)). \<not> mark c"
    using assms xdigit_no_mark x percent_no_mark by (cases t) (auto simp: safe_token_def esc_token_def mark_def)
  show "token_text (esc_token t) \<noteq> []" using assms by (cases t) (auto simp: esc_token_def safe_token_def)
qed

lemma escaped_facts:
  assumes "cookie_words L" "nul_free v"
  shows "\<exists>e. escape_url L v = Inr e \<and> cl_unescape L e = v \<and> (\<forall>c \<in> set e. \<not> mark c) \<and> (v \<noteq> [] \<longrightarrow> e \<noteq> [])"
proof -
  obtain ts junk where t: "cl_os_escape L v = concat (map token_text ts) @ NUL # junk" "list_all safe_token ts"
    "concat (map token_value ts) = v" "2 * specials (concat (map token_text ts)) \<le> length junk"
    using cookie_wordsD(6) [OF assms] by blast
  define us where "us = map esc_token ts"
  have us: "list_all safe_token us" "concat (map token_value us) = v"
    "concat (map token_text us) = concat (map esc_char (concat (map token_text ts)))"
    using t(2,3) unfolding us_def by (induction ts arbitrary: v) (auto simp: esc_token_facts)
  have marks: "\<forall>c \<in> set (concat (map token_text us)). \<not> mark c"
    using t(2) esc_token_facts(4) unfolding us_def list_all_iff by fastforce
  have "nul_free (concat (map token_text ts))"
  proof -
    have "nul_free (token_text x)" if "safe_token x" for x
      using that xdigit_no_mark by (cases x) (auto simp: safe_token_def nul_free_def mark_def)
    then show ?thesis using t(2) by (induction ts) auto
  qed
  then have "escape_url L v = Inr (concat (map token_text us))"
    using escape_url_text [OF t(1) _ t(4)] us(3) by simp
  moreover have "cl_unescape L (concat (map token_text us)) = v" using cookie_wordsD(5) [OF assms(1) us(1)] us(2) by simp
  moreover have "concat (map token_text us) \<noteq> []" if "v \<noteq> []"
  proof -
    have "ts \<noteq> []" using t(3) that by auto
    then show ?thesis using t(2) by (cases ts) (auto simp: us_def esc_token_facts(5))
  qed
  ultimately show ?thesis using marks by blast
qed

text \<open>The text of a value.\<close>

definition etext :: "cookie_lib \<Rightarrow> cstr \<Rightarrow> cstr" where
  "etext L v = (case escape_url L v of Inl e \<Rightarrow> [] | Inr t \<Rightarrow> t)"

lemma etext_facts:
  assumes "cookie_words L" "nul_free v"
  shows "escape_url L v = Inr (etext L v)" "cl_unescape L (etext L v) = v" "\<forall>c \<in> set (etext L v). \<not> mark c" "v \<noteq> [] \<Longrightarrow> etext L v \<noteq> []"
  using escaped_facts [OF assms] by (auto simp: etext_def)

fun vtext :: "cookie_lib \<Rightarrow> cstr list \<Rightarrow> cstr" where
  "vtext L [] = []"
| "vtext L [v] = etext L v"
| "vtext L (v # w # vs) = etext L v @ ''&'' @ vtext L (w # vs)"

lemma cookie_values_text: "cookie_words L \<Longrightarrow> list_all nul_free vs \<Longrightarrow> cookie_values L vs = Inr (vtext L vs)"
  by (induction L vs rule: vtext.induct) (simp_all add: etext_facts(1))

lemma vtext_marks: "cookie_words L \<Longrightarrow> list_all nul_free vs \<Longrightarrow> c \<in> set (vtext L vs) \<Longrightarrow> c = CHR ''&'' \<or> \<not> mark c"
  by (induction L vs rule: vtext.induct) (auto simp: etext_facts(3))

lemma parse_values_text:
  "cookie_words L \<Longrightarrow> list_all nul_free vs \<Longrightarrow> vs \<noteq> [] \<Longrightarrow> last vs \<noteq> [] \<Longrightarrow> length vs < fuel \<Longrightarrow>
   parse_values fuel L (vtext L vs) c = Inr (c\<lparr>ck_values := ck_values c @ vs\<rparr>)"
proof (induction L vs arbitrary: fuel c rule: vtext.induct)
  case (2 L v)
  then obtain f where f: "fuel = Suc (Suc f)" by (cases fuel; cases "fuel - 1") auto
  have nf: "nul_free v" "v \<noteq> []" using 2 by auto
  have "CHR ''&'' \<notin> set (etext L v)" using etext_facts(3) [OF 2(1) nf(1)] by (auto simp: mark_def)
  then show ?case using f nf cookie_wordsD(4) [OF 2(1)] etext_facts [OF 2(1) nf(1)] by (simp add: ApacheCookieAdd_def)
next
  case (3 L v w vs)
  then obtain f where f: "fuel = Suc f" "length (w # vs) < f" by (cases fuel) auto
  have nf: "nul_free v" using 3 by auto
  have "CHR ''&'' \<notin> set (etext L v)" using etext_facts(3) [OF "3.prems"(1) nf] by (auto simp: mark_def)
  then have "parse_values fuel L (vtext L (v # w # vs)) c = parse_values f L (vtext L (w # vs)) (ApacheCookieAdd c (Some v))"
    using f(1) cookie_wordsD(3) [OF "3.prems"(1)] etext_facts(2) [OF "3.prems"(1) nf] by simp
  then show ?case using "3.IH" [of f "ApacheCookieAdd c (Some v)"] "3.prems" f(2) by (simp add: ApacheCookieAdd_def)
qed simp

lemma vtext_nonempty: "cookie_words L \<Longrightarrow> list_all nul_free vs \<Longrightarrow> vs \<noteq> [] \<Longrightarrow> last vs \<noteq> [] \<Longrightarrow> vtext L vs \<noteq> []"
  by (induction L vs rule: vtext.induct) (auto simp: etext_facts(4))

lemma parse_single_empty:
  assumes "cookie_words L" "1 < fuel" "ck_values c = []"
  shows "parse_values fuel L (etext L []) (if etext L [] = [] then ApacheCookieAdd c (Some []) else c) = Inr (c\<lparr>ck_values := [[]]\<rparr>)"
proof -
  obtain f where f: "fuel = Suc (Suc f)" using assms(2) by (cases fuel; cases "fuel - 1") auto
  have "nul_free []" by simp
  note e = etext_facts [OF assms(1) this]
  have "CHR ''&'' \<notin> set (etext L [])" using e(3) by (auto simp: mark_def)
  then show ?thesis using f e(2) assms(3) cookie_wordsD(4) [OF assms(1)] by (simp add: ApacheCookieAdd_def)
qed

definition bare :: "ap_cookie \<Rightarrow> bool" where
  "bare c \<longleftrightarrow> ck_domain c = None \<and> ck_path c = None \<and> ck_expires c = None \<and> \<not> ck_secure c \<and>
     (case ck_name c of None \<Rightarrow> False | Some n \<Rightarrow> nul_free n) \<and>
     list_all nul_free (ck_values c) \<and> ck_values c \<noteq> [] \<and> (length (ck_values c) = 1 \<or> last (ck_values c) \<noteq> [])"

definition ctext :: "cookie_lib \<Rightarrow> ap_cookie \<Rightarrow> cstr" where
  "ctext L c = etext L (the (ck_name c)) @ ''='' @ vtext L (ck_values c)"

lemma as_string_bare: "cookie_words L \<Longrightarrow> bare c \<Longrightarrow> ApacheCookie_as_string L c = Inr (ctext L c)"
  by (auto simp: bare_def ApacheCookie_as_string_def ctext_def push_named_def cookie_values_text etext_facts(1) split: option.splits)

text \<open>What a browser sends back: the pairs with a semicolon and a space between them.\<close>

fun cookie_header :: "cookie_lib \<Rightarrow> ap_cookie list \<Rightarrow> fault + cstr" where
  "cookie_header L [] = Inr []"
| "cookie_header L [c] = ApacheCookie_as_string L c"
| "cookie_header L (c # d # cs) =
     bind_res (ApacheCookie_as_string L c) (\<lambda>s. bind_res (cookie_header L (d # cs)) (\<lambda>t. Inr (s @ ''; '' @ t)))"

fun htext :: "cookie_lib \<Rightarrow> ap_cookie list \<Rightarrow> cstr" where
  "htext L [] = []"
| "htext L [c] = ctext L c"
| "htext L (c # d # cs) = ctext L c @ ''; '' @ htext L (d # cs)"

lemma cookie_header_text: "cookie_words L \<Longrightarrow> list_all bare cs \<Longrightarrow> cookie_header L cs = Inr (htext L cs)"
  by (induction L cs rule: htext.induct) (simp_all add: as_string_bare)

lemma ctext_head: "cookie_words L \<Longrightarrow> bare c \<Longrightarrow> ctext L c \<noteq> [] \<and> \<not> c_isspace (hd (ctext L c))"
proof -
  assume L: "cookie_words L" "bare c"
  then obtain n where n: "ck_name c = Some n" "nul_free n" by (auto simp: bare_def split: option.splits)
  have "\<not> c_isspace (CHR ''='')" by (simp add: c_isspace_def code_def)
  moreover have "\<forall>x \<in> set (etext L n). \<not> c_isspace x" using etext_facts(3) [OF L(1) n(2)] by (auto simp: mark_def)
  ultimately show ?thesis using n(1) by (cases "etext L n") (auto simp: ctext_def)
qed

lemma parse_pairs_text:
  "cookie_words L \<Longrightarrow> list_all bare cs \<Longrightarrow> \<forall>c \<in> set cs. length cs + length (ck_values c) < fuel \<Longrightarrow> length cs < fuel \<Longrightarrow>
   \<exists>js. parse_pairs fuel L script (htext L cs) jar = Inr (jar @ js) \<and>
     map (\<lambda>c. (ck_name c, ck_values c)) js = map (\<lambda>c. (ck_name c, ck_values c)) cs"
proof (induction cs arbitrary: fuel jar)
  case Nil
  then show ?case by (cases fuel) auto
next
  case (Cons c cs)
  note L = Cons.prems(1)
  obtain f where f: "fuel = Suc f" using Cons.prems(4) by (cases fuel) auto
  have b: "bare c" "list_all bare cs" using Cons.prems(2) by auto
  obtain n where n: "ck_name c = Some n" "nul_free n" using b(1) by (auto simp: bare_def split: option.splits)
  define vs where "vs = ck_values c"
  have vs: "list_all nul_free vs" "vs \<noteq> []" "length vs = 1 \<or> last vs \<noteq> []" using b(1) by (auto simp: bare_def vs_def)
  have ct: "ctext L c = etext L n @ CHR ''='' # vtext L vs" by (simp add: ctext_def n(1) vs_def)
  have nomark: "CHR '';'' \<notin> set (ctext L c)" "CHR ''='' \<notin> set (etext L n)" "CHR ''='' \<notin> set (vtext L vs)"
    unfolding ct using etext_facts(3) [OF L n(2)] vtext_marks [OF L vs(1)] by (auto simp: mark_def)
  define d' where "d' = (case cs of [] \<Rightarrow> [] | _ \<Rightarrow> SPACE # htext L cs)"
  have w1: "cl_getword L (CHR '';'') (htext L (c # cs)) = (ctext L c, d')"
    using cookie_wordsD(1) [OF L nomark(1), of d'] cookie_wordsD(2) [OF L nomark(1)]
    by (cases cs) (auto simp: d'_def)
  have d': "dropWhile c_isspace d' = htext L cs"
  proof (cases cs)
    case (Cons e es)
    have "htext L cs \<noteq> [] \<and> \<not> c_isspace (hd (htext L cs))" using ctext_head [OF L, of e] b(2) Cons by (cases es) auto
    moreover have "c_isspace SPACE" by (simp add: c_isspace_def code_def)
    ultimately show ?thesis using Cons by (cases "htext L cs") (auto simp: d'_def)
  qed (simp add: d'_def)
  have w2: "cl_getword L (CHR ''='') (ctext L c) = (etext L n, vtext L vs)"
  proof -
    have "vtext L vs = [] \<or> hd (vtext L vs) \<noteq> CHR ''=''" using nomark(3) by (cases "vtext L vs") auto
    then show ?thesis unfolding ct using cookie_wordsD(1) [OF L nomark(2)] by simp
  qed
  have nw: "ApacheCookie_new L script [(''-name'', Some n)] = Inr \<lparr>ck_name = Some n, ck_values = [], ck_domain = None, ck_expires = None,
      ck_path = Some (cl_dirstr L script), ck_secure = False\<rparr>" (is "_ = Inr ?k")
    by (simp add: ApacheCookie_new_def ApacheCookie_attr_def cookie_get_set_def Let_def)
  have ne: "htext L (c # cs) \<noteq> []" using ctext_head [OF L b(1)] by (cases cs) auto
  have val: "parse_values f L (vtext L vs) (if vtext L vs = [] then ApacheCookieAdd ?k (Some []) else ?k) = Inr (?k\<lparr>ck_values := vs\<rparr>)"
  proof (cases "last vs = []")
    case True
    then have v: "vs = [[]]" using vs by (cases vs) auto
    obtain g where "f = Suc g" using Cons.prems(3,4) f by (cases f) auto
    moreover have "etext L [] = [] \<or> etext L [] \<noteq> []" by blast
    ultimately show ?thesis using parse_single_empty [OF L, of f ?k] Cons.prems(3) f by (simp add: v vs_def [symmetric])
  next
    case False
    then have "vtext L vs \<noteq> []" using vtext_nonempty [OF L vs(1,2)] by simp
    then show ?thesis using parse_values_text [OF L vs(1,2) False, of f ?k] Cons.prems(3) f by (simp add: vs_def)
  qed
  have "parse_pairs fuel L script (htext L (c # cs)) jar = parse_pairs f L script (htext L cs) (jar @ [?k\<lparr>ck_values := vs\<rparr>])"
    using ne w1 d' w2 nw val etext_facts(2) [OF L n(2)] unfolding f by (simp del: parse_values.simps htext.simps)
  moreover obtain js where "parse_pairs f L script (htext L cs) (jar @ [?k\<lparr>ck_values := vs\<rparr>]) = Inr ((jar @ [?k\<lparr>ck_values := vs\<rparr>]) @ js)"
    "map (\<lambda>c. (ck_name c, ck_values c)) js = map (\<lambda>c. (ck_name c, ck_values c)) cs"
    using Cons.IH [OF L b(2), of f "jar @ [?k\<lparr>ck_values := vs\<rparr>]"] Cons.prems(3,4) f by fastforce
  ultimately show ?case using n(1) by (intro exI [of _ "(?k\<lparr>ck_values := vs\<rparr>) # js"]) (simp add: vs_def)
qed


definition demo_token :: "char \<Rightarrow> token" where
  "demo_token c = (if url_plain c then Lit c else Pct (hex_digit (code c div 16)) (hex_digit (code c mod 16)))"

definition demo_cookie_lib :: cookie_lib where
  "demo_cookie_lib =
     \<lparr>cl_getword = demo_cut, cl_nulls = demo_cut,
       cl_unescape = (\<lambda>s. case unescaped s of Inl e \<Rightarrow> [] | Inr t \<Rightarrow> t),
       cl_os_escape = (\<lambda>s. let t = concat (map (token_text \<circ> demo_token) s) in t @ NUL # replicate (2 * length t) NUL),
       cl_dirstr = (\<lambda>s. ''/''), cl_find = map_of, cl_now = 0,
       cl_gmtime = (\<lambda>t. \<lparr>tm_sec = 0, tm_min = 0, tm_hour = 0, tm_mday = 1, tm_mon = 0, tm_year = 70, tm_wday = 4\<rparr>),
       cl_two = (\<lambda>i. ''00'')\<rparr>"

lemma demo_token_facts: "c \<noteq> NUL \<Longrightarrow> safe_token (demo_token c) \<and> token_value (demo_token c) = [c]"
proof -
  assume c: "c \<noteq> NUL"
  have v: "hex_value [hex_digit (code c div 16), hex_digit (code c mod 16)] = code c"
    using code_digit_facts [of c] by (simp add: hex_value_def)
  have "code c \<noteq> 0" using c code_inj [of c NUL] by simp
  moreover have "\<not> c_isspace c" if "url_plain c"
    using that by (auto simp: url_plain_def c_isspace_def c_isdigit_def c_isalpha_def c_isupper_def c_islower_def code_def)
  ultimately show ?thesis using v c url_plain_other code_digit_facts [of c] url_plain_marks by (auto simp: demo_token_def safe_token_def)
qed

lemma demo_cookie_words: "cookie_words demo_cookie_lib"
proof -
  have cut: "demo_cut c (w @ c # rest) = (w, rest)" "demo_cut c w = (w, [])" if "c \<notin> set w" for c w rest
    using demo_cut_facts [OF that] by simp_all
  have esc: "list_all safe_token (map demo_token s) \<and> concat (map token_value (map demo_token s)) = s" if "nul_free s" for s
    using that demo_token_facts by (induction s) auto
  have un: "unescaped (concat (map token_text ts)) = Inr (concat (map token_value ts))" if "list_all safe_token ts" for ts
    using that unescaped_tokens_eq [of ts] by (simp add: list_all_iff safe_token_def)
  have sp: "specials t \<le> length t" for t by (simp add: specials_def)
  show ?thesis
    unfolding cookie_words_def
  proof (intro conjI allI impI)
    fix s :: cstr
    assume "nul_free s"
    then show "\<exists>ts junk. cl_os_escape demo_cookie_lib s = concat (map token_text ts) @ NUL # junk \<and> list_all safe_token ts \<and>
        concat (map token_value ts) = s \<and> 2 * specials (concat (map token_text ts)) \<le> length junk"
      using esc [of s] sp [of "concat (map token_text (map demo_token s))"]
      by (intro exI [of _ "map demo_token s"] exI [of _ "replicate (2 * length (concat (map token_text (map demo_token s)))) NUL"])
        (simp add: demo_cookie_lib_def Let_def)
  qed (simp_all add: demo_cookie_lib_def cut un)
qed

definition demo_cookie :: "cstr \<Rightarrow> cstr list \<Rightarrow> ap_cookie" where
  "demo_cookie n vs = \<lparr>ck_name = Some n, ck_values = vs, ck_domain = None, ck_expires = None, ck_path = None, ck_secure = False\<rparr>"


end
