(* ===== verification/ModPcc.thy ===== *)
theory ModPcc
  imports ApacheRequest
begin

text \<open>
  The Apache module \<open>webconnect/apache2/mod_pcc2.c\<close>: per-directory configuration and its
  merging, the choice between web application, interpreter and neither, and the handler that
  parses a request and runs a page.  The compiled Scheme entry points are parameters.
\<close>

section \<open>Configuration\<close>

definition MAX_EXTS :: nat where "MAX_EXTS = 30"

datatype cfg_mode = CONFIG_MODE_SERVER | CONFIG_MODE_DIRECTORY | CONFIG_MODE_COMBO

record pcc_cfg =
  cf_cmode :: cfg_mode
  cf_loc :: cstr
  cf_include_path :: "cstr option"
  cf_webapp_lib :: "cstr option"
  cf_webapp_index :: "cstr option"
  cf_webapp_exts :: "cstr option list"
  cf_num_exts :: nat
  cf_custom_exts :: bool

definition pcc_create_per_dir :: "cstr option \<Rightarrow> pcc_cfg" where
  "pcc_create_per_dir dirspec =
     \<lparr>cf_cmode = CONFIG_MODE_DIRECTORY, cf_loc = (case dirspec of None \<Rightarrow> [] | Some d \<Rightarrow> d), cf_include_path = None,
       cf_webapp_lib = None, cf_webapp_index = None,
       cf_webapp_exts = Some ''.php'' # replicate (MAX_EXTS - 1) None, cf_num_exts = 1, cf_custom_exts = False\<rparr>"

text \<open>
  The joined path is printed into a block that is allocated for twice the nearer path; what it
  prints is checked against the block.
\<close>

definition merge_include_path :: "cstr option \<Rightarrow> cstr option \<Rightarrow> fault + cstr option" where
  "merge_include_path n p =
     (case (n, p) of
        (Some n, Some p) \<Rightarrow>
          bind_res (memcpy_at (replicate (1 + length n + length n) NUL) 0 (n @ '':'' @ p @ [NUL])) (\<lambda>s. Inr (Some (upto_nul s)))
      | (None, Some p) \<Rightarrow> Inr (Some p)
      | (Some n, None) \<Rightarrow> Inr (Some n)
      | (None, None) \<Rightarrow> Inr None)"

text \<open>The extensions are copied one by one into the zeroed array; \<open>apr_pstrdup\<close> of a null pointer is null.\<close>

fun copy_exts :: "nat \<Rightarrow> nat \<Rightarrow> cstr option list \<Rightarrow> cstr option list \<Rightarrow> fault + cstr option list" where
  "copy_exts i 0 src dst = Inr dst"
| "copy_exts i (Suc k) src dst = bind_res (rd src i) (\<lambda>e. bind_res (wr dst i e) (\<lambda>dst. copy_exts (i + 1) k src dst))"

definition pcc_merge_per_dir :: "pcc_cfg \<Rightarrow> pcc_cfg \<Rightarrow> fault + pcc_cfg" where
  "pcc_merge_per_dir pconf nconf =
     (let (lib, index) = (if cf_webapp_lib nconf \<noteq> None then (cf_webapp_lib nconf, cf_webapp_index nconf)
        else (cf_webapp_lib pconf, cf_webapp_index pconf)) in
      bind_res (merge_include_path (cf_include_path nconf) (cf_include_path pconf)) (\<lambda>path.
      bind_res (copy_exts 0 (cf_num_exts nconf) (cf_webapp_exts nconf) (replicate MAX_EXTS None)) (\<lambda>exts.
      Inr \<lparr>cf_cmode = CONFIG_MODE_DIRECTORY, cf_loc = cf_loc nconf, cf_include_path = path, cf_webapp_lib = lib,
        cf_webapp_index = index, cf_webapp_exts = exts, cf_num_exts = cf_num_exts nconf, cf_custom_exts = cf_custom_exts nconf\<rparr>)))"

definition pcc_apache_value_handler :: "pcc_cfg \<Rightarrow> cstr \<Rightarrow> cstr \<Rightarrow> pcc_cfg" where
  "pcc_apache_value_handler cfg arg1 arg2 =
     (if strcaseEQ arg1 ''include_path'' then cfg\<lparr>cf_include_path := Some arg2\<rparr> else cfg)"

definition pcc_apache_flag_handler :: "pcc_cfg \<Rightarrow> cstr \<Rightarrow> cstr \<Rightarrow> pcc_cfg" where
  "pcc_apache_flag_handler cfg arg1 arg2 =
     pcc_apache_value_handler cfg arg1 (if strcaseEQ arg2 ''On'' \<or> arg2 = ''1'' then ''1'' else ''0'')"

definition do_webapp_exts :: "pcc_cfg \<Rightarrow> cstr \<Rightarrow> fault + pcc_cfg" where
  "do_webapp_exts cfg ext =
     (if length ext < 2 \<or> at0 ext \<noteq> CHR ''.'' \<or> cf_num_exts cfg = MAX_EXTS then Inr cfg
      else let cfg = (if \<not> cf_custom_exts cfg then cfg\<lparr>cf_num_exts := 0, cf_custom_exts := True\<rparr> else cfg) in
        bind_res (wr (cf_webapp_exts cfg) (cf_num_exts cfg) (Some ext)) (\<lambda>exts.
        Inr (cfg\<lparr>cf_webapp_exts := exts, cf_num_exts := cf_num_exts cfg + 1\<rparr>)))"

definition mount_webapp :: "pcc_cfg \<Rightarrow> cstr \<Rightarrow> cstr option \<Rightarrow> pcc_cfg" where
  "mount_webapp cfg lib index =
     (let cfg = cfg\<lparr>cf_webapp_lib := Some lib\<rparr> in
      case index of None \<Rightarrow> cfg | Some i \<Rightarrow> cfg\<lparr>cf_webapp_index := Some i\<rparr>)"

text \<open>The command table: a directive and its arguments.\<close>

datatype directive = Value cstr cstr | Flag cstr cstr | Webapp cstr "cstr option" | Exts "cstr"

fun pcc_command :: "pcc_cfg \<Rightarrow> directive \<Rightarrow> fault + pcc_cfg" where
  "pcc_command cfg (Value a b) = Inr (pcc_apache_value_handler cfg a b)"
| "pcc_command cfg (Flag a b) = Inr (pcc_apache_flag_handler cfg a b)"
| "pcc_command cfg (Webapp lib index) = Inr (mount_webapp cfg lib index)"
| "pcc_command cfg (Exts e) = do_webapp_exts cfg e"

section \<open>Who serves a file\<close>

definition match_extension :: "cstr \<Rightarrow> cstr \<Rightarrow> bool" where
  "match_extension filename ext \<longleftrightarrow>
     length ext < length filename \<and> c_strstr filename ext = Some (length filename - length ext)"

fun try_exts :: "nat \<Rightarrow> nat \<Rightarrow> cstr option list \<Rightarrow> cstr \<Rightarrow> fault + bool" where
  "try_exts i 0 exts filename = Inr False"
| "try_exts i (Suc k) exts filename =
     bind_res (rd exts i) (\<lambda>e. case e of
       None \<Rightarrow> Inl NullDeref
     | Some x \<Rightarrow> if match_extension filename x then Inr True else try_exts (i + 1) k exts filename)"

definition try_file_in_lib :: "pcc_cfg \<Rightarrow> cstr \<Rightarrow> fault + bool" where
  "try_file_in_lib cfg filename =
     (if cf_num_exts cfg = 0 then Inr False else try_exts 0 (cf_num_exts cfg) (cf_webapp_exts cfg) filename)"

text \<open>What \<open>stat\<close> says of a name: nothing there, a directory, something else.\<close>

datatype stat_result = NoFile | IsDir | IsOther

definition try_lib_index :: "(cstr \<Rightarrow> stat_result) \<Rightarrow> pcc_cfg \<Rightarrow> cstr \<Rightarrow> bool" where
  "try_lib_index st cfg filename \<longleftrightarrow> st filename \<noteq> NoFile \<and> st filename = IsDir \<and> cf_webapp_index cfg \<noteq> None"

definition check_for_webapp :: "(cstr \<Rightarrow> stat_result) \<Rightarrow> pcc_cfg \<Rightarrow> cstr \<Rightarrow> fault + int" where
  "check_for_webapp st cfg filename =
     (if cf_webapp_lib cfg \<noteq> None
      then bind_res (try_file_in_lib cfg filename) (\<lambda>b. Inr (if b \<or> try_lib_index st cfg filename then OK else DECLINED))
      else Inr DECLINED)"

section \<open>Handling a request\<close>

text \<open>What the handler does to the runtime, in order.\<close>

datatype ('s, 'f) event =
    SetIncludePath cstr
  | ProcessUpload "upload list"
  | RunUrl "('s, 'f) areq"
  | RunWebapp "('s, 'f) areq" "cstr option" cstr cstr "cstr option"

record ('s, 'f) runtime =
  rt_ini_num :: "cstr \<Rightarrow> int"
  rt_run_url :: "('s, 'f) areq \<Rightarrow> int"
  rt_run_webapp :: "('s, 'f) areq \<Rightarrow> cstr option \<Rightarrow> cstr \<Rightarrow> cstr \<Rightarrow> cstr option \<Rightarrow> int"

text \<open>The length of the location without a final slash; the byte before an empty location is read.\<close>

definition location_length :: "cstr \<Rightarrow> fault + nat" where
  "location_length loc =
     (if loc = [] then Inl OutOfBounds else Inr (if last loc = CHR ''/'' then length loc - 1 else length loc))"

definition general_handler ::
    "nat \<Rightarrow> nat \<Rightarrow> ('s, 'f) apache \<Rightarrow> ('s, 'f) runtime \<Rightarrow> pcc_cfg \<Rightarrow> cstr \<Rightarrow> ('s, 'f) areq \<Rightarrow> bool \<Rightarrow>
      fault + (int \<times> ('s, 'f) event list)" where
  "general_handler fuel fu ax rt cfg filename req is_webapp =
     (let evs = (case cf_include_path cfg of None \<Rightarrow> [] | Some p \<Rightarrow> [SetIncludePath p]);
          req = (if rt_ini_num rt ''file_uploads'' = 0 then req\<lparr>q_disable_uploads := True\<rparr> else req);
          req = req\<lparr>q_post_max := rt_ini_num rt ''upload_max_filesize''\<rparr> in
      bind_res (ApacheRequest_parse fuel fu ax req) (\<lambda>req.
      if q_status req \<noteq> OK then Inr (q_status req, evs)
      else bind_res (ApacheRequest_upload fuel fu ax req) (\<lambda>(req, ups).
        let evs = evs @ (if ups \<noteq> [] then [ProcessUpload ups] else []) in
        if is_webapp
        then bind_res (location_length (cf_loc cfg)) (\<lambda>loc_len.
          if length filename < loc_len then Inr (DECLINED, evs)
          else let rest = drop loc_len filename in
            Inr (rt_run_webapp rt req (cf_webapp_lib cfg) rest (cf_loc cfg) (cf_webapp_index cfg),
              evs @ [RunWebapp req (cf_webapp_lib cfg) rest (cf_loc cfg) (cf_webapp_index cfg)]))
        else Inr (rt_run_url rt req, evs @ [RunUrl req]))))"

definition PCC_MAGIC_TYPE :: cstr where "PCC_MAGIC_TYPE = ''application/x-httpd-pcc''"

definition pcc_handler ::
    "nat \<Rightarrow> nat \<Rightarrow> ('s, 'f) apache \<Rightarrow> ('s, 'f) runtime \<Rightarrow> (cstr \<Rightarrow> stat_result) \<Rightarrow> pcc_cfg \<Rightarrow> cstr \<Rightarrow> cstr \<Rightarrow> ('s, 'f) areq \<Rightarrow>
      fault + (int \<times> ('s, 'f) event list)" where
  "pcc_handler fuel fu ax rt st cfg handler filename req =
     bind_res (check_for_webapp st cfg filename) (\<lambda>c.
     if c = OK then general_handler fuel fu ax rt cfg filename req True
     else if handler = PCC_MAGIC_TYPE then general_handler fuel fu ax rt cfg filename req False
     else Inr (DECLINED, []))"

section \<open>Well-formed configurations\<close>

definition cfg_ok :: "pcc_cfg \<Rightarrow> bool" where
  "cfg_ok c \<longleftrightarrow> length (cf_webapp_exts c) = MAX_EXTS \<and> cf_num_exts c \<le> MAX_EXTS \<and>
     (\<forall>i < cf_num_exts c. \<exists>e. cf_webapp_exts c ! i = Some e \<and> 2 \<le> length e \<and> hd e = CHR ''.'')"

text \<open>The configurations of a server: created, changed by directives, merged from a parent's and a child's.\<close>

inductive cfg_reach :: "pcc_cfg \<Rightarrow> bool" where
  Create: "cfg_reach (pcc_create_per_dir dirspec)"
| Command: "cfg_reach c \<Longrightarrow> pcc_command c d = Inr c' \<Longrightarrow> cfg_reach c'"
| Merge: "cfg_reach p \<Longrightarrow> cfg_reach n \<Longrightarrow> pcc_merge_per_dir p n = Inr c \<Longrightarrow> cfg_reach c"

lemma copy_exts_run:
  "length dst = MAX_EXTS \<Longrightarrow> length src = MAX_EXTS \<Longrightarrow> i + k \<le> MAX_EXTS \<Longrightarrow>
   \<exists>dst'. copy_exts i k src dst = Inr dst' \<and> length dst' = MAX_EXTS \<and>
     (\<forall>j < MAX_EXTS. dst' ! j = (if i \<le> j \<and> j < i + k then src ! j else dst ! j))"
proof (induction k arbitrary: i dst)
  case (Suc k)
  have "wr dst i (src ! i) = Inr (dst[i := src ! i])" "rd src i = Inr (src ! i)" using Suc.prems by (simp_all add: wr_def rd_def)
  moreover obtain dst' where "copy_exts (i + 1) k src (dst[i := src ! i]) = Inr dst'" "length dst' = MAX_EXTS"
    "\<forall>j < MAX_EXTS. dst' ! j = (if i + 1 \<le> j \<and> j < i + 1 + k then src ! j else dst[i := src ! i] ! j)"
    using Suc.IH [of "dst[i := src ! i]" "i + 1"] Suc.prems by auto
  ultimately show ?case using Suc.prems by (auto simp: nth_list_update Suc_le_eq le_less)
qed auto

lemma create_ok: "cfg_ok (pcc_create_per_dir d)"
  by (simp add: cfg_ok_def pcc_create_per_dir_def MAX_EXTS_def)

lemma merge_ok: "cfg_ok n \<Longrightarrow> returns cfg_ok (pcc_merge_per_dir p n)"
proof -
  assume n: "cfg_ok n"
  obtain e where "copy_exts 0 (cf_num_exts n) (cf_webapp_exts n) (replicate MAX_EXTS None) = Inr e" "length e = MAX_EXTS"
    "\<forall>j < MAX_EXTS. e ! j = (if j < cf_num_exts n then cf_webapp_exts n ! j else replicate MAX_EXTS None ! j)"
    using copy_exts_run [of "replicate MAX_EXTS None" "cf_webapp_exts n" 0 "cf_num_exts n"] n by (auto simp: cfg_ok_def)
  then show ?thesis using n
    by (cases "merge_include_path (cf_include_path n) (cf_include_path p)")
      (auto simp: pcc_merge_per_dir_def cfg_ok_def split_def Let_def)
qed

lemma command_ok: "cfg_ok c \<Longrightarrow> yields cfg_ok (pcc_command c d)"
proof (cases d)
  case (Exts e)
  assume c: "cfg_ok c"
  have "yields cfg_ok (do_webapp_exts c e)"
  proof (cases "length e < 2 \<or> at0 e \<noteq> CHR ''.'' \<or> cf_num_exts c = MAX_EXTS")
    case False
    have e: "2 \<le> length e" "hd e = CHR ''.''" using False by simp (use False in \<open>cases e; simp\<close>)
    define n where "n = (if cf_custom_exts c then cf_num_exts c else 0)"
    have n: "n < length (cf_webapp_exts c)" "n \<le> cf_num_exts c" "n < MAX_EXTS"
      using False c by (auto simp: n_def cfg_ok_def MAX_EXTS_def)
    have "do_webapp_exts c e = Inr (c\<lparr>cf_num_exts := n + 1, cf_custom_exts := True, cf_webapp_exts := (cf_webapp_exts c)[n := Some e]\<rparr>)"
      using False n by (auto simp: do_webapp_exts_def n_def wr_def Let_def)
    then show ?thesis using c n e by (auto simp: cfg_ok_def nth_list_update less_Suc_eq)
  qed (use c in \<open>auto simp: do_webapp_exts_def\<close>)
  then show ?thesis using Exts by simp
qed (auto simp: cfg_ok_def pcc_apache_value_handler_def pcc_apache_flag_handler_def mount_webapp_def Let_def split: option.splits)

lemma cfg_reach_ok: "cfg_reach c \<Longrightarrow> cfg_ok c"
proof (induction rule: cfg_reach.induct)
  case (Create d)
  then show ?case by (rule create_ok)
next
  case (Command c d c')
  then show ?case using command_ok [of c d] by simp
next
  case (Merge p n c)
  then show ?case using merge_ok [of n p] by simp
qed

lemma try_exts_run:
  "\<forall>j. i \<le> j \<and> j < i + k \<longrightarrow> j < length exts \<and> exts ! j \<noteq> None \<Longrightarrow>
   try_exts i k exts f = Inr (\<exists>j. i \<le> j \<and> j < i + k \<and> match_extension f (the (exts ! j)))"
proof (induction k arbitrary: i)
  case (Suc k)
  obtain e where e: "rd exts i = Inr (Some e)" "the (exts ! i) = e" using Suc.prems by (force simp: rd_def)
  have "try_exts (i + 1) k exts f = Inr (\<exists>j. i + 1 \<le> j \<and> j < i + 1 + k \<and> match_extension f (the (exts ! j)))"
    using Suc.IH [of "i + 1"] Suc.prems by simp
  moreover have "(\<exists>j. i \<le> j \<and> j < i + Suc k \<and> P j) \<longleftrightarrow> P i \<or> (\<exists>j. i + 1 \<le> j \<and> j < i + 1 + k \<and> P j)" for P
  proof
    assume "\<exists>j. i \<le> j \<and> j < i + Suc k \<and> P j"
    then obtain j where j: "i \<le> j" "j < i + Suc k" "P j" by blast
    then show "P i \<or> (\<exists>j. i + 1 \<le> j \<and> j < i + 1 + k \<and> P j)" by (cases "j = i") (auto intro!: exI [of _ j])
  next
    assume "P i \<or> (\<exists>j. i + 1 \<le> j \<and> j < i + 1 + k \<and> P j)"
    then show "\<exists>j. i \<le> j \<and> j < i + Suc k \<and> P j"
    proof
      assume "P i" then show ?thesis by (intro exI [of _ i]) simp
    next
      assume "\<exists>j. i + 1 \<le> j \<and> j < i + 1 + k \<and> P j"
      then obtain j where "i + 1 \<le> j" "j < i + 1 + k" "P j" by blast
      then show ?thesis by (intro exI [of _ j]) simp
    qed
  qed
  ultimately show ?case using e by simp
qed simp

lemma try_file_run:
  "cfg_ok c \<Longrightarrow> try_file_in_lib c f = Inr (\<exists>j < cf_num_exts c. match_extension f (the (cf_webapp_exts c ! j)))"
  using try_exts_run [of 0 "cf_num_exts c" "cf_webapp_exts c" f] by (fastforce simp: try_file_in_lib_def cfg_ok_def)

text \<open>
  C33. Every configuration that creating, directives and merging can produce is well-formed: the
  extensions in use are within the array, set, and start with a dot.  No directive fails on it,
  and neither does the search for the extension of a file name.
\<close>

theorem configurations_well_formed:
  assumes "cfg_reach c"
  shows "cfg_ok c \<and> yields cfg_reach (pcc_command c d) \<and> yields (\<lambda>b. True) (try_file_in_lib c f)"
proof -
  have ok: "cfg_ok c" using assms by (rule cfg_reach_ok)
  obtain c' where "pcc_command c d = Inr c'" using command_ok [OF ok, of d] by (auto elim: yieldsE)
  then show ?thesis using ok try_file_run [OF ok, of f] cfg_reach.Command [OF assms] by simp
qed

theorem configurations_well_formed_witness:
  "cfg_ok (pcc_create_per_dir None) \<and> yields cfg_reach (pcc_command (pcc_create_per_dir None) (Exts ''.html'')) \<and>
    yields (\<lambda>b. True) (try_file_in_lib (pcc_create_per_dir None) ''a.html'')"
  using configurations_well_formed [OF cfg_reach.Create] .

section \<open>Merging\<close>

definition path_too_long :: "pcc_cfg \<Rightarrow> pcc_cfg \<Rightarrow> bool" where
  "path_too_long p n \<longleftrightarrow>
     (case (cf_include_path n, cf_include_path p) of (Some a, Some b) \<Rightarrow> length a \<le> length b | _ \<Rightarrow> False)"

text \<open>The paths of both, the nearer one first.\<close>

definition joined_path :: "cstr option \<Rightarrow> cstr option \<Rightarrow> cstr option" where
  "joined_path n p = (case (n, p) of (Some a, Some b) \<Rightarrow> Some (a @ '':'' @ b) | (Some a, None) \<Rightarrow> Some a | (None, x) \<Rightarrow> x)"

lemma merge_include_path_both:
  "nul_free a \<Longrightarrow> nul_free b \<Longrightarrow> merge_include_path (Some a) (Some b) =
     (if length a \<le> length b then Inl OutOfBounds else Inr (Some (a @ '':'' @ b)))"
proof -
  assume ab: "nul_free a" "nul_free b"
  have "upto_nul ((a @ '':'' @ b) @ NUL # r) = a @ '':'' @ b" for r using ab upto_nul_append [of "a @ CHR '':'' # b" "NUL # r"] by simp
  then show ?thesis by (simp add: merge_include_path_def memcpy_at_def)
qed

lemma merge_include_path_eq:
  "\<forall>a. cf_include_path n = Some a \<longrightarrow> nul_free a \<Longrightarrow> \<forall>b. cf_include_path p = Some b \<longrightarrow> nul_free b \<Longrightarrow>
   merge_include_path (cf_include_path n) (cf_include_path p) =
     (if path_too_long p n then Inl OutOfBounds else Inr (joined_path (cf_include_path n) (cf_include_path p)))"
  by (cases "cf_include_path n"; cases "cf_include_path p")
    (auto simp: path_too_long_def joined_path_def merge_include_path_both, simp_all add: merge_include_path_def)

text \<open>
  C38. Merging two well-formed configurations goes wrong exactly when both set an include path and
  the nearer one is not longer than its parent's: then the block, which is allocated for twice
  the nearer path, is overrun.  Otherwise the merged configuration has the nearer location and
  extensions, and both paths, the nearer first.
\<close>

theorem merge_overruns_iff:
  assumes "cfg_ok n" "\<forall>a. cf_include_path n = Some a \<longrightarrow> nul_free a" "\<forall>b. cf_include_path p = Some b \<longrightarrow> nul_free b"
  shows "if path_too_long p n then pcc_merge_per_dir p n = Inl OutOfBounds
    else yields (\<lambda>c. cf_loc c = cf_loc n \<and> cf_num_exts c = cf_num_exts n \<and>
        take (cf_num_exts n) (cf_webapp_exts c) = take (cf_num_exts n) (cf_webapp_exts n) \<and>
        cf_include_path c = joined_path (cf_include_path n) (cf_include_path p)) (pcc_merge_per_dir p n)"
proof -
  obtain e where e: "copy_exts 0 (cf_num_exts n) (cf_webapp_exts n) (replicate MAX_EXTS None) = Inr e" "length e = MAX_EXTS"
    "\<forall>j < MAX_EXTS. e ! j = (if j < cf_num_exts n then cf_webapp_exts n ! j else replicate MAX_EXTS None ! j)"
    using copy_exts_run [of "replicate MAX_EXTS None" "cf_webapp_exts n" 0 "cf_num_exts n"] assms(1) by (auto simp: cfg_ok_def)
  have "take (cf_num_exts n) e = take (cf_num_exts n) (cf_webapp_exts n)"
    using e(2,3) assms(1) by (intro nth_equalityI) (auto simp: cfg_ok_def)
  then show ?thesis using e(1) merge_include_path_eq [OF assms(2,3)] by (simp add: pcc_merge_per_dir_def split_def Let_def)
qed

theorem merge_overruns_iff_witness:
  "pcc_merge_per_dir (pcc_apache_value_handler (pcc_create_per_dir None) ''include_path'' ''/usr/share/php'')
     (pcc_apache_value_handler (pcc_create_per_dir (Some ''/a'')) ''include_path'' ''/a'') = Inl OutOfBounds"
  using merge_overruns_iff [of "pcc_apache_value_handler (pcc_create_per_dir (Some ''/a'')) ''include_path'' ''/a''"
      "pcc_apache_value_handler (pcc_create_per_dir None) ''include_path'' ''/usr/share/php''"]
  by (simp add: pcc_apache_value_handler_def strcaseEQ_def pcc_create_per_dir_def path_too_long_def cfg_ok_def MAX_EXTS_def)

section \<open>Who serves a file\<close>

text \<open>The name ends with the extension, and has it nowhere before its end.\<close>

definition ends_first :: "cstr \<Rightarrow> cstr \<Rightarrow> bool" where
  "ends_first f e \<longleftrightarrow> (\<exists>b. b \<noteq> [] \<and> f = b @ e \<and> (\<forall>k < length b. take (length e) (drop k f) \<noteq> e))"

lemma match_extension_iff: "match_extension f e \<longleftrightarrow> ends_first f e"
proof
  assume m: "match_extension f e"
  define b where "b = take (length f - length e) f"
  have i: "length e < length f" "c_strstr f e = Some (length f - length e)" using m by (auto simp: match_extension_def)
  have "take (length e) (drop (length f - length e) f) = e" using c_strstr_Some [OF i(2)] by simp
  then have "f = b @ e" using i(1) by (simp add: b_def) (metis append_take_drop_id)
  moreover have "b \<noteq> []" "length b = length f - length e" using i(1) by (auto simp: b_def)
  ultimately show "ends_first f e" using c_strstr_before [OF i(2)] by (auto simp: ends_first_def intro!: exI [of _ b])
next
  assume "ends_first f e"
  then obtain b where b: "b \<noteq> []" "f = b @ e" "\<And>k. k < length b \<Longrightarrow> take (length e) (drop k f) \<noteq> e" by (auto simp: ends_first_def)
  have "c_strstr f e = Some (length b)" using b by (intro c_strstr_first) auto
  then show "match_extension f e" using b by (simp add: match_extension_def)
qed

definition exts_of :: "pcc_cfg \<Rightarrow> cstr set" where
  "exts_of c = {e. Some e \<in> set (take (cf_num_exts c) (cf_webapp_exts c))}"

lemma try_file_exts: "cfg_ok c \<Longrightarrow> try_file_in_lib c f = Inr (\<exists>e \<in> exts_of c. ends_first f e)"
proof -
  assume c: "cfg_ok c"
  have "(\<exists>j < cf_num_exts c. ends_first f (the (cf_webapp_exts c ! j))) \<longleftrightarrow> (\<exists>e \<in> exts_of c. ends_first f e)"
  proof
    assume "\<exists>j < cf_num_exts c. ends_first f (the (cf_webapp_exts c ! j))"
    then obtain j where j: "j < cf_num_exts c" "ends_first f (the (cf_webapp_exts c ! j))" by blast
    obtain e where "cf_webapp_exts c ! j = Some e" using c j(1) by (auto simp: cfg_ok_def)
    then show "\<exists>e \<in> exts_of c. ends_first f e"
      using j c by (intro bexI [of _ e]) (auto simp: exts_of_def cfg_ok_def in_set_conv_nth intro!: exI [of _ j])
  next
    assume "\<exists>e \<in> exts_of c. ends_first f e"
    then obtain e j where "ends_first f e" "j < cf_num_exts c" "cf_webapp_exts c ! j = Some e"
      by (auto simp: exts_of_def in_set_conv_nth)
    then show "\<exists>j < cf_num_exts c. ends_first f (the (cf_webapp_exts c ! j))" by (intro exI [of _ j]) simp
  qed
  then show ?thesis using try_file_run [OF c] by (simp add: match_extension_iff)
qed


definition demo_cfg :: pcc_cfg where
  "demo_cfg = mount_webapp (pcc_create_per_dir (Some ''/app/'')) ''app'' None"

lemma demo_cfg_ok: "cfg_ok demo_cfg"
  by (simp add: demo_cfg_def mount_webapp_def Let_def cfg_ok_def pcc_create_per_dir_def MAX_EXTS_def)

definition demo_runtime :: "('s, 'f) runtime" where
  "demo_runtime = \<lparr>rt_ini_num = (\<lambda>k. 0), rt_run_url = (\<lambda>r. OK), rt_run_webapp = (\<lambda>r l f d i. OK)\<rparr>"



section \<open>What a request can run\<close>

lemma parse_parsed: "returns q_parsed (ApacheRequest_parse fuel fu ax req)"
proof -
  have "returns (\<lambda>(r, rc). q_parsed r) (ApacheRequest___parse fuel fu ax req)"
    unfolding ApacheRequest___parse_def by (auto intro!: returns_bindI)
  then show ?thesis unfolding ApacheRequest_parse_def by (auto intro!: returns_bindI dest: returnsD)
qed

fun page_request :: "('s, 'f) event \<Rightarrow> ('s, 'f) areq option" where
  "page_request (RunUrl r) = Some r"
| "page_request (RunWebapp r lib f d i) = Some r"
| "page_request _ = None"

text \<open>The words of the query, as the library cuts them, are the query's parameters of the request.\<close>

definition has_query :: "('s, 'f) apache \<Rightarrow> cstr option \<Rightarrow> ('s, 'f) areq \<Rightarrow> bool" where
  "has_query ax args r \<longleftrightarrow>
     (case args of None \<Rightarrow> True | Some a \<Rightarrow> split_to_parms (ax_getword ax) a [] = Inr (ApacheRequest_query_params r))"

definition event_allowed :: "('s, 'f) apache \<Rightarrow> ('s, 'f) runtime \<Rightarrow> cstr option \<Rightarrow> ('s, 'f) event \<Rightarrow> bool" where
  "event_allowed ax rt args e \<longleftrightarrow>
     (case e of
        SetIncludePath p \<Rightarrow> True
      | ProcessUpload ups \<Rightarrow> ups \<noteq> [] \<and> rt_ini_num rt ''file_uploads'' \<noteq> 0
      | RunUrl r \<Rightarrow> q_status r = OK \<and> has_query ax args r
      | RunWebapp r lib f d i \<Rightarrow> q_status r = OK \<and> has_query ax args r)"

text \<open>
  C22. Whatever the client sends and the library does: the handler uses an upload only where the
  configuration lets files be uploaded; a page runs only for a request whose forms were parsed
  without an error, and with the words of the query as its query's parameters; it is the last
  thing the handler does, and without a page run the request is not reported as done.
\<close>

theorem handler_runs_parsed:
  "returns (\<lambda>(ret, evs). list_all (event_allowed ax rt args) evs \<and>
      list_all (\<lambda>e. page_request e = None) (butlast evs) \<and>
      (list_all (\<lambda>e. page_request e = None) evs \<longrightarrow> ret \<noteq> OK))
    (general_handler fuel fu ax rt cfg f (ApacheRequest_new r s args post headers) is_webapp)"
proof -
  define req where "req = (if rt_ini_num rt ''file_uploads'' = 0
      then (ApacheRequest_new r s args post headers)\<lparr>q_disable_uploads := True\<rparr>
      else ApacheRequest_new r s args post headers)\<lparr>q_post_max := rt_ini_num rt ''upload_max_filesize''\<rparr>"
  show ?thesis
  proof (cases "ApacheRequest_parse fuel fu ax req")
    case (Inl e)
    then show ?thesis by (simp add: general_handler_def req_def Let_def)
  next
    case (Inr q)
    have p: "q_parsed q" using parse_parsed [of fuel fu ax req] Inr by simp
    have "has_query ax args q"
      using query_params_kept [OF Inr] by (auto simp: req_def ApacheRequest_new_def has_query_def split: option.splits)
    moreover have "rt_ini_num rt ''file_uploads'' = 0 \<Longrightarrow> q_upload q = []"
      using parse_no_upload [of req fuel fu ax] Inr by (simp add: req_def ApacheRequest_new_def no_upload_def)
    ultimately show ?thesis using Inr p unfolding general_handler_def
      by (auto simp: req_def [symmetric] Let_def ApacheRequest_upload_def event_allowed_def
        split: option.splits intro!: returns_bindI)
  qed
qed

definition demo_handled :: "(char list list, unit) areq" where
  "demo_handled = demo_parsed\<lparr>q_disable_uploads := True, q_post_max := 0\<rparr>"

theorem handler_runs_parsed_witness:
  "event_allowed (demo_apache block_get) demo_runtime (Some (query_text [(''q'', ''1'')])) (RunUrl demo_handled) \<and>
    has_query (demo_apache block_get) (Some (query_text [(''q'', ''1'')])) demo_handled"
proof -
  have q: "split_to_parms demo_cut (query_text [(''q'', ''1'')]) [] = Inr [(''q'', ''1'')]"
    using split_query_lemma [OF demo_cuts, of "[(''q'', ''1'')]" "[]"] by (simp add: nul_free_def)
  have "general_handler 9 5120 (demo_apache block_get) demo_runtime demo_cfg ''/app/a.php''
      (ApacheRequest_new (0, []) () (Some (query_text [(''q'', ''1'')])) False []) False = Inr (OK, [RunUrl demo_handled])"
    using q by (simp add: general_handler_def demo_runtime_def demo_cfg_def mount_webapp_def pcc_create_per_dir_def Let_def
      ApacheRequest_parse_def ApacheRequest___parse_def ApacheRequest_parse_urlencoded_def ApacheRequest_upload_def
      ApacheRequest_new_def demo_apache_def demo_parsed_def demo_handled_def)
  then show ?thesis
    using handler_runs_parsed [of "demo_apache block_get" demo_runtime "Some (query_text [(''q'', ''1'')])" 9 5120 demo_cfg
        "''/app/a.php''" "(0, [])" "()" False "[]" False]
    by (simp add: event_allowed_def)
qed

end
