(* ===== verification/Apache1.thy ===== *)
theory Apache1
  imports ModPcc
begin

text \<open>
  What the files under \<open>webconnect/apache1\<close> do in their own way: the temporary file and the
  writing of an upload (\<open>apache_request.c\<close>), and in \<open>mod_pcc.c\<close> the fixup that chooses the handler,
  the mutex that lets one request run at a time and the start of the runtime.  The configuration
  and the parsing of requests are word for word those of \<open>webconnect/apache2\<close>, and their models
  are used here.
\<close>

section \<open>Uploads\<close>

text \<open>
  The attempts to open a new file: \<open>nm t\<close> is what \<open>tempnam\<close> gives when \<open>tries\<close> is \<open>t\<close>, \<open>op t\<close> the
  descriptor of \<open>ap_popenf\<close>.  A name that could not be opened is freed; it is not used after the
  loop, because the descriptor is negative then.
\<close>

fun tmp_loop :: "nat \<Rightarrow> (nat \<Rightarrow> cstr option) \<Rightarrow> (nat \<Rightarrow> int) \<Rightarrow> cstr option \<Rightarrow> int \<Rightarrow> nat \<times> cstr option \<times> int" where
  "tmp_loop 0 nm op name fd = (0, name, fd)"
| "tmp_loop (Suc tries) nm op name fd =
     (if tries = 0 then (tries, name, fd)
      else case nm tries of
          None \<Rightarrow> tmp_loop tries nm op None fd
        | Some n \<Rightarrow> if op tries \<ge> 0 then (tries, Some n, op tries) else tmp_loop tries nm op (Some n) (op tries))"

text \<open>The name of the file that is open, if there is one, and the names that were removed again.\<close>

definition tmpfile1 :: "(nat \<Rightarrow> cstr option) \<Rightarrow> (nat \<Rightarrow> int) \<Rightarrow> (int \<Rightarrow> bool) \<Rightarrow> fault + (cstr option \<times> cstr list)" where
  "tmpfile1 nm op fdopen =
     (let (tries, name, fd) = tmp_loop 100 nm op None 0 in
      if tries = 0 \<or> \<not> fdopen fd
      then if fd \<ge> 0 then (case name of None \<Rightarrow> Inl NullDeref | Some n \<Rightarrow> Inr (None, [n])) else Inr (None, [])
      else Inr (name, []))"

text \<open>A write is complete when the number of bytes says so; the status of the library is not looked at.\<close>

fun upload_loop1 :: "nat \<Rightarrow> nat \<Rightarrow> ('s, 'f) apache \<Rightarrow> 's mbuffer \<Rightarrow> 'f \<Rightarrow> int \<Rightarrow> fault + ('s mbuffer \<times> 'f \<times> int \<times> bool)" where
  "upload_loop1 0 fu ax mbuff f sz = Inl OutOfFuel"
| "upload_loop1 (Suc fuel) fu ax mbuff f sz =
     bind_res (multipart_buffer_read (ax_block ax) mbuff fu) (\<lambda>(mbuff, d).
     if d = [] then Inr (mbuff, f, sz, False)
     else let (f, st, n) = ax_write ax f d in
       if n \<noteq> length d then Inr (mbuff, f, sz, True) else upload_loop1 fuel fu ax mbuff f (sz + int n))"

section \<open>The module\<close>

definition WEBAPP_MAGIC_TYPE :: cstr where "WEBAPP_MAGIC_TYPE = ''application/x-pcc-webapp''"

text \<open>The fixup: its status and the content type of the request after it.\<close>

definition check_for_webapp1 ::
    "(cstr \<Rightarrow> stat_result) \<Rightarrow> pcc_cfg \<Rightarrow> cstr \<Rightarrow> cstr option \<Rightarrow> fault + (int \<times> cstr option)" where
  "check_for_webapp1 st cfg filename content_type =
     (if cf_webapp_lib cfg \<noteq> None
      then if content_type = Some WEBAPP_MAGIC_TYPE then Inr (DECLINED, content_type)
        else bind_res (try_file_in_lib cfg filename) (\<lambda>b.
          if b \<or> try_lib_index st cfg filename then Inr (OK, Some WEBAPP_MAGIC_TYPE) else Inr (DECLINED, content_type))
      else Inr (OK, content_type))"

datatype ('s, 'f) event1 = Acquire | Release | Initialize | Do "('s, 'f) event"

text \<open>The start of the runtime; the flag is the static variable \<open>initialized\<close>.\<close>

definition pcc_driver :: "bool \<Rightarrow> bool \<times> ('s, 'f) event1 list" where
  "pcc_driver initialized = (if \<not> initialized then (True, [Initialize]) else (initialized, []))"

definition general_handler1 ::
    "nat \<Rightarrow> nat \<Rightarrow> ('s, 'f) apache \<Rightarrow> ('s, 'f) runtime \<Rightarrow> pcc_cfg \<Rightarrow> cstr \<Rightarrow> ('s, 'f) areq \<Rightarrow> bool \<Rightarrow> bool \<Rightarrow>
      fault + (int \<times> bool \<times> ('s, 'f) event1 list)" where
  "general_handler1 fuel fu ax rt cfg filename req is_webapp initialized =
     (let evs = [Acquire] in
      if ax_setup ax \<noteq> OK then Inr (ax_setup ax, initialized, evs @ [Release])
      else let (initialized, started) = pcc_driver initialized;
          evs = evs @ started @ (case cf_include_path cfg of None \<Rightarrow> [] | Some p \<Rightarrow> [Do (SetIncludePath p)]);
          req = (if rt_ini_num rt ''file_uploads'' = 0 then req\<lparr>q_disable_uploads := True\<rparr> else req);
          req = req\<lparr>q_post_max := rt_ini_num rt ''upload_max_filesize''\<rparr> in
      bind_res (ApacheRequest_parse fuel fu ax req) (\<lambda>req.
      if q_status req \<noteq> OK then Inr (q_status req, initialized, evs @ [Release])
      else bind_res (ApacheRequest_upload fuel fu ax req) (\<lambda>(req, ups).
        let evs = evs @ (if ups \<noteq> [] then [Do (ProcessUpload ups)] else []) in
        if is_webapp
        then bind_res (location_length (cf_loc cfg)) (\<lambda>loc_len.
          if length filename < loc_len then Inr (DECLINED, initialized, evs @ [Release])
          else let rest = drop loc_len filename in
            Inr (rt_run_webapp rt req (cf_webapp_lib cfg) rest (cf_loc cfg) (cf_webapp_index cfg), initialized,
              evs @ [Do (RunWebapp req (cf_webapp_lib cfg) rest (cf_loc cfg) (cf_webapp_index cfg)), Release]))
        else Inr (rt_run_url rt req, initialized, evs @ [Do (RunUrl req), Release]))))"

text \<open>The table of handlers: whether the handler of a content type runs a web application.\<close>

definition pcc_handlers1 :: "cstr \<Rightarrow> bool option" where
  "pcc_handlers1 t = (if t = PCC_MAGIC_TYPE then Some False else if t = WEBAPP_MAGIC_TYPE then Some True else None)"

text \<open>One request: the fixup, then the handler of its content type; Apache goes to the next module without one.\<close>

definition serve1 ::
    "nat \<Rightarrow> nat \<Rightarrow> ('s, 'f) apache \<Rightarrow> ('s, 'f) runtime \<Rightarrow> (cstr \<Rightarrow> stat_result) \<Rightarrow> pcc_cfg \<Rightarrow> cstr option \<Rightarrow> cstr \<Rightarrow> ('s, 'f) areq \<Rightarrow>
      bool \<Rightarrow> fault + (int \<times> bool \<times> ('s, 'f) event1 list)" where
  "serve1 fuel fu ax rt st cfg content_type filename req initialized =
     bind_res (check_for_webapp1 st cfg filename content_type) (\<lambda>(status, content_type).
     case Option.bind content_type pcc_handlers1 of
       None \<Rightarrow> Inr (DECLINED, initialized, [])
     | Some w \<Rightarrow> general_handler1 fuel fu ax rt cfg filename req w initialized)"

text \<open>A process that serves requests one after another; each has its own library state and configuration.\<close>

record ('s, 'f) arrival =
  ar_ax :: "('s, 'f) apache"
  ar_cfg :: pcc_cfg
  ar_type :: "cstr option"
  ar_file :: cstr
  ar_req :: "('s, 'f) areq"

fun serve_all ::
    "nat \<Rightarrow> nat \<Rightarrow> ('s, 'f) runtime \<Rightarrow> (cstr \<Rightarrow> stat_result) \<Rightarrow> bool \<Rightarrow> ('s, 'f) arrival list \<Rightarrow>
      fault + (int list \<times> bool \<times> ('s, 'f) event1 list)" where
  "serve_all fuel fu rt st initialized [] = Inr ([], initialized, [])"
| "serve_all fuel fu rt st initialized (a # as) =
     bind_res (serve1 fuel fu (ar_ax a) rt st (ar_cfg a) (ar_type a) (ar_file a) (ar_req a) initialized) (\<lambda>(ret, initialized, evs).
     bind_res (serve_all fuel fu rt st initialized as) (\<lambda>(rets, initialized, evs').
     Inr (ret # rets, initialized, evs @ evs')))"

section \<open>The upload functions\<close>

lemma tmp_loop_cases:
  assumes "tmp_loop (Suc k) nm op name fd = (t, n, d)"
  shows "0 < t \<and> t \<le> k \<and> n = nm t \<and> n \<noteq> None \<and> d = op t \<and> 0 \<le> d \<or>
    t = 0 \<and> (\<forall>s. 0 < s \<and> s \<le> k \<longrightarrow> nm s = None \<or> op s < 0) \<and>
      (if \<forall>s. 0 < s \<and> s \<le> k \<longrightarrow> nm s = None then d = fd \<and> (n = name \<or> n = None) else d < 0)"
  using assms
proof (induction k arbitrary: name fd)
  case (Suc k)
  have split: "(\<forall>s. 0 < s \<and> s \<le> Suc k \<longrightarrow> P s) \<longleftrightarrow> (\<forall>s. 0 < s \<and> s \<le> k \<longrightarrow> P s) \<and> P (Suc k)" for P
    by (auto simp: le_Suc_eq)
  show ?case
  proof (cases "nm (Suc k)")
    case None
    then have "tmp_loop (Suc k) nm op None fd = (t, n, d)" using Suc.prems by simp
    from Suc.IH [OF this] show ?thesis unfolding split by (auto simp: None split: if_splits)
  next
    case (Some m)
    show ?thesis
    proof (cases "0 \<le> op (Suc k)")
      case True
      then show ?thesis using Suc.prems by (auto simp: Some)
    next
      case False
      then have "tmp_loop (Suc k) nm op (Some m) (op (Suc k)) = (t, n, d)" using Suc.prems Some by simp
      from Suc.IH [OF this] show ?thesis using False unfolding split by (auto simp: Some split: if_splits)
    qed
  qed
qed auto

text \<open>
  A file is given back only if it was created and opened as a stream; a file that was created and
  is not given back is removed; and the function removes a file without a name exactly when no
  name could be made in all attempts, whatever the system says of descriptor 0.
\<close>

theorem tmpfile1_result:
  "tmpfile1 nm op fdopen = Inl e \<longleftrightarrow> e = NullDeref \<and> (\<forall>t. 0 < t \<and> t < 100 \<longrightarrow> nm t = None)"
  "tmpfile1 nm op fdopen = Inr (Some n, rm) \<Longrightarrow> rm = [] \<and> (\<exists>t. 0 < t \<and> t < 100 \<and> nm t = Some n \<and> 0 \<le> op t \<and> fdopen (op t))"
  "tmpfile1 nm op fdopen = Inr (None, rm) \<Longrightarrow>
     rm = [] \<and> (\<forall>t. 0 < t \<and> t < 100 \<longrightarrow> nm t = None \<or> op t < 0) \<or>
     (\<exists>n t. rm = [n] \<and> 0 < t \<and> t < 100 \<and> nm t = Some n \<and> 0 \<le> op t \<and> \<not> fdopen (op t))"
proof -
  obtain t n d where r: "tmp_loop (Suc 99) nm op None 0 = (t, n, d)" by (cases "tmp_loop (Suc 99) nm op None 0")
  note c = tmp_loop_cases [OF r]
  have lt: "s \<le> 99 \<longleftrightarrow> s < 100" for s :: nat by auto
  have d: "tmpfile1 nm op fdopen = (if t = 0 \<or> \<not> fdopen d
      then if d \<ge> 0 then (case n of None \<Rightarrow> Inl NullDeref | Some n \<Rightarrow> Inr (None, [n])) else Inr (None, []) else Inr (n, []))"
    using r by (simp add: tmpfile1_def del: tmp_loop.simps)
  show "tmpfile1 nm op fdopen = Inl e \<longleftrightarrow> e = NullDeref \<and> (\<forall>t. 0 < t \<and> t < 100 \<longrightarrow> nm t = None)"
    using c unfolding d lt by (auto split: if_splits option.splits)
  show "tmpfile1 nm op fdopen = Inr (Some n, rm) \<Longrightarrow> rm = [] \<and> (\<exists>t. 0 < t \<and> t < 100 \<and> nm t = Some n \<and> 0 \<le> op t \<and> fdopen (op t))" for n
    using c unfolding d lt by (auto split: if_splits option.splits)
  show "tmpfile1 nm op fdopen = Inr (None, rm) \<Longrightarrow>
     rm = [] \<and> (\<forall>t. 0 < t \<and> t < 100 \<longrightarrow> nm t = None \<or> op t < 0) \<or>
     (\<exists>n t. rm = [n] \<and> 0 < t \<and> t < 100 \<and> nm t = Some n \<and> 0 \<le> op t \<and> \<not> fdopen (op t))"
    using c unfolding d lt by (auto split: if_splits option.splits)
qed

text \<open>An upload is written as under \<open>apache2\<close>, by a library whose status tells a short write.\<close>

definition by_count :: "('s, 'f) apache \<Rightarrow> ('s, 'f) apache" where
  "by_count ax = ax\<lparr>ax_write := \<lambda>f d. let (f, st, n) = ax_write ax f d in (f, if n = length d then 0 else 1, n)\<rparr>"

theorem upload_loop1_eq: "upload_loop1 fuel fu ax mbuff f sz = upload_loop fuel fu (by_count ax) mbuff f sz"
proof (induction fuel arbitrary: mbuff f sz)
  case (Suc fuel)
  have "ax_block (by_count ax) = ax_block ax" by (simp add: by_count_def)
  then show ?case using Suc.IH
    by (cases "multipart_buffer_read (ax_block ax) mbuff fu") (auto simp: by_count_def split_def Let_def)
qed simp

section \<open>One request at a time\<close>

text \<open>
  The discipline of the module: the mutex is taken when it is free and given back when it is held,
  the runtime is started once, and a request touches the runtime only under the mutex and after
  the start.
\<close>

fun disciplined :: "bool \<Rightarrow> bool \<Rightarrow> ('s, 'f) event1 list \<Rightarrow> (bool \<times> bool) option" where
  "disciplined held started [] = Some (held, started)"
| "disciplined held started (Acquire # evs) = (if held then None else disciplined True started evs)"
| "disciplined held started (Release # evs) = (if held then disciplined False started evs else None)"
| "disciplined held started (Initialize # evs) = (if held \<and> \<not> started then disciplined held True evs else None)"
| "disciplined held started (Do e # evs) = (if held \<and> started then disciplined held started evs else None)"

lemma disciplined_append:
  "disciplined h s (xs @ ys) = Option.bind (disciplined h s xs) (\<lambda>(h, s). disciplined h s ys)"
  by (induction h s xs rule: disciplined.induct) auto

lemma general_handler1_disciplined:
  "returns (\<lambda>(ret, ini, evs). disciplined False initialized evs = Some (False, ini))
     (general_handler1 fuel fu ax rt cfg f req w initialized)"
  unfolding general_handler1_def
  by (auto simp: Let_def pcc_driver_def disciplined_append split: option.splits if_splits intro!: returns_bindI)

lemma serve1_disciplined:
  "returns (\<lambda>(ret, ini, evs). disciplined False initialized evs = Some (False, ini))
     (serve1 fuel fu ax rt st cfg ct f req initialized)"
  unfolding serve1_def
  by (auto split: option.splits intro!: returns_bindI general_handler1_disciplined)

lemma serve_all_disciplined:
  "returns (\<lambda>(rets, ini, evs). disciplined False initialized evs = Some (False, ini) \<and> length rets = length as)
     (serve_all fuel fu rt st initialized as)"
proof (induction "as" arbitrary: initialized)
  case (Cons a "as")
  show ?case unfolding serve_all.simps
  proof (rule returns_bindI)
    fix r assume "serve1 fuel fu (ar_ax a) rt st (ar_cfg a) (ar_type a) (ar_file a) (ar_req a) initialized = Inr r"
    then have r: "disciplined False initialized (snd (snd r)) = Some (False, fst (snd r))"
      using serve1_disciplined [of initialized fuel fu "ar_ax a" rt st "ar_cfg a" "ar_type a" "ar_file a" "ar_req a"] by (auto simp: split_def)
    have "returns (\<lambda>(rets, ini, evs). disciplined False (fst (snd r)) evs = Some (False, ini) \<and> length rets = length as)
        (serve_all fuel fu rt st (fst (snd r)) as)" by (rule Cons.IH)
    with r show "returns (\<lambda>(rets, ini, evs). disciplined False initialized evs = Some (False, ini) \<and> length rets = length (a # as))
       ((\<lambda>(ret, initialized, evs). bind_res (serve_all fuel fu rt st initialized as) (\<lambda>(rets, initialized, evs').
         Inr (ret # rets, initialized, evs @ evs'))) r)"
      by (cases "serve_all fuel fu rt st (fst (snd r)) as") (auto simp: split_def disciplined_append)
  qed
qed simp

lemma disciplined_starts:
  "disciplined h s evs = Some (h', s') \<Longrightarrow>
    length (filter (\<lambda>e. e = Initialize) evs) = (if s' \<and> \<not> s then 1 else 0) \<and> (s \<longrightarrow> s')"
  by (induction h s evs rule: disciplined.induct) (auto split: if_splits)


section \<open>The same answers as the module of Apache 2\<close>

lemma general_handler1_eq:
  "ax_setup ax = OK \<Longrightarrow> general_handler1 fuel fu ax rt cfg f req w initialized =
    bind_res (general_handler fuel fu ax rt cfg f req w) (\<lambda>(ret, evs).
      Inr (ret, True, [Acquire] @ snd (pcc_driver initialized) @ map Do evs @ [Release]))"
proof -
  assume ax: "ax_setup ax = OK"
  define r where "r = (if rt_ini_num rt ''file_uploads'' = 0 then req\<lparr>q_disable_uploads := True\<rparr> else req)
    \<lparr>q_post_max := rt_ini_num rt ''upload_max_filesize''\<rparr>"
  show ?thesis
  proof (cases "ApacheRequest_parse fuel fu ax r")
    case (Inr q)
    then show ?thesis using ax unfolding general_handler1_def general_handler_def Let_def r_def [symmetric]
      by (cases "ApacheRequest_upload fuel fu ax q"; cases "location_length (cf_loc cfg)")
        (auto simp: pcc_driver_def split: option.splits)
  qed (use ax in \<open>simp add: general_handler1_def general_handler_def Let_def r_def [symmetric] pcc_driver_def split: option.split\<close>)
qed

fun runtime_event :: "('s, 'f) event1 \<Rightarrow> ('s, 'f) event list" where
  "runtime_event (Do e) = [e]"
| "runtime_event _ = []"

lemma runtime_event_Do: "concat (map (runtime_event \<circ> Do) evs) = evs"
  by (induction evs) simp_all

text \<open>
  A request that is not already marked as one of a web application is answered by both modules
  alike: the same status, and the same settings, uploads and page in the same order.
\<close>

theorem serve1_same:
  assumes "ax_setup ax = OK" "t \<noteq> WEBAPP_MAGIC_TYPE"
  shows "bind_res (serve1 fuel fu ax rt st cfg (Some t) f req initialized) (\<lambda>(ret, ini, evs). Inr (ret, concat (map runtime_event evs))) =
    pcc_handler fuel fu ax rt st cfg t f req"
proof -
  have g: "bind_res (general_handler1 fuel fu ax rt cfg f req w initialized) (\<lambda>(ret, ini, evs). Inr (ret, concat (map runtime_event evs))) =
      general_handler fuel fu ax rt cfg f req w" for w
    using assms(1) by (cases "general_handler fuel fu ax rt cfg f req w") (auto simp: general_handler1_eq pcc_driver_def runtime_event_Do)
  have w: "pcc_handlers1 WEBAPP_MAGIC_TYPE = Some True" "pcc_handlers1 t = (if t = PCC_MAGIC_TYPE then Some False else None)"
    using assms(2) by (simp_all add: pcc_handlers1_def PCC_MAGIC_TYPE_def WEBAPP_MAGIC_TYPE_def)
  show ?thesis
  proof (cases "try_file_in_lib cfg f")
    case (Inl e)
    then show ?thesis using assms(2) g w by (auto simp: serve1_def check_for_webapp1_def pcc_handler_def check_for_webapp_def)
  next
    case (Inr b)
    then show ?thesis using assms(2) g w by (auto simp: serve1_def check_for_webapp1_def pcc_handler_def check_for_webapp_def)
  qed
qed

end
