(* ===== verification/CFiles.thy ===== *)
theory CFiles
  imports Prelude
begin

text \<open>
  Reading lines and the output of commands: \<open>fngets\<close> and \<open>php_fgets\<close> of
  \<open>runtime/ext/standard/c-files.c\<close>, \<open>php_c_system\<close> of \<open>runtime/ext/standard/php-system.c\<close>.
  Streams are their remaining bytes; the allocators of the C library and of the collector are
  parameters.
\<close>

section \<open>Streams and blocks\<close>

text \<open>What follows the bytes is the end of the file or, with \<open>fs_fail\<close>, a read error.\<close>

record fstream =
  fs_bytes :: "char list"
  fs_fail :: bool
  fs_eof :: bool

definition c_getc :: "fstream \<Rightarrow> char option \<times> fstream" where
  "c_getc st =
     (case fs_bytes st of
        [] \<Rightarrow> (None, st\<lparr>fs_eof := fs_eof st \<or> \<not> fs_fail st\<rparr>)
      | c # cs \<Rightarrow> (Some c, st\<lparr>fs_bytes := cs\<rparr>))"

text \<open>\<open>mem n\<close> is a fresh block of \<open>n\<close> bytes of any content, or nothing; \<open>realloc\<close> keeps what was there.\<close>

type_synonym allocator = "nat \<Rightarrow> char list option"

definition mem_ok :: "allocator \<Rightarrow> bool" where
  "mem_ok mem \<longleftrightarrow> (\<forall>n. \<exists>b. mem n = Some b \<and> length b = n)"

definition c_realloc :: "allocator \<Rightarrow> char list \<Rightarrow> nat \<Rightarrow> char list option" where
  "c_realloc mem old n = map_option (\<lambda>b. take n old @ drop (length old) b) (mem n)"

definition c_strlen :: "char list \<Rightarrow> nat \<Rightarrow> fault + nat" where
  "c_strlen buf off = (if NUL \<in> set (drop off buf) then Inr (length (upto_nul (drop off buf))) else Inl OutOfBounds)"

section \<open>Reading a line\<close>

definition BUFFERSIZE :: nat where "BUFFERSIZE = 8192"

fun fngets_loop :: "nat \<Rightarrow> char list \<Rightarrow> nat \<Rightarrow> char option \<Rightarrow> fstream \<Rightarrow> fault + (char list \<times> nat \<times> char option \<times> fstream)" where
  "fngets_loop 0 s p c st = Inr (s, p, c, st)"
| "fngets_loop (Suc k) s p c st =
     (case c_getc st of
        (None, st) \<Rightarrow> Inr (s, p, None, st)
      | (Some ch, st) \<Rightarrow> bind_res (wr s p ch) (\<lambda>s.
          if ch = LF then Inr (s, p + 1, Some ch, st) else fngets_loop k s (p + 1) (Some ch) st))"

text \<open>The line goes into \<open>s\<close> from \<open>off\<close> on; the number of bytes, or -1.\<close>

definition fngets :: "char list \<Rightarrow> nat \<Rightarrow> int \<Rightarrow> fstream \<Rightarrow> fault + (char list \<times> int \<times> fstream)" where
  "fngets s off size' st =
     bind_res (fngets_loop (nat (size' - 1)) s off None st) (\<lambda>(s, p, c, st).
     bind_res (wr s p NUL) (\<lambda>s.
     Inr (s, if c = None \<and> (\<not> fs_eof st \<or> p = off) then - 1 else int (p - off), st)))"

function big_loop :: "allocator \<Rightarrow> char list \<Rightarrow> nat \<Rightarrow> int \<Rightarrow> fstream \<Rightarrow> fault + (cstr option \<times> fstream)" where
  "big_loop mem bigbuf actually_read limit st =
     (case c_realloc mem bigbuf (actually_read + BUFFERSIZE) of
        None \<Rightarrow> Inr (None, st)
      | Some bigbuf \<Rightarrow>
          bind_res (fngets bigbuf actually_read (min (int BUFFERSIZE) limit) st) (\<lambda>(bigbuf, n, st).
          if n = - 1 then Inr (if 0 < actually_read then Some (take actually_read bigbuf) else None, st)
          else bind_res (c_strlen bigbuf actually_read) (\<lambda>len.
            bind_res (if len < BUFFERSIZE - 1 then Inr True
                else bind_res (rd bigbuf (actually_read + len - 1)) (\<lambda>c. Inr (c = LF))) (\<lambda>finished.
            if \<not> finished \<and> 0 \<le> limit - int len then big_loop mem bigbuf (actually_read + len) (limit - int len) st
            else Inr (Some (take (actually_read + len) bigbuf), st)))))"
  by pat_completeness auto
termination
  by (relation "measure (\<lambda>(mem, b, a, limit, st). nat (limit + 1))") (auto simp: BUFFERSIZE_def split: if_splits)

declare big_loop.simps [simp del]

text \<open>\<open>static_buf\<close> is the buffer of the function, absent before the first call.\<close>

definition php_fgets ::
    "allocator \<Rightarrow> char list option \<Rightarrow> fstream \<Rightarrow> int \<Rightarrow> fault + (cstr option \<times> char list option \<times> fstream)" where
  "php_fgets mem static_buf st limit =
     (case (case static_buf of None \<Rightarrow> mem BUFFERSIZE | Some b \<Rightarrow> Some b) of
        None \<Rightarrow> Inr (None, None, st)
      | Some b \<Rightarrow>
          if limit \<le> int BUFFERSIZE
          then bind_res (fngets b 0 limit st) (\<lambda>(b, n, st).
            if n = - 1 then Inr (None, Some b, st)
            else bind_res (c_strlen b 0) (\<lambda>len. Inr (Some (take len b), Some b, st)))
          else bind_res (big_loop mem [] 0 limit st) (\<lambda>(r, st). Inr (r, Some b, st)))"

section \<open>The output of a command\<close>

text \<open>
  \<open>fread\<close> gives as much as there is room for, less only at the end.  The pointers into the block
  of the collector are offsets; a block that is outgrown is copied into a larger one.
\<close>

definition INCREMENT :: nat where "INCREMENT = 1024"

definition grow_block :: "(nat \<Rightarrow> char list) \<Rightarrow> char list \<Rightarrow> nat \<Rightarrow> nat \<Rightarrow> fault + char list" where
  "grow_block gc buf currentsize extra =
     (if currentsize \<le> length buf then memcpy_at (gc (currentsize + extra)) 0 (take currentsize buf) else Inl OutOfBounds)"

function read_pipe :: "(nat \<Rightarrow> char list) \<Rightarrow> char list \<Rightarrow> nat \<Rightarrow> nat \<Rightarrow> char list \<Rightarrow> fault + (char list \<times> nat \<times> nat)" where
  "read_pipe gc buf currentsize pos p =
     (let chunk = take (currentsize - pos) p in
      if chunk = [] then Inr (buf, currentsize, pos)
      else bind_res (memcpy_at buf pos chunk) (\<lambda>buf.
        bind_res (if pos + length chunk = currentsize
            then bind_res (grow_block gc buf currentsize INCREMENT) (\<lambda>b. Inr (b, currentsize + INCREMENT))
            else Inr (buf, currentsize)) (\<lambda>(buf, currentsize).
          read_pipe gc buf currentsize (pos + length chunk) (drop (length chunk) p))))"
  by pat_completeness auto
termination by (relation "measure (\<lambda>(gc, b, c, pos, p). length p)") (auto intro!: diff_less)

declare read_pipe.simps [simp del]

text \<open>\<open>run\<close> is the pipe: what the command prints and what \<open>pclose\<close> returns.\<close>

definition php_c_system :: "(nat \<Rightarrow> char list) \<Rightarrow> (char list \<times> int) option \<Rightarrow> fault + (cstr \<times> int) option" where
  "php_c_system gc run =
     (case run of
        None \<Rightarrow> Inr None
      | Some (out, status) \<Rightarrow>
          bind_res (read_pipe gc (gc INCREMENT) INCREMENT 0 out) (\<lambda>(buf, currentsize, pos).
          bind_res (if pos = currentsize then grow_block gc buf currentsize 1 else Inr buf) (\<lambda>buf.
          bind_res (wr buf pos NUL) (\<lambda>buf.
          bind_res (c_strlen buf 0) (\<lambda>n. Inr (Some (take n buf, status)))))))"

section \<open>The line a reader sees\<close>

text \<open>At most \<open>n\<close> bytes, up to and with the first line feed; whether the end came before.\<close>

fun take_line :: "nat \<Rightarrow> char list \<Rightarrow> char list" where
  "take_line 0 xs = []"
| "take_line (Suc n) [] = []"
| "take_line (Suc n) (c # xs) = c # (if c = LF then [] else take_line n xs)"

fun hits_end :: "nat \<Rightarrow> char list \<Rightarrow> bool" where
  "hits_end 0 xs = False"
| "hits_end (Suc n) [] = True"
| "hits_end (Suc n) (c # xs) = (if c = LF then False else hits_end n xs)"

lemma take_line_prefix: "take (length (take_line n xs)) xs = take_line n xs"
  by (induction n xs rule: take_line.induct) auto

lemma take_line_length: "length (take_line n xs) \<le> n"
  by (induction n xs rule: take_line.induct) auto

lemma take_line_le: "length (take_line n xs) \<le> length xs"
  by (induction n xs rule: take_line.induct) auto

lemma take_line_nul_free: "nul_free xs \<Longrightarrow> nul_free (take_line n xs)"
  by (induction n xs rule: take_line.induct) auto

lemma take_line_Nil: "take_line n xs = [] \<longleftrightarrow> n = 0 \<or> xs = []"
  by (cases n; cases xs) auto

lemma hits_end_Nil: "hits_end n [] \<longleftrightarrow> 0 < n"
  by (cases n) auto

lemma hits_end_all: "hits_end n xs \<Longrightarrow> take_line n xs = xs \<and> length xs < n \<and> LF \<notin> set xs"
  by (induction n xs rule: take_line.induct) (auto split: if_splits)

text \<open>A piece that fills its room without a line feed is followed by the rest of the line.\<close>

lemma take_line_more:
  "length (take_line n xs) = n \<Longrightarrow> LF \<notin> set (take_line n xs) \<Longrightarrow>
   take_line (n + m) xs = take_line n xs @ take_line m (drop n xs) \<and> hits_end (n + m) xs = hits_end m (drop n xs)"
proof (induction n xs rule: take_line.induct)
  case (3 n c xs)
  then show ?case by (auto split: if_splits)
qed auto

text \<open>A piece that ended early is the whole line.\<close>

lemma take_line_done:
  "length (take_line n xs) < n \<or> LF \<in> set (take_line n xs) \<Longrightarrow>
   take_line (n + m) xs = take_line n xs \<and> hits_end (n + m) xs = hits_end n xs"
proof (induction n xs rule: take_line.induct)
  case (2 n)
  then show ?case by (cases "Suc n + m") auto
next
  case (3 n c xs)
  then show ?case by (auto split: if_splits)
qed auto

lemma take_line_LF_last: "LF \<in> set (take_line n xs) \<longleftrightarrow> take_line n xs \<noteq> [] \<and> last (take_line n xs) = LF"
  by (induction n xs rule: take_line.induct) (auto split: if_splits)

definition after_line :: "nat \<Rightarrow> fstream \<Rightarrow> fstream" where
  "after_line n st = st\<lparr>fs_bytes := drop (length (take_line n (fs_bytes st))) (fs_bytes st),
     fs_eof := fs_eof st \<or> (hits_end n (fs_bytes st) \<and> \<not> fs_fail st)\<rparr>"

lemma fngets_loop_run:
  "p + k \<le> length s \<Longrightarrow> fngets_loop k s p c st =
     (let l = take_line k (fs_bytes st) in
      Inr (take p s @ l @ drop (p + length l) s, p + length l,
        if hits_end k (fs_bytes st) then None else if l = [] then c else Some (last l), after_line k st))"
proof (induction k arbitrary: s p c st)
  case 0
  then show ?case by (simp add: Let_def after_line_def)
next
  case (Suc k)
  show ?case
  proof (cases "fs_bytes st")
    case Nil
    then show ?thesis by (simp add: Let_def c_getc_def after_line_def)
  next
    case (Cons x xs)
    have w: "wr s p x = Inr (s[p := x])" using Suc.prems by (simp add: wr_def)
    have up: "take (Suc p) (s[p := x]) = take p s @ [x]" using Suc.prems by (simp add: take_Suc_conv_app_nth)
    show ?thesis
    proof (cases "x = LF")
      case True
      then show ?thesis using Cons w up Suc.prems
        by (simp add: Let_def c_getc_def after_line_def upd_conv_take_nth_drop)
    next
      case False
      then show ?thesis using Cons w up Suc.prems Suc.IH [of "p + 1" "s[p := x]" "Some x" "st\<lparr>fs_bytes := xs\<rparr>"]
        by (simp add: Let_def c_getc_def after_line_def)
    qed
  qed
qed

text \<open>
  \<open>fngets\<close> puts the line and a terminator into its buffer, and answers -1 for an empty reading
  and for one that a read error ended.
\<close>

lemma fngets_run:
  assumes "off + nat (size' - 1) < length s"
  shows "fngets s off size' st =
    (let k = nat (size' - 1); l = take_line k (fs_bytes st); st' = after_line k st in
     Inr (take off s @ l @ NUL # drop (off + length l + 1) s,
       if (hits_end k (fs_bytes st) \<or> l = []) \<and> (\<not> fs_eof st' \<or> l = []) then - 1 else int (length l), st'))"
proof -
  define k where "k = nat (size' - 1)"
  define l where "l = take_line k (fs_bytes st)"
  have len: "off + length l < length s" using assms take_line_length [of k "fs_bytes st"] by (simp add: k_def l_def)
  have "wr (take off s @ l @ drop (off + length l) s) (off + length l) NUL =
      Inr (take off s @ l @ NUL # drop (off + length l + 1) s)"
    using len by (simp add: wr_def upd_conv_take_nth_drop)
  then show ?thesis using fngets_loop_run [of off k s None st] assms
    by (auto simp: fngets_def Let_def k_def [symmetric] l_def [symmetric])
qed


lemma strlen_line: "c_strlen (l @ NUL # r) 0 = Inr (length (upto_nul l))" "take (length (upto_nul l)) (l @ r) = upto_nul l"
proof -
  show "c_strlen (l @ NUL # r) 0 = Inr (length (upto_nul l))" by (simp add: c_strlen_def upto_nul_cut)
  have "length (upto_nul l) \<le> length l" by (simp add: upto_nul_def length_takeWhile_le)
  then show "take (length (upto_nul l)) (l @ r) = upto_nul l" by simp
qed

lemma fngets_ok:
  assumes "off + nat (size' - 1) < length s" "\<not> fs_fail st" "k = nat (size' - 1)" "l = take_line k (fs_bytes st)"
  shows "fngets s off size' st = Inr (take off s @ l @ NUL # drop (off + length l + 1) s,
    if l = [] then - 1 else int (length l), after_line k st)"
  using fngets_run [OF assms(1), of st] assms(2-4) by (cases "l = []") (simp_all add: Let_def after_line_def)

lemma c_strlen_run: "length a = off \<Longrightarrow> nul_free l \<Longrightarrow> c_strlen (a @ l @ NUL # r) off = Inr (length l)"
  by (simp add: c_strlen_def upto_nul_append) (simp add: upto_nul_def)

lemma after_line_done:
  "length (take_line n (fs_bytes st)) < n \<or> LF \<in> set (take_line n (fs_bytes st)) \<Longrightarrow> after_line (n + m) st = after_line n st"
  using take_line_done [of n "fs_bytes st" m] by (simp add: after_line_def)

lemma after_line_more:
  "length (take_line n (fs_bytes st)) = n \<Longrightarrow> LF \<notin> set (take_line n (fs_bytes st)) \<Longrightarrow>
   after_line m (after_line n st) = after_line (n + m) st"
  using take_line_more [of n "fs_bytes st" m] hits_end_all [of n "fs_bytes st"]
  by (cases "hits_end n (fs_bytes st)") (auto simp: after_line_def add.commute)

lemma big_loop_run:
  "mem_ok mem \<Longrightarrow> nul_free (fs_bytes st) \<Longrightarrow> \<not> fs_fail st \<Longrightarrow> 1 \<le> limit \<Longrightarrow> ar \<le> length bigbuf \<Longrightarrow>
   length bigbuf \<le> ar + BUFFERSIZE \<Longrightarrow>
   big_loop mem bigbuf ar limit st =
     (let t = take ar bigbuf @ take_line (nat (limit - 1)) (fs_bytes st) in
      Inr (if t = [] then None else Some t, after_line (nat (limit - 1)) st))"
proof (induction "nat limit" arbitrary: bigbuf ar limit st rule: less_induct)
  case less
  define K where "K = BUFFERSIZE - 1"
  define k where "k = nat (min (int BUFFERSIZE) limit - 1)"
  define l where "l = take_line k (fs_bytes st)"
  obtain b where b: "mem (ar + BUFFERSIZE) = Some b" "length b = ar + BUFFERSIZE"
    using less.prems(1) by (auto simp: mem_ok_def)
  define big where "big = take (ar + BUFFERSIZE) bigbuf @ drop (length bigbuf) b"
  have K: "0 < K" "BUFFERSIZE = K + 1" by (simp_all add: K_def BUFFERSIZE_def)
  have big: "c_realloc mem bigbuf (ar + BUFFERSIZE) = Some big" "length big = ar + BUFFERSIZE" "take ar big = take ar bigbuf"
    using b less.prems(5,6) by (auto simp: c_realloc_def big_def)
  have kK: "k \<le> K" "k = (if limit \<le> int K then nat (limit - 1) else K)" using K less.prems(4) by (auto simp: k_def)
  have l: "nul_free l" "length l \<le> k" using take_line_nul_free [OF less.prems(2)] take_line_length [of k] by (auto simp: l_def)
  define big' where "big' = take ar bigbuf @ l @ NUL # drop (ar + length l + 1) big"
  have f: "fngets big ar (min (int BUFFERSIZE) limit) st = Inr (big', if l = [] then - 1 else int (length l), after_line k st)"
  proof -
    have "ar + k < length big" using big(2) kK(1) K(2) by linarith
    then show ?thesis unfolding big'_def
      using fngets_ok [OF _ less.prems(3) k_def l_def, of ar big] big(3) by (simp add: k_def)
  qed
  have len': "length big' = ar + BUFFERSIZE" using big kK K l less.prems(5) by (simp add: big'_def)
  have sl: "c_strlen big' ar = Inr (length l)" unfolding big'_def using less.prems(5) l by (intro c_strlen_run) auto
  have t: "take (ar + length l) big' = take ar bigbuf @ l" using less.prems(5) by (simp add: big'_def)
  have rdl: "rd big' (ar + length l - 1) = Inr (last l)" if ne: "l \<noteq> []"
  proof -
    obtain l' x where x: "l = l' @ [x]" using ne by (cases l rule: rev_cases) auto
    have e: "ar + length l - 1 = length (take ar bigbuf @ l')" "big' = (take ar bigbuf @ l') @ x # NUL # drop (ar + length l + 1) big"
      using less.prems(5) by (simp_all add: x big'_def)
    have "big' ! (ar + length l - 1) = x" by (simp only: e nth_append_length)
    then show ?thesis using e(1) len' less.prems(5) K kK l x by (simp add: rd_def)
  qed
  have run: "big_loop mem bigbuf ar limit st =
     (if l = [] then Inr (if 0 < ar then Some (take ar bigbuf) else None, after_line k st)
      else bind_res (if length l < K then Inr True else bind_res (rd big' (ar + length l - 1)) (\<lambda>c. Inr (c = LF))) (\<lambda>finished.
        if \<not> finished \<and> 0 \<le> limit - int (length l) then big_loop mem big' (ar + length l) (limit - int (length l)) (after_line k st)
        else Inr (Some (take ar bigbuf @ l), after_line k st)))"
  proof -
    have tk: "take ar big' = take ar bigbuf" "BUFFERSIZE - 1 = K" using less.prems(5) K by (simp_all add: big'_def)
    have n: "(int (length l) = - 1) = False" by simp
    show ?thesis
      by (cases "l = []"; subst big_loop.simps)
        (simp_all only: big(1) option.case f bind_res_simps prod.case sl t tk n if_True if_False refl simp_thms cong: if_cong)
  qed
  consider (none) "l = []" | (short) "l \<noteq> []" "length l < K" | (line) "length l = K" "last l = LF" | (more) "length l = K" "last l \<noteq> LF"
    using l kK by linarith
  then show ?case
  proof cases
    case none
    then have e: "k = 0 \<or> fs_bytes st = []" by (simp add: l_def take_line_Nil)
    have "take_line (nat (limit - 1)) (fs_bytes st) = []" "after_line (nat (limit - 1)) st = after_line k st"
      using e kK K by (auto simp: take_line_Nil after_line_def hits_end_Nil split: if_splits)
    moreover have "take ar bigbuf = [] \<longleftrightarrow> ar = 0" using less.prems(5) by auto
    ultimately show ?thesis using none by (simp add: run Let_def)
  next
    case short
    have "take_line (nat (limit - 1)) (fs_bytes st) = l \<and> after_line (nat (limit - 1)) st = after_line k st"
    proof (cases "limit \<le> int K")
      case False
      then have "nat (limit - 1) = K + nat (limit - 1 - int K)" "k = K" using kK by auto
      then show ?thesis using take_line_done [of K "fs_bytes st" "nat (limit - 1 - int K)"] after_line_done [of K st] short
        by (simp add: l_def)
    qed (use kK in \<open>simp add: l_def\<close>)
    then show ?thesis using short by (simp add: run Let_def)
  next
    case line
    have n: "nat (limit - 1) = K + nat (limit - 1 - int K)" "k = K" using kK l line less.prems(4) K by (auto split: if_splits)
    have "l \<noteq> []" using line K by auto
    moreover have "LF \<in> set l" using \<open>l \<noteq> []\<close> line(2) by (metis last_in_set)
    moreover have "rd big' (ar + length l - 1) = Inr LF" using rdl [OF \<open>l \<noteq> []\<close>] line(2) by simp
    ultimately show ?thesis
      using take_line_done [of K "fs_bytes st" "nat (limit - 1 - int K)"] after_line_done [of K st "nat (limit - 1 - int K)"] line n
      by (simp add: run Let_def l_def)
  next
    case more
    have n: "nat (limit - 1) = K + nat (limit - 1 - int K)" "k = K" "int K < limit" using kK l more less.prems(4) K by (auto split: if_splits)
    have l': "l \<noteq> []" "LF \<notin> set l" using more K take_line_LF_last [of k "fs_bytes st"] by (auto simp: l_def)
    have r: "big_loop mem bigbuf ar limit st = big_loop mem big' (ar + K) (limit - int K) (after_line K st)"
      using l' more n rdl [OF l'(1)] by (simp add: run)
    have "big_loop mem big' (ar + K) (limit - int K) (after_line K st) =
      (let t = take (ar + K) big' @ take_line (nat (limit - int K - 1)) (fs_bytes (after_line K st)) in
       Inr (if t = [] then None else Some t, after_line (nat (limit - int K - 1)) (after_line K st)))"
      using less.prems(1-3) n len' K by (intro less.hyps) (auto simp: after_line_def)
    moreover have "take (ar + K) big' = take ar bigbuf @ l" using t more by simp
    moreover have "take_line (nat (limit - 1)) (fs_bytes st) = l @ take_line (nat (limit - int K - 1)) (fs_bytes (after_line K st))"
      "after_line (nat (limit - 1)) st = after_line (nat (limit - int K - 1)) (after_line K st)"
      using take_line_more [of K "fs_bytes st" "nat (limit - 1 - int K)"] after_line_more [of K st "nat (limit - 1 - int K)"] l' more n
      by (simp_all add: l_def after_line_def algebra_simps)
    ultimately show ?thesis using l' by (simp add: r Let_def)
  qed
qed


lemma php_fgets_small:
  assumes "mem_ok mem" "static_buf = None \<or> (\<exists>b. static_buf = Some b \<and> length b = BUFFERSIZE)" "\<not> fs_fail st" "limit \<le> int BUFFERSIZE"
  shows "yields (\<lambda>(r, sb, st'). r = (if limit \<le> 1 \<or> fs_bytes st = [] then None
        else Some (upto_nul (take_line (nat (limit - 1)) (fs_bytes st)))) \<and>
      st' = after_line (nat (limit - 1)) st \<and> (\<exists>b. sb = Some b \<and> length b = BUFFERSIZE)) (php_fgets mem static_buf st limit)"
proof -
  define k where "k = nat (limit - 1)"
  define l where "l = take_line k (fs_bytes st)"
  obtain b where b: "(case static_buf of None \<Rightarrow> mem BUFFERSIZE | Some b \<Rightarrow> Some b) = Some b" "length b = BUFFERSIZE"
    using assms(1,2) by (cases static_buf) (auto simp: mem_ok_def)
  have room: "0 + k < length b" using assms(4) b(2) by (simp add: k_def BUFFERSIZE_def)
  have ll: "length l \<le> k" by (simp add: l_def take_line_length)
  have f: "fngets b 0 limit st = Inr (l @ NUL # drop (length l + 1) b, if l = [] then - 1 else int (length l), after_line k st)"
    using fngets_ok [OF room [unfolded k_def] assms(3) refl refl] by (simp add: k_def l_def)
  have len: "length (l @ NUL # drop (length l + 1) b) = BUFFERSIZE" using b(2) room ll by simp
  have "l = [] \<longleftrightarrow> limit \<le> 1 \<or> fs_bytes st = []" by (auto simp: l_def k_def take_line_Nil)
  then show ?thesis using assms(4) len b(1) strlen_line(1) [of l "drop (length l + 1) b"] strlen_line(2) [of l "NUL # drop (length l + 1) b"]
    by (auto simp: php_fgets_def f k_def [symmetric] l_def [symmetric])
qed

text \<open>
  C11. For any limit a call returns the next line of the file, or its first \<open>limit - 1\<close> bytes, and
  moves past just these, whatever the pieces of \<open>BUFFERSIZE\<close> bytes that it is put together from;
  at the end of the file, and for a limit that leaves no room, it returns nothing.
\<close>

theorem php_fgets_line:
  assumes "mem_ok mem" "static_buf = None \<or> (\<exists>b. static_buf = Some b \<and> length b = BUFFERSIZE)" "\<not> fs_fail st" "nul_free (fs_bytes st)"
  shows "yields (\<lambda>(r, sb, st'). r = (if limit \<le> 1 \<or> fs_bytes st = [] then None else Some (take_line (nat (limit - 1)) (fs_bytes st))) \<and>
      st' = after_line (nat (limit - 1)) st \<and> (\<exists>b. sb = Some b \<and> length b = BUFFERSIZE)) (php_fgets mem static_buf st limit)"
proof (cases "limit \<le> int BUFFERSIZE")
  case True
  have "upto_nul (take_line (nat (limit - 1)) (fs_bytes st)) = take_line (nat (limit - 1)) (fs_bytes st)"
    by (rule upto_nul_id) (rule take_line_nul_free [OF assms(4)])
  then show ?thesis using php_fgets_small [OF assms(1-3) True] by (simp only:)
next
  case False
  obtain b where b: "(case static_buf of None \<Rightarrow> mem BUFFERSIZE | Some b \<Rightarrow> Some b) = Some b" "length b = BUFFERSIZE"
    using assms(1,2) by (cases static_buf) (auto simp: mem_ok_def)
  have big: "1 < limit" using False by (simp add: BUFFERSIZE_def)
  then have "big_loop mem [] 0 limit st = Inr (if fs_bytes st = [] then None else Some (take_line (nat (limit - 1)) (fs_bytes st)),
      after_line (nat (limit - 1)) st)"
    using big_loop_run [OF assms(1,4,3), of limit 0 "[]"] by (auto simp: Let_def take_line_Nil)
  then show ?thesis using False b big by (simp add: php_fgets_def)
qed

definition demo_mem :: allocator where
  "demo_mem n = Some (replicate n (CHR ''?''))"

theorem php_fgets_line_witness:
  "yields (\<lambda>(r, sb, st'). r = Some ''first'' \<and> fs_bytes st' = LF # ''rest'')
    (php_fgets demo_mem None \<lparr>fs_bytes = ''first'' @ LF # ''rest'', fs_fail = False, fs_eof = False\<rparr> 6)"
proof -
  have "mem_ok demo_mem" by (simp add: mem_ok_def demo_mem_def)
  then show ?thesis
    using php_fgets_line [of demo_mem None "\<lparr>fs_bytes = ''first'' @ LF # ''rest'', fs_fail = False, fs_eof = False\<rparr>" 6]
    by (auto simp: after_line_def numeral_eq_Suc elim!: yieldsE)
qed

text \<open>A NUL in the line cuts off what is returned, and the rest of the line is lost.\<close>

theorem php_fgets_cut:
  assumes "mem_ok mem" "length a + length b + 2 < BUFFERSIZE" "nul_free a" "LF \<notin> set a" "LF \<notin> set b"
  shows "yields (\<lambda>(r, sb, st). r = Some a \<and> fs_bytes st = rest)
    (php_fgets mem None \<lparr>fs_bytes = a @ NUL # b @ LF # rest, fs_fail = False, fs_eof = e\<rparr> (int BUFFERSIZE))"
proof -
  have t: "LF \<notin> set xs \<Longrightarrow> length xs < n \<Longrightarrow> take_line n (xs @ LF # r) = xs @ [LF]" for n xs r
    by (induction xs arbitrary: n) (auto simp: gr0_conv_Suc less_Suc_eq_0_disj Suc_less_eq2)
  have "take_line (nat (int BUFFERSIZE - 1)) ((a @ NUL # b) @ LF # rest) = (a @ NUL # b) @ [LF]"
    using assms(2,4,5) by (intro t) auto
  then show ?thesis
    using php_fgets_small [OF assms(1), of None "\<lparr>fs_bytes = a @ NUL # b @ LF # rest, fs_fail = False, fs_eof = e\<rparr>" "int BUFFERSIZE"]
      upto_nul_cut [of a "b @ [LF]"] assms(3)
    by (auto simp: after_line_def BUFFERSIZE_def elim!: yieldsE)
qed

section \<open>All the output of a command\<close>

lemma read_pipe_run:
  "(\<And>n. length (gc n) = n) \<Longrightarrow> length buf = currentsize \<Longrightarrow> pos < currentsize \<Longrightarrow> take pos buf = got \<Longrightarrow>
   yields (\<lambda>(buf', size', pos'). take pos' buf' = got @ p \<and> pos' = pos + length p \<and> length buf' = size' \<and> pos' < size')
     (read_pipe gc buf currentsize pos p)"
proof (induction gc buf currentsize pos p arbitrary: got rule: read_pipe.induct)
  case (1 gc buf currentsize pos p)
  define chunk where "chunk = take (currentsize - pos) p"
  define buf1 where "buf1 = take pos buf @ chunk @ drop (pos + length chunk) buf"
  have fits: "pos + length chunk \<le> length buf" using "1.prems" by (simp add: chunk_def)
  have cp: "memcpy_at buf pos chunk = Inr buf1" using fits by (simp add: memcpy_at_def buf1_def)
  have b1: "length buf1 = currentsize" "take (pos + length chunk) buf1 = got @ chunk"
    using "1.prems" fits by (auto simp: buf1_def)
  have p: "chunk @ drop (length chunk) p = p" unfolding chunk_def by (cases "currentsize - pos \<le> length p") (simp_all add: min_def)
  have "length chunk + length (drop (length chunk) p) = length p" using p by (metis length_append)
  then have pl: "pos + length chunk + length (drop (length chunk) p) = pos + length p" by linarith
  show ?case
  proof (cases "chunk = []")
    case True
    then have "p = []" using "1.prems" by (auto simp: chunk_def)
    then show ?thesis using "1.prems" by (subst read_pipe.simps) simp
  next
    case False
    obtain buf2 size2 where g: "(if pos + length chunk = currentsize
        then bind_res (grow_block gc buf1 currentsize INCREMENT) (\<lambda>b. Inr (b, currentsize + INCREMENT))
        else Inr (buf1, currentsize)) = Inr (buf2, size2)"
      "length buf2 = size2" "pos + length chunk < size2" "take (pos + length chunk) buf2 = got @ chunk"
    proof (cases "pos + length chunk = currentsize")
      case True
      have "grow_block gc buf1 currentsize INCREMENT = Inr (buf1 @ drop currentsize (gc (currentsize + INCREMENT)))"
        using b1 "1.prems"(1) by (simp add: grow_block_def memcpy_at_def)
      then show ?thesis using True b1 "1.prems"(1) that by (simp add: INCREMENT_def)
    next
      case False
      then show ?thesis using b1 fits "1.prems"(2) that by simp
    qed
    have "yields (\<lambda>(buf', size', pos'). take pos' buf' = (got @ chunk) @ drop (length chunk) p \<and>
        pos' = pos + length chunk + length (drop (length chunk) p) \<and> length buf' = size' \<and> pos' < size')
      (read_pipe gc buf2 size2 (pos + length chunk) (drop (length chunk) p))"
      by (rule "1.IH" [OF chunk_def False cp g(1) refl "1.prems"(1) g(2-4)])
    note ih = this [unfolded pl append_assoc p]
    have "read_pipe gc buf currentsize pos p = read_pipe gc buf2 size2 (pos + length chunk) (drop (length chunk) p)"
      using False g(1) by (subst read_pipe.simps) (simp add: Let_def chunk_def [symmetric] cp)
    then show ?thesis using ih by simp
  qed
qed

text \<open>
  However much a command prints, nothing is written outside a block, and the caller gets the
  exit status and the output - up to its first NUL, since the length of the output is not
  handed on.
\<close>

theorem php_c_system_output:
  assumes "\<And>n. length (gc n) = n"
  shows "php_c_system gc (Some (out, status)) = Inr (Some (upto_nul out, status))"
proof -
  obtain buf sz where b: "read_pipe gc (gc INCREMENT) INCREMENT 0 out = Inr (buf, sz, length out)" "take (length out) buf = out"
    "length buf = sz" "length out < sz"
    using read_pipe_run [OF assms, where pos = 0 and got = "[]" and p = out and currentsize = INCREMENT and buf = "gc INCREMENT"] assms
    by (auto simp: INCREMENT_def elim!: yieldsE)
  define buf1 where "buf1 = out @ NUL # drop (length out + 1) buf"
  have "wr buf (length out) NUL = Inr buf1" using b by (simp add: wr_def upd_conv_take_nth_drop buf1_def)
  moreover have "c_strlen buf1 0 = Inr (length (upto_nul out))" "take (length (upto_nul out)) buf1 = upto_nul out"
    unfolding buf1_def by (rule strlen_line)+
  ultimately show ?thesis using b by (simp add: php_c_system_def)
qed

theorem php_c_system_output_witness:
  "php_c_system (\<lambda>n. replicate n (CHR ''?'')) (Some (''total 0'' @ [LF, NUL] @ ''x'', 0)) = Inr (Some (''total 0'' @ [LF], 0))"
  using php_c_system_output [of "\<lambda>n. replicate n (CHR ''?'')" "''total 0'' @ [LF, NUL] @ ''x''" 0] by (simp add: upto_nul_def)

end
