(* ===== verification/FcgiSpawn.thy ===== *)
theory FcgiSpawn
  imports Prelude
begin

text \<open>
  The process manager of \<open>webconnect/fastcgi/c-fcgi.c\<close>: \<open>pcc_fcgi_spawn\<close> keeps a number of
  children alive; the children are the processes that return from it and serve requests.
\<close>

section \<open>One process\<close>

text \<open>
  \<open>sp_kids\<close> are the children that the process has forked and not yet waited for, as the system
  knows them; the code only keeps the counter.
\<close>

datatype spawn_pc = SpawnTop | WaitChild | Returned int | Exited int

record spawn =
  sp_parent :: bool
  sp_running :: int
  sp_pc :: spawn_pc
  sp_kids :: "nat set"
  sp_killed :: bool

text \<open>What the system answers to \<open>fork\<close> and \<open>wait\<close>, and the arrival of a signal.\<close>

datatype sys_event =
    ForkFailed
  | ForkedChild nat
  | IsChild
  | WaitFailed
  | Waited nat
  | Signal

definition spawn_start :: "bool \<Rightarrow> spawn" where
  "spawn_start handlers_set =
     \<lparr>sp_parent = True, sp_running = 0, sp_pc = (if handlers_set then SpawnTop else Exited 1), sp_kids = {}, sp_killed = False\<rparr>"

text \<open>The handler ends every process of the group.\<close>

definition catch_fcgi_shutdown :: "spawn \<Rightarrow> spawn" where
  "catch_fcgi_shutdown s = s\<lparr>sp_killed := True, sp_pc := Exited 0\<rparr>"

text \<open>The branches of the switch, each followed by \<open>running++\<close>.\<close>

fun spawn_fork :: "sys_event \<Rightarrow> spawn \<Rightarrow> spawn option" where
  "spawn_fork ForkFailed s = Some (s\<lparr>sp_pc := Exited 1\<rparr>)"
| "spawn_fork IsChild s = Some (s\<lparr>sp_parent := False, sp_kids := {}, sp_running := sp_running s + 1\<rparr>)"
| "spawn_fork (ForkedChild pid) s =
     (if pid \<in> sp_kids s then None else Some (s\<lparr>sp_kids := insert pid (sp_kids s), sp_running := sp_running s + 1\<rparr>))"
| "spawn_fork _ s = None"

text \<open>A failing wait is tried again; a child that is waited for has been forked.\<close>

fun spawn_wait :: "sys_event \<Rightarrow> spawn \<Rightarrow> spawn option" where
  "spawn_wait WaitFailed s = Some s"
| "spawn_wait (Waited pid) s =
     (if pid \<in> sp_kids s then Some (s\<lparr>sp_kids := sp_kids s - {pid}, sp_running := sp_running s - 1, sp_pc := SpawnTop\<rparr>) else None)"
| "spawn_wait _ s = None"

text \<open>
  One step of \<open>pcc_fcgi_spawn\<close>, with the event that it needs: the test of the loop, the test
  behind it, the wait.  The handler is only installed in the parent.
\<close>

definition spawn_step :: "int \<Rightarrow> sys_event \<Rightarrow> spawn \<Rightarrow> spawn option" where
  "spawn_step numchildren e s =
     (case sp_pc s of
        SpawnTop \<Rightarrow>
          if e = Signal then (if sp_parent s then Some (catch_fcgi_shutdown s) else None)
          else if sp_parent s \<and> sp_running s < numchildren then spawn_fork e s
          else if sp_parent s then Some (s\<lparr>sp_pc := WaitChild\<rparr>)
          else Some (s\<lparr>sp_pc := Returned (if sp_parent s then 1 else 0)\<rparr>)
      | WaitChild \<Rightarrow> if e = Signal then Some (catch_fcgi_shutdown s) else spawn_wait e s
      | _ \<Rightarrow> None)"

inductive spawn_reach :: "int \<Rightarrow> spawn \<Rightarrow> bool" for n where
  Start: "spawn_reach n (spawn_start ok)"
| Step: "spawn_reach n s \<Longrightarrow> spawn_step n e s = Some s' \<Longrightarrow> spawn_reach n s'"

section \<open>The number of children\<close>

definition spawn_inv :: "int \<Rightarrow> spawn \<Rightarrow> bool" where
  "spawn_inv n s \<longleftrightarrow> finite (sp_kids s) \<and>
     (sp_parent s \<longrightarrow> sp_running s = int (card (sp_kids s)) \<and> sp_running s \<le> max 0 n) \<and>
     (\<not> sp_parent s \<longrightarrow> sp_kids s = {}) \<and> (sp_killed s \<longrightarrow> sp_pc s = Exited 0) \<and>
     (case sp_pc s of
        SpawnTop \<Rightarrow> True
      | WaitChild \<Rightarrow> sp_parent s \<and> sp_running s = max 0 n
      | Returned v \<Rightarrow> \<not> sp_parent s \<and> v = 0
      | Exited v \<Rightarrow> sp_parent s \<and> (v = 0 \<longrightarrow> sp_killed s))"

lemma spawn_fork_inv:
  assumes "spawn_inv n s" "sp_pc s = SpawnTop" "sp_parent s" "sp_running s < n" "spawn_fork e s = Some s'"
  shows "spawn_inv n s'"
  using assms by (cases e) (auto simp: spawn_inv_def split: if_splits)

lemma spawn_wait_inv:
  assumes "spawn_inv n s" "sp_pc s = WaitChild" "spawn_wait e s = Some s'"
  shows "spawn_inv n s'"
proof (cases e)
  case (Waited pid)
  then have "pid \<in> sp_kids s" "s' = s\<lparr>sp_kids := sp_kids s - {pid}, sp_running := sp_running s - 1, sp_pc := SpawnTop\<rparr>"
    using assms(3) by (auto split: if_splits)
  moreover have "int (card (sp_kids s - {pid})) = int (card (sp_kids s)) - 1"
    using calculation(1) assms(1) card_Suc_Diff1 [of "sp_kids s" pid] by (simp add: spawn_inv_def)
  moreover have "sp_parent s" "finite (sp_kids s)" "sp_running s = int (card (sp_kids s))" "sp_running s \<le> max 0 n" "\<not> sp_killed s"
    using assms(1,2) by (auto simp: spawn_inv_def)
  ultimately show ?thesis by (simp add: spawn_inv_def)
qed (use assms in auto)

lemma spawn_step_inv:
  assumes "spawn_inv n s" "spawn_step n e s = Some s'"
  shows "spawn_inv n s'"
proof (cases "sp_pc s")
  case SpawnTop
  have i: "finite (sp_kids s)" "sp_parent s \<longrightarrow> sp_running s = int (card (sp_kids s)) \<and> sp_running s \<le> max 0 n"
    "\<not> sp_parent s \<longrightarrow> sp_kids s = {}" "\<not> sp_killed s"
    using assms(1) SpawnTop by (auto simp: spawn_inv_def)
  consider (sig) "e = Signal" "sp_parent s" | (fork) "e \<noteq> Signal" "sp_parent s" "sp_running s < n"
    | (wait) "e \<noteq> Signal" "sp_parent s" "n \<le> sp_running s" | (child) "e \<noteq> Signal" "\<not> sp_parent s"
    using assms(2) SpawnTop by (fastforce simp: spawn_step_def split: if_splits)
  then show ?thesis
  proof cases
    case sig
    then show ?thesis using assms(2) SpawnTop i by (auto simp: spawn_step_def spawn_inv_def catch_fcgi_shutdown_def)
  next
    case fork
    then have "spawn_fork e s = Some s'" using assms(2) SpawnTop by (simp add: spawn_step_def)
    then show ?thesis by (rule spawn_fork_inv [OF assms(1) SpawnTop fork(2,3)])
  next
    case wait
    then have "s' = s\<lparr>sp_pc := WaitChild\<rparr>" using assms(2) SpawnTop by (simp add: spawn_step_def)
    moreover have "sp_running s = max 0 n" using i(2) wait by linarith
    ultimately show ?thesis using i wait by (simp add: spawn_inv_def)
  next
    case child
    then show ?thesis using assms(2) SpawnTop i by (auto simp: spawn_step_def spawn_inv_def)
  qed
next
  case WaitChild
  show ?thesis
  proof (cases "e = Signal")
    case True
    then show ?thesis using assms WaitChild by (auto simp: spawn_step_def spawn_inv_def catch_fcgi_shutdown_def)
  next
    case False
    then have "spawn_wait e s = Some s'" using assms(2) WaitChild by (simp add: spawn_step_def)
    then show ?thesis by (rule spawn_wait_inv [OF assms(1) WaitChild])
  qed
qed (use assms in \<open>auto simp: spawn_step_def\<close>)

lemma spawn_reach_inv: "spawn_reach n s \<Longrightarrow> spawn_inv n s"
proof (induction rule: spawn_reach.induct)
  case (Start ok)
  then show ?case by (simp add: spawn_start_def spawn_inv_def)
qed (rule spawn_step_inv)

text \<open>
  C12. In every state that the manager can be in, the counter of the parent is the number of its
  children; when it waits there are exactly as many as were asked for; only children return, with
  0; and the parent ends only by a signal, which ends the whole group, or by a failing call.
\<close>

theorem spawn_keeps_children:
  assumes "spawn_reach n s"
  shows "(sp_parent s \<longrightarrow> sp_running s = int (card (sp_kids s))) \<and>
    (sp_pc s = WaitChild \<longrightarrow> card (sp_kids s) = nat n) \<and>
    (\<forall>v. sp_pc s = Returned v \<longrightarrow> \<not> sp_parent s \<and> v = 0) \<and>
    (sp_pc s = Exited 0 \<longrightarrow> sp_killed s)"
  using spawn_reach_inv [OF assms] by (auto simp: spawn_inv_def max_def split: if_splits)

definition demo_spawned :: spawn where
  "demo_spawned = \<lparr>sp_parent = True, sp_running = 2, sp_pc = WaitChild, sp_kids = {7, 9}, sp_killed = False\<rparr>"

theorem spawn_keeps_children_witness: "card (sp_kids demo_spawned) = nat 2"
proof -
  define s0 where "s0 = spawn_start True"
  define s1 where "s1 = s0\<lparr>sp_kids := {9}, sp_running := 1\<rparr>"
  define s2 where "s2 = s1\<lparr>sp_kids := {7, 9}, sp_running := 2\<rparr>"
  have "spawn_step 2 (ForkedChild 9) s0 = Some s1" "spawn_step 2 (ForkedChild 7) s1 = Some s2"
    "spawn_step 2 WaitFailed s2 = Some demo_spawned"
    by (simp_all add: s0_def s1_def s2_def demo_spawned_def spawn_start_def spawn_step_def)
  then have "spawn_reach 2 demo_spawned"
    using spawn_reach.Start [of 2 True] by (metis s0_def spawn_reach.Step)
  then show ?thesis using spawn_keeps_children [of 2 demo_spawned] by (simp add: demo_spawned_def)
qed

text \<open>
  With no child to wait for every \<open>wait\<close> fails, so a manager for no children waits forever,
  without pause, unless a signal comes.
\<close>

theorem no_children_spins:
  assumes "n \<le> 0" "spawn_reach n s" "sp_pc s = WaitChild" "spawn_step n e s = Some s'" "e \<noteq> Signal"
  shows "s' = s"
proof -
  have "finite (sp_kids s)" "int (card (sp_kids s)) = max 0 n"
    using spawn_reach_inv [OF assms(2)] assms(3) by (auto simp: spawn_inv_def)
  then have "sp_kids s = {}" using assms(1) by simp
  then show ?thesis using assms(3-5) by (cases e) (auto simp: spawn_step_def)
qed

end
