(* ===== verification/NumText.thy ===== *)
theory NumText
  imports OpaqueMath Snprintf
begin

text \<open>
  PHP's numbers as text, the end of \<open>runtime/opaque-math.c\<close>: \<open>phpnum_to_string\<close>, which prints
  with \<open>pcc_snprintf\<close> and with the C library, and the two functions that read numbers.
\<close>

section \<open>Printing\<close>

definition ARB_STRING_SIZE :: nat where "ARB_STRING_SIZE = 1024"

definition E_FORMAT :: cstr where "E_FORMAT = ''%.*E''"
definition F_FORMAT :: cstr where "F_FORMAT = ''%.*f''"
definition G_FORMAT :: cstr where "G_FORMAT = ''%.*G''"

text \<open>What a \<open>snprintf\<close> stored and returned, as a Bigloo string.\<close>

definition arb_string :: "cstr \<Rightarrow> int \<Rightarrow> fault + cstr" where
  "arb_string result actual_length =
     (if - 1 < actual_length \<and> actual_length < int ARB_STRING_SIZE then Inr (take (nat actual_length) result) else Inl Aborted)"

text \<open>
  \<open>snprintf\<close> of the C library stores what fits and returns the whole length; \<open>lib_g\<close> is what
  its \<open>%.*G\<close> makes of a precision and a number.  \<open>buf1\<close> is the digit buffer of the formatter.
\<close>

definition lib_snprintf :: "nat \<Rightarrow> cstr \<Rightarrow> cstr \<times> int" where
  "lib_snprintf n s = (take (n - 1) s @ [NUL], int (length s))"

definition phpnum_to_string :: "(int \<Rightarrow> dbl \<Rightarrow> cstr) \<Rightarrow> char list \<Rightarrow> phpnum \<Rightarrow> u32 \<Rightarrow> int \<Rightarrow> int \<Rightarrow> fault + cstr" where
  "phpnum_to_string lib_g buf1 a precision efg style =
     (let pcc = (\<lambda>fmt d. bind_res (pcc_snprintf buf1 (of_nat ARB_STRING_SIZE) fmt [AInt precision, ADouble d])
            (\<lambda>(result, n, w). arb_string result n)) in
      case a of
        Real d \<Rightarrow>
          if efg = 0 then pcc E_FORMAT d
          else if efg = 1 then pcc F_FORMAT d
          else if efg = 2
          then if style = 0 then (case lib_snprintf ARB_STRING_SIZE (lib_g (sint precision) d) of (r, n) \<Rightarrow> arb_string r n)
            else pcc G_FORMAT d
          else Inl Aborted
      | Elong l \<Rightarrow> (case lib_snprintf ARB_STRING_SIZE (int_dec (sint l)) of (r, n) \<Rightarrow> arb_string r n))"

section \<open>Reading\<close>

text \<open>
  \<open>sscanf\<close> with \<open>%ld\<close>: white space, a sign, digits; nothing without a digit.  A number that does
  not fit is the nearest that does, as \<open>strtol\<close> has it.
\<close>

definition scan_ld :: "cstr \<Rightarrow> int option" where
  "scan_ld str =
     (let s = dropWhile c_isspace str; neg = (at0 s = CHR ''-''); s = (if at0 s = CHR ''-'' \<or> at0 s = CHR ''+'' then tl s else s);
          ds = takeWhile c_isdigit s; n = int (radix_val 10 dec_dval ds); v = (if neg then - n else n)
      in if ds = [] then None else Some (max PHP_LONGMIN (min PHP_LONGMAX v)))"

definition string_to_long_phpnum :: "cstr \<Rightarrow> fault + phpnum" where
  "string_to_long_phpnum str =
     (case scan_ld str of None \<Rightarrow> Inl Aborted | Some lval \<Rightarrow> Inr (Elong (word_of_int lval)))"

text \<open>\<open>scan_lf\<close> is what \<open>sscanf\<close> reads for \<open>%lf\<close>.\<close>

definition string_to_float_phpnum :: "(cstr \<Rightarrow> dbl option) \<Rightarrow> cstr \<Rightarrow> fault + phpnum" where
  "string_to_float_phpnum scan_lf str = (case scan_lf str of None \<Rightarrow> Inl Aborted | Some dval \<Rightarrow> Inr (Real dval))"

section \<open>Every long comes back\<close>

lemma digit_chars: "c_isdigit c \<Longrightarrow> \<not> c_isspace c \<and> c \<noteq> CHR ''-'' \<and> c \<noteq> CHR ''+''"
  by (auto simp: c_isdigit_def c_isspace_def code_def)

lemma scan_digits:
  "radix_val 10 dec_dval (takeWhile c_isdigit (nat_dec n)) = n" "takeWhile c_isdigit (nat_dec n) \<noteq> []"
proof -
  have e: "takeWhile c_isdigit (nat_dec n) = nat_dec n" using nat_dec_digits by (auto simp: takeWhile_eq_all_conv)
  show "radix_val 10 dec_dval (takeWhile c_isdigit (nat_dec n)) = n" "takeWhile c_isdigit (nat_dec n) \<noteq> []"
    unfolding e using dec.print_value dec.print_nonempty by simp_all
qed

lemma scan_int_dec: "scan_ld (int_dec i) = Some (max PHP_LONGMIN (min PHP_LONGMAX i))"
proof (cases "i < 0")
  case True
  then have "int_dec i = CHR ''-'' # nat_dec (nat (- i))" by (simp add: int_dec_def)
  moreover have "\<not> c_isspace (CHR ''-'')" by (simp add: c_isspace_def code_def)
  ultimately show ?thesis using True scan_digits [of "nat (- i)"] by (simp add: scan_ld_def Let_def)
next
  case False
  then have i: "int_dec i = nat_dec (nat i)" by (simp add: int_dec_def)
  obtain d ds where d: "nat_dec (nat i) = d # ds" using dec.print_nonempty [OF TrueI, of "nat i"] by (cases "nat_dec (nat i)") auto
  have "c_isdigit d" using nat_dec_digits [of d "nat i"] d by simp
  then have "dropWhile c_isspace (nat_dec (nat i)) = nat_dec (nat i)" "at0 (nat_dec (nat i)) \<noteq> CHR ''-''" "at0 (nat_dec (nat i)) \<noteq> CHR ''+''"
    using digit_chars [of d] d by simp_all
  then show ?thesis using False scan_digits [of "nat i"] by (simp add: scan_ld_def Let_def i)
qed

lemma long_text: "phpnum_to_string lib_g buf1 (Elong l) precision efg style = Inr (int_dec (sint l))"
proof -
  have b: "- (2 ^ 63) \<le> sint l" "sint l < 2 ^ 63" using sint_bounds64 [of l] by simp_all
  have "nat \<bar>sint l\<bar> < 10 ^ 20" using b by simp
  then have "length (nat_dec (nat \<bar>sint l\<bar>)) \<le> 20" by (intro dec.print_length_le) simp_all
  then have "length (int_dec (sint l)) \<le> 21" by (auto simp: int_dec_def)
  then show ?thesis by (simp add: phpnum_to_string_def lib_snprintf_def arb_string_def ARB_STRING_SIZE_def)
qed

text \<open>
  C30. Every long is printed, whatever precision and style are asked for, and the text reads back
  as the same number.
\<close>

theorem long_text_roundtrip:
  "bind_res (phpnum_to_string lib_g buf1 (Elong l) precision efg style) string_to_long_phpnum = Inr (Elong l)"
proof -
  have "PHP_LONGMIN \<le> sint l" "sint l \<le> PHP_LONGMAX" using sint_bounds64 [of l] by (simp_all add: PHP_LONGMIN_def PHP_LONGMAX_def)
  then have "max PHP_LONGMIN (min PHP_LONGMAX (sint l)) = sint l" by simp
  then show ?thesis by (simp add: long_text string_to_long_phpnum_def scan_int_dec)
qed

text \<open>
  A real that the formatter can print is printed whole or not at all: a text of 1024 characters
  or more ends the script.
\<close>

theorem real_text:
  assumes "efg = 0 \<and> fmt = E_FORMAT \<or> efg = 1 \<and> fmt = F_FORMAT \<or> efg = 2 \<and> style \<noteq> 0 \<and> fmt = G_FORMAT"
    and "pcc_vformatter buf1 None fmt [AInt precision, ADouble d] = Inr (out, cc, w)"
  shows "phpnum_to_string lib_g buf1 (Real d) precision efg style =
    (if length out < ARB_STRING_SIZE then Inr out else Inl Aborted)"
proof -
  define len where "len = (of_nat ARB_STRING_SIZE :: u64)"
  have len: "unat len = 1024" "len \<noteq> 0" "sint (ucast len :: u32) = 1024" by (simp_all add: len_def ARB_STRING_SIZE_def)
  obtain w' where p: "pcc_snprintf buf1 len fmt [AInt precision, ADouble d] =
      Inr (take 1023 out @ [NUL], if length out < 1024 then int (length out) else 1024, w')"
    using snprintf_truncates_core [OF assms(2), of len] len by auto
  have "bind_res (pcc_snprintf buf1 len fmt [AInt precision, ADouble d]) (\<lambda>(result, n, w). arb_string result n) =
      (if length out < ARB_STRING_SIZE then Inr out else Inl Aborted)"
    by (simp add: p arb_string_def ARB_STRING_SIZE_def)
  then show ?thesis using assms(1) by (auto simp: phpnum_to_string_def len_def [symmetric] Let_def)
qed

end
