(* ===== verification/MtRange.thy ===== *)
theory MtRange
  imports MtRand Dbl
begin

text \<open>
  \<open>randomMTrange\<close> of \<open>runtime/ext/standard/mt_rand.c\<close>, behind \<open>mt_rand(min, max)\<close>: a number of
  the generator scaled to a range with doubles.
\<close>

section \<open>The code\<close>

definition MT_RAND_MAX :: int where "MT_RAND_MAX = 0x7FFFFFFF"

text \<open>A signed result that does not fit a \<open>long\<close> is an overflow.\<close>

definition long_result :: "int \<Rightarrow> fault + int" where
  "long_result i = (if - (2 ^ 63) \<le> i \<and> i < 2 ^ 63 then Inr i else Inl IntOverflow)"

definition RAND_RANGE :: "int \<Rightarrow> int \<Rightarrow> int \<Rightarrow> int \<Rightarrow> fault + int" where
  "RAND_RANGE n mn mx tmax =
     bind_res (long_result (mx - mn)) (\<lambda>diff.
     let scaled = dbl_mul (dbl_add (dbl_of_int diff) (dbl_of_int 1))
                    (dbl_div (dbl_of_int n) (dbl_add (dbl_of_int tmax) (dbl_of_int 1))) in
     case dbl_trunc scaled of
       None \<Rightarrow> Inl ConversionRange
     | Some i \<Rightarrow> if - (2 ^ 63) \<le> i \<and> i < 2 ^ 63 then long_result (mn + i) else Inl ConversionRange)"

definition randomMTrange :: "int \<Rightarrow> int \<Rightarrow> mt \<Rightarrow> fault + (int \<times> mt)" where
  "randomMTrange mn mx g =
     bind_res (randomMT g) (\<lambda>(y, g).
     bind_res (RAND_RANGE (sint (drop_bit 1 y)) mn mx MT_RAND_MAX) (\<lambda>r. Inr (r, g)))"

section \<open>Products that a double holds exactly\<close>

text \<open>A number with at most 53 significant bits is not changed by rounding.\<close>

lemma nat_bits_shift: "m \<noteq> 0 \<Longrightarrow> nat_bits (m * 2 ^ k) = nat_bits m + k"
proof (rule antisym)
  assume m: "m \<noteq> 0"
  have "m * 2 ^ k < 2 ^ (nat_bits m + k)" using nat_bits_bounds [OF m] by (simp add: power_add)
  then show "nat_bits (m * 2 ^ k) \<le> nat_bits m + k" by (rule nat_bits_le)
  have p: "0 < nat_bits m" using m by (metis nat_bits_eq_0 gr0I)
  have "2 ^ (nat_bits m - 1) * 2 ^ k \<le> m * 2 ^ k" using nat_bits_bounds [OF m] by simp
  then have "2 ^ (nat_bits m - 1 + k) \<le> m * 2 ^ k" by (simp add: power_add)
  from nat_bits_gt [OF this] p show "nat_bits m + k \<le> nat_bits (m * 2 ^ k)" by simp
qed

lemma dbl_round_shifted:
  assumes "m < 2 ^ 53" "- 1074 \<le> e" "int (nat_bits m + k) + e \<le> 1024"
  shows "\<exists>j \<le> k. dbl_round s (m * 2 ^ k) e = DFin s (m * 2 ^ (k - j)) (e + int j)"
proof (cases "int (nat_bits (m * 2 ^ k)) - 53 \<le> 0")
  case True
  then have "dbl_round s (m * 2 ^ k) e = dbl_pack s (m * 2 ^ k) e" using assms(2) by (simp add: dbl_round_def Let_def)
  moreover have "int (nat_bits (m * 2 ^ k)) + e \<le> 1024"
    using assms(3) nat_bits_shift [of m k] by (cases "m = 0") auto
  ultimately show ?thesis by (intro exI [of _ 0]) (simp add: dbl_pack_def)
next
  case False
  then have m: "m \<noteq> 0" by (intro notI) simp
  define j where "j = nat_bits m + k - 53"
  have nb: "nat_bits (m * 2 ^ k) = nat_bits m + k" by (rule nat_bits_shift [OF m])
  have jk: "j \<le> k" using nat_bits_le [OF assms(1)] by (simp add: j_def)
  have sh: "max (int (nat_bits (m * 2 ^ k)) - 53) (- 1074 - e) = int j" "\<not> int j \<le> 0"
    using False assms(2) by (simp_all add: nb j_def)
  have e: "m * 2 ^ k = m * 2 ^ (k - j) * 2 ^ j" using jk by (simp flip: power_add)
  have "rnd_shift (x * 2 ^ j) j = x" for x by (simp add: rnd_shift_def Let_def)
  from this [of "m * 2 ^ (k - j)"] have r: "rnd_shift (m * 2 ^ k) j = m * 2 ^ (k - j)" unfolding e .
  have n: "nat_bits (m * 2 ^ (k - j)) = 53" using nat_bits_shift [OF m, of "k - j"] jk sh(2) by (simp add: j_def)
  then have "m * 2 ^ (k - j) \<noteq> 2 ^ 53" using nat_bits_power [of 53] by (metis Suc_n_not_n)
  then have "dbl_round s (m * 2 ^ k) e = dbl_pack s (m * 2 ^ (k - j)) (e + int j)"
    unfolding dbl_round_def Let_def sh(1) if_not_P [OF sh(2)] nat_int r by (rule if_not_P)
  moreover have "int (nat_bits (m * 2 ^ (k - j))) + (e + int j) \<le> 1024" using assms(3) jk nat_bits_shift [OF m, of "k - j"] by simp
  ultimately show ?thesis using jk by (intro exI [of _ j]) (simp add: dbl_pack_def)
qed

lemma scaled_less: "0 < D \<Longrightarrow> n < 2 ^ k \<Longrightarrow> D * n div 2 ^ k < D" for D n :: int
proof -
  assume D: "0 < D" "n < 2 ^ k"
  have "0 \<le> D * n mod 2 ^ k" by simp
  then have "(D * n div 2 ^ k) * 2 ^ k \<le> D * n" using minus_mod_eq_div_mult [of "D * n" "2 ^ k"] by linarith
  also have "\<dots> < D * 2 ^ k" using D by simp
  finally show ?thesis by simp
qed

lemma RAND_RANGE_exact:
  assumes "mn \<le> mx" "mx - mn < 2 ^ 22" "0 \<le> n" "n < 2 ^ 31" "- (2 ^ 63) \<le> mn" "mx < 2 ^ 63"
  shows "RAND_RANGE n mn mx MT_RAND_MAX = Inr (mn + (mx - mn + 1) * n div 2 ^ 31)"
proof -
  define d where "d = nat (mx - mn + 1)"
  define m where "m = nat n"
  have d: "int d = mx - mn + 1" "0 < d" "d \<le> 2 ^ 22" using assms by (simp_all add: d_def)
  have m: "int m = n" "m < 2 ^ 31" using assms by (simp_all add: m_def)
  have e1: "dbl_add (dbl_of_int (mx - mn)) (dbl_of_int 1) = DFin False d 0"
    using assms d by (simp add: dbl_of_int_exact dbl_num_def Let_def d_def dbl_round_exact nat_add_distrib)
  have e2: "dbl_add (dbl_of_int MT_RAND_MAX) (dbl_of_int 1) = DFin False (2 ^ 31) 0"
    by (simp add: dbl_of_int_exact dbl_num_def Let_def MT_RAND_MAX_def dbl_round_exact)
  have e3: "dbl_of_int n = DFin False m 0" using assms by (simp add: dbl_of_int_exact m_def)
  have q: "m * 2 ^ 120 div 2 ^ 31 = m * 2 ^ 89" "m * 2 ^ 120 mod 2 ^ 31 = 0" by simp_all
  have "nat_bits m \<le> 31" using m(2) by (rule nat_bits_le)
  then obtain j where j: "j \<le> 90" "dbl_round False (m * 2 ^ 90) (- 121) = DFin False (m * 2 ^ (90 - j)) (- 121 + int j)"
    using dbl_round_shifted [of m "- 121" 90 False] m(2) by force
  have "2 * (m * 2 ^ 89) = m * 2 ^ 90" by simp
  then have e4: "dbl_div (dbl_of_int n) (DFin False (2 ^ 31) 0) = DFin False (m * 2 ^ (90 - j)) (- 121 + int j)"
    unfolding e3 using j(2) by (simp only: dbl_div.simps Let_def q) (simp add: mult.commute)
  have dm: "d * m < 2 ^ 53"
  proof -
    have "d * m \<le> 2 ^ 22 * m" using d(3) by (rule mult_right_mono) simp
    also have "\<dots> < 2 ^ 22 * 2 ^ 31" using m(2) by (intro mult_strict_left_mono) simp_all
    finally show ?thesis by simp
  qed
  obtain i where i: "i \<le> 90 - j" "dbl_round False (d * m * 2 ^ (90 - j)) (- 121 + int j) =
      DFin False (d * m * 2 ^ (90 - j - i)) (- 121 + int j + int i)"
    using dbl_round_shifted [OF dm, of "- 121 + int j" "90 - j" False] nat_bits_le [OF dm] j(1) by force
  have p: "dbl_mul (DFin False d 0) (DFin False (m * 2 ^ (90 - j)) (- 121 + int j)) =
      DFin False (d * m * 2 ^ (90 - j - i)) (- 121 + int j + int i)"
    using i(2) by (simp add: mult.assoc)
  define k where "k = 90 - j - i"
  have k: "- 121 + int j + int i = - int (31 + k)" using i(1) j(1) by (simp add: k_def)
  have "d * m * 2 ^ k div 2 ^ (31 + k) = d * m div 2 ^ 31" by (simp add: power_add mult.commute [of _ "2 ^ k"])
  then have t: "dbl_trunc (DFin False (d * m * 2 ^ k) (- int (31 + k))) = Some (int (d * m div 2 ^ 31))"
    by (simp add: nat_trunc_def del: of_nat_add)
  have v: "int (d * m div 2 ^ 31) = (mx - mn + 1) * n div 2 ^ 31" using d(1) m(1) by (simp add: zdiv_int)
  have "(mx - mn + 1) * n div 2 ^ 31 < mx - mn + 1" using scaled_less [of "mx - mn + 1" n 31] assms by simp
  moreover have "0 \<le> (mx - mn + 1) * n" using assms by simp
  then have "0 \<le> (mx - mn + 1) * n div 2 ^ 31" by (simp add: pos_imp_zdiv_nonneg_iff)
  ultimately have l: "long_result (mx - mn) = Inr (mx - mn)" "long_result (mn + (mx - mn + 1) * n div 2 ^ 31) = Inr (mn + (mx - mn + 1) * n div 2 ^ 31)"
    "- (2 ^ 63) \<le> (mx - mn + 1) * n div 2 ^ 31 \<and> (mx - mn + 1) * n div 2 ^ 31 < 2 ^ 63"
    using assms by (simp_all add: long_result_def)
  show ?thesis
    unfolding RAND_RANGE_def l(1) bind_res_simps Let_def e1 e2 e4 p k_def [symmetric] k t v option.case if_P [OF l(3)] by (rule l(2))
qed


section \<open>The numbers of a range\<close>

lemma mt_output_less:
  "unat (mt_output seed i) < 2 ^ 32" "i mod MT_N \<noteq> 0 \<Longrightarrow> unat (mt_output seed i) < 2 ^ 31"
proof -
  define y where "y = (ucast (temper32 (mt_seq seed (MT_N + i))) :: u64)"
  have y: "unat y < 2 ^ 32"
    unfolding y_def by (simp add: unsigned_ucast_eq take_bit_eq_mod) (rule le_less_trans [OF mod_less_eq_dividend unat_less_32])
  have h: "unat (drop_bit 1 y) = unat y div 2" by (simp add: drop_bit_eq_div unat_div_distrib)
  show "unat (mt_output seed i) < 2 ^ 32" using y h by (auto simp: mt_output_def y_def [symmetric] Let_def)
  show "i mod MT_N \<noteq> 0 \<Longrightarrow> unat (mt_output seed i) < 2 ^ 31" using y h by (simp add: mt_output_def y_def [symmetric] Let_def)
qed

lemma sint_half: "unat y < 2 ^ 32 \<Longrightarrow> sint (drop_bit 1 y) = int (unat y div 2)" for y :: u64
proof -
  assume y: "unat y < 2 ^ 32"
  have h: "uint (drop_bit 1 y) = int (unat y div 2)" by (simp add: drop_bit_eq_div uint_nat unat_div_distrib)
  have "signed_take_bit (LENGTH(64) - 1) (uint (drop_bit 1 y)) = uint (drop_bit 1 y)"
    unfolding h using y by (intro signed_take_bit_int_eq_self) simp_all
  then show ?thesis unfolding sint_uint h by simp
qed

text \<open>
  C36. For a range of up to four million numbers, a call returns a number of the range; but a call
  that does not reload the generator only ever returns one of the lower half, since the number it
  scales has been shifted twice.
\<close>

theorem randomMTrange_lower_half:
  assumes "mt_at g seed i" "mn \<le> mx" "mx - mn < 2 ^ 22" "- (2 ^ 63) \<le> mn" "mx < 2 ^ 63"
  shows "yields (\<lambda>(r, g'). mn \<le> r \<and> r \<le> mx \<and> mt_at g' seed (Suc i) \<and>
    (i mod MT_N = 0 \<or> 2 * (r - mn) \<le> mx - mn)) (randomMTrange mn mx g)"
proof -
  obtain g' where g': "randomMT g = Inr (mt_output seed i, g')" "mt_at g' seed (Suc i)" using randomMT_at [OF assms(1)] by blast
  define n where "n = int (unat (mt_output seed i) div 2)"
  define d where "d = mx - mn + 1"
  have n: "sint (drop_bit 1 (mt_output seed i)) = n" "0 \<le> n" "n < 2 ^ 31" "i mod MT_N \<noteq> 0 \<Longrightarrow> n < 2 ^ 30"
    using sint_half [OF mt_output_less(1)] mt_output_less [where seed = seed and i = i] by (simp_all add: n_def)
  have d: "0 < d" using assms(2) by (simp add: d_def)
  have r: "RAND_RANGE n mn mx MT_RAND_MAX = Inr (mn + d * n div 2 ^ 31)"
    unfolding d_def by (rule RAND_RANGE_exact [OF assms(2,3) n(2,3) assms(4,5)])
  have up: "d * n div 2 ^ k < d" if "n < 2 ^ k" for k
    using that d by (intro scaled_less)
  have "d * n div 2 ^ 31 = d * n div 2 ^ 30 div 2" by (simp add: zdiv_zmult2_eq [symmetric])
  then have "2 * (d * n div 2 ^ 31) \<le> d * n div 2 ^ 30" by linarith
  then have "i mod MT_N = 0 \<or> 2 * (d * n div 2 ^ 31) \<le> mx - mn" using up [of 30] n(4) by (cases "i mod MT_N = 0") (simp_all add: d_def)
  moreover have "0 \<le> d * n div 2 ^ 31" "d * n div 2 ^ 31 \<le> mx - mn"
    using d n(2) up [OF n(3)] by (simp_all add: pos_imp_zdiv_nonneg_iff d_def)
  ultimately show ?thesis unfolding randomMTrange_def g'(1) bind_res_simps prod.case n(1) r using g'(2) by auto
qed

theorem randomMTrange_lower_half_witness:
  "\<exists>g. yields (\<lambda>(r, g'). 1 \<le> r \<and> r \<le> 3) (randomMTrange 1 6 g)"
proof -
  obtain g0 where "mt_at g0 5489 0" using seedMT_at [of mt_init 5489] by (auto simp: mt_init_def)
  then obtain g where "mt_at g 5489 1" using randomMT_at by fastforce
  then have "yields (\<lambda>(r, g'). 1 \<le> r \<and> r \<le> 3) (randomMTrange 1 6 g)"
    using randomMTrange_lower_half [of g 5489 1 1 6] by (auto elim!: yieldsE)
  then show ?thesis ..
qed

end
