(* ===== verification/Network.thy ===== *)
theory Network
  imports Prelude Radix
begin

text \<open>
  Mail exchangers of a host, \<open>php_getmxrr\<close> of \<open>runtime/ext/standard/network.c\<close>: the answer of a
  name server is taken apart and two lists of words are printed.  \<open>php_checkdnsrr\<close> chooses the type
  of record to ask for.
\<close>

section \<open>The type of a record\<close>

definition T_A :: nat where "T_A = 1"
definition T_NS :: nat where "T_NS = 2"
definition T_CNAME :: nat where "T_CNAME = 5"
definition T_SOA :: nat where "T_SOA = 6"
definition T_PTR :: nat where "T_PTR = 12"
definition T_MX :: nat where "T_MX = 15"
definition T_ANY :: nat where "T_ANY = 255"

definition case_eq :: "cstr \<Rightarrow> cstr \<Rightarrow> bool" where
  "case_eq a b \<longleftrightarrow> map c_tolower a = map c_tolower b"

definition record_type :: "cstr \<Rightarrow> nat option" where
  "record_type typestr =
     (if case_eq typestr ''MX'' then Some T_MX
      else if case_eq typestr ''A'' then Some T_A
      else if case_eq typestr ''NS'' then Some T_NS
      else if case_eq typestr ''PTR'' then Some T_PTR
      else if case_eq typestr ''ANY'' then Some T_ANY
      else if case_eq typestr ''SOA'' then Some T_SOA
      else if case_eq typestr ''CNAME'' then Some T_CNAME
      else None)"

text \<open>\<open>res_search\<close> is the resolver: the length of its answer or -1.\<close>

definition php_checkdnsrr :: "(cstr \<Rightarrow> nat \<Rightarrow> int) \<Rightarrow> cstr \<Rightarrow> cstr \<Rightarrow> int" where
  "php_checkdnsrr res_search host typestr =
     (case record_type typestr of None \<Rightarrow> - 1 | Some type \<Rightarrow> res_search host type)"

section \<open>Taking an answer apart\<close>

definition NS_GET16 :: "u8 list \<Rightarrow> nat \<Rightarrow> fault + nat" where
  "NS_GET16 ans p = (if p + 1 < length ans then Inr (256 * unat (ans ! p) + unat (ans ! (p + 1))) else Inl OutOfBounds)"

text \<open>
  \<open>dn_skipname\<close> at a position: the length of the name there; \<open>dn_expand\<close>: its length and its text.
\<close>

record resolver =
  dn_skipname :: "u8 list \<Rightarrow> nat \<Rightarrow> nat option"
  dn_expand :: "u8 list \<Rightarrow> nat \<Rightarrow> (nat \<times> cstr) option"

text \<open>
  The two lists, each with the byte in front of it at index 0, and the pointers into them,
  counted from the start of the list.
\<close>

record mx_out =
  mx_list :: "char list"
  mx_pos :: nat
  weight_list :: "char list"
  weight_pos :: nat

text \<open>\<open>sprintf\<close> to the byte before the pointer.\<close>

definition print_before :: "char list \<Rightarrow> nat \<Rightarrow> cstr \<Rightarrow> fault + (char list \<times> nat)" where
  "print_before buf pos s = bind_res (memcpy_at buf pos (s @ [NUL])) (\<lambda>buf. Inr (buf, pos + length s))"

definition put_mx :: "cstr \<Rightarrow> nat \<Rightarrow> mx_out \<Rightarrow> fault + mx_out" where
  "put_mx host weight out =
     bind_res (print_before (mx_list out) (mx_pos out) (SPACE # host @ [SPACE, SPACE])) (\<lambda>(ml, mp).
     bind_res (print_before (weight_list out) (weight_pos out) (SPACE # nat_dec weight @ [SPACE])) (\<lambda>(wl, wp).
     Inr \<lparr>mx_list = ml, mx_pos = mp, weight_list = wl, weight_pos = wp\<rparr>))"

fun skip_questions :: "resolver \<Rightarrow> u8 list \<Rightarrow> nat \<Rightarrow> nat \<Rightarrow> nat option" where
  "skip_questions rs ans 0 body = Some body"
| "skip_questions rs ans (Suc qdcount) body =
     (case dn_skipname rs ans body of None \<Rightarrow> None | Some n \<Rightarrow> skip_questions rs ans qdcount (body + n + 4))"

text \<open>The result is the return value, 0 or -1.\<close>

fun mx_records :: "resolver \<Rightarrow> u8 list \<Rightarrow> nat \<Rightarrow> nat \<Rightarrow> mx_out \<Rightarrow> fault + (int \<times> mx_out)" where
  "mx_records rs ans 0 body out = Inr (0, out)"
| "mx_records rs ans (Suc ancount) body out =
     (if body < length ans
      then case dn_skipname rs ans body of
          None \<Rightarrow> Inr (- 1, out)
        | Some n \<Rightarrow>
            let body = body + n in
            bind_res (NS_GET16 ans body) (\<lambda>type.
            let body = body + 2 + 6 in
            bind_res (NS_GET16 ans body) (\<lambda>n.
            let body = body + 2 in
            if type \<noteq> T_MX then mx_records rs ans ancount (body + n) out
            else bind_res (NS_GET16 ans body) (\<lambda>weight.
              let body = body + 2 in
              case dn_expand rs ans body of
                None \<Rightarrow> Inr (- 1, out)
              | Some (n, host) \<Rightarrow> bind_res (put_mx host weight out) (\<lambda>out. mx_records rs ans ancount (body + n) out))))
      else Inr (0, out))"

text \<open>
  \<open>ans\<close> is what the resolver left in the packet: the result of \<open>res_search\<close> is not looked at.
  Both lists are emptied first.
\<close>

definition php_getmxrr :: "resolver \<Rightarrow> u8 list \<Rightarrow> char list \<Rightarrow> char list \<Rightarrow> fault + (int \<times> mx_out)" where
  "php_getmxrr rs ans ml wl =
     bind_res (wr ml 1 NUL) (\<lambda>ml.
     bind_res (wr wl 1 NUL) (\<lambda>wl.
     let out = \<lparr>mx_list = ml, mx_pos = 0, weight_list = wl, weight_pos = 0\<rparr> in
     bind_res (NS_GET16 ans 4) (\<lambda>qdcount.
     case skip_questions rs ans qdcount 12 of
       None \<Rightarrow> Inr (- 1, out)
     | Some body \<Rightarrow> bind_res (NS_GET16 ans 6) (\<lambda>ancount. mx_records rs ans ancount body out))))"

section \<open>Messages\<close>

definition be16 :: "nat \<Rightarrow> u8 list" where
  "be16 n = [word_of_nat (n div 256), word_of_nat (n mod 256)]"

lemma length_be16 [simp]: "length (be16 n) = 2"
  by (simp add: be16_def)

lemma NS_GET16_be16: "n < 65536 \<Longrightarrow> NS_GET16 (a @ be16 n @ r) (length a) = Inr n"
proof -
  assume n: "n < 65536"
  have "unat (word_of_nat (n div 256) :: u8) = n div 256" "unat (word_of_nat (n mod 256) :: u8) = n mod 256"
    using n by (simp_all add: unat_of_nat)
  then show ?thesis by (simp add: NS_GET16_def be16_def nth_append)
qed

text \<open>A resource record: its owner, six bytes of class and lifetime, its data.\<close>

datatype rdata = MX nat cstr | OtherData nat "u8 list"

type_synonym rr = "cstr \<times> u8 list \<times> rdata"

fun rd_type :: "rdata \<Rightarrow> nat" where
  "rd_type (MX w h) = T_MX"
| "rd_type (OtherData t d) = t"

fun rd_bytes :: "(cstr \<Rightarrow> u8 list) \<Rightarrow> rdata \<Rightarrow> u8 list" where
  "rd_bytes enc (MX w h) = be16 w @ enc h"
| "rd_bytes enc (OtherData t d) = d"

definition rr_bytes :: "(cstr \<Rightarrow> u8 list) \<Rightarrow> rr \<Rightarrow> u8 list" where
  "rr_bytes enc r = (case r of (owner, mid, d) \<Rightarrow>
     enc owner @ be16 (rd_type d) @ mid @ be16 (length (rd_bytes enc d)) @ rd_bytes enc d)"

fun rd_ok :: "(cstr \<Rightarrow> bool) \<Rightarrow> (cstr \<Rightarrow> u8 list) \<Rightarrow> rdata \<Rightarrow> bool" where
  "rd_ok name enc (MX w h) \<longleftrightarrow> w < 65536 \<and> name h \<and> length (enc h) < 65534"
| "rd_ok name enc (OtherData t d) \<longleftrightarrow> t < 65536 \<and> t \<noteq> T_MX \<and> length d < 65536"

definition rr_ok :: "(cstr \<Rightarrow> bool) \<Rightarrow> (cstr \<Rightarrow> u8 list) \<Rightarrow> rr \<Rightarrow> bool" where
  "rr_ok name enc r \<longleftrightarrow> (case r of (owner, mid, d) \<Rightarrow> name owner \<and> length mid = 6 \<and> rd_ok name enc d)"

text \<open>The resolver reads the names that \<open>enc\<close> writes, wherever they are in a message.\<close>

definition reads_names :: "resolver \<Rightarrow> (cstr \<Rightarrow> bool) \<Rightarrow> (cstr \<Rightarrow> u8 list) \<Rightarrow> bool" where
  "reads_names rs name enc \<longleftrightarrow> (\<forall>a n r. name n \<longrightarrow> nul_free n \<and>
     dn_skipname rs (a @ enc n @ r) (length a) = Some (length (enc n)) \<and>
     dn_expand rs (a @ enc n @ r) (length a) = Some (length (enc n), n))"

lemma skip_questions_run:
  assumes "reads_names rs name enc"
  shows "\<forall>(n, q) \<in> set qs. name n \<and> length q = 4 \<Longrightarrow>
    skip_questions rs (a @ concat (map (\<lambda>(n, q). enc n @ q) qs) @ r) (length qs) (length a) =
      Some (length a + length (concat (map (\<lambda>(n, q). enc n @ q) qs)))"
proof (induction qs arbitrary: a)
  case (Cons x qs)
  obtain n q where x: "x = (n, q)" by (cases x)
  have "dn_skipname rs (a @ enc n @ (q @ concat (map (\<lambda>(n, q). enc n @ q) qs) @ r)) (length a) = Some (length (enc n))"
    using assms Cons.prems x unfolding reads_names_def by auto
  then show ?case using Cons.IH [of "a @ enc n @ q"] Cons.prems x by (simp add: add.assoc)
qed simp

text \<open>The text of the lists, with the byte in front.\<close>

definition mx_hosts :: "rr list \<Rightarrow> (nat \<times> cstr) list" where
  "mx_hosts rrs = List.map_filter (\<lambda>(owner, mid, d). case d of MX w h \<Rightarrow> Some (w, h) | OtherData t b \<Rightarrow> None) rrs"

definition host_text :: "(nat \<times> cstr) list \<Rightarrow> cstr" where
  "host_text ws = concat (map (\<lambda>(w, h). SPACE # h @ [SPACE, SPACE]) ws)"

definition weight_text :: "(nat \<times> cstr) list \<Rightarrow> cstr" where
  "weight_text ws = concat (map (\<lambda>(w, h). SPACE # nat_dec w @ [SPACE]) ws)"

definition out_holds :: "cstr \<Rightarrow> cstr \<Rightarrow> mx_out \<Rightarrow> bool" where
  "out_holds s t out \<longleftrightarrow> mx_pos out = length s \<and> take (length s) (mx_list out) = s \<and>
     weight_pos out = length t \<and> take (length t) (weight_list out) = t \<and>
     (s \<noteq> [] \<longrightarrow> length s < length (mx_list out) \<and> mx_list out ! length s = NUL) \<and>
     (t \<noteq> [] \<longrightarrow> length t < length (weight_list out) \<and> weight_list out ! length t = NUL)"

lemma print_before_run:
  "take (length s) buf = s \<Longrightarrow> length s + length x < length buf \<Longrightarrow>
   \<exists>buf'. print_before buf (length s) x = Inr (buf', length (s @ x)) \<and> length buf' = length buf \<and>
     take (length (s @ x)) buf' = s @ x \<and> buf' ! length (s @ x) = NUL"
proof -
  assume a: "take (length s) buf = s" "length s + length x < length buf"
  define buf' where "buf' = (s @ x) @ NUL # drop (length s + length x + 1) buf"
  have "print_before buf (length s) x = Inr (buf', length (s @ x))" using a by (simp add: print_before_def memcpy_at_def buf'_def)
  moreover have "length buf' = length buf" using a by (simp add: buf'_def)
  moreover have "take (length (s @ x)) buf' = s @ x" "buf' ! length (s @ x) = NUL" unfolding buf'_def by (simp, rule nth_append_length)
  ultimately show ?thesis by blast
qed

lemma put_mx_run:
  assumes "out_holds s t out" "length s + length h + 4 \<le> length (mx_list out)" "length t + length (nat_dec w) + 3 \<le> length (weight_list out)"
  shows "yields (\<lambda>out'. out_holds (s @ SPACE # h @ [SPACE, SPACE]) (t @ SPACE # nat_dec w @ [SPACE]) out' \<and>
      length (mx_list out') = length (mx_list out) \<and> length (weight_list out') = length (weight_list out)) (put_mx h w out)"
proof -
  obtain ml where m: "print_before (mx_list out) (mx_pos out) (SPACE # h @ [SPACE, SPACE]) = Inr (ml, length (s @ SPACE # h @ [SPACE, SPACE]))"
    "length ml = length (mx_list out)" "take (length (s @ SPACE # h @ [SPACE, SPACE])) ml = s @ SPACE # h @ [SPACE, SPACE]"
    "ml ! length (s @ SPACE # h @ [SPACE, SPACE]) = NUL"
    using print_before_run [of s "mx_list out" "SPACE # h @ [SPACE, SPACE]"] assms(1,2) by (auto simp: out_holds_def)
  obtain wl where w: "print_before (weight_list out) (weight_pos out) (SPACE # nat_dec w @ [SPACE]) = Inr (wl, length (t @ SPACE # nat_dec w @ [SPACE]))"
    "length wl = length (weight_list out)" "take (length (t @ SPACE # nat_dec w @ [SPACE])) wl = t @ SPACE # nat_dec w @ [SPACE]"
    "wl ! length (t @ SPACE # nat_dec w @ [SPACE]) = NUL"
    using print_before_run [of t "weight_list out" "SPACE # nat_dec w @ [SPACE]"] assms(1,3) by (auto simp: out_holds_def)
  have "put_mx h w out = Inr \<lparr>mx_list = ml, mx_pos = length (s @ SPACE # h @ [SPACE, SPACE]), weight_list = wl,
      weight_pos = length (t @ SPACE # nat_dec w @ [SPACE])\<rparr>"
    unfolding put_mx_def m(1) w(1) by simp
  then show ?thesis using m(2-4) w(2-4) assms(2,3) by (simp add: out_holds_def del: length_append append_assoc) simp
qed

lemma mx_records_run:
  assumes "reads_names rs name enc"
  shows "\<forall>x \<in> set rrs. rr_ok name enc x \<Longrightarrow> ans = a @ concat (map (rr_bytes enc) rrs) @ r \<Longrightarrow> out_holds s t out \<Longrightarrow>
    length s + length (host_text (mx_hosts rrs)) < length (mx_list out) \<Longrightarrow>
    length t + length (weight_text (mx_hosts rrs)) < length (weight_list out) \<Longrightarrow>
    yields (\<lambda>(ret, out'). ret = 0 \<and> out_holds (s @ host_text (mx_hosts rrs)) (t @ weight_text (mx_hosts rrs)) out' \<and>
        (mx_hosts rrs = [] \<longrightarrow> out' = out))
      (mx_records rs ans (length rrs) (length a) out)"
proof (induction rrs arbitrary: a s t out)
  case Nil
  then show ?case by (simp add: mx_hosts_def map_filter_simps host_text_def weight_text_def)
next
  case (Cons x rrs)
  obtain owner mid d where x: "x = (owner, mid, d)" by (cases x)
  have ok: "name owner" "length mid = 6" "rd_ok name enc d" using Cons.prems(1) x by (auto simp: rr_ok_def)
  define tail where "tail = concat (map (rr_bytes enc) rrs) @ r"
  define db where "db = rd_bytes enc d"
  have ans: "ans = a @ enc owner @ be16 (rd_type d) @ mid @ be16 (length db) @ db @ tail"
    using Cons.prems(2) by (simp add: x rr_bytes_def [of enc "(owner, mid, d)"] db_def tail_def)
  have sk: "dn_skipname rs ans (length a) = Some (length (enc owner))"
    using assms ok(1) unfolding ans reads_names_def by blast
  have ty: "NS_GET16 ans (length a + length (enc owner)) = Inr (rd_type d)"
  proof -
    have "rd_type d < 65536" using ok(3) by (cases d) (simp_all add: T_MX_def)
    from NS_GET16_be16 [OF this, of "a @ enc owner"] show ?thesis unfolding ans by simp
  qed
  have ln: "NS_GET16 ans (length a + length (enc owner) + 2 + 6) = Inr (length db)"
  proof -
    have "length db < 65536" using ok(3) by (cases d) (simp_all add: db_def)
    from NS_GET16_be16 [OF this, of "a @ enc owner @ be16 (rd_type d) @ mid"] show ?thesis unfolding ans using ok(2) by (simp add: ac_simps)
  qed
  have inside: "length a < length ans" unfolding ans by simp
  define b where "b = length a + length (enc owner) + 2 + 6 + 2"
  have la: "length (a @ rr_bytes enc x) = b + length db" using ok(2) by (simp add: x rr_bytes_def db_def b_def)
  have ans': "ans = (a @ rr_bytes enc x) @ concat (map (rr_bytes enc) rrs) @ r" using Cons.prems(2) by simp
  show ?case
  proof (cases d)
    case (OtherData ty' by')
    then have "mx_records rs ans (length (x # rrs)) (length a) out = mx_records rs ans (length rrs) (b + length db) out"
      using ok(3) inside sk ty ln by (simp add: Let_def b_def add.assoc)
    moreover have "mx_hosts (x # rrs) = mx_hosts rrs" by (simp add: mx_hosts_def map_filter_simps x OtherData)
    ultimately show ?thesis using Cons.IH [of "a @ rr_bytes enc x" s t out] Cons.prems ans' la by simp
  next
    case (MX w h)
    have w: "NS_GET16 ans b = Inr w"
    proof -
      have "w < 65536" using ok(3) MX by simp
      from NS_GET16_be16 [OF this, of "a @ enc owner @ be16 (rd_type d) @ mid @ be16 (length db)"] show ?thesis
        unfolding ans using ok(2) MX by (simp add: db_def b_def ac_simps)
    qed
    have ex: "dn_expand rs ans (b + 2) = Some (length (enc h), h)"
    proof -
      have "ans = (a @ enc owner @ be16 (rd_type d) @ mid @ be16 (length db) @ be16 w) @ enc h @ tail"
        unfolding ans using MX by (simp add: db_def)
      moreover have "length (a @ enc owner @ be16 (rd_type d) @ mid @ be16 (length db) @ be16 w) = b + 2" using ok(2) by (simp add: b_def)
      ultimately show ?thesis using assms ok(3) MX unfolding reads_names_def by (metis rd_ok.simps(1))
    qed
    have hosts: "mx_hosts (x # rrs) = (w, h) # mx_hosts rrs" by (simp add: mx_hosts_def map_filter_simps x MX)
    have "yields (\<lambda>out'. out_holds (s @ SPACE # h @ [SPACE, SPACE]) (t @ SPACE # nat_dec w @ [SPACE]) out' \<and>
        length (mx_list out') = length (mx_list out) \<and> length (weight_list out') = length (weight_list out)) (put_mx h w out)"
      using Cons.prems(3-5) hosts by (intro put_mx_run) (simp_all add: host_text_def weight_text_def)
    then obtain out' where out': "put_mx h w out = Inr out'" "out_holds (s @ SPACE # h @ [SPACE, SPACE]) (t @ SPACE # nat_dec w @ [SPACE]) out'"
      "length (mx_list out') = length (mx_list out)" "length (weight_list out') = length (weight_list out)" by (auto elim: yieldsE)
    have "mx_records rs ans (length (x # rrs)) (length a) out = mx_records rs ans (length rrs) (b + length db) out'"
      using MX inside sk ty ln w ex out'(1) by (simp add: Let_def b_def db_def add.assoc)
    moreover have "yields (\<lambda>(ret, o'). ret = 0 \<and>
        out_holds ((s @ SPACE # h @ [SPACE, SPACE]) @ host_text (mx_hosts rrs)) ((t @ SPACE # nat_dec w @ [SPACE]) @ weight_text (mx_hosts rrs)) o' \<and>
        (mx_hosts rrs = [] \<longrightarrow> o' = out'))
      (mx_records rs ans (length rrs) (length (a @ rr_bytes enc x)) out')"
      using Cons.prems(1,4,5) hosts out'(2-4) ans' by (intro Cons.IH) (simp_all add: host_text_def weight_text_def)
    ultimately show ?thesis using la hosts by (auto simp: host_text_def weight_text_def elim!: yieldsE)
  qed
qed


lemma host_text_nul_free: "\<forall>(w, h) \<in> set ws. nul_free h \<Longrightarrow> nul_free (host_text ws) \<and> nul_free (weight_text ws)"
proof (induction ws)
  case (Cons x ws)
  have "nul_free (nat_dec n)" for n using nat_dec_digits [of NUL n] by (auto simp: nul_free_def)
  then show ?case using Cons by (cases x) (simp add: host_text_def weight_text_def)
qed (simp add: host_text_def weight_text_def)

lemma mx_hosts_names: "\<forall>x \<in> set rrs. rr_ok name enc x \<Longrightarrow> (w, h) \<in> set (mx_hosts rrs) \<Longrightarrow> name h"
  by (induction rrs) (auto simp: mx_hosts_def map_filter_simps rr_ok_def split: rdata.splits if_splits)

text \<open>
  The list that the caller has: the text without the byte in front of the list, which becomes a
  space when there is an entry.
\<close>

lemma list_seen:
  assumes "take (length s) buf = s" "s \<noteq> [] \<longrightarrow> length s < length buf \<and> buf ! length s = NUL" "nul_free s" "s = [] \<or> hd s = SPACE"
    and "s = [] \<Longrightarrow> buf = old[1 := NUL]" "1 < length old"
  shows "upto_nul (drop 1 buf) = drop 1 s \<and> buf ! 0 = (if s = [] then old ! 0 else SPACE)"
proof (cases s)
  case Nil
  then have b: "buf = old[1 := NUL]" using assms(5) by simp
  obtain x y z where "old = x # y # z" using assms(6) by (cases old; cases "tl old") auto
  then show ?thesis using Nil b by (simp add: upto_nul_def)
next
  case (Cons x s')
  then have l: "length s < length buf" "buf ! length s = NUL" using assms(2) by simp_all
  have "buf = s @ NUL # drop (length s + 1) buf" using id_take_nth_drop [OF l(1)] assms(1) l(2) by simp
  then obtain r where r: "buf = s @ NUL # r" ..
  have "upto_nul (s' @ NUL # r) = s'" using assms(3) Cons by (simp add: upto_nul_cut)
  then show ?thesis using r Cons assms(4) by simp
qed


text \<open>Names without compression: labels with their lengths, and a zero byte.\<close>

definition demo_enc :: "cstr \<Rightarrow> u8 list" where
  "demo_enc n = word_of_nat (length n) # map (\<lambda>c. word_of_nat (code c)) n @ [0]"

definition demo_resolver :: resolver where
  "demo_resolver =
     \<lparr>dn_skipname = (\<lambda>ans p. Some (unat (ans ! p) + 2)),
      dn_expand = (\<lambda>ans p. Some (unat (ans ! p) + 2, map (\<lambda>b. char_of (unat b)) (take (unat (ans ! p)) (drop (p + 1) ans))))\<rparr>"

lemma demo_reads: "reads_names demo_resolver (\<lambda>n. length n < 64 \<and> nul_free n) demo_enc"
proof -
  have c: "map ((\<lambda>b. char_of (unat b)) \<circ> (\<lambda>c. word_of_nat (code c) :: u8)) n = n" for n
    by (induction n) (simp_all add: unat_of_nat)
  have l: "length n < 64 \<Longrightarrow> unat (word_of_nat (length n) :: u8) = length n" for n :: cstr by (simp add: unat_of_nat)
  show ?thesis unfolding reads_names_def demo_resolver_def demo_enc_def
    using l c by (auto simp: nth_append)
qed


end
