(* ===== verification/LwsDirectory.thy ===== *)
theory LwsDirectory
  imports LwsProcess Dbl Radix
begin

text \<open>
  The directory alias of the web server, \<open>__ILWS_lws_list\<close> of \<open>tools/libwebserver/src/client.c\<close>:
  a file with the type that the server's table gives its extension, or a page with the names of
  a directory that match a wildcard.
\<close>

section \<open>The type of a file\<close>

text \<open>
  The next token of \<open>strtok\<close> with a line feed as the only delimiter, and the rest of the string.
\<close>

definition strtok_lf :: "cstr \<Rightarrow> (cstr \<times> cstr) option" where
  "strtok_lf s =
     (let s = dropWhile (\<lambda>c. c = LF) s in
      if s = [] then None else Some (takeWhile (\<lambda>c. c \<noteq> LF) s, drop 1 (dropWhile (\<lambda>c. c \<noteq> LF) s)))"

text \<open>
  The inner loop: from \<open>k\<close> on, the next occurrence of the extension that stands between spaces.
  The byte in front of a line is a line feed or the NUL that \<open>strtok\<close> wrote, never a space.
\<close>

fun scan_line :: "nat \<Rightarrow> cstr \<Rightarrow> cstr \<Rightarrow> nat \<Rightarrow> fault + cstr option" where
  "scan_line 0 ext line k = Inl OutOfFuel"
| "scan_line (Suc fuel) ext line k =
     (case c_strstr (drop k line) ext of
        None \<Rightarrow> Inr None
      | Some t \<Rightarrow>
          let tmp = k + t; before = (if tmp = 0 then LF else line ! (tmp - 1)); behind = hb line (tmp + length ext) in
          if before = SPACE \<and> (behind = SPACE \<or> behind = NUL) then Inr (Some (takeWhile (\<lambda>c. c \<noteq> SPACE) line))
          else scan_line fuel ext line (tmp + length ext))"

lemma strtok_lf_shorter: "strtok_lf s = Some (l, r) \<Longrightarrow> length r < length s"
proof -
  assume a: "strtok_lf s = Some (l, r)"
  define s1 where "s1 = dropWhile (\<lambda>c. c = LF) s"
  have s1: "s1 \<noteq> []" "r = drop 1 (dropWhile (\<lambda>c. c \<noteq> LF) s1)" using a by (auto simp: strtok_lf_def s1_def Let_def split: if_splits)
  have "length r \<le> length s1 - 1" using s1(2) length_dropWhile_le [of "\<lambda>c. c \<noteq> LF" s1] by simp
  moreover have "length s1 \<le> length s" by (simp add: s1_def length_dropWhile_le)
  ultimately show ?thesis using s1(1) by (cases s1) auto
qed

function scan_types :: "nat \<Rightarrow> cstr \<Rightarrow> cstr \<Rightarrow> fault + cstr option" where
  "scan_types fuel ext s =
     (case strtok_lf s of
        None \<Rightarrow> Inr None
      | Some (line, s) \<Rightarrow>
          bind_res (if at0 line \<noteq> CHR ''#'' then scan_line fuel ext line 0 else Inr None) (\<lambda>r.
          case r of Some ct \<Rightarrow> Inr (Some ct) | None \<Rightarrow> scan_types fuel ext s))"
  by pat_completeness auto
termination by (relation "measure (\<lambda>(f, e, s). length s)") (auto dest: strtok_lf_shorter)

declare scan_types.simps [simp del]

text \<open>
  The table of the server is read into a block that the code takes to be two bytes longer than
  the file, since it asks for the end plus \<open>SEEK_END\<close>; \<open>junk\<close> is what is in the block.
\<close>

record mime_world =
  mm_file :: "cstr option"
  mm_open :: "cstr \<Rightarrow> char list option"
  mm_junk :: "nat \<Rightarrow> char list"

definition content_type :: "cstr \<Rightarrow> cstr" where
  "content_type t = ''Content-type: '' @ t @ http_crlf @ http_crlf"

definition mime_block :: "mime_world \<Rightarrow> char list \<Rightarrow> char list" where
  "mime_block m data =
     (let mimesize = length data + 2; block = data @ drop (length data) (mm_junk m (mimesize + 1)) in
      map (\<lambda>c. if c = CHR 0x09 then SPACE else c) (take mimesize block))"

definition web_client_contenttype :: "nat \<Rightarrow> mime_world \<Rightarrow> cstr option \<Rightarrow> fault + cstr list" where
  "web_client_contenttype fuel m ext =
     (case (ext, mm_file m) of
        (Some ext, Some f) \<Rightarrow>
          (case mm_open m f of
             None \<Rightarrow> Inr []
           | Some data \<Rightarrow>
               let mimedata = upto_nul (mime_block m data) in
               case strtok_lf mimedata of
                 None \<Rightarrow> Inr [content_type ''text/plain'']
               | Some (first, rest) \<Rightarrow>
                   bind_res (scan_types fuel ext rest) (\<lambda>r. Inr [content_type (case r of Some ct \<Rightarrow> ct | None \<Rightarrow> ''text/plain'')]))
      | _ \<Rightarrow> Inr [content_type ''text/plain''])"

section \<open>The size of a file\<close>

text \<open>The size as a \<open>float\<close>: rounded to 24 bits, divided by 1024 without a further rounding.\<close>

definition float_size :: "nat \<Rightarrow> nat" where
  "float_size m = (let sh = nat_bits m - 24 in if sh = 0 then m else rnd_shift m sh * 2 ^ sh)"

function size_unit :: "nat \<Rightarrow> nat \<Rightarrow> nat" where
  "size_unit m u = (if 1024 ^ (u + 1) < m then size_unit m (u + 1) else u)"
  by pat_completeness auto
termination
proof (relation "measure (\<lambda>(m, u). m - 1024 ^ u)")
  show "wf (measure (\<lambda>(m, u :: nat). m - 1024 ^ u))" by simp
  fix m u :: nat assume "1024 ^ (u + 1) < m"
  moreover have "(1024 :: nat) ^ u < 1024 ^ (u + 1)" by simp
  ultimately show "((m, u + 1), m, u) \<in> measure (\<lambda>(m, u). m - 1024 ^ u)" by (simp only: in_measure prod.case)
qed

declare size_unit.simps [simp del]

text \<open>\<open>%.1f\<close> of the quotient, rounded to nearest, and the letter of the unit.\<close>

definition size_text :: "nat \<Rightarrow> cstr" where
  "size_text m =
     (let f = float_size m; u = size_unit f 0; t = rnd_shift (10 * f) (10 * u) in
      nat_dec (t div 10) @ ''.'' @ nat_dec (t mod 10) @ [if u = 2 then CHR ''M'' else if u = 1 then CHR ''K'' else CHR ''b''])"

section \<open>The page of a directory\<close>

text \<open>\<open>S_IFDIR\<close> is one bit of the mode.\<close>

record file_stat =
  st_mode :: nat
  st_size :: nat
  st_mtime :: int

definition is_dir :: "file_stat \<Rightarrow> bool" where
  "is_dir s \<longleftrightarrow> bit (st_mode s) 14"

record dir_world = mime_world +
  dw_stat :: "cstr \<Rightarrow> file_stat option"
  dw_opendir :: "cstr \<Rightarrow> cstr list option"
  dw_date :: "int \<Rightarrow> cstr"
  dw_modified :: "int \<Rightarrow> cstr"
  dw_version :: cstr

record dir_answer =
  da_directive :: "cstr option"
  da_out :: "cstr list"
  da_files :: "cstr list"
  da_ret :: int

abbreviation TAB :: char where "TAB \<equiv> CHR 0x09"
abbreviation QUOTE :: char where "QUOTE \<equiv> CHR 0x22"

definition slash_between :: "cstr \<Rightarrow> fault + cstr" where
  "slash_between d = (if d = [] then Inl OutOfBounds else Inr (if last d = CHR ''/'' then [] else ''/''))"

definition no_flags :: fnm_flags where
  "no_flags = \<lparr>FNM_NOESCAPE = False, FNM_PATHNAME = False, FNM_PERIOD = False\<rparr>"

definition list_shown :: "cstr \<Rightarrow> cstr \<Rightarrow> cstr \<Rightarrow> cstr \<Rightarrow> bool" where
  "list_shown inpath dirpath wild n \<longleftrightarrow>
     (at0 n \<noteq> CHR ''.'' \<or> (dirpath \<noteq> inpath \<and> n = ''..'')) \<and> (fnmatch no_flags wild [] n \<or> wild = [])"

definition list_line :: "dir_world \<Rightarrow> cstr \<Rightarrow> file_stat \<Rightarrow> cstr" where
  "list_line w n s =
     dw_date w (st_mtime s) @ [TAB] @
     (if is_dir s
      then ''&lt;DIR&gt;'' @ [TAB] @ ''<a href='' @ [QUOTE] @ n @ ''/'' @ [QUOTE] @ ''>'' @ n @ ''</a>'' @ [LF]
      else size_text (st_size s) @ [TAB] @ ''<a href='' @ [QUOTE] @ n @ [QUOTE] @ ''>'' @ n @ ''</a>'' @ [LF])"

fun list_names :: "dir_world \<Rightarrow> cstr \<Rightarrow> cstr \<Rightarrow> cstr \<Rightarrow> cstr list \<Rightarrow> fault + cstr list" where
  "list_names w inpath dirpath wild [] = Inr []"
| "list_names w inpath dirpath wild (n # ns) =
     bind_res (if list_shown inpath dirpath wild n
         then bind_res (slash_between dirpath) (\<lambda>sl.
           Inr (case dw_stat w (dirpath @ sl @ n) of None \<Rightarrow> [] | Some s \<Rightarrow> [list_line w n s]))
         else Inr []) (\<lambda>l.
     bind_res (list_names w inpath dirpath wild ns) (\<lambda>ls. Inr (l @ ls)))"

definition page_head :: "cstr \<Rightarrow> cstr \<Rightarrow> cstr list" where
  "page_head dirpath wild =
     [''Content-type: text/html'' @ http_crlf @ http_crlf,
      ''<HTML><HEAD><TITLE>Contents of '' @ dirpath @ ''</TITLE></HEAD><BODY>'' @ [LF],
      ''<h1>Contents of directory '' @ dirpath @ ''</h1><HR>'' @ [LF],
      ''<form><input type=text name=match value='' @ [QUOTE] @ (if wild \<noteq> [] then wild else ''*'') @ [QUOTE] @
        ''><input type=submit name='' @ apostrophe @ ''send'' @ apostrophe @ '' value='' @ apostrophe @ ''wildcard'' @ apostrophe @
        ''></form>'' @ [LF],
      ''<PRE>'' @ [LF]]"

definition page_foot :: "dir_world \<Rightarrow> cstr list" where
  "page_foot w =
     [''</PRE>'' @ [LF], ''<HR>'' @ [LF], ''<address>'' @ dw_version w @ ''</address>'' @ [LF], ''</BODY></HTML>'' @ http_crlf]"

text \<open>The answer for a name that is not there, with an extra text for a directory without its slash.\<close>

definition not_there :: "dir_world \<Rightarrow> cstr \<Rightarrow> cstr \<Rightarrow> dir_answer" where
  "not_there w path extra =
     \<lparr>da_directive = Some ''HTTP/1.1 404 File Not Found'',
      da_out = [''Content-type: text/html'' @ http_crlf @ http_crlf @
        ''<HTML><title>file not found</title><body bgcolor=FFFFFF><font size=6>404 FILE NOT FOUND</font><BR><BR><small>The request '' @
        [QUOTE] @ path @ [QUOTE] @ '' wasn'' @ apostrophe @ ''t found'' @ extra @ ''</small><BR><HR><small><i>'' @ dw_version w @
        ''</i></small></body></html>'' @ [LF, CR]],
      da_files = [], da_ret = 0\<rparr>"

text \<open>What \<open>strrchr\<close> finds; a period in front of the last slash starts no extension.\<close>

fun c_strrchr :: "char \<Rightarrow> cstr \<Rightarrow> nat option" where
  "c_strrchr c [] = None"
| "c_strrchr c (x # s) = (case c_strrchr c s of Some i \<Rightarrow> Some (Suc i) | None \<Rightarrow> if x = c then Some 0 else None)"

definition file_extension :: "cstr \<Rightarrow> cstr option" where
  "file_extension filepath =
     (case c_strrchr CHR ''.'' filepath of
        None \<Rightarrow> None
      | Some i \<Rightarrow> (case c_strrchr CHR ''/'' filepath of
          None \<Rightarrow> Some (drop (i + 1) filepath)
        | Some j \<Rightarrow> if i + 1 \<le> j then None else Some (drop (i + 1) filepath)))"

definition list_directory :: "dir_world \<Rightarrow> cstr \<Rightarrow> cstr \<Rightarrow> cstr \<Rightarrow> fault + dir_answer" where
  "list_directory w inpath dirpath wild =
     (case dw_opendir w dirpath of
        None \<Rightarrow> Inr (not_there w dirpath [])
      | Some names \<Rightarrow>
          bind_res (list_names w inpath dirpath wild names) (\<lambda>ls.
          Inr \<lparr>da_directive = None, da_out = page_head dirpath wild @ ls @ page_foot w, da_files = [], da_ret = 1\<rparr>))"

definition send_file :: "nat \<Rightarrow> dir_world \<Rightarrow> cstr \<Rightarrow> file_stat \<Rightarrow> fault + dir_answer" where
  "send_file fuel w filepath s =
     bind_res (web_client_contenttype fuel (mime_world.truncate w) (file_extension filepath)) (\<lambda>ct.
     Inr \<lparr>da_directive = None, da_out = (''Last-Modified: '' @ dw_modified w (st_mtime s) @ http_crlf) # ct,
       da_files = [filepath], da_ret = 1\<rparr>)"

text \<open>
  \<open>wild\<close> is the parameter \<open>match\<close> of the query.  The message for a directory that is asked for
  without its slash differs from the others in the words between the name and the end.
\<close>

definition lws_list :: "nat \<Rightarrow> dir_world \<Rightarrow> cstr \<Rightarrow> cstr \<Rightarrow> cstr \<Rightarrow> fault + dir_answer" where
  "lws_list fuel w inpath request wild =
     (let readfile = served_name request in
      if readfile = [] then list_directory w inpath inpath wild
      else bind_res (served_path inpath readfile) (\<lambda>filepath.
        if last readfile = CHR ''/'' then list_directory w inpath filepath wild
        else case dw_stat w filepath of
          None \<Rightarrow> Inr (not_there w filepath [])
        | Some s \<Rightarrow>
            if \<not> is_dir s then send_file fuel w filepath s
            else Inr (not_there w filepath ('', try this <a href='' @ apostrophe @ request @ ''/'' @ apostrophe @ ''>link</a>''))))"


section \<open>The type is the one of a line with the extension\<close>

definition has_word :: "cstr \<Rightarrow> cstr \<Rightarrow> bool" where
  "has_word ext l \<longleftrightarrow> (\<exists>a b. l = a @ SPACE # ext @ b \<and> (b = [] \<or> hd b = SPACE))"

definition word_at :: "cstr \<Rightarrow> cstr \<Rightarrow> nat \<Rightarrow> bool" where
  "word_at ext l p \<longleftrightarrow> 0 < p \<and> p \<le> length l \<and> l ! (p - 1) = SPACE \<and> take (length ext) (drop p l) = ext \<and>
     (hb l (p + length ext) = SPACE \<or> hb l (p + length ext) = NUL)"

lemma has_word_at: "nul_free l \<Longrightarrow> has_word ext l \<longleftrightarrow> (\<exists>p. word_at ext l p)"
proof
  assume "has_word ext l"
  then obtain a b where l: "l = (a @ [SPACE]) @ ext @ b" and b: "b = [] \<or> hd b = SPACE" by (auto simp: has_word_def)
  have "hb l (length (a @ [SPACE]) + length ext) = (if b = [] then NUL else hd b)"
    unfolding l hb_def by (cases b) (auto simp: nth_append)
  moreover have "l ! (length (a @ [SPACE]) - 1) = SPACE" unfolding l by (simp add: nth_append)
  ultimately have "word_at ext l (length (a @ [SPACE]))" using b unfolding word_at_def l by auto
  then show "\<exists>p. word_at ext l p" ..
next
  assume nf: "nul_free l" and "\<exists>p. word_at ext l p"
  then obtain p where p: "word_at ext l p" by blast
  obtain q where q: "p = Suc q" using p by (cases p) (auto simp: word_at_def)
  have lq: "q < length l" "l ! q = SPACE" "take (length ext) (drop (Suc q) l) = ext" using p by (auto simp: word_at_def q)
  define b where "b = drop (length ext) (drop (Suc q) l)"
  have "drop (Suc q) l = ext @ b" using append_take_drop_id [of "length ext" "drop (Suc q) l"] lq(3) by (simp add: b_def)
  then have l: "l = take q l @ SPACE # ext @ b" using id_take_nth_drop [OF lq(1)] lq(2) by simp
  have "b = [] \<or> hd b = SPACE"
  proof (cases b)
    case (Cons x b')
    have "hb l (p + length ext) = x" using lq(1) by (subst l) (simp add: hb_def q Cons nth_append)
    moreover have "x \<noteq> NUL" using nf Cons by (subst (asm) l) simp
    ultimately show ?thesis using p Cons by (auto simp: word_at_def)
  qed simp
  then show "has_word ext l" using l unfolding has_word_def by blast
qed

lemma scan_line_run:
  assumes ext: "ext \<noteq> []" "SPACE \<notin> set ext" and nf: "nul_free line"
  shows "k \<le> length line \<Longrightarrow> \<forall>p < k. \<not> word_at ext line p \<Longrightarrow> length line < fuel + k \<Longrightarrow>
    scan_line fuel ext line k = Inr (if has_word ext line then Some (takeWhile (\<lambda>c. c \<noteq> SPACE) line) else None)"
proof (induction fuel arbitrary: k)
  case (Suc fuel)
  show ?case
  proof (cases "c_strstr (drop k line) ext")
    case None
    have "\<not> word_at ext line p" for p
    proof
      assume w: "word_at ext line p"
      then have "k \<le> p" using Suc.prems(2) by (meson not_less)
      then have "drop k line = take (p - k) (drop k line) @ ext @ drop (length ext) (drop p line)"
        using w append_take_drop_id [of "p - k" "drop k line"] append_take_drop_id [of "length ext" "drop p line"]
        by (simp add: word_at_def)
      then have "occurs_in ext (drop k line)" unfolding occurs_in_def by blast
      then show False using c_strstr_occurs [OF None] by blast
    qed
    then show ?thesis using None has_word_at [OF nf, of ext] by simp
  next
    case (Some t)
    define tmp where "tmp = k + t"
    have occ: "take (length ext) (drop tmp line) = ext" "tmp + length ext \<le> length line"
      using c_strstr_Some [OF Some] Suc.prems(1) by (auto simp: tmp_def add.commute)
    have first: "\<not> word_at ext line p" if "k \<le> p" "p < tmp" for p
      using c_strstr_before [OF Some, of "p - k"] that by (auto simp: word_at_def tmp_def)
    show ?thesis
    proof (cases "word_at ext line tmp")
      case True
      then show ?thesis using Some has_word_at [OF nf, of ext] by (auto simp: tmp_def [symmetric] Let_def word_at_def)
    next
      case False
      have inner: "\<not> word_at ext line p" if "tmp < p" "p < tmp + length ext" for p
      proof
        assume "word_at ext line p"
        then have "line ! (p - 1) = SPACE" by (simp add: word_at_def)
        moreover have "line ! (p - 1) = ext ! (p - 1 - tmp)"
        proof -
          have "line ! (p - 1) = drop tmp line ! (p - 1 - tmp)" using that occ(2) by simp
          also have "\<dots> = take (length ext) (drop tmp line) ! (p - 1 - tmp)" using that by simp
          finally show ?thesis by (simp only: occ(1))
        qed
        ultimately show False using ext(2) nth_mem [of "p - 1 - tmp" ext] that by auto
      qed
      have no: "\<not> word_at ext line p" if "p < tmp + length ext" for p
        using that Suc.prems(2) first inner False by (cases "p < k"; cases "p < tmp"; cases "p = tmp") auto
      have "scan_line (Suc fuel) ext line k = scan_line fuel ext line (tmp + length ext)"
        using Some False occ by (auto simp: tmp_def [symmetric] Let_def word_at_def)
      moreover have "length line < fuel + (tmp + length ext)" using Suc.prems(3) ext(1) by (cases ext) (auto simp: tmp_def)
      ultimately show ?thesis using Suc.IH [of "tmp + length ext"] no occ(2) by simp
    qed
  qed
qed (simp)

function line_list :: "cstr \<Rightarrow> cstr list" where
  "line_list s = (case strtok_lf s of None \<Rightarrow> [] | Some (l, r) \<Rightarrow> l # line_list r)"
  by pat_completeness auto
termination by (relation "measure length") (auto dest: strtok_lf_shorter)

declare line_list.simps [simp del]

lemma strtok_lf_parts: "strtok_lf s = Some (l, r) \<Longrightarrow> nul_free s \<Longrightarrow> nul_free l \<and> nul_free r \<and> length l \<le> length s"
proof -
  assume a: "strtok_lf s = Some (l, r)" and n: "nul_free s"
  define s1 where "s1 = dropWhile (\<lambda>c. c = LF) s"
  have p: "l = takeWhile (\<lambda>c. c \<noteq> LF) s1" "r = drop 1 (dropWhile (\<lambda>c. c \<noteq> LF) s1)"
    using a by (auto simp: strtok_lf_def s1_def Let_def split: if_splits)
  have "nul_free s1" using n by (auto simp: nul_free_def s1_def dest: set_dropWhileD)
  then have "nul_free l" "nul_free r"
    using p by (auto simp: nul_free_def dest: set_takeWhileD in_set_dropD set_dropWhileD)
  moreover have "length l \<le> length s"
    unfolding p s1_def by (rule order_trans [OF length_takeWhile_le length_dropWhile_le])
  ultimately show ?thesis by simp
qed

definition gives_type :: "cstr \<Rightarrow> cstr \<Rightarrow> bool" where
  "gives_type ext l \<longleftrightarrow> at0 l \<noteq> CHR ''#'' \<and> has_word ext l"

lemma scan_types_run:
  "ext \<noteq> [] \<Longrightarrow> SPACE \<notin> set ext \<Longrightarrow> nul_free s \<Longrightarrow> length s < fuel \<Longrightarrow>
   scan_types fuel ext s = Inr (map_option (takeWhile (\<lambda>c. c \<noteq> SPACE)) (find (gives_type ext) (line_list s)))"
proof (induction s rule: line_list.induct)
  case (1 s)
  show ?case
  proof (cases "strtok_lf s")
    case None
    then show ?thesis by (simp add: scan_types.simps line_list.simps)
  next
    case (Some lr)
    obtain l r where lr: "lr = (l, r)" by (cases lr)
    have n: "nul_free l" "nul_free r" "length l \<le> length s" "length r < length s"
      using strtok_lf_parts [of s l r] strtok_lf_shorter [of s l r] Some lr "1.prems"(3) by auto
    have sc: "scan_line fuel ext l 0 = Inr (if has_word ext l then Some (takeWhile (\<lambda>c. c \<noteq> SPACE) l) else None)"
      using "1.prems" n by (intro scan_line_run) auto
    have ih: "scan_types fuel ext r = Inr (map_option (takeWhile (\<lambda>c. c \<noteq> SPACE)) (find (gives_type ext) (line_list r)))"
      using "1.IH" [OF Some lr [symmetric]] "1.prems" n by simp
    show ?thesis using Some lr sc ih
      by (subst scan_types.simps, subst line_list.simps) (auto simp: gives_type_def)
  qed
qed


text \<open>What the table says of an extension: its first line is never looked at, and neither are comments.\<close>

definition type_of :: "cstr \<Rightarrow> cstr \<Rightarrow> cstr" where
  "type_of ext table =
     (case find (gives_type ext) (tl (line_list table)) of None \<Rightarrow> ''text/plain'' | Some l \<Rightarrow> takeWhile (\<lambda>c. c \<noteq> SPACE) l)"

text \<open>
  C15. The type that is printed for an extension without a space is the first word of the first
  line of the table, its first line and comments apart, that has the extension as a word behind
  a space; plain text without such a line.  The search that jumps over occurrences inside words
  misses none.
\<close>

theorem contenttype_by_word:
  assumes "mm_file m = Some f" "mm_open m f = Some data" "ext \<noteq> []" "SPACE \<notin> set ext" "length data + 2 < fuel"
  shows "web_client_contenttype fuel m (Some ext) = Inr [content_type (type_of ext (upto_nul (mime_block m data)))]"
proof -
  define table where "table = upto_nul (mime_block m data)"
  have "length (mime_block m data) \<le> length data + 2" by (simp add: mime_block_def Let_def)
  then have len: "length table < fuel" using assms(5) length_takeWhile_le [of _ "mime_block m data"]
    unfolding table_def upto_nul_def by (meson le_less_trans order_trans)
  show ?thesis
  proof (cases "strtok_lf table")
    case None
    then show ?thesis using assms by (simp add: web_client_contenttype_def type_of_def line_list.simps table_def [symmetric])
  next
    case (Some lr)
    obtain l r where lr: "lr = (l, r)" by (cases lr)
    have r: "nul_free r" "length r < fuel"
      using strtok_lf_parts [of table l r] strtok_lf_shorter [of table l r] Some lr len by (auto simp: table_def)
    have "tl (line_list table) = line_list r" using Some lr by (subst line_list.simps) simp
    then show ?thesis using assms Some lr scan_types_run [OF assms(3,4) r]
      by (simp add: web_client_contenttype_def type_of_def table_def [symmetric] Let_def option.map_sel split: option.splits)
  qed
qed

lemma has_word_chars: "has_word ext l \<Longrightarrow> set ext \<subseteq> set l"
  unfolding has_word_def by fastforce

definition demo_table :: "char list" where
  "demo_table = ''# types'' @ [LF] @ ''text/html html htm'' @ [LF] @ ''image/gif'' @ [CHR 0x09] @ ''gif'' @ [LF]"

definition demo_mime :: mime_world where
  "demo_mime = \<lparr>mm_file = Some ''mime.types'', mm_open = (\<lambda>f. Some demo_table), mm_junk = (\<lambda>n. replicate n NUL)\<rparr>"

theorem contenttype_by_word_witness:
  "web_client_contenttype 100 demo_mime (Some ''gif'') = Inr [content_type ''image/gif'']"
proof -
  have b: "upto_nul (mime_block demo_mime demo_table) = ''# types'' @ [LF] @ ''text/html html htm'' @ [LF] @ ''image/gif gif'' @ [LF]"
    by (simp add: mime_block_def demo_table_def demo_mime_def upto_nul_def)
  have lines: "line_list (upto_nul (mime_block demo_mime demo_table)) = [''# types'', ''text/html html htm'', ''image/gif gif'']"
    unfolding b by (simp add: line_list.simps strtok_lf_def)
  have "CHR ''g'' \<notin> set ''text/html html htm''" "CHR ''g'' \<in> set ''gif''" by simp_all
  then have no: "\<not> has_word ''gif'' ''text/html html htm''" using has_word_chars by blast
  have "''image/gif gif'' = ''image/gif'' @ SPACE # ''gif'' @ []" by simp
  then have yes: "has_word ''gif'' ''image/gif gif''" unfolding has_word_def by blast
  have t: "type_of ''gif'' (upto_nul (mime_block demo_mime demo_table)) = ''image/gif''"
    unfolding type_of_def lines by (simp add: gives_type_def no yes)
  show ?thesis
    using contenttype_by_word [of demo_mime "''mime.types''" demo_table "''gif''" 100] t by (simp add: demo_mime_def demo_table_def)
qed

lemma c_strrchr_last: "c_strrchr c (s @ [c]) = Some (length s)"
  by (induction s) simp_all

lemma c_strrchr_less: "c_strrchr c s = Some i \<Longrightarrow> i < length s"
  by (induction s arbitrary: i) (auto split: option.splits if_splits)

lemma c_strstr_empty: "c_strstr s [] = Some 0"
  by (cases s) simp_all

text \<open>
  A file whose name ends with a period has the empty extension, and the search for it stays at
  the beginning of the first line it looks at: the server never answers again.
\<close>

theorem contenttype_hangs:
  assumes "mm_file m = Some f" "mm_open m f = Some data" "strtok_lf (upto_nul (mime_block m data)) = Some (first, rest)"
    "strtok_lf rest = Some (line, rest')" "at0 line \<noteq> CHR ''#''"
  shows "web_client_contenttype fuel m (file_extension (name @ ''.'')) = Inl OutOfFuel"
proof -
  have e: "file_extension (name @ ''.'') = Some []"
    using c_strrchr_less [of "CHR ''/''" "name @ ''.''"] by (auto simp: file_extension_def c_strrchr_last split: option.splits)
  have "scan_line fuel [] line 0 = Inl OutOfFuel" by (induction fuel) (simp_all add: c_strstr_empty Let_def)
  then show ?thesis using assms by (simp add: e web_client_contenttype_def scan_types.simps [of _ _ rest])
qed

section \<open>The unit of a size\<close>

lemma size_unit_ge: "u \<le> size_unit m u"
proof (induction m u rule: size_unit.induct)
  case (1 m u)
  then show ?case by (subst size_unit.simps) auto
qed

text \<open>A size above \<open>1024\<^sup>3\<close> is divided three times or more and then shown with the letter of bytes.\<close>

theorem size_letter_lost: "1024 ^ 3 < float_size m \<Longrightarrow> last (size_text m) = CHR ''b''"
proof -
  assume f: "1024 ^ 3 < float_size m"
  define g where "g = float_size m"
  have step: "1024 ^ (u + 1) < g \<Longrightarrow> size_unit g u = size_unit g (u + 1)" for u by (subst size_unit.simps) simp
  have "size_unit g 0 = size_unit g 1" "size_unit g 1 = size_unit g 2" "size_unit g 2 = size_unit g 3"
    using step [of 0] step [of 1] step [of 2] f by (simp_all add: g_def numeral_2_eq_2 numeral_3_eq_3)
  then have "3 \<le> size_unit (float_size m) 0" using size_unit_ge [of 3 g] by (simp add: g_def)
  then show ?thesis by (simp add: size_text_def Let_def)
qed

section \<open>What a page shows\<close>

text \<open>
  The names on a page: the hidden ones are left out, but for the way up from a directory below
  the alias, and so are those that the wildcard does not stand for.
\<close>

definition visible :: "bool \<Rightarrow> cstr \<Rightarrow> cstr \<Rightarrow> bool" where
  "visible below wild n \<longleftrightarrow> (at0 n \<noteq> CHR ''.'' \<or> below \<and> n = ''..'') \<and> (wild = [] \<or> gmatch False (tokens no_flags wild) n)"

definition name_lines :: "dir_world \<Rightarrow> cstr \<Rightarrow> cstr \<Rightarrow> cstr list" where
  "name_lines w dir n =
     (case dw_stat w (dir @ (if last dir = CHR ''/'' then [] else ''/'') @ n) of None \<Rightarrow> [] | Some s \<Rightarrow> [list_line w n s])"

lemma list_shown_visible: "list_shown inpath dirpath wild n \<longleftrightarrow> visible (dirpath \<noteq> inpath) wild n"
  using fnmatch_core [of no_flags wild "[]" n] by (auto simp: list_shown_def visible_def no_flags_def)

lemma list_names_run:
  "dirpath \<noteq> [] \<Longrightarrow> list_names w inpath dirpath wild ns = Inr (concat (map (name_lines w dirpath) (filter (visible (dirpath \<noteq> inpath) wild) ns)))"
  by (induction ns) (simp_all add: list_shown_visible slash_between_def name_lines_def)

text \<open>
  C18. A request for a directory is answered with a page: one line for each name of the directory,
  in its order, that is there, is visible and is matched by the wildcard, and no other.  A
  directory that cannot be read is answered as not there.
\<close>

theorem directory_page:
  assumes "inpath \<noteq> []" "served_name request = [] \<or> last (served_name request) = CHR ''/''"
    and "served_name request = [] \<Longrightarrow> dir = inpath" "served_name request \<noteq> [] \<Longrightarrow> served_path inpath (served_name request) = Inr dir"
  shows "lws_list fuel w inpath request wild = Inr
    (case dw_opendir w dir of
       None \<Rightarrow> not_there w dir []
     | Some names \<Rightarrow>
         \<lparr>da_directive = None,
          da_out = page_head dir wild @ concat (map (name_lines w dir) (filter (visible (dir \<noteq> inpath) wild) names)) @ page_foot w,
          da_files = [], da_ret = 1\<rparr>)"
proof -
  have dir: "dir \<noteq> []"
    using assms(1,3,4) by (cases "served_name request = []") (auto simp: served_path_def)
  have "lws_list fuel w inpath request wild = list_directory w inpath dir wild"
    using assms by (cases "served_name request = []") (simp_all add: lws_list_def Let_def)
  then show ?thesis by (simp add: list_directory_def list_names_run [OF dir] split: option.split)
qed

definition demo_world :: dir_world where
  "demo_world = \<lparr>mm_file = None, mm_open = (\<lambda>f. None), mm_junk = (\<lambda>n. replicate n NUL),
     dw_stat = (\<lambda>f. Some \<lparr>st_mode = 2 ^ 14, st_size = 0, st_mtime = 0\<rparr>),
     dw_opendir = (\<lambda>d. Some [''.'', ''..'', ''.htpasswd'', ''img'']), dw_date = (\<lambda>t. ''now''), dw_modified = (\<lambda>t. ''now''),
     dw_version = ''v''\<rparr>"

lemma is_dir_demo: "is_dir \<lparr>st_mode = 2 ^ 14, st_size = 0, st_mtime = 0\<rparr>"
  unfolding is_dir_def by (simp add: bit_iff_odd)

theorem directory_page_witness:
  "lws_list 9 demo_world ''/srv/'' ''files/'' [] = Inr
    \<lparr>da_directive = None,
     da_out = page_head ''/srv/'' [] @ [''now'' @ [TAB] @ ''&lt;DIR&gt;'' @ [TAB] @ ''<a href='' @ [QUOTE] @ ''img/'' @ [QUOTE] @ ''>img</a>'' @ [LF]] @
       page_foot demo_world, da_files = [], da_ret = 1\<rparr>"
proof -
  have n: "served_name ''files/'' = []" by (simp add: served_name_def skip_all_run)
  have "name_lines demo_world ''/srv/'' ''img'' =
      [''now'' @ [TAB] @ ''&lt;DIR&gt;'' @ [TAB] @ ''<a href='' @ [QUOTE] @ ''img/'' @ [QUOTE] @ ''>img</a>'' @ [LF]]"
    using is_dir_demo by (simp add: name_lines_def demo_world_def list_line_def)
  moreover have "dw_opendir demo_world ''/srv/'' = Some [''.'', ''..'', ''.htpasswd'', ''img'']" by (simp add: demo_world_def)
  ultimately show ?thesis
    using directory_page [of "''/srv/''" "''files/''" "''/srv/''" 9 demo_world "[]"] n by (simp add: visible_def)
qed

end
