(* ===== verification/LwsGif.thy ===== *)
theory LwsGif
  imports GifFile
begin

text \<open>
  Pictures as answers of the web server, \<open>web_client_gifsetpalette\<close> and \<open>web_client_gifoutput\<close>
  of \<open>tools/libwebserver/src/client.c\<close>: a palette kept by the server and the GIF writer.
\<close>

section \<open>The code\<close>

text \<open>The array \<open>__ILWS_GLOBALGIFPAL\<close>, three bytes for each of 256 colours, in a row.\<close>

definition EGApalette :: "u8 list list" where
  "EGApalette =
     [[0,0,0],       [0,0,128],     [0,128,0],     [0,128,128],
      [128,0,0],     [128,0,128],   [128,128,0],   [200,200,200],
      [100,100,100], [100,100,255], [100,255,100], [100,255,255],
      [255,100,100], [255,100,255], [255,255,100], [255,255,255]]"

text \<open>A file that is shorter than the array fills the front of it.\<close>

definition web_client_gifsetpalette :: "(cstr \<Rightarrow> u8 list option) \<Rightarrow> cstr \<Rightarrow> u8 list \<Rightarrow> u8 list" where
  "web_client_gifsetpalette open_file fname pal =
     (if fname = ''EGA'' then concat (map (\<lambda>j. EGApalette ! (j AND 15)) [0..<256])
      else case open_file fname of
        None \<Rightarrow> pal
      | Some data \<Rightarrow> take 768 data @ drop (length data) pal)"

definition web_client_gifoutput :: "u8 list \<Rightarrow> u8 list \<Rightarrow> int \<Rightarrow> int \<Rightarrow> int \<Rightarrow> fault + u8 list" where
  "web_client_gifoutput pal picture w h transparencyindex =
     WriteGIF picture w h (map (\<lambda>i. pal ! (3 * i)) [0..<256]) (map (\<lambda>i. pal ! (3 * i + 1)) [0..<256])
       (map (\<lambda>i. pal ! (3 * i + 2)) [0..<256]) 256 0 transparencyindex ''libwebserver export gif (xvgifwr.c)''"

section \<open>A picture in the palette that was set\<close>

definition palette_colour :: "u8 list \<Rightarrow> nat \<Rightarrow> u8 list" where
  "palette_colour pal d = take 3 (drop (3 * d) pal)"

lemma palette_colour_nth: "3 * d + 2 < length pal \<Longrightarrow> palette_colour pal d = [pal ! (3 * d), pal ! (3 * d + 1), pal ! (3 * d + 2)]"
  by (rule nth_equalityI) (auto simp: palette_colour_def less_Suc_eq numeral_3_eq_3 numeral_2_eq_2)

lemma EGA_rows: "\<forall>row \<in> set EGApalette. length row = 3" "length EGApalette = 16"
  by (simp_all add: EGApalette_def)

lemma concat_rows: "(\<And>j. j < n \<Longrightarrow> length (f j) = 3) \<Longrightarrow> length (concat (map f [0..<n])) = 3 * n \<and>
  (\<forall>d < n. palette_colour (concat (map f [0..<n])) d = f d)"
proof (induction n)
  case (Suc n)
  define c where "c = concat (map f [0..<n])"
  have c: "length c = 3 * n" "\<forall>d < n. palette_colour c d = f d" using Suc by (simp_all add: c_def)
  have "palette_colour (c @ f n) d = f d" if "d < Suc n" for d
    using that c Suc.prems [of d] by (cases "d = n") (auto simp: palette_colour_def)
  then show ?case using c Suc.prems [of n] by (simp add: c_def [symmetric])
qed (simp add: palette_colour_def)

lemma EGA_palette: "length (web_client_gifsetpalette fs ''EGA'' pal) = 768"
  "d < 256 \<Longrightarrow> palette_colour (web_client_gifsetpalette fs ''EGA'' pal) d = EGApalette ! (d mod 16)"
proof -
  have a: "j AND 15 = j mod 16" for j :: nat using take_bit_eq_mask [of 4 j] by (simp add: take_bit_eq_mod mask_eq_exp_minus_1)
  have "length (EGApalette ! (j AND 15)) = 3" for j using EGA_rows by (simp add: a)
  then have "length (concat (map (\<lambda>j. EGApalette ! (j AND 15)) [0..<256])) = 768 \<and>
      (\<forall>d < 256. palette_colour (concat (map (\<lambda>j. EGApalette ! (j AND 15)) [0..<256])) d = EGApalette ! (d AND 15))"
    using concat_rows [of 256 "\<lambda>j. EGApalette ! (j AND 15)"] by (simp del: concat.simps)
  then show "length (web_client_gifsetpalette fs ''EGA'' pal) = 768"
    "d < 256 \<Longrightarrow> palette_colour (web_client_gifsetpalette fs ''EGA'' pal) d = EGApalette ! (d mod 16)"
    by (simp_all add: web_client_gifsetpalette_def a)
qed

text \<open>
  After the EGA palette was set, whatever was there before, the file that is sent for a
  picture decodes to the picture: every pixel has the colour of the palette that its value
  modulo 16 stands for.
\<close>

theorem gifoutput_shows_EGA:
  assumes "0 < w" "0 < h" "w * h < 2 ^ 31" "int (length picture) = w * h"
  shows "\<exists>hdr tab mid ib ps idx.
    web_client_gifoutput (web_client_gifsetpalette fs ''EGA'' pal) picture w h transparencyindex =
      Inr (hdr @ tab @ mid @ [word_of_nat ib] @ packets ps @ [0, 0x3B]) \<and>
    length hdr = 13 \<and> length tab = 3 * 2 ^ (unat (hdr ! 10 AND 7) + 1) \<and>
    gif_decode (ib + 1) (dec_init (ib + 1)) (byte_bits (concat ps)) = Some idx \<and>
    map (\<lambda>i. take 3 (drop (3 * i) tab)) idx = map (\<lambda>d. EGApalette ! (unat d mod 16)) picture"
proof -
  define p where "p = web_client_gifsetpalette fs ''EGA'' pal"
  define rm gm bm where "rm = map (\<lambda>i. p ! (3 * i)) [0..<256]" "gm = map (\<lambda>i. p ! (3 * i + 1)) [0..<256]" "bm = map (\<lambda>i. p ! (3 * i + 2)) [0..<256]"
  have d: "unat d < 256" for d :: u8 using unsigned_less [of d, where 'a = nat] by simp
  have col: "shown 0 (rm ! unat d) (gm ! unat d) (bm ! unat d) = EGApalette ! (unat d mod 16)" for d :: u8
    using palette_colour_nth [of "unat d" p] EGA_palette(1) [of fs pal] EGA_palette(2) [of "unat d" fs pal] d [of d]
    by (simp add: shown_def rm_gm_bm_def p_def [symmetric])
  have len: "length rm = 256" "length gm = 256" "length bm = 256" by (simp_all add: rm_gm_bm_def)
  obtain hdr tab cmt desc ib ps idx where r:
    "WriteGIF picture w h rm gm bm 256 0 transparencyindex ''libwebserver export gif (xvgifwr.c)'' =
      Inr (hdr @ tab @ cmt @ desc @ [word_of_nat ib] @ packets ps @ [0, 0x3B])"
    "length hdr = 13" "length tab = 3 * 2 ^ (unat (hdr ! 10 AND 7) + 1)"
    "gif_decode (ib + 1) (dec_init (ib + 1)) (byte_bits (concat ps)) = Some idx"
    "map (\<lambda>i. take 3 (drop (3 * i) tab)) idx = map (\<lambda>d. shown 0 (rm ! unat d) (gm ! unat d) (bm ! unat d)) picture"
    using WriteGIF_core [OF assms, of 256 rm gm bm 0 transparencyindex "''libwebserver export gif (xvgifwr.c)''"] len d by auto
  have "web_client_gifoutput p picture w h transparencyindex =
      Inr (hdr @ tab @ (cmt @ desc) @ [word_of_nat ib] @ packets ps @ [0, 0x3B])"
    unfolding web_client_gifoutput_def rm_gm_bm_def [symmetric] r(1) append_assoc ..
  then show ?thesis using r(2-5) unfolding col p_def [symmetric] by blast
qed

theorem gifoutput_shows_EGA_witness:
  "\<exists>hdr tab mid ib ps idx.
    web_client_gifoutput (web_client_gifsetpalette (\<lambda>f. None) ''EGA'' (replicate 768 0)) [1, 20] 2 1 0 =
      Inr (hdr @ tab @ mid @ [word_of_nat ib] @ packets ps @ [0, 0x3B]) \<and>
    length hdr = 13 \<and> length tab = 3 * 2 ^ (unat (hdr ! 10 AND 7) + 1) \<and>
    gif_decode (ib + 1) (dec_init (ib + 1)) (byte_bits (concat ps)) = Some idx \<and>
    map (\<lambda>i. take 3 (drop (3 * i) tab)) idx = [[0, 0, 128], [128, 0, 0]]"
  using gifoutput_shows_EGA [of 2 1 "[1, 20]" "\<lambda>f. None" "replicate 768 0" 0] by (simp add: EGApalette_def)

end
