(* ===== verification/Spec2Isabelle.thy ===== *)
theory Spec2Isabelle
  imports Prelude Radix Dbl Crc32 Sha1 MtRand SqliteEncode StrNat CRuntime HashHelper OpaqueMath IntConv FloatConv Snprintf PrintfField Fnmatch LwsUtils LwsHeap LwsMemory LwsHandlers LwsOutstream OutGif GifBits GifTable GifLzw GifFile LwsRequest LwsDecode LwsClient LwsConn LwsOutput LwsProcess LwsServer ApacheUrl ApacheMultipart ApacheRequest ApacheForm ApacheCookie ModPcc Apache1 CFiles FcgiSpawn NumText MtRange Network LwsDirectory LwsGif
begin

text \<open>
  A verification library for the C part of Roadsend PHP, a compiler and runtime for PHP.  The
  compiler and most of the runtime are written in Bigloo Scheme; the C files hold the parts
  that work on bytes, machine numbers and buffers, two Apache modules, a FastCGI process manager
  and a complete small web server.  This library models those C files and proves what each of
  them is for.  All paths below are relative to \<open>src/\<close>; definitions have the names of the C
  functions, without the prefix \<open>__ILWS_\<close> of the web server.

  Conventions

  \<^item> \<open>Prelude\<close>: C strings are their bytes before the NUL (\<open>cstr\<close>); a computation that can go wrong
    returns \<open>fault + 'a\<close>, and a \<open>fault\<close> is undefined behaviour (an access outside an object, a
    null pointer, a signed overflow, an uninitialised read), a fatal exit, or the exhaustion of
    the fuel of the model.  \<open>returns P m\<close> says that every value of \<open>m\<close> satisfies \<open>P\<close>, \<open>yields P m\<close>
    that there is one, so a theorem with \<open>yields\<close> excludes every fault.  The target is LP64 with
    a signed \<open>char\<close>; words have their width (\<open>u8\<close>, \<open>u32\<close>, \<open>u64\<close>) where wrap-around matters, and
    are integers with explicit range tests where it is an error.
  \<^item> Loops are structural recursion or \<open>function\<close> with a measure; a loop of the code that need not
    end takes fuel, and its theorems say for which inputs some fuel is enough, or that none is.
    Loops that are bounded by the data take fuel equal to the length of the data plus one.
  \<^item> Code outside the repository is a parameter: the tables, word functions and block reads of
    Apache, the allocators, \<open>stat\<close>, \<open>strftime\<close>, what a socket delivers.  What is needed of it is a
    named hypothesis of the theorem.  A record collects the functions of a library (\<open>apache\<close>,
    \<open>runtime\<close>, \<open>surroundings\<close>, \<open>dir_world\<close>).
  \<^item> \<open>Radix\<close>: the interface of a printer of numbers as a locale, interpreted for the decimal
    printer here, for both integer conversions of the formatter and for \<open>re_unsigned_to_string\<close>.
    \<open>LwsHeap\<close>: the interface of a linked list over a store, with the laws of its allocation and
    release, as a locale that is interpreted for the lists of buffers, handlers and streams.
    \<open>Dbl\<close>: IEEE 754 doubles, each operation computed exactly and rounded once.

  The runtime

  \<^item> \<open>Crc32\<close> (\<open>ext/standard/crc.c\<close>), \<open>Sha1\<close> (\<open>sha1.c\<close>), \<open>MtRand\<close> and \<open>MtRange\<close> (\<open>mt_rand.c\<close>): the digests equal
    bit-level reference definitions for every input and every way to cut it into pieces; the
    generator gives the MT19937 sequence, apart from a shift; scaling to a range stays in the
    range, in its lower half.
  \<^item> \<open>HashHelper\<close> (\<open>php-hash-helper.c\<close>), \<open>StrNat\<close> (\<open>strnatcmp.c\<close>), \<open>CRuntime\<close> (\<open>c-runtime.c\<close>),
    \<open>SqliteEncode\<close> (\<open>ext/sqlite/encode.c\<close>): numeric keys are the canonical decimals; the substring
    searches against their specification; encoding and decoding of binary data.
  \<^item> \<open>OpaqueMath\<close> and \<open>NumText\<close> (\<open>opaque-math.c\<close>): arithmetic that turns into doubles on overflow, the
    traps of division, text to numbers and back.
  \<^item> \<open>IntConv\<close>, \<open>FloatConv\<close>, \<open>Snprintf\<close>, \<open>PrintfField\<close> (\<open>pcc_snprintf.c\<close>): the conversions, the directive
    loop with every flag, what a short buffer stores, the text of a field.  The loops of the
    floating point conversion get 1200 steps, more than the decimal exponents of doubles need;
    \<open>pcc_cvt_terminates\<close> proves it.
  \<^item> \<open>CFiles\<close> (\<open>c-files.c\<close>, \<open>php-system.c\<close>): lines read in pieces, and the output of a command.
  \<^item> \<open>Network\<close> (\<open>ext/standard/network.c\<close>): the mail exchangers in an answer of the name server, with
    the resolver as a parameter, and the names of record types.

  The web server, \<open>tools/libwebserver\<close>

  \<^item> \<open>LwsServer\<close> (\<open>server.c\<close>) accepts connections and goes round the clients; \<open>LwsConn\<close> reads a request;
    \<open>LwsProcess\<close> chooses the handler, lets it write and composes the header; \<open>LwsOutput\<close> sends the
    body, in ranges and with templates expanded (all \<open>client.c\<close>).  \<open>LwsRequest\<close> and \<open>LwsDecode\<close>
    (\<open>clientinfo.c\<close>) answer the questions a handler asks about its request; \<open>LwsClient\<close>,
    \<open>LwsDirectory\<close> and \<open>LwsGif\<close> (\<open>client.c\<close>) are what a handler can do: variables, cookies, files and
    directories, pictures.  \<open>LwsMemory\<close>, \<open>LwsHandlers\<close>, \<open>LwsOutstream\<close> (\<open>memory.c\<close>, \<open>gethandler.c\<close>,
    \<open>outstream.c\<close>) are its lists, with allocation that can fail, \<open>LwsUtils\<close> (\<open>utils.c\<close>) base 64.
  \<^item> The theorems: the invariant of the server and of a connection, every ready client is served,
    a silent client is given up; the header announces what is sent and all of it is sent; only
    the first matching handler answers; an alias does not leave its directory; a page lists the
    names of the directory; and the searches that do not end, with the requests that cause it.
  \<^item> \<open>Fnmatch\<close> (\<open>fnmatch.c\<close>) equals an inductive language of patterns.  \<open>OutGif\<close>, \<open>GifBits\<close>, \<open>GifTable\<close>,
    \<open>GifLzw\<close>, \<open>GifFile\<close> (\<open>outgif.c\<close>): the compressor with its hash table, and a decoder of the GIF
    specification that reads back what it writes.

  Apache and FastCGI, \<open>webconnect\<close>

  \<^item> \<open>ApacheUrl\<close>, \<open>ApacheRequest\<close>, \<open>ApacheMultipart\<close>, \<open>ApacheForm\<close>, \<open>ApacheCookie\<close> (\<open>apache_request.c\<close>,
    \<open>apache_multipart_buffer.c\<close>, \<open>apache_cookie.c\<close> under \<open>apache2\<close>): what a browser encodes - query,
    form, multipart form, cookies - is what the request object has, for every cutting of the
    body into blocks; bodies never leave their buffer.
  \<^item> \<open>ModPcc\<close> (\<open>mod_pcc2.c\<close>): configurations and their merging, who answers for a file, and the
    handler, which calls the request object.  \<open>Apache1\<close> (\<open>apache1/mod_pcc.c\<close>, \<open>apache_request.c\<close>) has
    what the module of Apache 1 does otherwise, and shows that it takes requests one at a time and
    answers them as the other module does.  \<open>FcgiSpawn\<close> (\<open>fastcgi/c-fcgi.c\<close>): the manager as a step
    relation.

  Theorems without a claim number are parts of the library: further behaviour, and the flaws
  that modelling showed, each as a theorem about the code as it is.

  Not modelled

  \<^item> The Scheme sources; the glue around libxml, ODBC, SQLite, PCRE and curl, whose functions
    are single calls; the functions of \<open>network.c\<close> that are calls of the system.
  \<^item> Of \<open>webconnect/apache1\<close>, what is the same code against the older interface of Apache; the
    third-party headers of \<open>apache2/win32\<close>.
  \<^item> Of the web server: SSL, the log, sockets, \<open>dlopen\<close>, the redirection of the standard output to
    temporary files (a handler is a function that leaves its output), the reload of the
    configuration, the replacements for Windows, texts and examples.
  \<^item> Of the Apache module: registration and start-up.  Of \<open>php-system.c\<close>: the Windows version.
\<close>

end
